(* ===== verification/Prelude.thy ===== *)
theory Prelude
  imports Main "HOL-Library.Word"
begin

unbundle bit_operations_syntax

text \<open>
  The prelude of the development: the C integer types of the ARM target
  (\<^verbatim>\<open>include/stdint.h\<close>, \<^verbatim>\<open>include/sys/types.h\<close>), C truth values, the
  byte-addressed memory that all pointer code of the kernel works on, 32-bit little-endian
  accesses to it, and the collections of facts the component theories share.
\<close>

section \<open>Integer types and truth values\<close>

type_synonym u8 = "8 word"
type_synonym u16 = "16 word"
type_synonym u32 = "32 word"

named_theorems c_loop \<open>unfolding equations of counting loops under their guard\<close>
named_theorems mem_simps \<open>reads of an updated memory\<close>

text \<open>\<open>SIZE_MAX\<close>, and C's logical negation (an \<open>int\<close> that is 0 or 1).\<close>

definition SIZE_MAX :: u32 where
  "SIZE_MAX = 0xFFFFFFFF"

definition c_not :: "u32 \<Rightarrow> u32" where
  "c_not v = (if v = 0 then 1 else 0)"

lemma c_not_simps [simp]: "c_not 0 = 1" "c_not 1 = 0" "(c_not v = 0) = (v \<noteq> 0)"
  by (simp_all add: c_not_def)

lemma SIZE_MAX_max: "(x::u32) \<le> SIZE_MAX"
proof -
  have "SIZE_MAX = - 1" by (simp add: SIZE_MAX_def)
  then show ?thesis by (metis word_order.extremum)
qed

lemma unat_SIZE_MAX [simp]: "unat SIZE_MAX = 4294967295"
  by (simp add: SIZE_MAX_def)

section \<open>Word arithmetic of counting loops\<close>

lemma unat_plus_one_less: "(i::u32) < n \<Longrightarrow> unat (i + 1) = Suc (unat i)"
proof -
  assume "i < n"
  then have "unat i < unat n" by (simp add: word_less_nat_alt)
  moreover have "unat n < 4294967296" using unsigned_less [of n] by simp
  ultimately have "Suc (unat i) < 4294967296" by linarith
  then show "unat (i + 1) = Suc (unat i)" by (simp add: unat_word_ariths)
qed

lemma unat_plus_one_bound: "unat (i::u32) < 4294967295 \<Longrightarrow> unat (i + 1) = Suc (unat i)"
  by (simp add: unat_word_ariths)

lemma loop_measure_less: "(i::u32) < n \<Longrightarrow> unat n - unat (i + 1) < unat n - unat i"
  by (simp add: unat_plus_one_less word_less_nat_alt)

lemma unat_add_no_wrap: "unat (a::u32) + unat b < 4294967296 \<Longrightarrow> unat (a + b) = unat a + unat b"
  by (simp add: unat_word_ariths)

lemma unat_sub_no_wrap: "(b::u32) \<le> a \<Longrightarrow> unat (a - b) = unat a - unat b"
  by (rule unat_sub)

lemma u32_unat_bound: "unat (x::u32) < 4294967296"
  using unsigned_less [of x] by simp

lemma u32_of_nat_unat: "n < 4294967296 \<Longrightarrow> unat (of_nat n :: u32) = n"
  by (simp add: unat_of_nat)

lemma ex5I: "P a b c d e \<Longrightarrow> \<exists>a b c d e. P a b c d e"
  by blast

lemma unat_Suc_pred: "(n::u32) \<noteq> 0 \<Longrightarrow> unat n = Suc (unat (n - 1))"
  by (simp add: unat_minus_one unat_gt_0)

lemma unat_ucast_u8 [simp]: "unat (ucast (b::u8) :: u32) = unat b"
proof -
  have "unat b < 2 ^ 32" using unsigned_less [of b, where ?'a = nat] by simp
  then show ?thesis by (simp add: unsigned_ucast_eq take_bit_nat_eq_self)
qed

lemma ucast_u8_eq_0 [simp]: "(ucast (b::u8) :: u32) = 0 \<longleftrightarrow> b = 0"
  by (simp add: word_unat_eq_iff)

lemma unat_pred_less: "(n::u32) \<noteq> 0 \<Longrightarrow> unat (n - 1) < unat n"
  by (simp add: unat_Suc_pred)

lemma unat_pred_pred: "(n::u32) \<noteq> 1 \<Longrightarrow> unat (n - 2) < unat (n - 1)"
  using unat_pred_less [of "n - 1"] by simp

text \<open>The low two bits of a word, and the word without them.\<close>

lemma unat_and_3: "unat ((x::u32) AND 3) = unat x mod 4"
proof -
  have "(3::u32) = mask 2" by (simp add: mask_eq_exp_minus_1)
  then have "x AND 3 = take_bit 2 x" by (simp add: take_bit_eq_mask)
  then show ?thesis by (simp add: take_bit_eq_mod unat_mod)
qed

lemma and_7_mod: "(x::u32) AND 7 = x mod 8"
proof -
  have "(7::u32) = mask 3" by (simp add: mask_eq_exp_minus_1)
  then have "x AND 7 = take_bit 3 x" by (simp add: take_bit_eq_mask)
  then show ?thesis by (simp add: take_bit_eq_mod)
qed

lemma and_not_mask_sub: "(x::u32) AND NOT m = x - (x AND m)"
proof -
  have "(x AND m) AND (x AND NOT m) = 0"
    by (rule bit_word_eqI) (auto simp: bit_simps)
  moreover have "(x AND m) OR (x AND NOT m) = x"
    by (rule bit_word_eqI) (auto simp: bit_simps)
  ultimately have "(x AND m) + (x AND NOT m) = x"
    by (simp add: disjunctive_add_eq_or)
  then show ?thesis by (simp add: algebra_simps)
qed

lemma unat_push_bit_1: "k < 32 \<Longrightarrow> unat (push_bit k (1 :: u32)) = 2 ^ k"
proof -
  assume k: "k < 32"
  then have "(2::nat) ^ k < 2 ^ 32" by (rule power_strict_increasing) simp
  then show ?thesis by (simp only: unsigned_push_bit_eq) (simp add: take_bit_nat_eq_self push_bit_eq_mult k)
qed

lemma bit_of_unat: "bit (x :: u32) k \<longleftrightarrow> odd (unat x div 2 ^ k)"
  unfolding bit_iff_odd [symmetric] by (auto simp: bit_unsigned_iff dest: bit_imp_le_length)

end
