(* ===== verification/LinkedList.thy ===== *)
theory LinkedList
  imports Prelude
begin

text \<open>
  Singly linked lists of C structs: nodes are addresses, \<open>NULL\<close> is 0, and the successor of
  a node is read from a heap. The zones of an address space, the threads and the wait queues
  are such lists; what insertion and unlinking do to the list of nodes is proved once here,
  for any heap whose successor field can be read and written.
\<close>

definition NULL :: u32 where
  "NULL = 0"

section \<open>Paths\<close>

primrec path :: "(u32 \<Rightarrow> u32) \<Rightarrow> u32 \<Rightarrow> u32 list \<Rightarrow> u32 \<Rightarrow> bool" where
  "path nx p [] q \<longleftrightarrow> p = q"
| "path nx p (a # as) q \<longleftrightarrow> p = a \<and> a \<noteq> NULL \<and> path nx (nx a) as q"

definition linked_list :: "(u32 \<Rightarrow> u32) \<Rightarrow> u32 \<Rightarrow> u32 list \<Rightarrow> bool" where
  "linked_list nx p as \<longleftrightarrow> path nx p as NULL"

lemma linked_list_Nil [simp]: "linked_list nx p [] \<longleftrightarrow> p = NULL"
  by (simp add: linked_list_def)

lemma linked_list_Cons [simp]:
  "linked_list nx p (a # as) \<longleftrightarrow> p = a \<and> a \<noteq> NULL \<and> linked_list nx (nx a) as"
  by (simp add: linked_list_def)

lemma linked_list_NULL [simp]: "linked_list nx NULL as \<longleftrightarrow> as = []"
  by (cases as) auto

lemma linked_list_node: "linked_list nx p as \<Longrightarrow> p \<noteq> NULL \<Longrightarrow> \<exists>bs. as = p # bs \<and> linked_list nx (nx p) bs"
  by (cases as) auto

lemma path_append [simp]: "path nx p (as @ bs) q \<longleftrightarrow> (\<exists>r. path nx p as r \<and> path nx r bs q)"
  by (induction as arbitrary: p) auto

lemma linked_list_append: "linked_list nx p (as @ bs) \<longleftrightarrow> (\<exists>r. path nx p as r \<and> linked_list nx r bs)"
  by (simp add: linked_list_def)

lemma linked_list_not_NULL: "linked_list nx p as \<Longrightarrow> NULL \<notin> set as"
  by (induction as arbitrary: p) auto

lemma path_cong: "(\<And>a. a \<in> set as \<Longrightarrow> nx a = nx' a) \<Longrightarrow> path nx p as q \<longleftrightarrow> path nx' p as q"
  by (induction as arbitrary: p) auto

lemma linked_list_cong:
  "(\<And>a. a \<in> set as \<Longrightarrow> nx a = nx' a) \<Longrightarrow> linked_list nx p as \<longleftrightarrow> linked_list nx' p as"
  unfolding linked_list_def by (rule path_cong)

lemma linked_list_unique: "linked_list nx p as \<Longrightarrow> linked_list nx p bs \<Longrightarrow> as = bs"
proof (induction as arbitrary: p bs)
  case (Cons a as)
  then show ?case by (cases bs) auto
qed auto

lemma linked_list_distinct: "linked_list nx p as \<Longrightarrow> distinct as"
proof (induction as arbitrary: p)
  case (Cons a as)
  have "a \<notin> set as"
  proof
    assume "a \<in> set as"
    then obtain us vs where as: "as = us @ a # vs" by (auto dest: split_list)
    with Cons.prems have "linked_list nx (nx a) vs" by (auto simp: linked_list_append)
    with Cons.prems have "vs = as" by (auto dest: linked_list_unique)
    with as show False by simp
  qed
  with Cons show ?case by auto
qed simp

section \<open>The interface: a heap with a successor field\<close>

locale next_field =
  fixes nxt :: "'h \<Rightarrow> u32 \<Rightarrow> u32"
    and set_nxt :: "u32 \<Rightarrow> u32 \<Rightarrow> 'h \<Rightarrow> 'h"
  assumes nxt_set_nxt: "nxt (set_nxt a b h) c = (if c = a then b else nxt h c)"
begin

lemma nxt_same [simp]: "nxt (set_nxt a b h) a = b"
  by (simp add: nxt_set_nxt)

lemma list_frame: "x \<notin> set as \<Longrightarrow> linked_list (nxt (set_nxt x y h)) p as \<longleftrightarrow> linked_list (nxt h) p as"
  by (rule linked_list_cong) (auto simp: nxt_set_nxt)

lemma path_frame: "x \<notin> set as \<Longrightarrow> path (nxt (set_nxt x y h)) p as q \<longleftrightarrow> path (nxt h) p as q"
  by (rule path_cong) (auto simp: nxt_set_nxt)

lemma push_front:
  assumes "linked_list (nxt h) p as" "x \<noteq> NULL" "x \<notin> set as"
  shows "linked_list (nxt (set_nxt x p h)) x (x # as)"
  using assms by (simp add: list_frame)

lemma insert_after:
  assumes "linked_list (nxt h) p (as @ a # bs)" "x \<noteq> NULL" "x \<notin> set (as @ a # bs)"
  shows "linked_list (nxt (set_nxt a x (set_nxt x (nxt h a) h))) p (as @ a # x # bs)"
proof -
  have "distinct (as @ a # bs)" using assms(1) by (rule linked_list_distinct)
  with assms show ?thesis
    by (auto simp: linked_list_append path_frame list_frame nxt_set_nxt)
qed

lemma append_last:
  assumes "linked_list (nxt h) p (as @ [a])" "x \<noteq> NULL" "x \<notin> set (as @ [a])" "nxt h x = NULL"
  shows "linked_list (nxt (set_nxt a x h)) p (as @ [a, x])"
proof -
  have "distinct (as @ [a])" using assms(1) by (rule linked_list_distinct)
  with assms show ?thesis
    by (auto simp: linked_list_append path_frame nxt_set_nxt)
qed

lemma truncate_after:
  assumes "linked_list (nxt h) p (as @ a # bs)"
  shows "linked_list (nxt (set_nxt a NULL h)) p (as @ [a])"
proof -
  have "distinct (as @ a # bs)" using assms by (rule linked_list_distinct)
  with assms show ?thesis
    by (auto simp: linked_list_append path_frame)
qed

lemma unlink_after:
  assumes "linked_list (nxt h) p (as @ a # x # bs)"
  shows "linked_list (nxt (set_nxt a (nxt h x) h)) p (as @ a # bs)"
proof -
  have "distinct (as @ a # x # bs)" using assms by (rule linked_list_distinct)
  with assms show ?thesis
    by (auto simp: linked_list_append path_frame list_frame nxt_set_nxt)
qed

end

end
