(* ===== verification/Memory.thy ===== *)
theory Memory
  imports Prelude
begin

text \<open>
  The memory of the kernel as its C code sees it: a byte per 32-bit virtual address, with
  32-bit little-endian words (the target is \<^verbatim>\<open>elf32-littlearm\<close>, \<^verbatim>\<open>kernel/ldscript.in\<close>).
  Pointers are addresses; pointer arithmetic wraps as the machine's does.
\<close>

section \<open>Bytes and words in memory\<close>

type_synonym mem = "u32 \<Rightarrow> u8"

definition load32 :: "mem \<Rightarrow> u32 \<Rightarrow> u32" where
  "load32 m a = ucast (m a) OR push_bit 8 (ucast (m (a + 1)))
     OR push_bit 16 (ucast (m (a + 2))) OR push_bit 24 (ucast (m (a + 3)))"

definition store32 :: "u32 \<Rightarrow> u32 \<Rightarrow> mem \<Rightarrow> mem" where
  "store32 a v m = m(a := ucast v, a + 1 := ucast (drop_bit 8 v),
     a + 2 := ucast (drop_bit 16 v), a + 3 := ucast (drop_bit 24 v))"

text \<open>The bytes of the word at an address, and word alignment.\<close>

definition word_at :: "u32 \<Rightarrow> u32 set" where
  "word_at a = {a, a + 1, a + 2, a + 3}"

definition aligned4 :: "u32 \<Rightarrow> bool" where
  "aligned4 a \<longleftrightarrow> unat a mod 4 = 0"

lemma small_offsets_distinct [simp]:
  "(a::u32) + 1 \<noteq> a" "a + 2 \<noteq> a" "a + 3 \<noteq> a" "a + 2 \<noteq> a + 1" "a + 3 \<noteq> a + 1" "a + 3 \<noteq> a + 2"
  "a \<noteq> a + 1" "a \<noteq> a + 2" "a \<noteq> a + 3" "a + 1 \<noteq> a + 2" "a + 1 \<noteq> a + 3" "a + 2 \<noteq> a + 3"
  by simp_all

lemma load32_store32_same [simp, mem_simps]: "load32 (store32 a v m) a = v"
proof (rule bit_word_eqI)
  fix n :: nat
  assume "n < LENGTH(32)"
  then have "n < 32" by simp
  then consider "n < 8" | "8 \<le> n" "n < 16" | "16 \<le> n" "n < 24" | "24 \<le> n" "n < 32"
    by linarith
  then show "bit (load32 (store32 a v m) a) n = bit v n"
    by cases (auto simp: load32_def store32_def bit_simps)
qed

lemma store32_outside [mem_simps]: "x \<notin> word_at a \<Longrightarrow> store32 a v m x = m x"
  by (simp add: store32_def word_at_def)

lemma load32_cong: "(\<And>x. x \<in> word_at a \<Longrightarrow> m x = m' x) \<Longrightarrow> load32 m a = load32 m' a"
  by (simp add: load32_def word_at_def)

lemma load32_store32_disjoint:
  "word_at a \<inter> word_at b = {} \<Longrightarrow> load32 (store32 a v m) b = load32 m b"
  by (rule load32_cong, rule store32_outside) auto

lemma load32_fun_upd_outside: "x \<notin> word_at a \<Longrightarrow> load32 (m(x := v)) a = load32 m a"
  by (rule load32_cong) auto

lemma unat_add_mod4: "unat (a + b :: u32) mod 4 = (unat a + unat b) mod 4"
  by (simp add: unat_word_ariths mod_mod_cancel)

lemma aligned4_offset: "aligned4 a \<Longrightarrow> i < 4 \<Longrightarrow> unat (a + i) mod 4 = unat i"
  by (simp add: aligned4_def unat_add_mod4 mod_add_left_eq [symmetric] word_less_nat_alt)

lemma word_at_iff: "x \<in> word_at a \<longleftrightarrow> (\<exists>i<4. x = a + i)"
proof -
  have "i = 0 \<or> i = 1 \<or> i = 2 \<or> i = 3" if "i < 4" for i :: u32
  proof -
    from that have "unat i < 4" by (simp add: word_less_nat_alt)
    then have "unat i = 0 \<or> unat i = 1 \<or> unat i = 2 \<or> unat i = 3" by linarith
    then show ?thesis by (simp add: word_unat_eq_iff)
  qed
  moreover have "(0::u32) < 4" "(1::u32) < 4" "(2::u32) < 4" "(3::u32) < 4" by simp_all
  ultimately show ?thesis unfolding word_at_def
    by (metis add.right_neutral insert_iff singletonD)
qed

lemma word_at_disjoint:
  assumes "aligned4 a" "aligned4 b" "a \<noteq> b"
  shows "word_at a \<inter> word_at b = {}"
proof (rule ccontr)
  assume "word_at a \<inter> word_at b \<noteq> {}"
  then obtain i j where ij: "i < 4" "j < 4" "a + i = b + j"
    by (auto simp: word_at_iff)
  then have "i = j"
    using aligned4_offset [OF assms(1) ij(1)] aligned4_offset [OF assms(2) ij(2)]
    by (simp add: word_unat_eq_iff)
  with ij(3) assms(3) show False by simp
qed

lemma load32_store32_aligned [mem_simps]:
  "aligned4 a \<Longrightarrow> aligned4 b \<Longrightarrow>
   load32 (store32 a v m) b = (if a = b then v else load32 m b)"
  using load32_store32_disjoint word_at_disjoint by (cases "a = b") auto

lemma aligned4_add: "aligned4 a \<Longrightarrow> aligned4 b \<Longrightarrow> aligned4 (a + b)"
  by (simp add: aligned4_def unat_add_mod4 mod_add_eq [symmetric])

lemma aligned4_mult4: "aligned4 (4 * x)"
  by (simp add: aligned4_def unat_word_ariths mod_mod_cancel)

lemma aligned4_add_mult4: "aligned4 a \<Longrightarrow> aligned4 (a + 4 * x)"
  by (simp add: aligned4_add aligned4_mult4)

lemma word_at_bounds:
  assumes "x \<in> word_at a" "unat a + 4 \<le> 4294967296"
  shows "unat a \<le> unat x" "unat x < unat a + 4"
proof -
  from assms(1) obtain i where i: "i < 4" "x = a + i" by (auto simp: word_at_iff)
  then have "unat i < 4" by (simp add: word_less_nat_alt)
  with assms(2) have "unat x = unat a + unat i" by (simp add: i(2) unat_add_no_wrap)
  with \<open>unat i < 4\<close> show "unat a \<le> unat x" "unat x < unat a + 4" by simp_all
qed

text \<open>Two neighbouring words.\<close>

lemma word_at_next_disjoint: "word_at a \<inter> word_at (a + 4) = {}" "word_at (a + 4) \<inter> word_at a = {}"
  by (auto simp: word_at_def)

lemma load32_two_words [simp]:
  "load32 (store32 (a + 4) w (store32 a v m)) a = v"
  "load32 (store32 (a + 4) w (store32 a v m)) (a + 4) = w"
  by (simp_all add: load32_store32_disjoint word_at_next_disjoint)

section \<open>Ranges of bytes\<close>

text \<open>
  The bytes of a range replaced by those of a function; offsets are taken modulo the size of
  the address space, as the increments of a pointer are.
\<close>

definition mem_range :: "u32 \<Rightarrow> nat \<Rightarrow> (nat \<Rightarrow> u8) \<Rightarrow> mem \<Rightarrow> mem" where
  "mem_range d n f m x = (if unat (x - d) < n then f (unat (x - d)) else m x)"

lemma mem_range_0 [simp]: "mem_range d 0 f m = m"
  by (simp add: mem_range_def fun_eq_iff)

lemma mem_range_cong: "(\<And>i. i < n \<Longrightarrow> f i = g i) \<Longrightarrow> mem_range d n f m = mem_range d n g m"
  by (simp add: mem_range_def fun_eq_iff)

lemma offset_shift:
  assumes "k + n \<le> 4294967296" "n = 0 \<or> k < 4294967296"
  shows "unat (x - (d + of_nat k) :: u32) < n \<longleftrightarrow> k \<le> unat (x - d) \<and> unat (x - d) < k + n"
    "k \<le> unat (x - d) \<Longrightarrow> k < 4294967296 \<Longrightarrow> unat (x - (d + of_nat k)) = unat (x - d) - k"
proof -
  have eq: "x - (d + of_nat k) = (x - d) - of_nat k" by simp
  show u: "unat (x - (d + of_nat k)) = unat (x - d) - k" if "k \<le> unat (x - d)" "k < 4294967296"
    using that unfolding eq by (simp add: unat_sub word_le_nat_alt u32_of_nat_unat)
  show "unat (x - (d + of_nat k)) < n \<longleftrightarrow> k \<le> unat (x - d) \<and> unat (x - d) < k + n"
  proof (cases "n = 0")
    case False
    then have k: "k < 4294967296" using assms(2) by simp
    show ?thesis
    proof (cases "k \<le> unat (x - d)")
      case True
      then show ?thesis using u k by auto
    next
      case c: False
      then have "unat ((x - d) - of_nat k :: u32) = unat (x - d) + 4294967296 - k"
        using k by (simp add: unat_sub_if_size u32_of_nat_unat word_size)
      then show ?thesis using c assms(1) unfolding eq by simp
    qed
  qed simp
qed

lemma mem_range_append:
  assumes "k + n \<le> 4294967296"
  shows "mem_range (d + of_nat k) n g (mem_range d k f m) =
    mem_range d (k + n) (\<lambda>i. if i < k then f i else g (i - k)) m"
proof (cases "n = 0")
  case True
  then show ?thesis by (simp add: mem_range_def fun_eq_iff)
next
  case False
  then have k: "k < 4294967296" using assms by simp
  show ?thesis
    using offset_shift [OF assms disjI2 [OF k]] k by (auto simp: mem_range_def fun_eq_iff)
qed

text \<open>A loop that writes a range piece by piece: the same function throughout.\<close>

lemma mem_range_extend:
  assumes "k + n \<le> 4294967296"
  shows "mem_range (d + of_nat k) n (\<lambda>i. f (k + i)) (mem_range d k f m) = mem_range d (k + n) f m"
  by (auto simp: mem_range_append [OF assms] intro!: mem_range_cong)

text \<open>The same for a loop that writes from the end.\<close>

lemma mem_range_prepend:
  assumes "k + n \<le> 4294967296"
  shows "mem_range d k f (mem_range (d + of_nat k) n (\<lambda>i. f (k + i)) m) = mem_range d (k + n) f m"
proof (cases "n = 0")
  case False
  then have k: "k < 4294967296" using assms by simp
  show ?thesis
  proof
    fix x
    show "mem_range d k f (mem_range (d + of_nat k) n (\<lambda>i. f (k + i)) m) x = mem_range d (k + n) f m x"
      using offset_shift [OF assms disjI2 [OF k], of x d] k by (auto simp: mem_range_def)
  qed
qed simp

lemma mem_range_byte: "m(d := v) = mem_range d 1 (\<lambda>_. v) m"
  by (auto simp: mem_range_def fun_eq_iff unat_eq_zero)

definition byte_of :: "u32 \<Rightarrow> nat \<Rightarrow> u8" where
  "byte_of v j = ucast (drop_bit (8 * j) v)"

lemma mem_range_store32: "store32 d v m = mem_range d 4 (byte_of v) m"
proof
  fix x
  show "store32 d v m x = mem_range d 4 (byte_of v) m x"
  proof (cases "x \<in> word_at d")
    case True
    then consider "x = d" | "x = d + 1" | "x = d + 2" | "x = d + 3" by (auto simp: word_at_def)
    then show ?thesis
      by cases (simp_all add: store32_def mem_range_def byte_of_def)
  next
    case False
    have "\<not> unat (x - d) < 4"
    proof
      assume "unat (x - d) < 4"
      then have "x - d < 4" by (simp add: word_less_nat_alt)
      then have "x \<in> word_at d" unfolding word_at_iff by (intro exI [of _ "x - d"]) simp
      with False show False by simp
    qed
    with False show ?thesis by (simp add: store32_outside mem_range_def)
  qed
qed

lemma byte_of_load32: "j < 4 \<Longrightarrow> byte_of (load32 m a) j = m (a + of_nat j)"
proof (rule bit_word_eqI)
  fix n :: nat
  assume "j < 4" "n < LENGTH(8)"
  moreover from this(1) have "j = 0 \<or> j = 1 \<or> j = 2 \<or> j = 3" by linarith
  ultimately show "bit (byte_of (load32 m a) j) n = bit (m (a + of_nat j)) n"
    by (auto simp: byte_of_def load32_def bit_simps dest: bit_imp_le_length)
qed

end
