(* ===== verification/Bitmap.thy ===== *)
theory Bitmap
  imports Memory
begin

text \<open>
  \<^verbatim>\<open>kernel/bitmap.c\<close>: a bitmap is a header in memory (\<^verbatim>\<open>struct bitmap\<close>: the bit
  count, then the pointer to the elements) followed by 32-bit elements. All queries are
  loops over \<open>bitmap_test\<close>. The three primitives that are to change a bit have their
  assembler bodies commented out in the source, and are modelled as they are: they compute
  index and mask and leave the memory alone.
\<close>

section \<open>Elements and masks\<close>

text \<open>\<^verbatim>\<open>elem_type\<close> is \<^verbatim>\<open>unsigned long\<close>, 32 bits on the target.\<close>

definition ELEM_BITS :: u32 where
  "ELEM_BITS = 4 * 8"

definition DIV_ROUND_UP :: "u32 \<Rightarrow> u32 \<Rightarrow> u32" where
  "DIV_ROUND_UP x step = (x + step - 1) div step"

definition elem_idx :: "u32 \<Rightarrow> u32" where
  "elem_idx bit_idx = bit_idx div ELEM_BITS"

definition bit_mask :: "u32 \<Rightarrow> u32" where
  "bit_mask bit_idx = push_bit (unat (bit_idx mod ELEM_BITS)) 1"

definition elem_cnt :: "u32 \<Rightarrow> u32" where
  "elem_cnt bit_cnt = DIV_ROUND_UP bit_cnt ELEM_BITS"

definition byte_cnt :: "u32 \<Rightarrow> u32" where
  "byte_cnt bit_cnt = 4 * elem_cnt bit_cnt"

text \<open>The fields of \<^verbatim>\<open>struct bitmap\<close> at address \<open>b\<close>; \<open>sizeof (struct bitmap)\<close> is 8.\<close>

definition bm_bit_cnt :: "mem \<Rightarrow> u32 \<Rightarrow> u32" where
  "bm_bit_cnt m b = load32 m b"

definition bm_bits :: "mem \<Rightarrow> u32 \<Rightarrow> u32" where
  "bm_bits m b = load32 m (b + 4)"

definition last_mask :: "mem \<Rightarrow> u32 \<Rightarrow> u32" where
  "last_mask m b =
     (let last_bits = bm_bit_cnt m b mod ELEM_BITS
      in if last_bits \<noteq> 0 then push_bit (unat last_bits) 1 - 1 else - 1)"

definition bitmap_buf_size :: "u32 \<Rightarrow> u32" where
  "bitmap_buf_size bit_cnt = 8 + byte_cnt bit_cnt"

definition bitmap_size :: "mem \<Rightarrow> u32 \<Rightarrow> u32" where
  "bitmap_size m b = bm_bit_cnt m b"

section \<open>Single bits\<close>

definition bitmap_mark :: "u32 \<Rightarrow> u32 \<Rightarrow> mem \<Rightarrow> mem" where
  "bitmap_mark b bit_idx m = (let idx = elem_idx bit_idx; mask = bit_mask bit_idx in m)"

definition bitmap_reset :: "u32 \<Rightarrow> u32 \<Rightarrow> mem \<Rightarrow> mem" where
  "bitmap_reset b bit_idx m = (let idx = elem_idx bit_idx; mask = bit_mask bit_idx in m)"

definition bitmap_flip :: "u32 \<Rightarrow> u32 \<Rightarrow> mem \<Rightarrow> mem" where
  "bitmap_flip b bit_idx m = (let idx = elem_idx bit_idx; mask = bit_mask bit_idx in m)"

definition bitmap_set :: "u32 \<Rightarrow> u32 \<Rightarrow> u32 \<Rightarrow> mem \<Rightarrow> mem" where
  "bitmap_set b idx value m =
     (if value \<noteq> 0 then bitmap_mark b idx m else bitmap_reset b idx m)"

definition bitmap_test :: "mem \<Rightarrow> u32 \<Rightarrow> u32 \<Rightarrow> u32" where
  "bitmap_test m b idx =
     (if load32 m (bm_bits m b + 4 * elem_idx idx) AND bit_mask idx \<noteq> 0 then 1 else 0)"

section \<open>Ranges of bits\<close>

function bitmap_set_multiple_loop :: "u32 \<Rightarrow> u32 \<Rightarrow> u32 \<Rightarrow> u32 \<Rightarrow> u32 \<Rightarrow> mem \<Rightarrow> mem" where
  "bitmap_set_multiple_loop b start cnt value i m =
     (if i < cnt
      then bitmap_set_multiple_loop b start cnt value (i + 1) (bitmap_set b (start + i) value m)
      else m)"
  by pat_completeness auto
termination
  by (relation "measure (\<lambda>(b, start, cnt, value, i, m). unat cnt - unat i)")
    (auto simp: loop_measure_less)

definition bitmap_set_multiple :: "u32 \<Rightarrow> u32 \<Rightarrow> u32 \<Rightarrow> u32 \<Rightarrow> mem \<Rightarrow> mem" where
  "bitmap_set_multiple b start cnt value m = bitmap_set_multiple_loop b start cnt value 0 m"

definition bitmap_set_all :: "u32 \<Rightarrow> u32 \<Rightarrow> mem \<Rightarrow> mem" where
  "bitmap_set_all b value m = bitmap_set_multiple b 0 (bitmap_size m b) value m"

text \<open>Returns the bitmap (its address) and the memory with the header written.\<close>

definition bitmap_create_in_buf :: "u32 \<Rightarrow> u32 \<Rightarrow> u32 \<Rightarrow> mem \<Rightarrow> u32 \<times> mem" where
  "bitmap_create_in_buf bit_cnt block block_size m =
     (let b = block;
          m1 = store32 b bit_cnt m;
          m2 = store32 (b + 4) (b + 8) m1;
          m3 = bitmap_set_all b 0 m2
      in (b, m3))"

function bitmap_count_loop :: "mem \<Rightarrow> u32 \<Rightarrow> u32 \<Rightarrow> u32 \<Rightarrow> u32 \<Rightarrow> u32 \<Rightarrow> u32 \<Rightarrow> u32" where
  "bitmap_count_loop m b start cnt value i value_cnt =
     (if i < cnt
      then bitmap_count_loop m b start cnt value (i + 1)
             (if bitmap_test m b (start + i) = value then value_cnt + 1 else value_cnt)
      else value_cnt)"
  by pat_completeness auto
termination
  by (relation "measure (\<lambda>(m, b, start, cnt, value, i, value_cnt). unat cnt - unat i)")
    (auto simp: loop_measure_less)

definition bitmap_count :: "mem \<Rightarrow> u32 \<Rightarrow> u32 \<Rightarrow> u32 \<Rightarrow> u32 \<Rightarrow> u32" where
  "bitmap_count m b start cnt value = bitmap_count_loop m b start cnt value 0 0"

function bitmap_contains_loop :: "mem \<Rightarrow> u32 \<Rightarrow> u32 \<Rightarrow> u32 \<Rightarrow> u32 \<Rightarrow> u32 \<Rightarrow> u32" where
  "bitmap_contains_loop m b start cnt value i =
     (if i < cnt
      then if bitmap_test m b (start + i) = value then 1
           else bitmap_contains_loop m b start cnt value (i + 1)
      else 0)"
  by pat_completeness auto
termination
  by (relation "measure (\<lambda>(m, b, start, cnt, value, i). unat cnt - unat i)")
    (auto simp: loop_measure_less)

definition bitmap_contains :: "mem \<Rightarrow> u32 \<Rightarrow> u32 \<Rightarrow> u32 \<Rightarrow> u32 \<Rightarrow> u32" where
  "bitmap_contains m b start cnt value = bitmap_contains_loop m b start cnt value 0"

definition bitmap_any :: "mem \<Rightarrow> u32 \<Rightarrow> u32 \<Rightarrow> u32 \<Rightarrow> u32" where
  "bitmap_any m b start cnt = bitmap_contains m b start cnt 1"

definition bitmap_none :: "mem \<Rightarrow> u32 \<Rightarrow> u32 \<Rightarrow> u32 \<Rightarrow> u32" where
  "bitmap_none m b start cnt = c_not (bitmap_contains m b start cnt 1)"

definition bitmap_all :: "mem \<Rightarrow> u32 \<Rightarrow> u32 \<Rightarrow> u32 \<Rightarrow> u32" where
  "bitmap_all m b start cnt = c_not (bitmap_contains m b start cnt 0)"

declare bitmap_set_multiple_loop.simps [simp del] and bitmap_count_loop.simps [simp del]
  and bitmap_contains_loop.simps [simp del]

section \<open>Scanning\<close>

definition BITMAP_ERROR :: u32 where
  "BITMAP_ERROR = SIZE_MAX"

lemma bitmap_contains_empty [simp]: "bitmap_contains m b start 0 v = 0"
  by (simp add: bitmap_contains_def bitmap_contains_loop.simps [of m b start 0 v 0])

text \<open>
  The loop \<^verbatim>\<open>for (i = start; i <= last; i++)\<close>, entered under \<open>cnt \<le> bit_cnt\<close>.
  It ends although \<open>i\<close> may be \<open>SIZE_MAX\<close>: with \<open>cnt = 0\<close> the first test succeeds.
\<close>

function bitmap_scan_loop :: "mem \<Rightarrow> u32 \<Rightarrow> u32 \<Rightarrow> u32 \<Rightarrow> u32 \<Rightarrow> u32" where
  "bitmap_scan_loop m b cnt value i =
     (if cnt \<le> bm_bit_cnt m b \<and> i \<le> bm_bit_cnt m b - cnt
      then if bitmap_contains m b i cnt (c_not value) = 0 then i
           else bitmap_scan_loop m b cnt value (i + 1)
      else BITMAP_ERROR)"
  by pat_completeness auto
termination
proof (relation "measure (\<lambda>(m, b, cnt, value, i). Suc (unat (bm_bit_cnt m b - cnt)) - unat i)", goal_cases)
  case 1
  show ?case by simp
next
  case (2 m b cnt v i)
  let ?last = "bm_bit_cnt m b - cnt"
  from 2(2) have "cnt \<noteq> 0" by (cases "cnt = 0") auto
  then have "0 < unat cnt" by (simp add: unat_gt_0)
  moreover have "unat ?last = unat (bm_bit_cnt m b) - unat cnt"
    using 2(1) by (simp add: unat_sub_no_wrap)
  ultimately have "unat ?last < 4294967295"
    using u32_unat_bound [of "bm_bit_cnt m b"] 2(1) by (simp add: word_le_nat_alt)
  moreover have "unat i \<le> unat ?last" using 2(1) by (simp add: word_le_nat_alt)
  ultimately show ?case by (simp add: unat_plus_one_bound)
qed

declare bitmap_scan_loop.simps [simp del]

definition bitmap_scan :: "mem \<Rightarrow> u32 \<Rightarrow> u32 \<Rightarrow> u32 \<Rightarrow> u32 \<Rightarrow> u32" where
  "bitmap_scan m b start cnt value =
     (if cnt \<le> bm_bit_cnt m b then bitmap_scan_loop m b cnt value start else BITMAP_ERROR)"

definition bitmap_scan_and_flip :: "u32 \<Rightarrow> u32 \<Rightarrow> u32 \<Rightarrow> u32 \<Rightarrow> mem \<Rightarrow> u32 \<times> mem" where
  "bitmap_scan_and_flip b start cnt value m =
     (let idx = bitmap_scan m b start cnt value
      in if idx \<noteq> BITMAP_ERROR
         then (idx, bitmap_set_multiple b idx cnt (c_not value) m)
         else (idx, m))"

section \<open>The bits as a list, and what the queries compute\<close>

text \<open>
  The abstraction: the list of the \<open>bit_cnt\<close> bits. \<open>bm_tests\<close> is the window of
  \<open>c\<close> tests from \<open>s\<close> on, as the loops see it (indices wrap).
\<close>

definition bm_tests :: "mem \<Rightarrow> u32 \<Rightarrow> u32 \<Rightarrow> nat \<Rightarrow> u32 list" where
  "bm_tests m b s c = map (\<lambda>k. bitmap_test m b (s + of_nat k)) [0..<c]"

definition bm_view :: "mem \<Rightarrow> u32 \<Rightarrow> bool list" where
  "bm_view m b = map (\<lambda>t. t = 1) (bm_tests m b 0 (unat (bm_bit_cnt m b)))"

definition run_at :: "bool list \<Rightarrow> nat \<Rightarrow> nat \<Rightarrow> bool \<Rightarrow> bool" where
  "run_at bs i c v \<longleftrightarrow> (\<forall>k<c. bs ! (i + k) = v)"

definition first_run :: "bool list \<Rightarrow> nat \<Rightarrow> nat \<Rightarrow> bool \<Rightarrow> nat option" where
  "first_run bs s c v =
     (if c \<le> length bs
      then List.find (\<lambda>i. run_at bs i c v) [s..<Suc (length bs - c)] else None)"

lemma bitmap_test_cases: "bitmap_test m b i = 0 \<or> bitmap_test m b i = 1"
  by (simp add: bitmap_test_def)

lemma length_bm_view [simp]: "length (bm_view m b) = unat (bm_bit_cnt m b)"
  by (simp add: bm_view_def bm_tests_def)

lemma bm_view_nth: "i < unat (bm_bit_cnt m b) \<Longrightarrow> bm_view m b ! i = (bitmap_test m b (of_nat i) = 1)"
  by (simp add: bm_view_def bm_tests_def)

lemma bm_tests_window:
  assumes "unat s + c \<le> unat (bm_bit_cnt m b)"
  shows "map (\<lambda>t. t = 1) (bm_tests m b s c) = take c (drop (unat s) (bm_view m b))"
  using assms by (intro nth_equalityI) (auto simp: bm_tests_def bm_view_nth)

lemma bitmap_test_bit:
  "bitmap_test m b i = 1 \<longleftrightarrow> bit (load32 m (bm_bits m b + 4 * (i div 32))) (unat (i mod 32))"
proof -
  have "unat (i mod 32) < 32"
    by (simp add: unat_mod)
  then have "load32 m a AND push_bit (unat (i mod 32)) 1 \<noteq> 0 \<longleftrightarrow> bit (load32 m a) (unat (i mod 32))" for a
    by (simp add: and_exp_eq_0_iff_not_bit push_bit_eq_mult flip: take_bit_eq_mask)
  then show ?thesis
    by (simp add: bitmap_test_def elem_idx_def bit_mask_def ELEM_BITS_def)
qed

lemma bitmap_count_loop_eq:
  assumes "i \<le> cnt" "unat acc + unat cnt - unat i < 4294967296"
  shows "unat (bitmap_count_loop m b s cnt v i acc) =
     unat acc + count_list (map (\<lambda>k. bitmap_test m b (s + of_nat k)) [unat i..<unat cnt]) v"
  using assms
proof (induction m b s cnt v i acc rule: bitmap_count_loop.induct)
  case (1 m b s cnt v i acc)
  show ?case
  proof (cases "i < cnt")
    case True
    let ?acc = "if bitmap_test m b (s + i) = v then acc + 1 else acc"
    have i: "unat (i + 1) = Suc (unat i)" using True by (rule unat_plus_one_less)
    have lt: "unat i < unat cnt" using True by (simp add: word_less_nat_alt)
    have acc: "unat ?acc = unat acc + (if bitmap_test m b (s + i) = v then 1 else 0)"
      using "1.prems"(2) lt by (auto simp: unat_plus_one_bound)
    have "i + 1 \<le> cnt" using i lt by (simp add: word_le_nat_alt)
    then have "unat (bitmap_count_loop m b s cnt v (i + 1) ?acc) = unat ?acc
        + count_list (map (\<lambda>k. bitmap_test m b (s + of_nat k)) [unat (i + 1)..<unat cnt]) v"
      using "1.prems"(2) lt by (intro "1.IH" [OF True]) (auto simp: i acc)
    with lt i acc True show ?thesis
      by (simp add: bitmap_count_loop.simps [of m b s cnt v i acc] upt_conv_Cons)
  next
    case False
    with "1.prems"(1) have "i = cnt" by simp
    then show ?thesis by (simp add: bitmap_count_loop.simps [of m b s cnt v cnt acc])
  qed
qed

lemma bitmap_contains_loop_eq:
  assumes "i \<le> cnt"
  shows "bitmap_contains_loop m b s cnt v i =
     of_bool (v \<in> set (map (\<lambda>k. bitmap_test m b (s + of_nat k)) [unat i..<unat cnt]))"
  using assms
proof (induction m b s cnt v i rule: bitmap_contains_loop.induct)
  case (1 m b s cnt v i)
  show ?case
  proof (cases "i < cnt")
    case True
    have i: "unat (i + 1) = Suc (unat i)" using True by (rule unat_plus_one_less)
    have lt: "unat i < unat cnt" using True by (simp add: word_less_nat_alt)
    then have "i + 1 \<le> cnt" using i by (simp add: word_le_nat_alt)
    then show ?thesis using True "1.IH" lt i
      by (auto simp: bitmap_contains_loop.simps [of m b s cnt v i] upt_conv_Cons)
  next
    case False
    with "1.prems"(1) have "i = cnt" by simp
    then show ?thesis by (simp add: bitmap_contains_loop.simps [of m b s cnt v cnt])
  qed
qed

lemma bitmap_contains_eq:
  "bitmap_contains m b s cnt v = of_bool (v \<in> set (bm_tests m b s (unat cnt)))"
  by (simp add: bitmap_contains_def bitmap_contains_loop_eq bm_tests_def)

lemma bitmap_count_eq:
  "unat (bitmap_count m b s cnt v) = count_list (bm_tests m b s (unat cnt)) v"
  using u32_unat_bound [of cnt]
  by (simp add: bitmap_count_def bitmap_count_loop_eq bm_tests_def)

text \<open>The three set operations and what rests on them keep the memory.\<close>

lemma bitmap_set_id [simp]: "bitmap_set b i v m = m"
  by (simp add: bitmap_set_def bitmap_mark_def bitmap_reset_def)

lemma bitmap_set_multiple_loop_id: "bitmap_set_multiple_loop b s cnt v i m = m"
proof (induction b s cnt v i m rule: bitmap_set_multiple_loop.induct)
  case (1 b s cnt v i m)
  then show ?case by (simp add: bitmap_set_multiple_loop.simps [of b s cnt v i m])
qed

lemma bitmap_set_multiple_id [simp]: "bitmap_set_multiple b s cnt v m = m"
  by (simp add: bitmap_set_multiple_def bitmap_set_multiple_loop_id)

lemma bitmap_set_all_id [simp]: "bitmap_set_all b v m = m"
  by (simp add: bitmap_set_all_def)

lemma bitmap_scan_and_flip_eq:
  "bitmap_scan_and_flip b s cnt v m = (bitmap_scan m b s cnt v, m)"
  by (simp add: bitmap_scan_and_flip_def Let_def)

section \<open>First fit\<close>

lemma first_run_Some:
  "first_run bs s c v = Some i \<longleftrightarrow>
     s \<le> i \<and> i + c \<le> length bs \<and> run_at bs i c v \<and> (\<forall>j. s \<le> j \<and> j < i \<longrightarrow> \<not> run_at bs j c v)"
proof (cases "c \<le> length bs")
  case True
  have "first_run bs s c v = Some i \<longleftrightarrow> (\<exists>n. n < Suc (length bs - c) - s \<and> run_at bs (s + n) c v \<and>
      i = s + n \<and> (\<forall>j<n. \<not> run_at bs (s + j) c v))"
    using True by (auto simp: first_run_def find_Some_iff simp del: upt_Suc)
  also have "\<dots> \<longleftrightarrow> s \<le> i \<and> i + c \<le> length bs \<and> run_at bs i c v \<and>
     (\<forall>j. s \<le> j \<and> j < i \<longrightarrow> \<not> run_at bs j c v)" (is "?L \<longleftrightarrow> ?R")
  proof
    assume ?L
    then obtain n where n: "n < Suc (length bs - c) - s" "run_at bs (s + n) c v"
      "i = s + n" "\<forall>j<n. \<not> run_at bs (s + j) c v" by blast
    have "\<not> run_at bs j c v" if "s \<le> j" "j < i" for j
      using n(3,4) that by (auto dest: spec [of _ "j - s"])
    with n True show ?R by auto
  next
    assume R: ?R
    then have "\<not> run_at bs (s + j) c v" if "j < i - s" for j
      using that by (auto dest: spec [of _ "s + j"])
    with R True show ?L by (intro exI [of _ "i - s"]) auto
  qed
  finally show ?thesis .
qed (auto simp: first_run_def)

lemma first_run_None:
  "first_run bs s c v = None \<longleftrightarrow> (\<forall>i. s \<le> i \<and> i + c \<le> length bs \<longrightarrow> \<not> run_at bs i c v)"
proof (cases "c \<le> length bs")
  case True
  then have "i + c \<le> length bs \<longleftrightarrow> i < Suc (length bs - c)" for i by auto
  with True show ?thesis by (auto simp: first_run_def find_None_iff simp del: upt_Suc)
qed (auto simp: first_run_def)

lemma first_run_step:
  "c \<le> length bs \<Longrightarrow> s \<le> length bs - c \<Longrightarrow>
   first_run bs s c v = (if run_at bs s c v then Some s else first_run bs (Suc s) c v)"
  by (simp add: first_run_def upt_conv_Cons del: upt_Suc)

lemma bitmap_contains_not:
  assumes "v = 0 \<or> v = 1" "unat i + unat cnt \<le> unat (bm_bit_cnt m b)"
  shows "bitmap_contains m b i cnt (c_not v) = 0 \<longleftrightarrow>
     run_at (bm_view m b) (unat i) (unat cnt) (v = 1)"
proof -
  have "bitmap_test m b j \<noteq> c_not v \<longleftrightarrow> (bitmap_test m b j = 1) = (v = 1)" for j
    using assms(1) bitmap_test_cases [of m b j] by auto
  moreover have "bitmap_contains m b i cnt (c_not v) = 0 \<longleftrightarrow>
      (\<forall>k<unat cnt. bitmap_test m b (i + of_nat k) \<noteq> c_not v)"
    by (force simp: bitmap_contains_eq bm_tests_def image_iff)
  moreover have "bm_view m b ! (unat i + k) = (bitmap_test m b (i + of_nat k) = 1)"
    if "k < unat cnt" for k
    using that assms(2) by (simp add: bm_view_nth)
  ultimately show ?thesis by (auto simp: run_at_def)
qed

lemma bitmap_scan_loop_eq:
  assumes v: "v = 0 \<or> v = 1"
  shows "bitmap_scan_loop m b cnt v i =
    (case first_run (bm_view m b) (unat i) (unat cnt) (v = 1) of None \<Rightarrow> BITMAP_ERROR | Some j \<Rightarrow> of_nat j)"
  using v
proof (induction m b cnt v i rule: bitmap_scan_loop.induct)
  case (1 m b cnt v i)
  let ?last = "bm_bit_cnt m b - cnt"
  show ?case
  proof (cases "cnt \<le> bm_bit_cnt m b \<and> i \<le> ?last")
    case True
    then have last: "unat ?last = unat (bm_bit_cnt m b) - unat cnt" by (simp add: unat_sub_no_wrap)
    with True have le: "unat cnt \<le> unat (bm_bit_cnt m b)" "unat i \<le> unat (bm_bit_cnt m b) - unat cnt"
      by (simp_all add: word_le_nat_alt)
    then have cont: "bitmap_contains m b i cnt (c_not v) = 0 \<longleftrightarrow>
        run_at (bm_view m b) (unat i) (unat cnt) (v = 1)"
      by (intro bitmap_contains_not "1.prems") simp
    show ?thesis
    proof (cases "bitmap_contains m b i cnt (c_not v) = 0")
      case c: True
      with True cont le show ?thesis
        by (simp add: bitmap_scan_loop.simps [of m b cnt v i] first_run_step)
    next
      case c: False
      then have "cnt \<noteq> 0" by (cases "cnt = 0") auto
      then have "0 < unat cnt" by (simp add: unat_gt_0)
      then have "unat (i + 1) = Suc (unat i)"
        using le u32_unat_bound [of "bm_bit_cnt m b"] by (simp add: unat_plus_one_bound)
      with c True cont le "1.IH" [OF True c "1.prems"] show ?thesis
        by (simp add: bitmap_scan_loop.simps [of m b cnt v i] first_run_step)
    qed
  next
    case False
    then have "\<not> unat cnt \<le> unat (bm_bit_cnt m b) \<or> \<not> unat i \<le> unat (bm_bit_cnt m b) - unat cnt"
      by (auto simp: word_le_nat_alt unat_sub_no_wrap)
    then have "first_run (bm_view m b) (unat i) (unat cnt) (v = 1) = None"
      by (auto simp: first_run_None)
    with False show ?thesis by (auto simp: bitmap_scan_loop.simps [of m b cnt v i])
  qed
qed

lemma bitmap_scan_eq:
  assumes "v = 0 \<or> v = 1"
  shows "bitmap_scan m b s cnt v =
    (case first_run (bm_view m b) (unat s) (unat cnt) (v = 1) of None \<Rightarrow> BITMAP_ERROR | Some j \<Rightarrow> of_nat j)"
proof (cases "cnt \<le> bm_bit_cnt m b")
  case True
  then show ?thesis using assms by (simp add: bitmap_scan_def bitmap_scan_loop_eq)
next
  case False
  then have "first_run (bm_view m b) (unat s) (unat cnt) (v = 1) = None"
    by (simp add: first_run_def word_le_nat_alt)
  with False show ?thesis by (simp add: bitmap_scan_def)
qed

section \<open>The interface the frame allocator relies on\<close>

text \<open>
  A run finder: a store of bit vectors with a first-fit search and a test that a run is
  clear. The laws say what both compute on the list of bits; the lemmas are what a client
  may conclude from a result.
\<close>

locale run_finder =
  fixes bits :: "'b \<Rightarrow> bool list"
    and scan :: "'b \<Rightarrow> u32 \<Rightarrow> u32 \<Rightarrow> u32 \<Rightarrow> u32"
    and none :: "'b \<Rightarrow> u32 \<Rightarrow> u32 \<Rightarrow> u32"
  assumes bits_bound: "length (bits b) < 4294967296"
    and scan_first_run: "v = 0 \<or> v = 1 \<Longrightarrow> scan b s c v =
      (case first_run (bits b) (unat s) (unat c) (v = 1) of None \<Rightarrow> BITMAP_ERROR | Some j \<Rightarrow> of_nat j)"
    and none_run: "unat s + unat c \<le> length (bits b) \<Longrightarrow>
      none b s c \<noteq> 0 \<longleftrightarrow> run_at (bits b) (unat s) (unat c) False"
begin

lemma scan_hit:
  assumes "scan b s c v \<noteq> BITMAP_ERROR" "v = 0 \<or> v = 1"
  shows "unat s \<le> unat (scan b s c v)" "unat (scan b s c v) + unat c \<le> length (bits b)"
    "run_at (bits b) (unat (scan b s c v)) (unat c) (v = 1)"
    "\<And>j. unat s \<le> j \<Longrightarrow> j < unat (scan b s c v) \<Longrightarrow> \<not> run_at (bits b) j (unat c) (v = 1)"
proof -
  obtain j where j: "first_run (bits b) (unat s) (unat c) (v = 1) = Some j" "scan b s c v = of_nat j"
    using assms by (cases "first_run (bits b) (unat s) (unat c) (v = 1)") (auto simp: scan_first_run)
  then have "j < 4294967296"
    using bits_bound [of b] by (auto simp: first_run_Some)
  then have "unat (scan b s c v) = j"
    using j(2) by (simp add: u32_of_nat_unat)
  with j(1) show "unat s \<le> unat (scan b s c v)" "unat (scan b s c v) + unat c \<le> length (bits b)"
    "run_at (bits b) (unat (scan b s c v)) (unat c) (v = 1)"
    "\<And>j. unat s \<le> j \<Longrightarrow> j < unat (scan b s c v) \<Longrightarrow> \<not> run_at (bits b) j (unat c) (v = 1)"
    by (auto simp: first_run_Some)
qed

lemma scan_miss:
  assumes "scan b s c v = BITMAP_ERROR" "v = 0 \<or> v = 1" "length (bits b) < 4294967295"
    "unat s \<le> i" "i + unat c \<le> length (bits b)"
  shows "\<not> run_at (bits b) i (unat c) (v = 1)"
proof -
  have "first_run (bits b) (unat s) (unat c) (v = 1) = None"
  proof (rule ccontr)
    assume "first_run (bits b) (unat s) (unat c) (v = 1) \<noteq> None"
    then obtain j where j: "first_run (bits b) (unat s) (unat c) (v = 1) = Some j" by auto
    then have "j < 4294967295" using assms(3) by (auto simp: first_run_Some)
    moreover from j assms(1,2) have "(of_nat j :: u32) = BITMAP_ERROR" by (simp add: scan_first_run)
    then have "unat (of_nat j :: u32) = 4294967295" by (simp add: BITMAP_ERROR_def)
    ultimately show False by (simp add: u32_of_nat_unat)
  qed
  with assms(4,5) show ?thesis by (simp add: first_run_None)
qed

lemma scan_finds:
  assumes "v = 0 \<or> v = 1" "length (bits b) < 4294967295"
    "unat s \<le> i" "i + unat c \<le> length (bits b)" "run_at (bits b) i (unat c) (v = 1)"
  shows "scan b s c v \<noteq> BITMAP_ERROR"
  using scan_miss assms by blast

end

lemma bitmap_none_run:
  assumes "unat s + unat c \<le> length (bm_view m b)"
  shows "bitmap_none m b s c \<noteq> 0 \<longleftrightarrow> run_at (bm_view m b) (unat s) (unat c) False"
  using bitmap_contains_not [of 0 s c m b] assms by (simp add: bitmap_none_def)

interpretation bm: run_finder "bm_view m" "bitmap_scan m" "bitmap_none m" for m
  by unfold_locales (simp_all add: u32_unat_bound bitmap_scan_eq bitmap_none_run)

section \<open>Properties\<close>

text \<open>
  C27. \<open>bitmap_scan\<close> is first fit: for a boolean \<open>value\<close> it returns the least index at
  or after \<open>start\<close> at which \<open>cnt\<close> consecutive bits inside the bitmap have that value,
  and \<open>BITMAP_ERROR\<close> exactly when there is no such run.
\<close>

theorem bitmap_scan_first_fit:
  assumes "v = 0 \<or> v = 1" and "bm_bit_cnt m b < SIZE_MAX"
  shows "if bitmap_scan m b start cnt v = BITMAP_ERROR
     then \<forall>i. unat start \<le> i \<and> i + unat cnt \<le> unat (bm_bit_cnt m b) \<longrightarrow>
            \<not> run_at (bm_view m b) i (unat cnt) (v = 1)
     else unat start \<le> unat (bitmap_scan m b start cnt v) \<and>
          unat (bitmap_scan m b start cnt v) + unat cnt \<le> unat (bm_bit_cnt m b) \<and>
          run_at (bm_view m b) (unat (bitmap_scan m b start cnt v)) (unat cnt) (v = 1) \<and>
          (\<forall>j. unat start \<le> j \<and> j < unat (bitmap_scan m b start cnt v) \<longrightarrow>
             \<not> run_at (bm_view m b) j (unat cnt) (v = 1))"
proof -
  have "length (bm_view m b) < 4294967295"
    using assms(2) by (simp add: word_less_nat_alt)
  then show ?thesis
    using bm.scan_hit [OF _ assms(1), of m b start cnt] bm.scan_miss [OF _ assms(1), of m b start cnt]
    by auto
qed

text \<open>A bitmap of 40 bits at address \<open>0x1000\<close> whose bits 3 and 5 are clear.\<close>

definition example_bitmap :: mem where
  "example_bitmap = store32 0x1000 40 (store32 0x1004 0x1008
     (store32 0x1008 0xFFFFFFD7 (store32 0x100C 0xFF (\<lambda>_. 0))))"

lemma example_bitmap_facts:
  "bm_bit_cnt example_bitmap 0x1000 = 40" "bm_bits example_bitmap 0x1000 = 0x1008"
  "load32 example_bitmap 0x1008 = 0xFFFFFFD7" "load32 example_bitmap 0x100C = 0xFF"
  by (simp_all add: example_bitmap_def bm_bit_cnt_def bm_bits_def load32_store32_aligned aligned4_def)

theorem bitmap_scan_first_fit_witness:
  "bitmap_scan example_bitmap 0x1000 0 1 0 = 3 \<and>
   run_at (bm_view example_bitmap 0x1000) 3 1 False"
proof -
  have scan: "bitmap_scan example_bitmap 0x1000 0 1 0 = 3"
    by (simp add: bitmap_scan_def bitmap_scan_loop.simps bitmap_contains_def bitmap_contains_loop.simps
        bitmap_test_def elem_idx_def bit_mask_def ELEM_BITS_def example_bitmap_facts)
  then show ?thesis
    using bitmap_scan_first_fit [of 0 example_bitmap "0x1000" 0 1]
    by (simp add: example_bitmap_facts SIZE_MAX_def BITMAP_ERROR_def)
qed

text \<open>
  The counting and searching loops compute what they say on the bits of the range:
  \<open>bitmap_count\<close> the number of bits equal to \<open>value\<close>, \<open>bitmap_contains\<close> whether there
  is one, \<open>bitmap_all\<close> and \<open>bitmap_none\<close> whether all bits are set or clear.
\<close>

theorem bitmap_queries_correct:
  assumes "v = 0 \<or> v = 1" and "unat start + unat cnt \<le> unat (bm_bit_cnt m b)"
  shows "unat (bitmap_count m b start cnt v) =
       count_list (take (unat cnt) (drop (unat start) (bm_view m b))) (v = 1) \<and>
     bitmap_contains m b start cnt v =
       of_bool ((v = 1) \<in> set (take (unat cnt) (drop (unat start) (bm_view m b)))) \<and>
     bitmap_all m b start cnt = of_bool (False \<notin> set (take (unat cnt) (drop (unat start) (bm_view m b)))) \<and>
     bitmap_none m b start cnt = of_bool (True \<notin> set (take (unat cnt) (drop (unat start) (bm_view m b))))"
proof -
  let ?ts = "bm_tests m b start (unat cnt)"
  have win: "take (unat cnt) (drop (unat start) (bm_view m b)) = map (\<lambda>t. t = 1) ?ts"
    using assms(2) by (simp add: bm_tests_window)
  have ts: "set ?ts \<subseteq> {0, 1}" by (auto simp: bm_tests_def bitmap_test_def)
  have "count_list us v = count_list (map (\<lambda>t. t = 1) us) (v = 1)" if "set us \<subseteq> {0, 1}" for us
    using that assms(1) by (induction us) auto
  from this [OF ts] have "unat (bitmap_count m b start cnt v) = count_list (map (\<lambda>t. t = 1) ?ts) (v = 1)"
    by (simp add: bitmap_count_eq)
  moreover have mem: "v' \<in> set ?ts \<longleftrightarrow> (v' = 1) \<in> set (map (\<lambda>t. t = 1) ?ts)" if "v' = 0 \<or> v' = 1" for v'
    using ts that unfolding set_map image_iff by auto
  have "bitmap_contains m b start cnt v' = of_bool ((v' = 1) \<in> set (map (\<lambda>t. t = 1) ?ts))"
    if "v' = 0 \<or> v' = 1" for v'
    unfolding bitmap_contains_eq mem [OF that] ..
  from this [OF assms(1)] this [of 0] this [of 1]
  have "bitmap_contains m b start cnt v = of_bool ((v = 1) \<in> set (map (\<lambda>t. t = 1) ?ts))"
    "bitmap_all m b start cnt = of_bool (False \<notin> set (map (\<lambda>t. t = 1) ?ts))"
    "bitmap_none m b start cnt = of_bool (True \<notin> set (map (\<lambda>t. t = 1) ?ts))"
    by (simp_all add: bitmap_all_def bitmap_none_def c_not_def)
  ultimately show ?thesis unfolding win by blast
qed

theorem bitmap_queries_correct_witness:
  "unat (bitmap_count example_bitmap 0x1000 2 4 1) = 2 \<and>
   take 4 (drop 2 (bm_view example_bitmap 0x1000)) = [True, False, True, False]"
proof -
  have "take 4 (drop 2 (bm_view example_bitmap 0x1000)) = [True, False, True, False]"
    using bm_tests_window [of 2 4 example_bitmap "0x1000"]
    by (simp add: bm_tests_def upt_rec bitmap_test_def elem_idx_def bit_mask_def ELEM_BITS_def
        example_bitmap_facts)
  then show ?thesis
    using bitmap_queries_correct [of 1 2 4 example_bitmap "0x1000"]
    by (simp add: example_bitmap_facts)
qed

text \<open>
  \<open>bitmap_create_in_buf\<close> writes the header at the start of the buffer (bit count, and the
  element array right behind the header) and no other byte: the bits are whatever the buffer
  held before.
\<close>

theorem bitmap_create_in_buf_correct:
  "fst (bitmap_create_in_buf bit_cnt block block_size m) = block \<and>
   bm_bit_cnt (snd (bitmap_create_in_buf bit_cnt block block_size m)) block = bit_cnt \<and>
   bm_bits (snd (bitmap_create_in_buf bit_cnt block block_size m)) block = block + 8 \<and>
   {x. snd (bitmap_create_in_buf bit_cnt block block_size m) x \<noteq> m x} \<subseteq> word_at block \<union> word_at (block + 4)"
  by (auto simp: bitmap_create_in_buf_def bm_bit_cnt_def bm_bits_def) (metis store32_outside)

end
