(* ===== verification/Paging.thy ===== *)
theory Paging
  imports Memory
begin

text \<open>
  The paging constants of \<^verbatim>\<open>kernel/cpu.h\<close> and \<^verbatim>\<open>kernel/kernel.h\<close>, and the two
  operations of \<^verbatim>\<open>kernel/page.c\<close> that write page table entries. The page tables are
  seen through the window \<^verbatim>\<open>PT\<close> at \<^verbatim>\<open>USER_MAX_ADDR\<close>, one word per page of the address
  space; address translation itself is done by the MMU and is not modelled.
\<close>

section \<open>Constants\<close>

definition PAGE_SHIFT :: nat where "PAGE_SHIFT = 12"
definition PGDR_SHIFT :: nat where "PGDR_SHIFT = 20"
definition PAGE_SIZE :: u32 where "PAGE_SIZE = push_bit PAGE_SHIFT 1"
definition PAGE_MASK :: u32 where "PAGE_MASK = PAGE_SIZE - 1"
definition PAGE_TRUNCATE :: "u32 \<Rightarrow> u32" where "PAGE_TRUNCATE x = x AND NOT PAGE_MASK"
definition PAGE_ROUNDUP :: "u32 \<Rightarrow> u32" where "PAGE_ROUNDUP x = (x + push_bit 14 1) AND 0xffffc000"

definition PTE_V :: u32 where "PTE_V = 0x001"
definition PTE_W :: u32 where "PTE_W = 0x002"
definition PTE_U :: u32 where "PTE_U = 0x004"

definition VADDR :: "u32 \<Rightarrow> u32 \<Rightarrow> u32" where
  "VADDR pdi pti = push_bit PGDR_SHIFT pdi OR push_bit PAGE_SHIFT pti"

definition KERN_MAX_ADDR :: u32 where "KERN_MAX_ADDR = VADDR 0xFFF 0x0"
definition KERN_MIN_ADDR :: u32 where "KERN_MIN_ADDR = VADDR 0xC00 0x04"
definition USER_MAX_ADDR :: u32 where "USER_MAX_ADDR = VADDR 0xBFC 0x00"
definition USER_MIN_ADDR :: u32 where "USER_MIN_ADDR = VADDR 4 0"
definition KERNBASE :: u32 where "KERNBASE = VADDR 0xC00 0"

definition VM_PROT_NONE :: u32 where "VM_PROT_NONE = 0x00"
definition VM_PROT_READ :: u32 where "VM_PROT_READ = 0x01"
definition VM_PROT_WRITE :: u32 where "VM_PROT_WRITE = 0x02"
definition VM_PROT_EXEC :: u32 where "VM_PROT_EXEC = 0x04"
definition VM_PROT_RW :: u32 where "VM_PROT_RW = VM_PROT_READ OR VM_PROT_WRITE"
definition VM_PROT_ALL :: u32 where "VM_PROT_ALL = VM_PROT_RW OR VM_PROT_EXEC"

lemma paging_consts:
  "PAGE_SIZE = 4096" "PAGE_MASK = 4095" "KERN_MAX_ADDR = 0xFFF00000" "KERN_MIN_ADDR = 0xC0004000"
  "USER_MAX_ADDR = 0xBFC00000" "USER_MIN_ADDR = 0x00400000" "KERNBASE = 0xC0000000"
  "VM_PROT_ALL = 7" "VM_PROT_RW = 3"
  by (simp_all add: PAGE_SIZE_def PAGE_MASK_def PAGE_SHIFT_def PGDR_SHIFT_def VADDR_def
      KERN_MAX_ADDR_def KERN_MIN_ADDR_def USER_MAX_ADDR_def USER_MIN_ADDR_def KERNBASE_def
      VM_PROT_ALL_def VM_PROT_RW_def VM_PROT_READ_def VM_PROT_WRITE_def VM_PROT_EXEC_def)

lemma push_bit_14: "push_bit 14 (1::u32) = 16384"
  by simp

text \<open>
  \<open>PAGE_ROUNDUP\<close> goes to the next multiple of 16 KiB, strictly above its argument: an
  aligned address is moved up by a whole unit.
\<close>

lemma unat_clear_low14: "unat (y AND 0xffffc000 :: u32) = unat y div 16384 * 16384"
proof -
  have "y AND NOT (mask 14) = push_bit 14 (drop_bit 14 y)"
    by (rule bit_word_eqI) (auto simp: bit_simps)
  moreover have "NOT (mask 14) = (0xffffc000::u32)"
    by (simp add: mask_eq_exp_minus_1)
  ultimately have "y AND 0xffffc000 = push_bit 14 (drop_bit 14 y)"
    by simp
  then have "unat (y AND 0xffffc000) = (unat y div 16384 * 16384) mod 4294967296"
    by (simp add: push_bit_eq_mult drop_bit_eq_div unat_word_ariths unat_div mod_simps)
  moreover have "unat y div 16384 * 16384 \<le> unat y"
    by simp
  ultimately show ?thesis
    using u32_unat_bound [of y] by simp
qed

lemma unat_PAGE_ROUNDUP:
  assumes "unat x + 16384 < 4294967296"
  shows "unat (PAGE_ROUNDUP x) = (unat x div 16384 + 1) * 16384"
proof -
  have "unat (x + 16384) = unat x + 16384"
    using assms by (simp add: unat_add_no_wrap)
  then have "unat (PAGE_ROUNDUP x) = (unat x + 16384) div 16384 * 16384"
    by (simp only: PAGE_ROUNDUP_def push_bit_14 unat_clear_low14)
  also have "(unat x + 16384) div 16384 = unat x div 16384 + 1"
    by simp
  finally show ?thesis .
qed

lemma PAGE_ROUNDUP_above:
  assumes "unat x + 16384 < 4294967296"
  shows "x < PAGE_ROUNDUP x" "unat (PAGE_ROUNDUP x) mod 16384 = 0" "unat (PAGE_ROUNDUP x) \<le> unat x + 16384"
proof -
  have "unat x < (unat x div 16384 + 1) * 16384" "(unat x div 16384 + 1) * 16384 \<le> unat x + 16384"
    by (simp_all add: algebra_simps)
  then show "x < PAGE_ROUNDUP x" "unat (PAGE_ROUNDUP x) mod 16384 = 0" "unat (PAGE_ROUNDUP x) \<le> unat x + 16384"
    using unat_PAGE_ROUNDUP [OF assms] by (simp_all add: word_less_nat_alt)
qed

lemma page_aligned_offset: "unat (a + x * PAGE_SIZE) mod 4096 = unat a mod 4096"
proof -
  have "unat (a + x * PAGE_SIZE) = (unat a + unat x * 4096) mod 4294967296"
    by (simp add: unat_word_ariths paging_consts mod_simps)
  then have "unat (a + x * PAGE_SIZE) mod 4096 = (unat a + unat x * 4096) mod 4096"
    by (simp add: mod_mod_cancel)
  then show ?thesis by simp
qed

section \<open>Page table entries\<close>

definition PT :: u32 where "PT = USER_MAX_ADDR"

definition vtopte :: "u32 \<Rightarrow> u32" where
  "vtopte va = PT + 4 * drop_bit PAGE_SHIFT va"

function page_map :: "u32 \<Rightarrow> u32 \<Rightarrow> u32 \<Rightarrow> u32 \<Rightarrow> mem \<Rightarrow> mem" where
  "page_map vaddr paddr npages flags m =
     (if 0 < npages
      then page_map (vaddr + PAGE_SIZE) (paddr + PAGE_SIZE) (npages - 1) flags
             (store32 (vtopte vaddr) (paddr OR flags) m)
      else m)"
  by pat_completeness auto
termination
  by (relation "measure (\<lambda>(vaddr, paddr, npages, flags, m). unat npages)")
    (auto simp: unat_minus_one unat_gt_0)

function page_unmap :: "u32 \<Rightarrow> u32 \<Rightarrow> mem \<Rightarrow> mem" where
  "page_unmap vaddr npages m =
     (if 0 < npages
      then page_unmap (vaddr + PAGE_SIZE) (npages - 1) (store32 (vtopte vaddr) 0 m)
      else m)"
  by pat_completeness auto
termination
  by (relation "measure (\<lambda>(vaddr, npages, m). unat npages)")
    (auto simp: unat_minus_one unat_gt_0)

declare page_map.simps [simp del] and page_unmap.simps [simp del]

text \<open>Entries of the pages of a range of less than the whole address space are distinct words.\<close>

lemma aligned4_vtopte: "aligned4 (vtopte va)"
proof -
  have "aligned4 PT" by (simp add: PT_def paging_consts aligned4_def)
  then show ?thesis by (simp add: vtopte_def aligned4_add_mult4)
qed

lemma unat_page_number: "unat (drop_bit PAGE_SHIFT va :: u32) = unat va div 4096"
  by (simp add: PAGE_SHIFT_def drop_bit_eq_div unat_div)

lemma unat_vtopte: "unat (vtopte va) = 0xBFC00000 + 4 * (unat va div 4096)"
proof -
  have "unat va div 4096 < 1048576"
    using u32_unat_bound [of va] by (simp add: div_less_iff_less_mult)
  then show ?thesis
    by (simp add: vtopte_def PT_def paging_consts unat_word_ariths unat_page_number)
qed

lemma word_at_vtopte_below: "x \<in> word_at (vtopte va) \<Longrightarrow> x < 0xC0000000"
proof -
  assume "x \<in> word_at (vtopte va)"
  then obtain i where i: "i < 4" "x = vtopte va + i" by (auto simp: word_at_iff)
  have "unat va div 4096 < 1048576"
    using u32_unat_bound [of va] by (simp add: div_less_iff_less_mult)
  then have "unat (vtopte va) + unat i < 0xC0000000"
    using i(1) by (simp add: unat_vtopte word_less_nat_alt)
  then show ?thesis
    by (simp add: i(2) unat_add_no_wrap word_less_nat_alt)
qed

lemma vtopte_eq_iff: "vtopte va = vtopte vb \<longleftrightarrow> unat va div 4096 = unat vb div 4096"
proof -
  have bound: "unat va div 4096 < 1048576" for va :: u32
    using u32_unat_bound [of va] by (simp add: div_less_iff_less_mult)
  have "vtopte va = vtopte vb \<longleftrightarrow>
      unat (4 * drop_bit PAGE_SHIFT va :: u32) = unat (4 * drop_bit PAGE_SHIFT vb :: u32)"
    unfolding vtopte_def by (metis add_left_cancel word_unat_eq_iff)
  also have "\<dots> \<longleftrightarrow> unat va div 4096 = unat vb div 4096"
    using bound [of va] bound [of vb] by (simp add: unat_word_ariths unat_page_number)
  finally show ?thesis .
qed

lemma page_offset_number:
  "unat (va + PAGE_SIZE * of_nat k) div 4096 = (unat va div 4096 + k) mod 1048576"
proof -
  have "unat (va + PAGE_SIZE * of_nat k) = (unat va + 4096 * k) mod (4096 * 1048576)"
    by (simp add: unat_word_ariths paging_consts unat_of_nat mod_simps)
  then have "unat (va + PAGE_SIZE * of_nat k) div 4096 = (unat va + 4096 * k) div 4096 mod 1048576"
    unfolding mod_mult2_eq by simp
  then show ?thesis by (simp add: add.commute)
qed

lemma vtopte_range_distinct:
  assumes "0 < k" "k < 1048576"
  shows "vtopte (va + PAGE_SIZE * of_nat k) \<noteq> vtopte va"
proof
  assume "vtopte (va + PAGE_SIZE * of_nat k) = vtopte va"
  then have "(unat va div 4096 + k) mod 1048576 = unat va div 4096"
    by (simp only: vtopte_eq_iff page_offset_number)
  moreover have "unat va div 4096 < 1048576"
    using u32_unat_bound [of va] by (simp add: div_less_iff_less_mult)
  ultimately show False using assms by (simp add: mod_if split: if_splits)
qed

section \<open>What mapping and unmapping leave in the page tables\<close>

text \<open>Both loops write one entry per page; the entries' values are a function of the page's index.\<close>

primrec pte_write :: "(nat \<Rightarrow> u32) \<Rightarrow> nat \<Rightarrow> u32 \<Rightarrow> mem \<Rightarrow> mem" where
  "pte_write f 0 va m = m"
| "pte_write f (Suc n) va m = pte_write (\<lambda>k. f (Suc k)) n (va + PAGE_SIZE) (store32 (vtopte va) (f 0) m)"

lemma unat_pred: "0 < (n::u32) \<Longrightarrow> unat n = Suc (unat (n - 1))"
  by (simp add: unat_minus_one unat_gt_0)

lemma page_map_pte_write:
  "page_map va pa n fl m = pte_write (\<lambda>k. (pa + PAGE_SIZE * of_nat k) OR fl) (unat n) va m"
proof (induction va pa n fl m rule: page_map.induct)
  case (1 va pa n fl m)
  then show ?case
    by (cases "0 < n")
      (auto simp: page_map.simps [of va pa n fl m] page_map.simps [of va pa 0 fl m] unat_pred [of n]
        algebra_simps word_gt_0)
qed

lemma page_unmap_pte_write: "page_unmap va n m = pte_write (\<lambda>_. 0) (unat n) va m"
proof (induction va n m rule: page_unmap.induct)
  case (1 va n m)
  then show ?case
    by (cases "0 < n")
      (auto simp: page_unmap.simps [of va n m] page_unmap.simps [of va 0 m] unat_pred [of n] word_gt_0)
qed

lemma page_step_assoc: "(va::u32) + PAGE_SIZE + PAGE_SIZE * of_nat k = va + PAGE_SIZE * of_nat (Suc k)"
  by (simp add: algebra_simps)

lemma pte_write_frame:
  "(\<And>k. k < n \<Longrightarrow> x \<notin> word_at (vtopte (va + PAGE_SIZE * of_nat k))) \<Longrightarrow> pte_write f n va m x = m x"
proof (induction n arbitrary: f va m)
  case (Suc n)
  have "x \<notin> word_at (vtopte (va + PAGE_SIZE + PAGE_SIZE * of_nat k))" if "k < n" for k
    using Suc.prems [of "Suc k"] that by (simp only: page_step_assoc) simp
  moreover have "x \<notin> word_at (vtopte va)" using Suc.prems [of 0] by simp
  ultimately show ?case by (simp add: Suc.IH store32_outside)
qed simp

lemma pte_write_pte:
  "n \<le> 1048576 \<Longrightarrow> k < n \<Longrightarrow> load32 (pte_write f n va m) (vtopte (va + PAGE_SIZE * of_nat k)) = f k"
proof (induction n arbitrary: f va m k)
  case (Suc n)
  let ?m = "store32 (vtopte va) (f 0) m"
  show ?case
  proof (cases k)
    case 0
    have "vtopte va \<noteq> vtopte (va + PAGE_SIZE + PAGE_SIZE * of_nat j)" if "j < n" for j
      using vtopte_range_distinct [of "Suc j" va] that Suc.prems(1) by (simp only: page_step_assoc) simp
    then have "pte_write (\<lambda>k. f (Suc k)) n (va + PAGE_SIZE) ?m x = ?m x" if "x \<in> word_at (vtopte va)" for x
      using that word_at_disjoint aligned4_vtopte by (intro pte_write_frame) blast
    then have "load32 (pte_write f (Suc n) va m) (vtopte va) = load32 ?m (vtopte va)"
      by (intro load32_cong) simp
    with 0 show ?thesis by simp
  next
    case (Suc j)
    then have "load32 (pte_write (\<lambda>k. f (Suc k)) n (va + PAGE_SIZE) ?m)
        (vtopte (va + PAGE_SIZE + PAGE_SIZE * of_nat j)) = f (Suc j)"
      using Suc.prems by (intro Suc.IH) simp_all
    with Suc show ?thesis by (simp only: pte_write.simps page_step_assoc)
  qed
qed simp

section \<open>Properties\<close>

text \<open>
  C29. \<open>page_map\<close> enters exactly the requested translations: after mapping \<open>npages\<close> pages
  from \<open>vaddr\<close> to \<open>paddr\<close>, the entry of the \<open>k\<close>-th page holds the \<open>k\<close>-th frame with
  the flags, and no byte outside these entries changes; \<open>page_unmap\<close> clears exactly the
  same entries.
\<close>

theorem page_map_correct:
  assumes "unat npages \<le> 1048576"
  shows "(\<forall>k<unat npages.
       load32 (page_map vaddr paddr npages flags m) (vtopte (vaddr + PAGE_SIZE * of_nat k)) =
         (paddr + PAGE_SIZE * of_nat k) OR flags \<and>
       load32 (page_unmap vaddr npages m) (vtopte (vaddr + PAGE_SIZE * of_nat k)) = 0) \<and>
     (\<forall>x. (\<forall>k<unat npages. x \<notin> word_at (vtopte (vaddr + PAGE_SIZE * of_nat k))) \<longrightarrow>
       page_map vaddr paddr npages flags m x = m x \<and> page_unmap vaddr npages m x = m x)"
  using assms by (simp add: page_map_pte_write page_unmap_pte_write pte_write_pte pte_write_frame)

theorem page_map_correct_witness:
  "load32 (page_map 0xC1000000 0x20000000 4096 3 (\<lambda>_. 0)) (vtopte 0xC1005000) = 0x20005003"
  using page_map_correct [of 4096 "0xC1000000" "0x20000000" 3 "\<lambda>_. 0", THEN conjunct1, rule_format, of 5]
  by (simp add: paging_consts)

end
