(* ===== verification/Frame.thy ===== *)
theory Frame
  imports Bitmap Paging
begin

text \<open>
  \<^verbatim>\<open>kernel/frame.c\<close>: the physical frame allocator. A zone of RAM is described by its
  base, its length in bytes and a bitmap with one bit per frame; the table \<^verbatim>\<open>pmzone\<close> has
  \<^verbatim>\<open>RAM_ZONE_LEN/2\<close> entries, of which the first ones with a length other than 0 are in use.
\<close>

record pmzone =
  pz_base :: u32
  pz_limit :: u32
  pz_bitmap :: u32

definition RAM_ZONE_LEN :: nat where
  "RAM_ZONE_LEN = 2 * 8"

section \<open>Operations\<close>

text \<open>
  \<open>init_frame\<close>: the loop over the pairs of \<^verbatim>\<open>g_ram_zone\<close>. A zone pays for its own
  bitmap, which is mapped at \<open>brk\<close>; a zone used up by it is not counted.
\<close>

function init_frame_loop ::
    "u32 list \<Rightarrow> nat \<Rightarrow> nat \<Rightarrow> u32 \<Rightarrow> pmzone list \<Rightarrow> mem \<Rightarrow> u32 \<times> pmzone list \<times> mem" where
  "init_frame_loop g_ram_zone i z brk zs m =
     (if i < RAM_ZONE_LEN then
        if g_ram_zone ! (i + 1) - g_ram_zone ! i = 0 then (brk, zs, m)
        else
          let base = g_ram_zone ! i;
              limit = g_ram_zone ! (i + 1) - g_ram_zone ! i;
              bit_cnt = limit div PAGE_SIZE;
              size = PAGE_ROUNDUP (bitmap_buf_size bit_cnt);
              paddr = base;
              zs1 = zs[z := (zs ! z)\<lparr>pz_base := base + size, pz_limit := limit - size\<rparr>]
          in if limit - size = 0 then init_frame_loop g_ram_zone (i + 2) z brk zs1 m
             else
               let m1 = page_map brk paddr (size div PAGE_SIZE) (PTE_V OR PTE_W) m;
                   (b, m2) = bitmap_create_in_buf bit_cnt brk 0 m1;
                   zs2 = zs1[z := (zs1 ! z)\<lparr>pz_bitmap := b\<rparr>]
               in init_frame_loop g_ram_zone (i + 2) (z + 1) (brk + size) zs2 m2
      else (brk, zs, m))"
  by pat_completeness auto
termination
  by (relation "measure (\<lambda>(g_ram_zone, i, z, brk, zs, m). RAM_ZONE_LEN - i)") auto

declare init_frame_loop.simps [simp del]

definition init_frame :: "u32 list \<Rightarrow> u32 \<Rightarrow> pmzone list \<Rightarrow> mem \<Rightarrow> u32 \<times> pmzone list \<times> mem" where
  "init_frame g_ram_zone brk zs m = init_frame_loop g_ram_zone 0 0 brk zs m"

definition in_zone :: "u32 \<Rightarrow> pmzone \<Rightarrow> bool" where
  "in_zone pa z \<longleftrightarrow> pz_base z \<le> pa \<and> pa < pz_base z + pz_limit z"

text \<open>The loops over \<^verbatim>\<open>pmzone[0 .. RAM_ZONE_LEN/2 - 1]\<close> run down the table.\<close>

fun frame_alloc_in_addr :: "pmzone list \<Rightarrow> u32 \<Rightarrow> u32 \<Rightarrow> mem \<Rightarrow> u32 \<times> mem" where
  "frame_alloc_in_addr [] pa nframes m = (BITMAP_ERROR, m)"
| "frame_alloc_in_addr (z # zs) pa nframes m =
     (if in_zone pa z \<and> bitmap_none m (pz_bitmap z) ((pa - pz_base z) div PAGE_SIZE) nframes \<noteq> 0
      then (pa, bitmap_set_multiple (pz_bitmap z) ((pa - pz_base z) div PAGE_SIZE) nframes 1 m)
      else frame_alloc_in_addr zs pa nframes m)"

fun frame_alloc :: "pmzone list \<Rightarrow> u32 \<Rightarrow> mem \<Rightarrow> u32 \<times> mem" where
  "frame_alloc [] nframes m = (BITMAP_ERROR, m)"
| "frame_alloc (z # zs) nframes m =
     (if pz_limit z = 0 then (BITMAP_ERROR, m)
      else let idx = bitmap_scan m (pz_bitmap z) 0 nframes 0
           in if idx \<noteq> BITMAP_ERROR
              then (pz_base z + idx * PAGE_SIZE, bitmap_set_multiple (pz_bitmap z) idx nframes 1 m)
              else frame_alloc zs nframes m)"

fun frame_free :: "pmzone list \<Rightarrow> u32 \<Rightarrow> u32 \<Rightarrow> mem \<Rightarrow> mem" where
  "frame_free [] paddr nframes m = m"
| "frame_free (z # zs) paddr nframes m =
     (if pz_limit z = 0 then m
      else if in_zone paddr z
      then bitmap_set_multiple (pz_bitmap z) ((paddr - pz_base z) div PAGE_SIZE) nframes 0 m
      else frame_free zs paddr nframes m)"

section \<open>What the allocator hands out\<close>

text \<open>
  The contract of a first-fit allocator over the zones: the frames returned are clear in
  the bitmap of the first zone that has a run of that length, and lie within the bits of it.
\<close>

definition zone_run :: "mem \<Rightarrow> pmzone \<Rightarrow> nat \<Rightarrow> nat \<Rightarrow> bool" where
  "zone_run m z i n \<longleftrightarrow> i + n \<le> unat (bm_bit_cnt m (pz_bitmap z)) \<and> run_at (bm_view m (pz_bitmap z)) i n False"

definition zone_small :: "mem \<Rightarrow> pmzone \<Rightarrow> bool" where
  "zone_small m z \<longleftrightarrow> bm_bit_cnt m (pz_bitmap z) < SIZE_MAX"

lemma zone_scan_hit:
  assumes "bitmap_scan m (pz_bitmap z) 0 n 0 \<noteq> BITMAP_ERROR"
  shows "zone_run m z (unat (bitmap_scan m (pz_bitmap z) 0 n 0)) (unat n)"
    "\<And>j. j < unat (bitmap_scan m (pz_bitmap z) 0 n 0) \<Longrightarrow> \<not> zone_run m z j (unat n)"
  using bm.scan_hit [OF assms] by (auto simp: zone_run_def)

lemma zone_scan_miss:
  assumes "bitmap_scan m (pz_bitmap z) 0 n 0 = BITMAP_ERROR" "zone_small m z"
  shows "\<not> zone_run m z j (unat n)"
  using bm.scan_miss [OF assms(1)] assms(2) by (auto simp: zone_run_def zone_small_def word_less_nat_alt)

lemma frame_alloc_mem [simp]: "snd (frame_alloc zs n m) = m"
  by (induction zs) (simp_all add: Let_def)

lemma frame_alloc_in_addr_mem [simp]: "snd (frame_alloc_in_addr zs pa n m) = m"
  by (induction zs) simp_all

lemma frame_free_mem [simp]: "frame_free zs pa n m = m"
  by (induction zs) simp_all

lemma frame_alloc_found:
  assumes "fst (frame_alloc zs n m) \<noteq> BITMAP_ERROR" "\<forall>z\<in>set zs. zone_small m z"
  shows "\<exists>us z vs idx. zs = us @ z # vs \<and> (\<forall>u\<in>set us. pz_limit u \<noteq> 0 \<and> (\<forall>j. \<not> zone_run m u j (unat n))) \<and>
    pz_limit z \<noteq> 0 \<and> zone_run m z (unat idx) (unat n) \<and> (\<forall>j<unat idx. \<not> zone_run m z j (unat n)) \<and>
    fst (frame_alloc zs n m) = pz_base z + idx * PAGE_SIZE"
  using assms
proof (induction zs)
  case (Cons z zs)
  let ?idx = "bitmap_scan m (pz_bitmap z) 0 n 0"
  have lim: "pz_limit z \<noteq> 0" using Cons.prems(1) by auto
  show ?case
  proof (cases "?idx = BITMAP_ERROR")
    case True
    with lim Cons obtain us y vs idx where
      "zs = us @ y # vs" "\<forall>u\<in>set us. pz_limit u \<noteq> 0 \<and> (\<forall>j. \<not> zone_run m u j (unat n))"
      "pz_limit y \<noteq> 0" "zone_run m y (unat idx) (unat n)" "\<forall>j<unat idx. \<not> zone_run m y j (unat n)"
      "fst (frame_alloc zs n m) = pz_base y + idx * PAGE_SIZE"
      by auto
    moreover have "\<not> zone_run m z j (unat n)" for j
      using zone_scan_miss [OF True] Cons.prems(2) by simp
    ultimately show ?thesis using True lim
      by (intro exI [of _ "z # us"] exI [of _ y] exI [of _ vs] exI [of _ idx]) simp
  next
    case False
    then show ?thesis using lim zone_scan_hit [OF False]
      by (intro exI [of _ "[]"] exI [of _ z] exI [of _ zs] exI [of _ ?idx]) simp
  qed
qed simp

lemma frame_alloc_exhausted:
  assumes "fst (frame_alloc zs n m) = BITMAP_ERROR" "\<forall>z\<in>set zs. zone_small m z"
    "\<forall>z\<in>set zs. unat (pz_base z) mod 4096 = 0" "z \<in> set (takeWhile (\<lambda>z. pz_limit z \<noteq> 0) zs)"
  shows "\<not> zone_run m z j (unat n)"
  using assms
proof (induction zs)
  case (Cons y zs)
  let ?idx = "bitmap_scan m (pz_bitmap y) 0 n 0"
  have lim: "pz_limit y \<noteq> 0" using Cons.prems(4) by (auto split: if_splits)
  have "unat (pz_base y + ?idx * PAGE_SIZE) mod 4096 = 0"
    using Cons.prems(3) by (simp add: page_aligned_offset)
  then have "pz_base y + ?idx * PAGE_SIZE \<noteq> BITMAP_ERROR"
    by (auto simp: BITMAP_ERROR_def)
  then have err: "?idx = BITMAP_ERROR"
    using Cons.prems(1) lim by (auto simp: Let_def split: if_splits)
  show ?case
  proof (cases "z = y")
    case True
    then show ?thesis using zone_scan_miss [OF err] Cons.prems(2) by simp
  next
    case False
    with err lim Cons show ?thesis by (simp add: Let_def)
  qed
qed simp

section \<open>Setting up a zone\<close>

text \<open>The size of the bitmap of a region, in bytes rounded to 16 KiB, as \<open>init_frame\<close> computes it.\<close>

definition zone_bits :: "u32 \<Rightarrow> u32 \<Rightarrow> u32" where
  "zone_bits r0 r1 = (r1 - r0) div PAGE_SIZE"

definition zone_overhead :: "u32 \<Rightarrow> u32 \<Rightarrow> u32" where
  "zone_overhead r0 r1 = PAGE_ROUNDUP (bitmap_buf_size (zone_bits r0 r1))"

lemma unat_zone_bits: "r0 \<le> r1 \<Longrightarrow> unat (zone_bits r0 r1) = (unat r1 - unat r0) div 4096"
  by (simp add: zone_bits_def unat_div unat_sub_no_wrap paging_consts)

lemma bitmap_buf_size_bound:
  assumes "unat n < 1048576"
  shows "unat (bitmap_buf_size n) = 8 + 4 * ((unat n + 31) div 32)" "unat (bitmap_buf_size n) < 262144"
proof -
  have "unat (31 + n) = unat n + 31" using assms by (simp add: unat_add_no_wrap)
  then have e: "unat (elem_cnt n) = (unat n + 31) div 32"
    by (simp add: elem_cnt_def DIV_ROUND_UP_def ELEM_BITS_def unat_div)
  have "unat (4 * elem_cnt n) = 4 * ((unat n + 31) div 32)"
    using assms by (simp add: unat_word_ariths e)
  then show *: "unat (bitmap_buf_size n) = 8 + 4 * ((unat n + 31) div 32)"
    using assms by (simp add: bitmap_buf_size_def byte_cnt_def unat_add_no_wrap)
  show "unat (bitmap_buf_size n) < 262144"
    unfolding * using assms by linarith
qed

lemma zone_overhead_bounds:
  "16384 \<le> unat (zone_overhead r0 r1)" "unat (zone_overhead r0 r1) < 1048576"
  "unat (zone_overhead r0 r1) mod 16384 = 0"
proof -
  have "unat (zone_bits r0 r1) < 1048576"
    using u32_unat_bound [of "r1 - r0"] by (simp add: zone_bits_def paging_consts unat_div div_less_iff_less_mult)
  then have b: "unat (bitmap_buf_size (zone_bits r0 r1)) < 262144"
    by (rule bitmap_buf_size_bound)
  then have n: "unat (zone_overhead r0 r1) = (unat (bitmap_buf_size (zone_bits r0 r1)) div 16384 + 1) * 16384"
    unfolding zone_overhead_def by (intro unat_PAGE_ROUNDUP) linarith
  show "16384 \<le> unat (zone_overhead r0 r1)" "unat (zone_overhead r0 r1) mod 16384 = 0"
    by (simp_all add: n)
  have "unat (bitmap_buf_size (zone_bits r0 r1)) div 16384 * 16384 \<le> unat (bitmap_buf_size (zone_bits r0 r1))"
    by (rule div_times_less_eq_dividend)
  with b show "unat (zone_overhead r0 r1) < 1048576" unfolding n by simp
qed

lemma init_frame_one_region:
  assumes "r0 \<noteq> r1" "r1 - r0 \<noteq> zone_overhead r0 r1" "length zs = 8"
  shows "init_frame (r0 # r1 # 0 # 0 # rest) brk zs m =
    (brk + zone_overhead r0 r1,
     zs[0 := \<lparr>pz_base = r0 + zone_overhead r0 r1, pz_limit = r1 - r0 - zone_overhead r0 r1, pz_bitmap = brk\<rparr>],
     store32 (brk + 4) (brk + 8) (store32 brk (zone_bits r0 r1)
       (page_map brk r0 (zone_overhead r0 r1 div PAGE_SIZE) (PTE_V OR PTE_W) m)))"
proof -
  obtain z zs' where zs: "zs = z # zs'" using assms(3) by (cases zs) auto
  have "init_frame_loop (r0 # r1 # 0 # 0 # rest) 2 z' brk' ys m' = (brk', ys, m')" for z' brk' ys m'
    by (simp add: init_frame_loop.simps [of _ 2] RAM_ZONE_LEN_def)
  note this [simplified numeral_2_eq_2]
  then show ?thesis
    using assms(1,2)
    by (cases z) (simp add: init_frame_def init_frame_loop.simps [of _ 0] RAM_ZONE_LEN_def zs Let_def
        bitmap_create_in_buf_def zone_bits_def zone_overhead_def)
qed

section \<open>Properties\<close>

text \<open>
  C28. \<open>frame_alloc\<close> is first fit over the zones: if it returns an address, that is the first
  clear run of \<open>nframes\<close> bits of the first zone in use that has one; if it returns
  \<open>BITMAP_ERROR\<close>, no zone in use has such a run.
\<close>

theorem frame_alloc_first_fit:
  assumes "\<forall>z\<in>set zs. zone_small m z" and "\<forall>z\<in>set zs. unat (pz_base z) mod 4096 = 0"
  shows "if fst (frame_alloc zs nframes m) = BITMAP_ERROR
     then \<forall>z\<in>set (takeWhile (\<lambda>z. pz_limit z \<noteq> 0) zs). \<forall>j. \<not> zone_run m z j (unat nframes)
     else \<exists>us z vs idx. zs = us @ z # vs \<and>
            (\<forall>u\<in>set us. pz_limit u \<noteq> 0 \<and> (\<forall>j. \<not> zone_run m u j (unat nframes))) \<and>
            pz_limit z \<noteq> 0 \<and> zone_run m z (unat idx) (unat nframes) \<and>
            (\<forall>j<unat idx. \<not> zone_run m z j (unat nframes)) \<and>
            fst (frame_alloc zs nframes m) = pz_base z + idx * PAGE_SIZE"
  using frame_alloc_exhausted [OF _ assms] frame_alloc_found [OF _ assms(1)] by auto

definition example_zones :: "pmzone list" where
  "example_zones = [\<lparr>pz_base = 0x200000, pz_limit = 0x28000, pz_bitmap = 0x1000\<rparr>]"

lemma example_frame_alloc: "frame_alloc example_zones 1 example_bitmap = (0x203000, example_bitmap)"
  by (simp add: example_zones_def Let_def bitmap_scan_def bitmap_scan_loop.simps bitmap_contains_def
      bitmap_contains_loop.simps bitmap_test_def elem_idx_def bit_mask_def ELEM_BITS_def
      example_bitmap_facts BITMAP_ERROR_def SIZE_MAX_def paging_consts)

theorem frame_alloc_first_fit_witness:
  "frame_alloc example_zones 1 example_bitmap = (0x203000, example_bitmap) \<and>
   (\<exists>us z vs idx. example_zones = us @ z # vs \<and> zone_run example_bitmap z (unat idx) 1 \<and>
     pz_base z + idx * PAGE_SIZE = 0x203000)"
proof -
  have "\<forall>z\<in>set example_zones. zone_small example_bitmap z"
    by (simp add: example_zones_def zone_small_def example_bitmap_facts SIZE_MAX_def)
  moreover have "\<forall>z\<in>set example_zones. unat (pz_base z) mod 4096 = 0"
    by (simp add: example_zones_def)
  ultimately show ?thesis
    using frame_alloc_first_fit [of example_zones example_bitmap 1] example_frame_alloc
    by (auto simp: BITMAP_ERROR_def SIZE_MAX_def)
qed

text \<open>
  Allocation does not take the frames it returns: whatever was allocated at an address or
  anywhere, and whatever was freed in between, the next \<open>frame_alloc\<close> for the same number of
  frames returns the same address again.
\<close>

theorem frame_alloc_returns_same_frames:
  "frame_alloc zs nframes (frame_free zs pa k (snd (frame_alloc_in_addr zs pb l
     (snd (frame_alloc zs nframes m))))) = frame_alloc zs nframes m"
  by simp

text \<open>
  \<open>init_frame\<close> on the memory map of this machine (one region from \<open>r0\<close> to \<open>r1\<close>, larger
  than its bitmap): the bitmap is placed at \<open>brk\<close> and mapped to the first frames of the
  region; the zone is what remains, and ends where the region ends; the header describes
  one bit per frame of the whole region.
\<close>

theorem init_frame_correct:
  assumes "unat r0 + unat (zone_overhead r0 r1) < unat r1" and "length zs = 8"
    and "0xC0000000 \<le> brk" and "unat brk + 1048576 \<le> 4294967296"
  shows "\<exists>m' z. init_frame (r0 # r1 # 0 # 0 # rest) brk zs m = (brk + zone_overhead r0 r1, zs[0 := z], m') \<and>
     unat (pz_base z) = unat r0 + unat (zone_overhead r0 r1) \<and>
     unat (pz_base z) + unat (pz_limit z) = unat r1 \<and>
     pz_bitmap z = brk \<and> bm_bit_cnt m' brk = (r1 - r0) div PAGE_SIZE \<and> bm_bits m' brk = brk + 8 \<and>
     (\<forall>k<unat (zone_overhead r0 r1 div PAGE_SIZE).
        load32 m' (vtopte (brk + PAGE_SIZE * of_nat k)) = (r0 + PAGE_SIZE * of_nat k) OR 3)"
proof -
  let ?size = "zone_overhead r0 r1"
  let ?n = "?size div PAGE_SIZE"
  let ?m1 = "page_map brk r0 ?n (PTE_V OR PTE_W) m"
  let ?m' = "store32 (brk + 4) (brk + 8) (store32 brk (zone_bits r0 r1) ?m1)"
  have le: "r0 \<le> r1" using assms(1) by (simp add: word_le_nat_alt)
  have r: "unat (r1 - r0) = unat r1 - unat r0" by (rule unat_sub_no_wrap [OF le])
  have sz: "?size \<le> r1 - r0" using assms(1) r by (simp add: word_le_nat_alt)
  have lim: "unat (r1 - r0 - ?size) = unat r1 - unat r0 - unat ?size"
    using unat_sub_no_wrap [OF sz] r by simp
  have base: "unat (r0 + ?size) = unat r0 + unat ?size"
    using assms(1) u32_unat_bound [of r1] by (intro unat_add_no_wrap) linarith
  have eq: "init_frame (r0 # r1 # 0 # 0 # rest) brk zs m = (brk + ?size,
     zs[0 := \<lparr>pz_base = r0 + ?size, pz_limit = r1 - r0 - ?size, pz_bitmap = brk\<rparr>], ?m')"
    using assms(1,2) r by (intro init_frame_one_region) (auto simp: word_unat_eq_iff)
  have "unat (brk + 4) = unat brk + 4" using assms(4) by (simp add: unat_add_no_wrap)
  then have header: "0xC0000000 \<le> x" if "x \<in> word_at brk \<union> word_at (brk + 4)" for x
    using that word_at_bounds(1) [of x brk] word_at_bounds(1) [of x "brk + 4"] assms(3,4)
    by (auto simp: word_le_nat_alt)
  have "load32 ?m' (vtopte va) = load32 ?m1 (vtopte va)" for va
  proof (rule load32_cong)
    fix x assume "x \<in> word_at (vtopte va)"
    then have "x < 0xC0000000" by (rule word_at_vtopte_below)
    then have "x \<notin> word_at brk" "x \<notin> word_at (brk + 4)" using header [of x] by auto
    then show "?m' x = ?m1 x" by (simp add: store32_outside)
  qed
  moreover have "unat ?n \<le> 1048576"
    using zone_overhead_bounds(2) [of r0 r1] by (simp add: unat_div paging_consts)
  ultimately have pte: "load32 ?m' (vtopte (brk + PAGE_SIZE * of_nat k)) = (r0 + PAGE_SIZE * of_nat k) OR 3"
    if "k < unat ?n" for k
    using that by (simp add: page_map_pte_write pte_write_pte PTE_V_def PTE_W_def)
  show ?thesis
    using assms(1) r base lim pte unfolding eq
    by (intro exI [of _ ?m'] exI [of _ "\<lparr>pz_base = r0 + ?size, pz_limit = r1 - r0 - ?size, pz_bitmap = brk\<rparr>"])
      (simp add: bm_bit_cnt_def bm_bits_def zone_bits_def)
qed

theorem init_frame_correct_witness:
  "\<exists>m' z. init_frame (0x100000 # 0x1FFFFFFF # replicate 14 0) 0xC0200000
       (replicate 8 \<lparr>pz_base = 0, pz_limit = 0, pz_bitmap = 0\<rparr>) (\<lambda>_. 0) =
     (0xC0204000, (replicate 8 \<lparr>pz_base = 0, pz_limit = 0, pz_bitmap = 0\<rparr>)[0 := z], m') \<and>
     unat (pz_base z) + unat (pz_limit z) = 0x1FFFFFFF"
proof -
  have size: "zone_overhead 0x100000 0x1FFFFFFF = 0x4000"
    by (simp add: zone_overhead_def zone_bits_def paging_consts bitmap_buf_size_def byte_cnt_def
        elem_cnt_def DIV_ROUND_UP_def ELEM_BITS_def PAGE_ROUNDUP_def)
  have rest: "0x100000 # 0x1FFFFFFF # replicate 14 (0::u32) = 0x100000 # 0x1FFFFFFF # 0 # 0 # replicate 12 0"
    by (simp add: numeral_eq_Suc)
  show ?thesis
    using init_frame_correct [of "0x100000" "0x1FFFFFFF" "replicate 8 \<lparr>pz_base = 0, pz_limit = 0, pz_bitmap = 0\<rparr>"
        "0xC0200000" "replicate 12 0" "\<lambda>_. 0"] unfolding rest by (auto simp: size)
qed

text \<open>
  The zone's bitmap counts the frames the bitmap itself occupies: it has more bits than
  the zone has frames, so a request for as many frames as there are bits, met by an all-clear
  bitmap, is granted although the run ends beyond the end of the region.
\<close>

theorem frame_alloc_beyond_region:
  assumes "unat r0 + unat (zone_overhead r0 r1) < unat r1" and "length zs = 8"
    and "init_frame (r0 # r1 # 0 # 0 # rest) brk zs m = (brk', zs', m')"
    and "run_at (bm_view m' brk) 0 (unat (zone_bits r0 r1)) False"
  shows "frame_alloc zs' (zone_bits r0 r1) m' = (pz_base (zs' ! 0), m') \<and>
     unat (pz_limit (zs' ! 0)) < 4096 * unat (bm_bit_cnt m' brk) \<and>
     unat r1 < unat (pz_base (zs' ! 0)) + 4096 * unat (zone_bits r0 r1)"
proof -
  let ?size = "zone_overhead r0 r1"
  have le: "r0 \<le> r1" using assms(1) by (simp add: word_le_nat_alt)
  have r: "unat (r1 - r0) = unat r1 - unat r0" by (rule unat_sub_no_wrap [OF le])
  have sz: "?size \<le> r1 - r0" using assms(1) r by (simp add: word_le_nat_alt)
  have lim: "unat (r1 - r0 - ?size) = unat r1 - unat r0 - unat ?size"
    using unat_sub_no_wrap [OF sz] r by simp
  have base: "unat (r0 + ?size) = unat r0 + unat ?size"
    using assms(1) u32_unat_bound [of r1] by (intro unat_add_no_wrap) linarith
  have "r0 \<noteq> r1" "r1 - r0 \<noteq> ?size" using assms(1) r by (auto simp: word_unat_eq_iff)
  from init_frame_one_region [OF this assms(2)] assms(2,3)
  obtain t where zs': "zs' = \<lparr>pz_base = r0 + ?size, pz_limit = r1 - r0 - ?size, pz_bitmap = brk\<rparr> # t"
    and cnt: "bm_bit_cnt m' brk = zone_bits r0 r1"
    by (auto simp: bm_bit_cnt_def length_Suc_conv numeral_eq_Suc)
  have "first_run (bm_view m' brk) 0 (unat (zone_bits r0 r1)) False = Some 0"
    using assms(4) by (simp add: first_run_Some cnt)
  then have "bitmap_scan m' brk 0 (zone_bits r0 r1) 0 = 0"
    by (simp add: bitmap_scan_eq)
  moreover have "r1 - r0 - ?size \<noteq> 0"
    using assms(1) lim by (auto simp: word_unat_eq_iff)
  ultimately have "frame_alloc zs' (zone_bits r0 r1) m' = (r0 + ?size, m')"
    by (simp add: zs' BITMAP_ERROR_def SIZE_MAX_def)
  moreover have "unat r1 - unat r0 < 4096 * unat (zone_bits r0 r1) + 4096"
    unfolding unat_zone_bits [OF le] by simp
  then have "unat r1 < unat r0 + unat ?size + 4096 * unat (zone_bits r0 r1)"
    using zone_overhead_bounds(1) [of r0 r1] assms(1) by linarith
  ultimately show ?thesis
    using lim base assms(1) by (simp add: zs' cnt del: frame_alloc.simps)
qed

text \<open>A region of eleven frames: the first four hold the bitmap, in 16 KiB.\<close>

lemma example_region: "zone_overhead 0x100000 0x10B000 = 0x4000" "zone_bits 0x100000 0x10B000 = 11"
  by (simp_all add: zone_overhead_def zone_bits_def paging_consts bitmap_buf_size_def byte_cnt_def
      elem_cnt_def DIV_ROUND_UP_def ELEM_BITS_def PAGE_ROUNDUP_def)

lemma page_map_high:
  assumes "0xC0000000 \<le> x"
  shows "page_map va pa n fl m x = m x"
proof -
  have "x \<notin> word_at (vtopte v)" for v
    using word_at_vtopte_below [of x v] assms by (auto simp: not_less)
  then show ?thesis by (simp add: page_map_pte_write pte_write_frame)
qed

theorem frame_alloc_beyond_region_witness:
  "\<exists>zs' m'. init_frame (0x100000 # 0x10B000 # replicate 14 0) 0xC0200000
       (replicate 8 \<lparr>pz_base = 0, pz_limit = 0, pz_bitmap = 0\<rparr>) (\<lambda>_. 0) = (0xC0204000, zs', m') \<and>
     frame_alloc zs' 11 m' = (pz_base (zs' ! 0), m') \<and> unat (pz_base (zs' ! 0)) + 4096 * 11 > 0x10B000"
proof -
  let ?zs = "replicate 8 \<lparr>pz_base = 0, pz_limit = 0, pz_bitmap = 0\<rparr>"
  let ?m' = "store32 0xC0200004 0xC0200008 (store32 0xC0200000 11
       (page_map 0xC0200000 0x100000 4 (PTE_V OR PTE_W) (\<lambda>_. 0)))"
  have rest: "0x100000 # 0x10B000 # replicate 14 (0::u32) = 0x100000 # 0x10B000 # 0 # 0 # replicate 12 0"
    by (simp add: numeral_eq_Suc)
  have init: "init_frame (0x100000 # 0x10B000 # replicate 14 0) 0xC0200000 ?zs (\<lambda>_. 0) = (0xC0204000,
      ?zs[0 := \<lparr>pz_base = 0x104000, pz_limit = 0x7000, pz_bitmap = 0xC0200000\<rparr>], ?m')"
    using init_frame_one_region [of "0x100000" "0x10B000" ?zs "replicate 12 0" "0xC0200000" "\<lambda>_. 0"]
    unfolding rest by (simp add: example_region paging_consts)
  have fields: "bm_bit_cnt ?m' 0xC0200000 = 11" "bm_bits ?m' 0xC0200000 = 0xC0200008"
    by (simp_all add: bm_bit_cnt_def bm_bits_def load32_store32_aligned aligned4_def)
  have "load32 ?m' 0xC0200008 = load32 (\<lambda>_. 0) 0xC0200008"
    by (rule load32_cong) (auto simp: word_at_def store32_outside page_map_high)
  then have word: "load32 ?m' 0xC0200008 = 0" by (simp add: load32_def)
  have "bitmap_test ?m' 0xC0200000 (of_nat k) = 0" if "k < 11" for k
  proof -
    have "elem_idx (of_nat k) = 0"
      using that by (simp add: elem_idx_def ELEM_BITS_def word_unat_eq_iff unat_div unat_of_nat)
    then show ?thesis using word by (simp add: bitmap_test_def fields)
  qed
  then have "run_at (bm_view ?m' 0xC0200000) 0 11 False"
    by (simp add: run_at_def bm_view_nth fields)
  then show ?thesis
    using frame_alloc_beyond_region [of "0x100000" "0x10B000" ?zs "replicate 12 0" "0xC0200000" "\<lambda>_. 0"]
      init unfolding rest by (simp add: example_region del: frame_alloc.simps)
qed

end
