(* ===== verification/Vmspace.thy ===== *)
theory Vmspace
  imports LinkedList Frame
begin

text \<open>
  \<^verbatim>\<open>kernel/page.c\<close>: the virtual address space. Two linked lists of zones, sorted by base,
  describe what is allocated in the user and in the kernel part; the kernel list starts with
  the static zone \<^verbatim>\<open>km0\<close>. The nodes live in a heap of \<^verbatim>\<open>struct vmzone\<close>; their memory comes
  from \<^verbatim>\<open>kmalloc\<close>, whose state is a field of the model and whose operations are arguments.
\<close>

section \<open>State\<close>

record vmzone =
  vz_base :: u32
  vz_limit :: u32
  vz_protect :: u32
  vz_next :: u32

record 'h vmspace =
  vz_heap :: "u32 \<Rightarrow> vmzone"
  kvmzone :: u32
  uvmzone :: u32
  vm_alloc :: 'h

definition set_vz_next :: "u32 \<Rightarrow> u32 \<Rightarrow> (u32 \<Rightarrow> vmzone) \<Rightarrow> (u32 \<Rightarrow> vmzone)" where
  "set_vz_next a b h = h(a := (h a)\<lparr>vz_next := b\<rparr>)"

definition get_vz_next :: "(u32 \<Rightarrow> vmzone) \<Rightarrow> u32 \<Rightarrow> u32" where
  "get_vz_next h a = vz_next (h a)"

interpretation vz: next_field get_vz_next set_vz_next
  by unfold_locales (simp add: get_vz_next_def set_vz_next_def)

definition sizeof_vmzone :: u32 where
  "sizeof_vmzone = 16"

section \<open>Operations\<close>

definition init_vmspace :: "u32 \<Rightarrow> u32 \<Rightarrow> 'h vmspace \<Rightarrow> 'h vmspace" where
  "init_vmspace km0 brk s = s\<lparr>vz_heap := (vz_heap s)(km0 :=
       \<lparr>vz_base = USER_MAX_ADDR, vz_limit = brk - USER_MAX_ADDR, vz_protect = VM_PROT_ALL, vz_next = NULL\<rparr>),
     kvmzone := km0, uvmzone := NULL\<rparr>"

definition zone_has :: "vmzone \<Rightarrow> u32 \<Rightarrow> bool" where
  "zone_has z va \<longleftrightarrow> vz_base z \<le> va \<and> va < vz_base z + vz_limit z"

text \<open>
  The search loop of \<open>page_alloc_in_addr\<close>: \<open>Some None\<close> where it returns \<open>SIZE_MAX\<close>, the
  pair \<open>(p, q)\<close> where it leaves the loop, \<open>None\<close> where it does not end.
\<close>

partial_function (option) in_addr_loop ::
    "(u32 \<Rightarrow> vmzone) \<Rightarrow> u32 \<Rightarrow> u32 \<Rightarrow> u32 \<Rightarrow> u32 \<Rightarrow> (u32 \<times> u32) option option" where
  "in_addr_loop h va sz p q =
     (if p \<noteq> NULL then
        if zone_has (h p) va then Some None
        else if va < vz_base (h p)
        then if va + sz > vz_base (h p) then Some None else Some (Some (p, q))
        else in_addr_loop h va sz (get_vz_next h p) p
      else Some (Some (p, q)))"

text \<open>Both allocators end by linking a fresh node between \<open>q\<close> and \<open>p\<close>; \<open>km\<close> is \<^verbatim>\<open>kmalloc\<close>.\<close>

definition link_zone ::
    "(u32 \<Rightarrow> 'h \<Rightarrow> u32 \<times> 'h) \<Rightarrow> u32 \<Rightarrow> u32 \<Rightarrow> u32 \<Rightarrow> u32 \<Rightarrow> u32 \<Rightarrow> 'h vmspace \<Rightarrow> 'h vmspace" where
  "link_zone km va sz prot p q s =
     (let (x, al) = km sizeof_vmzone (vm_alloc s);
          h1 = (vz_heap s)(x := (vz_heap s x)\<lparr>vz_base := va, vz_limit := sz, vz_protect := prot\<rparr>)
      in if q = NULL
         then s\<lparr>vz_heap := set_vz_next x p h1, uvmzone := x, vm_alloc := al\<rparr>
         else s\<lparr>vz_heap := set_vz_next q x (set_vz_next x (get_vz_next h1 q) h1), vm_alloc := al\<rparr>)"

definition page_alloc_in_addr ::
    "(u32 \<Rightarrow> 'h \<Rightarrow> u32 \<times> 'h) \<Rightarrow> u32 \<Rightarrow> u32 \<Rightarrow> u32 \<Rightarrow> 'h vmspace \<Rightarrow> (u32 \<times> 'h vmspace) option" where
  "page_alloc_in_addr km va npages prot s =
     (let sz = npages * PAGE_SIZE in
      if sint npages \<le> 0 then Some (SIZE_MAX, s)
      else if va AND PAGE_MASK \<noteq> 0 then Some (SIZE_MAX, s)
      else if va < USER_MIN_ADDR \<or> va \<ge> KERN_MAX_ADDR \<or> va + sz > KERN_MAX_ADDR then Some (SIZE_MAX, s)
      else if va < USER_MAX_ADDR \<and> va + sz > USER_MAX_ADDR then Some (SIZE_MAX, s)
      else
        (let p = (if va < USER_MAX_ADDR then uvmzone s else kvmzone s)
         in case in_addr_loop (vz_heap s) va sz p NULL of
              None \<Rightarrow> None
            | Some None \<Rightarrow> Some (SIZE_MAX, s)
            | Some (Some (p', q)) \<Rightarrow> Some (va, link_zone km va sz prot p' q s)))"

text \<open>The search loop of \<open>page_alloc\<close>: the candidate address and the two nodes around it.\<close>

partial_function (option) page_alloc_loop ::
    "(u32 \<Rightarrow> vmzone) \<Rightarrow> u32 \<Rightarrow> u32 \<Rightarrow> u32 \<Rightarrow> u32 \<Rightarrow> (u32 \<times> u32 \<times> u32) option" where
  "page_alloc_loop h sz va p q =
     (if p \<noteq> NULL then
        if va + sz \<le> vz_base (h p) then Some (va, p, q)
        else page_alloc_loop h sz (vz_base (h p) + vz_limit (h p)) (get_vz_next h p) p
      else Some (va, p, q))"

definition page_alloc ::
    "(u32 \<Rightarrow> 'h \<Rightarrow> u32 \<times> 'h) \<Rightarrow> u32 \<Rightarrow> u32 \<Rightarrow> u32 \<Rightarrow> 'h vmspace \<Rightarrow> (u32 \<times> 'h vmspace) option" where
  "page_alloc km npages prot user s =
     (let sz = npages * PAGE_SIZE; h = vz_heap s in
      if sint npages \<le> 0 then Some (SIZE_MAX, s)
      else
        (let p = (if user \<noteq> 0 then uvmzone s else kvmzone s);
             (va, p1, q1) = (if p = NULL then (USER_MIN_ADDR, p, NULL)
                             else (vz_base (h p) + vz_limit (h p), get_vz_next h p, p))
         in case page_alloc_loop h sz va p1 q1 of
              None \<Rightarrow> None
            | Some (va', p', q) \<Rightarrow>
                let top = (if user \<noteq> 0 then USER_MAX_ADDR else KERN_MAX_ADDR)
                in if va' \<ge> top \<or> va' + sz > top then Some (SIZE_MAX, s)
                   else Some (va', link_zone km va' sz prot p' q s)))"

text \<open>\<open>page_free\<close>: the node that starts at \<open>va\<close> with exactly this length, and its predecessor.\<close>

partial_function (option) page_free_loop ::
    "(u32 \<Rightarrow> vmzone) \<Rightarrow> u32 \<Rightarrow> u32 \<Rightarrow> u32 \<Rightarrow> u32 \<Rightarrow> (u32 \<times> u32) option option" where
  "page_free_loop h va sz p q =
     (if p \<noteq> NULL then
        if va = vz_base (h p) \<and> sz = vz_limit (h p) then Some (Some (p, q))
        else page_free_loop h va sz (get_vz_next h p) p
      else Some None)"

definition page_free ::
    "(u32 \<Rightarrow> 'h \<Rightarrow> 'h) \<Rightarrow> u32 \<Rightarrow> u32 \<Rightarrow> 'h vmspace \<Rightarrow> (int \<times> 'h vmspace) option" where
  "page_free kf va npages s =
     (let sz = npages * PAGE_SIZE; h = vz_heap s in
      if sint npages \<le> 0 then Some (-1, s)
      else if va = USER_MAX_ADDR then Some (-1, s)
      else
        (let p = (if va < USER_MAX_ADDR then uvmzone s else kvmzone s)
         in case page_free_loop h va sz p NULL of
              None \<Rightarrow> None
            | Some None \<Rightarrow> Some (-1, s)
            | Some (Some (p', q)) \<Rightarrow>
                let s1 = (if q = NULL then s\<lparr>uvmzone := get_vz_next h p'\<rparr>
                          else s\<lparr>vz_heap := set_vz_next q (get_vz_next h p') h\<rparr>)
                in Some (0, s1\<lparr>vm_alloc := kf p' (vm_alloc s1)\<rparr>)))"

partial_function (option) page_prot_loop :: "(u32 \<Rightarrow> vmzone) \<Rightarrow> u32 \<Rightarrow> u32 \<Rightarrow> u32 option" where
  "page_prot_loop h va p =
     (if p \<noteq> NULL then
        if zone_has (h p) va then Some (vz_protect (h p))
        else page_prot_loop h va (get_vz_next h p)
      else Some (- 1))"

definition page_prot :: "u32 \<Rightarrow> 'h vmspace \<Rightarrow> u32 option" where
  "page_prot va s = page_prot_loop (vz_heap s) va (if va < USER_MAX_ADDR then uvmzone s else kvmzone s)"

section \<open>Sorted zones\<close>

text \<open>
  The invariant of a zone list: bases ascend, zones do not overlap, and all lie between two
  addresses. Ends of zones are natural numbers, so nothing wraps.
\<close>

definition z_end :: "vmzone \<Rightarrow> nat" where
  "z_end z = unat (vz_base z) + unat (vz_limit z)"

fun zones_in :: "nat \<Rightarrow> nat \<Rightarrow> vmzone list \<Rightarrow> bool" where
  "zones_in lo hi [] \<longleftrightarrow> lo \<le> hi"
| "zones_in lo hi (z # zs) \<longleftrightarrow> lo \<le> unat (vz_base z) \<and> zones_in (z_end z) hi zs"

definition zone_conflict :: "nat \<Rightarrow> nat \<Rightarrow> vmzone \<Rightarrow> bool" where
  "zone_conflict va sz z \<longleftrightarrow> (unat (vz_base z) \<le> va \<and> va < z_end z) \<or>
     (va < unat (vz_base z) \<and> unat (vz_base z) < va + sz)"

fun vm_lookup :: "vmzone list \<Rightarrow> u32 \<Rightarrow> u32 option" where
  "vm_lookup [] va = None"
| "vm_lookup (z # zs) va = (if zone_has z va then Some (vz_protect z) else vm_lookup zs va)"

lemma zones_in_bounds: "zones_in lo hi zs \<Longrightarrow> lo \<le> hi \<and> (\<forall>z\<in>set zs. lo \<le> unat (vz_base z) \<and> z_end z \<le> hi)"
proof (induction zs arbitrary: lo)
  case (Cons z zs)
  then have "z_end z \<le> hi \<and> (\<forall>y\<in>set zs. z_end z \<le> unat (vz_base y) \<and> z_end y \<le> hi)"
    by (intro Cons.IH) simp
  moreover have "unat (vz_base z) \<le> z_end z" by (simp add: z_end_def)
  ultimately show ?case using Cons.prems by auto
qed simp

lemma zones_in_append:
  "zones_in lo hi (xs @ ys) \<longleftrightarrow>
     zones_in lo (if xs = [] then lo else z_end (last xs)) xs \<and>
     zones_in (if xs = [] then lo else z_end (last xs)) hi ys"
  by (induction xs arbitrary: lo) auto

lemma zones_in_lower: "zones_in lo hi zs \<Longrightarrow> lo' \<le> lo \<Longrightarrow> zones_in lo' hi zs"
  by (cases zs) auto

lemma zones_in_raise:
  "zones_in lo hi zs \<Longrightarrow> lo' \<le> hi \<Longrightarrow> (zs \<noteq> [] \<Longrightarrow> lo' \<le> unat (vz_base (hd zs))) \<Longrightarrow> zones_in lo' hi zs"
  by (cases zs) auto

lemma zones_in_insert:
  assumes "zones_in lo hi (xs @ ys)" "if xs = [] then lo \<le> unat (vz_base z) else z_end (last xs) \<le> unat (vz_base z)"
    "z_end z \<le> hi" "ys \<noteq> [] \<Longrightarrow> z_end z \<le> unat (vz_base (hd ys))"
  shows "zones_in lo hi (xs @ z # ys)"
  using assms by (auto simp: zones_in_append intro: zones_in_raise split: if_splits)

lemma zones_in_remove: "zones_in lo hi (xs @ z # ys) \<Longrightarrow> zones_in lo hi (xs @ ys)"
proof -
  assume "zones_in lo hi (xs @ z # ys)"
  moreover have "unat (vz_base z) \<le> z_end z" by (simp add: z_end_def)
  ultimately show ?thesis by (auto simp: zones_in_append intro: zones_in_lower)
qed

lemma zone_has_iff:
  assumes "z_end z < 4294967296"
  shows "zone_has z a \<longleftrightarrow> unat (vz_base z) \<le> unat a \<and> unat a < z_end z"
  using assms by (simp add: zone_has_def z_end_def word_le_nat_alt word_less_nat_alt unat_add_no_wrap)

lemma vm_lookup_append:
  "vm_lookup (xs @ ys) a = (case vm_lookup xs a of None \<Rightarrow> vm_lookup ys a | Some v \<Rightarrow> Some v)"
  by (induction xs) auto

lemma vm_lookup_None: "vm_lookup zs a = None \<longleftrightarrow> (\<forall>z\<in>set zs. \<not> zone_has z a)"
  by (induction zs) auto

lemma zones_in_last: "zones_in lo hi xs \<Longrightarrow> x \<in> set xs \<Longrightarrow> z_end x \<le> z_end (last xs)"
proof (induction xs arbitrary: lo)
  case (Cons y ys)
  show ?case
  proof (cases "ys = []")
    case False
    with Cons.prems zones_in_bounds [of "z_end y" hi ys] have "z_end y \<le> unat (vz_base (last ys))"
      by auto
    then have "z_end y \<le> z_end (last ys)" by (simp add: z_end_def)
    with False Cons show ?thesis by auto
  qed (use Cons.prems in auto)
qed simp

text \<open>What a lookup finds after a zone is inserted, in the order of the list.\<close>

lemma vm_lookup_insert:
  assumes "zones_in lo hi (xs @ z # ys)" "hi < 4294967296"
  shows "vm_lookup (xs @ z # ys) a = (if zone_has z a then Some (vz_protect z) else vm_lookup (xs @ ys) a)"
proof -
  have "vm_lookup xs a = None" if "zone_has z a"
  proof -
    have "\<not> zone_has x a" if x: "x \<in> set xs" for x
    proof -
      have b: "z_end x \<le> hi" "z_end z \<le> hi" using zones_in_bounds [OF assms(1)] x by auto
      have "zones_in lo (z_end (last xs)) xs" "z_end (last xs) \<le> unat (vz_base z)"
        using assms(1) x by (auto simp: zones_in_append split: if_splits)
      then have "z_end x \<le> unat (vz_base z)" using zones_in_last [of lo _ xs x] x by fastforce
      then show ?thesis
        using \<open>zone_has z a\<close> b assms(2) by (simp add: zone_has_iff)
    qed
    then show ?thesis by (simp add: vm_lookup_None)
  qed
  then show ?thesis by (auto simp: vm_lookup_append split: option.split)
qed

section \<open>The loops on a list of nodes\<close>

lemma page_prot_loop_list:
  "linked_list (get_vz_next h) p as \<Longrightarrow>
   page_prot_loop h va p = Some (case vm_lookup (map h as) va of None \<Rightarrow> - 1 | Some v \<Rightarrow> v)"
proof (induction as arbitrary: p)
  case Nil
  then show ?case by (simp add: page_prot_loop.simps)
next
  case (Cons a as)
  then show ?case by (subst page_prot_loop.simps) simp
qed

text \<open>
  The position a search leaves the list at: the nodes \<open>bs\<close> behind it, \<open>cs\<close> from it on; \<open>q\<close>
  is the predecessor the search started with.
\<close>

definition stop_at :: "u32 list \<Rightarrow> u32 \<Rightarrow> u32 list \<Rightarrow> u32 list \<Rightarrow> u32 \<Rightarrow> u32 \<Rightarrow> bool" where
  "stop_at as q bs cs p' q' \<longleftrightarrow> as = bs @ cs \<and> p' = (if cs = [] then NULL else hd cs) \<and>
     q' = (if bs = [] then q else last bs)"

lemma stop_at_Cons: "stop_at as a bs cs p' q' \<Longrightarrow> stop_at (a # as) q (a # bs) cs p' q'"
  by (auto simp: stop_at_def)

lemma page_free_loop_list:
  assumes "linked_list (get_vz_next h) p as"
  shows "(page_free_loop h va sz p q = Some None \<and> (\<forall>a\<in>set as. \<not> (va = vz_base (h a) \<and> sz = vz_limit (h a)))) \<or>
    (\<exists>p' q' bs cs. page_free_loop h va sz p q = Some (Some (p', q')) \<and> stop_at as q bs (p' # cs) p' q' \<and>
       va = vz_base (h p') \<and> sz = vz_limit (h p'))"
  using assms
proof (induction as arbitrary: p q)
  case Nil
  then show ?case by (simp add: page_free_loop.simps)
next
  case (Cons a as)
  then have p: "p = a" "a \<noteq> NULL" and l: "linked_list (get_vz_next h) (get_vz_next h a) as" by auto
  show ?case
  proof (cases "va = vz_base (h a) \<and> sz = vz_limit (h a)")
    case True
    with p have "page_free_loop h va sz p q = Some (Some (a, q))"
      by (subst page_free_loop.simps) simp
    moreover have "stop_at (a # as) q [] (a # as) a q" by (simp add: stop_at_def)
    ultimately show ?thesis using True by blast
  next
    case False
    with p have eq: "page_free_loop h va sz p q = page_free_loop h va sz (get_vz_next h a) a"
      by (subst page_free_loop.simps) auto
    from Cons.IH [OF l, of a] show ?thesis
    proof (elim disjE exE conjE)
      fix p' q' bs cs
      assume "page_free_loop h va sz (get_vz_next h a) a = Some (Some (p', q'))"
        "stop_at as a bs (p' # cs) p' q'" "va = vz_base (h p')" "sz = vz_limit (h p')"
      then show ?thesis using stop_at_Cons [of as a bs "p' # cs" p' q' q] unfolding eq by blast
    qed (use False eq in auto)
  qed
qed

lemma in_addr_loop_list:
  assumes "linked_list (get_vz_next h) p as" "zones_in lo hi (map h as)" "hi < 4294967296"
    "unat va + unat sz < 4294967296"
  shows "(in_addr_loop h va sz p q = Some None \<and> (\<exists>a\<in>set as. zone_conflict (unat va) (unat sz) (h a))) \<or>
    (\<exists>p' q' bs cs. in_addr_loop h va sz p q = Some (Some (p', q')) \<and> stop_at as q bs cs p' q' \<and>
        (bs \<noteq> [] \<longrightarrow> z_end (h (last bs)) \<le> unat va) \<and>
        (cs \<noteq> [] \<longrightarrow> unat va + unat sz \<le> unat (vz_base (h (hd cs))) \<and> va < vz_base (h (hd cs))) \<and>
        (\<forall>a\<in>set as. \<not> zone_conflict (unat va) (unat sz) (h a)))"
  using assms(1,2)
proof (induction as arbitrary: p q lo)
  case Nil
  then show ?case by (simp add: in_addr_loop.simps stop_at_def)
next
  case (Cons a as)
  then have p: "p = a" "a \<noteq> NULL" and l: "linked_list (get_vz_next h) (get_vz_next h a) as"
    and z: "zones_in (z_end (h a)) hi (map h as)" by auto
  have "z_end (h a) < 4294967296"
    using zones_in_bounds [OF Cons.prems(2)] assms(3) by auto
  then have has: "zone_has (h a) va \<longleftrightarrow> unat (vz_base (h a)) \<le> unat va \<and> unat va < z_end (h a)"
    by (rule zone_has_iff)
  have sum: "unat (va + sz) = unat va + unat sz"
    using assms(4) by (rule unat_add_no_wrap)
  show ?case
  proof (cases "zone_has (h a) va")
    case True
    with p have "in_addr_loop h va sz p q = Some None" by (subst in_addr_loop.simps) simp
    with True has show ?thesis by (auto simp: zone_conflict_def)
  next
    case out: False
    show ?thesis
    proof (cases "va < vz_base (h a)")
      case True
      then have eq: "in_addr_loop h va sz p q =
          (if va + sz > vz_base (h a) then Some None else Some (Some (a, q)))"
        using p out by (subst in_addr_loop.simps) simp
      show ?thesis
      proof (cases "va + sz > vz_base (h a)")
        case c: True
        then have "zone_conflict (unat va) (unat sz) (h a)"
          using True sum by (simp add: zone_conflict_def word_less_nat_alt)
        with c eq show ?thesis by simp
      next
        case c: False
        then have le: "unat va + unat sz \<le> unat (vz_base (h a))"
          by (simp add: not_less word_le_nat_alt sum)
        have "\<not> zone_conflict (unat va) (unat sz) (h b)" if "b \<in> set (a # as)" for b
          using zones_in_bounds [OF z] that True le
          by (auto simp: zone_conflict_def z_end_def word_less_nat_alt)
        moreover have "stop_at (a # as) q [] (a # as) a q" by (simp add: stop_at_def)
        ultimately show ?thesis using c le True unfolding eq
          by (intro disjI2 exI [of _ a] exI [of _ q] exI [of _ "[]"] exI [of _ "a # as"]) simp
      qed
    next
      case False
      with p out have eq: "in_addr_loop h va sz p q = in_addr_loop h va sz (get_vz_next h a) a"
        by (subst in_addr_loop.simps) simp
      from False out have a: "z_end (h a) \<le> unat va" "\<not> zone_conflict (unat va) (unat sz) (h a)"
        by (auto simp: has zone_conflict_def word_less_nat_alt)
      from Cons.IH [OF l z, of a] show ?thesis
      proof (elim disjE exE conjE)
        fix p' q' bs cs
        assume r: "in_addr_loop h va sz (get_vz_next h a) a = Some (Some (p', q'))" "stop_at as a bs cs p' q'"
          "bs \<noteq> [] \<longrightarrow> z_end (h (last bs)) \<le> unat va"
          "cs \<noteq> [] \<longrightarrow> unat va + unat sz \<le> unat (vz_base (h (hd cs))) \<and> va < vz_base (h (hd cs))"
          "\<forall>a\<in>set as. \<not> zone_conflict (unat va) (unat sz) (h a)"
        with a show ?thesis unfolding eq
          by (intro disjI2 exI [of _ p'] exI [of _ q'] exI [of _ "a # bs"] exI [of _ cs])
            (auto intro: stop_at_Cons)
      qed (use eq in auto)
    qed
  qed
qed

section \<open>The invariant of the address space\<close>

text \<open>
  \<open>us\<close> and \<open>ks\<close> are the nodes of the user and of the kernel list. The two lists share no
  node, both are sorted and within their part of the address space, and the kernel list
  starts with \<^verbatim>\<open>km0\<close>, which begins at \<open>USER_MAX_ADDR\<close>.
\<close>

definition vm_ok :: "'h vmspace \<Rightarrow> u32 list \<Rightarrow> u32 list \<Rightarrow> bool" where
  "vm_ok s us ks \<longleftrightarrow>
     linked_list (get_vz_next (vz_heap s)) (uvmzone s) us \<and>
     linked_list (get_vz_next (vz_heap s)) (kvmzone s) ks \<and>
     set us \<inter> set ks = {} \<and>
     zones_in (unat USER_MIN_ADDR) (unat USER_MAX_ADDR) (map (vz_heap s) us) \<and>
     zones_in (unat USER_MAX_ADDR) (unat KERN_MAX_ADDR) (map (vz_heap s) ks) \<and>
     ks \<noteq> [] \<and> vz_base (vz_heap s (hd ks)) = USER_MAX_ADDR"

definition fresh_node :: "(u32 \<Rightarrow> 'h \<Rightarrow> u32 \<times> 'h) \<Rightarrow> 'h vmspace \<Rightarrow> u32 list \<Rightarrow> u32 list \<Rightarrow> bool" where
  "fresh_node km s us ks \<longleftrightarrow>
     fst (km sizeof_vmzone (vm_alloc s)) \<noteq> NULL \<and> fst (km sizeof_vmzone (vm_alloc s)) \<notin> set us \<union> set ks"

text \<open>The protection of an address, as a lookup in the list of its part of the address space.\<close>

definition vm_prot :: "'h vmspace \<Rightarrow> u32 list \<Rightarrow> u32 list \<Rightarrow> u32 \<Rightarrow> u32 option" where
  "vm_prot s us ks a = vm_lookup (map (vz_heap s) (if a < USER_MAX_ADDR then us else ks)) a"

lemma vm_ok_page_prot:
  "vm_ok s us ks \<Longrightarrow> page_prot a s = Some (case vm_prot s us ks a of None \<Rightarrow> - 1 | Some v \<Rightarrow> v)"
  by (simp add: page_prot_def vm_prot_def vm_ok_def page_prot_loop_list)

lemma init_vmspace_ok:
  assumes "km0 \<noteq> NULL" "USER_MAX_ADDR \<le> brk" "brk \<le> KERN_MAX_ADDR"
  shows "vm_ok (init_vmspace km0 brk s) [] [km0]"
proof -
  have "unat (brk - USER_MAX_ADDR) = unat brk - unat USER_MAX_ADDR"
    using assms(2) by (rule unat_sub_no_wrap)
  then show ?thesis
    using assms by (simp add: vm_ok_def init_vmspace_def get_vz_next_def z_end_def word_le_nat_alt paging_consts)
qed

text \<open>Linking a fresh zone into the user or the kernel list, at the place a search stopped.\<close>

definition new_zone :: "u32 \<Rightarrow> u32 \<Rightarrow> u32 \<Rightarrow> vmzone \<Rightarrow> bool" where
  "new_zone va sz prot z \<longleftrightarrow> vz_base z = va \<and> vz_limit z = sz \<and> vz_protect z = prot"

definition same_zone :: "vmzone \<Rightarrow> vmzone \<Rightarrow> bool" where
  "same_zone y z \<longleftrightarrow> vz_base y = vz_base z \<and> vz_limit y = vz_limit z \<and> vz_protect y = vz_protect z"

lemma same_zone_lookup:
  "(\<And>a. a \<in> set as \<Longrightarrow> same_zone (h a) (h' a)) \<Longrightarrow> vm_lookup (map h as) va = vm_lookup (map h' as) va"
  by (induction as) (auto simp: same_zone_def zone_has_def)

lemma same_zone_zones_in:
  "(\<And>a. a \<in> set as \<Longrightarrow> same_zone (h a) (h' a)) \<Longrightarrow> zones_in lo hi (map h as) = zones_in lo hi (map h' as)"
  by (induction as arbitrary: lo) (auto simp: same_zone_def z_end_def)

lemma link_zone_fields:
  assumes "fst (km sizeof_vmzone (vm_alloc s)) = x" "q \<noteq> x"
  shows "new_zone va sz prot (vz_heap (link_zone km va sz prot p q s) x)"
    "\<And>a. a \<noteq> x \<Longrightarrow> same_zone (vz_heap (link_zone km va sz prot p q s) a) (vz_heap s a)"
    "kvmzone (link_zone km va sz prot p q s) = kvmzone s"
    "uvmzone (link_zone km va sz prot p q s) = (if q = NULL then x else uvmzone s)"
    "get_vz_next (vz_heap (link_zone km va sz prot p q s)) =
       (if q = NULL then get_vz_next (set_vz_next x p (vz_heap s))
        else get_vz_next (set_vz_next q x (set_vz_next x (get_vz_next (vz_heap s) q) (vz_heap s))))"
  using assms
  by (auto simp: link_zone_def new_zone_def same_zone_def set_vz_next_def get_vz_next_def fun_eq_iff Let_def
      split: prod.splits)

lemma link_zone_list:
  assumes "linked_list (get_vz_next (vz_heap s)) p0 as" "stop_at as NULL bs cs p q"
    "fst (km sizeof_vmzone (vm_alloc s)) = x" "x \<noteq> NULL" "x \<notin> set as"
  shows "linked_list (get_vz_next (vz_heap (link_zone km va sz prot p q s))) (if q = NULL then x else p0) (bs @ x # cs)"
    "q = NULL \<longleftrightarrow> bs = []"
proof -
  have as: "as = bs @ cs" using assms(2) by (simp add: stop_at_def)
  have nn: "NULL \<notin> set as" using assms(1) by (rule linked_list_not_NULL)
  show q: "q = NULL \<longleftrightarrow> bs = []"
    using assms(2) nn by (cases bs rule: rev_cases) (auto simp: stop_at_def as)
  have qx: "q \<noteq> x"
    using assms(2,4,5) by (cases bs rule: rev_cases) (auto simp: stop_at_def as)
  note nx = link_zone_fields(5) [where km = km and s = s and va = va and sz = sz and prot = prot and p = p, OF assms(3) qx]
  show "linked_list (get_vz_next (vz_heap (link_zone km va sz prot p q s))) (if q = NULL then x else p0) (bs @ x # cs)"
  proof (cases "bs = []")
    case True
    then have "p = p0" using assms(1,2) as by (cases cs) (auto simp: stop_at_def)
    then show ?thesis
      using True q assms vz.push_front [of "vz_heap s" p0 cs x] as unfolding nx by simp
  next
    case False
    then obtain bs' b where bs: "bs = bs' @ [b]" by (cases bs rule: rev_cases) auto
    then have "q = b" using assms(2) by (simp add: stop_at_def)
    then show ?thesis
      using False q assms vz.insert_after [of "vz_heap s" p0 bs' b cs x] as bs unfolding nx by simp
  qed
qed

text \<open>
  Inserting into one of the two lists keeps the other as it is. The statement is for both:
  \<open>as\<close> is the list inserted into, starting at \<open>p0\<close>, \<open>os\<close> the other one.
\<close>

lemma link_zone_other:
  assumes "linked_list (get_vz_next (vz_heap s)) p1 os" "set as \<inter> set os = {}" "stop_at as NULL bs cs p q"
    "fst (km sizeof_vmzone (vm_alloc s)) = x" "x \<noteq> NULL" "x \<notin> set as" "x \<notin> set os"
  shows "linked_list (get_vz_next (vz_heap (link_zone km va sz prot p q s))) p1 os"
proof -
  have qx: "q \<noteq> x"
    using assms(3,5,6) by (cases bs rule: rev_cases) (auto simp: stop_at_def)
  have "q = NULL \<or> q \<in> set as"
    using assms(3) by (cases bs rule: rev_cases) (auto simp: stop_at_def)
  then have "q \<notin> set os"
    using assms(2) linked_list_not_NULL [OF assms(1)] by auto
  then show ?thesis
    using assms(1,7) by (simp add: link_zone_fields(5) [of km s x, OF assms(4) qx] vz.list_frame)
qed

lemma link_zone_zones:
  assumes "zones_in lo hi (map (vz_heap s) as)" "hi < 4294967296" "stop_at as NULL bs cs p q"
    "fst (km sizeof_vmzone (vm_alloc s)) = x" "x \<noteq> NULL" "x \<notin> set as"
    "lo \<le> unat va" "unat va + unat sz \<le> hi"
    "bs \<noteq> [] \<longrightarrow> z_end (vz_heap s (last bs)) \<le> unat va"
    "cs \<noteq> [] \<longrightarrow> unat va + unat sz \<le> unat (vz_base (vz_heap s (hd cs)))"
    "h' = vz_heap (link_zone km va sz prot p q s)"
  shows "zones_in lo hi (map h' (bs @ x # cs))"
    "vm_lookup (map h' (bs @ x # cs)) a =
      (if unat va \<le> unat a \<and> unat a < unat va + unat sz then Some prot else vm_lookup (map (vz_heap s) as) a)"
proof -
  let ?h = "vz_heap s"
  have as: "as = bs @ cs" using assms(3) by (simp add: stop_at_def)
  have qx: "q \<noteq> x"
    using assms(3,5,6) by (cases bs rule: rev_cases) (auto simp: stop_at_def)
  note f = link_zone_fields(1,2) [where km = km and s = s and va = va and sz = sz and prot = prot and p = p, OF assms(4) qx, folded assms(11)]
  have same: "same_zone (h' y) (?h y)" if "y \<in> set bs \<union> set cs" for y
    using that f(2) [of y] assms(6) as by auto
  then have bs: "same_zone (h' y) (?h y)" if "y \<in> set bs" for y using that by simp
  from same have cs: "same_zone (h' y) (?h y)" if "y \<in> set cs" for y using that by simp
  have x: "vz_base (h' x) = va" "vz_limit (h' x) = sz" "vz_protect (h' x) = prot"
    using f(1) by (simp_all add: new_zone_def)
  have "zones_in lo hi (map h' (bs @ cs))"
    using assms(1) same_zone_zones_in [of "bs @ cs" h' ?h] same as by auto
  moreover have "bs \<noteq> [] \<Longrightarrow> z_end (h' (last bs)) \<le> unat va"
    using assms(9) bs [of "last bs"] by (simp add: same_zone_def z_end_def)
  moreover have "cs \<noteq> [] \<Longrightarrow> unat va + unat sz \<le> unat (vz_base (h' (hd cs)))"
    using assms(10) cs [of "hd cs"] by (simp add: same_zone_def)
  ultimately show z: "zones_in lo hi (map h' (bs @ x # cs))"
    using zones_in_insert [of lo hi "map h' bs" "map h' cs" "h' x"] assms(7,8)
    by (auto simp: x z_end_def last_map hd_map)
  have "z_end (h' x) < 4294967296"
    using assms(2,8) by (simp add: z_end_def x)
  then have "zone_has (h' x) a \<longleftrightarrow> unat va \<le> unat a \<and> unat a < unat va + unat sz"
    by (simp add: zone_has_iff x) (simp add: z_end_def x)
  moreover have "vm_lookup (map h' (bs @ cs)) a = vm_lookup (map ?h as) a"
    unfolding as using same by (intro same_zone_lookup) auto
  ultimately show "vm_lookup (map h' (bs @ x # cs)) a =
      (if unat va \<le> unat a \<and> unat a < unat va + unat sz then Some prot else vm_lookup (map ?h as) a)"
    using vm_lookup_insert [of lo hi "map h' bs" "h' x" "map h' cs" a] z assms(2) by (simp add: x)
qed

lemma same_zones_other:
  assumes "fst (km sizeof_vmzone (vm_alloc s)) = x" "q \<noteq> x" "x \<notin> set os"
  shows "zones_in lo hi (map (vz_heap (link_zone km va sz prot p q s)) os) = zones_in lo hi (map (vz_heap s) os)"
    "vm_lookup (map (vz_heap (link_zone km va sz prot p q s)) os) a = vm_lookup (map (vz_heap s) os) a"
proof -
  have same: "same_zone (vz_heap (link_zone km va sz prot p q s) y) (vz_heap s y)" if "y \<in> set os" for y
    using that assms by (intro link_zone_fields(2) [where x = x]) auto
  then show "zones_in lo hi (map (vz_heap (link_zone km va sz prot p q s)) os) = zones_in lo hi (map (vz_heap s) os)"
    by (rule same_zone_zones_in)
  from same show "vm_lookup (map (vz_heap (link_zone km va sz prot p q s)) os) a = vm_lookup (map (vz_heap s) os) a"
    by (rule same_zone_lookup)
qed

definition in_region :: "u32 \<Rightarrow> u32 \<Rightarrow> u32 \<Rightarrow> bool" where
  "in_region va sz a \<longleftrightarrow> unat va \<le> unat a \<and> unat a < unat va + unat sz"

lemma link_user_zone:
  assumes "vm_ok s us ks" "fresh_node km s us ks" "stop_at us NULL bs cs p q"
    "USER_MIN_ADDR \<le> va" "unat va + unat sz \<le> unat USER_MAX_ADDR"
    "bs \<noteq> [] \<longrightarrow> z_end (vz_heap s (last bs)) \<le> unat va"
    "cs \<noteq> [] \<longrightarrow> unat va + unat sz \<le> unat (vz_base (vz_heap s (hd cs)))"
  shows "\<exists>us'. vm_ok (link_zone km va sz prot p q s) us' ks \<and>
    (\<forall>a. vm_prot (link_zone km va sz prot p q s) us' ks a =
       (if in_region va sz a then Some prot else vm_prot s us ks a)) \<and>
    set us' = insert (fst (km sizeof_vmzone (vm_alloc s))) (set us) \<and>
    new_zone va sz prot (vz_heap (link_zone km va sz prot p q s) (fst (km sizeof_vmzone (vm_alloc s))))"
proof -
  let ?x = "fst (km sizeof_vmzone (vm_alloc s))"
  let ?s = "link_zone km va sz prot p q s"
  have x: "?x \<noteq> NULL" "?x \<notin> set us" "?x \<notin> set ks" using assms(2) by (auto simp: fresh_node_def)
  have us: "linked_list (get_vz_next (vz_heap s)) (uvmzone s) us"
    and ks: "linked_list (get_vz_next (vz_heap s)) (kvmzone s) ks" and dis: "set us \<inter> set ks = {}"
    and zu: "zones_in (unat USER_MIN_ADDR) (unat USER_MAX_ADDR) (map (vz_heap s) us)"
    and zk: "zones_in (unat USER_MAX_ADDR) (unat KERN_MAX_ADDR) (map (vz_heap s) ks)"
    and km0: "ks \<noteq> []" "vz_base (vz_heap s (hd ks)) = USER_MAX_ADDR"
    using assms(1) by (auto simp: vm_ok_def)
  have split: "us = bs @ cs" using assms(3) by (simp add: stop_at_def)
  have qx: "q \<noteq> ?x"
    using assms(3) x by (cases bs rule: rev_cases) (auto simp: stop_at_def)
  have "linked_list (get_vz_next (vz_heap ?s)) (uvmzone ?s) (bs @ ?x # cs)"
    using link_zone_list(1) [where km = km and s = s and x = ?x, OF us assms(3) refl x(1,2)] link_zone_fields(4) [of km s ?x q, OF refl qx] by simp
  moreover have "linked_list (get_vz_next (vz_heap ?s)) (kvmzone ?s) ks"
    using link_zone_other [where km = km and s = s and x = ?x, OF ks dis assms(3) refl x] link_zone_fields(3) [of km s ?x q, OF refl qx] by simp
  moreover note zones = link_zone_zones [where km = km and s = s and x = ?x and as = us and bs = bs and cs = cs and p = p and q = q and prot = prot,
      OF zu _ assms(3) refl x(1,2) _ assms(5,6,7) refl]
  have "zones_in (unat USER_MIN_ADDR) (unat USER_MAX_ADDR) (map (vz_heap ?s) (bs @ ?x # cs))"
    using assms(4) by (intro zones(1)) (simp_all add: paging_consts word_le_nat_alt)
  moreover have "zones_in (unat USER_MAX_ADDR) (unat KERN_MAX_ADDR) (map (vz_heap ?s) ks)"
    using zk by (simp add: same_zones_other(1) [where km = km and s = s and x = ?x, OF refl qx x(3)])
  moreover have "same_zone (vz_heap ?s (hd ks)) (vz_heap s (hd ks))"
    using km0(1) x(3) by (intro link_zone_fields(2) [where km = km and s = s and x = ?x, OF refl qx]) (metis hd_in_set)
  then have "vz_base (vz_heap ?s (hd ks)) = USER_MAX_ADDR"
    using km0(2) by (simp add: same_zone_def)
  ultimately have ok: "vm_ok ?s (bs @ ?x # cs) ks"
    using dis x km0(1) split by (auto simp: vm_ok_def)
  have "vm_lookup (map (vz_heap ?s) (bs @ ?x # cs)) a =
      (if in_region va sz a then Some prot else vm_lookup (map (vz_heap s) us) a)" for a
    using assms(4) unfolding in_region_def
    by (intro zones(2)) (simp_all add: paging_consts word_le_nat_alt)
  moreover have "in_region va sz a \<Longrightarrow> a < USER_MAX_ADDR" for a
    using assms(5) by (simp add: in_region_def word_less_nat_alt)
  ultimately have "vm_prot ?s (bs @ ?x # cs) ks a = (if in_region va sz a then Some prot else vm_prot s us ks a)" for a
    using same_zones_other(2) [where km = km and s = s and x = ?x, OF refl qx x(3)] by (auto simp: vm_prot_def simp del: map_append)
  moreover have "set (bs @ ?x # cs) = insert ?x (set us)" by (simp add: split)
  ultimately show ?thesis using ok link_zone_fields(1) [of km s ?x q va sz prot p, OF refl qx] by blast
qed

lemma link_kernel_zone:
  assumes "vm_ok s us ks" "fresh_node km s us ks" "stop_at ks NULL bs cs p q" "bs \<noteq> []"
    "unat va + unat sz \<le> unat KERN_MAX_ADDR"
    "z_end (vz_heap s (last bs)) \<le> unat va"
    "cs \<noteq> [] \<longrightarrow> unat va + unat sz \<le> unat (vz_base (vz_heap s (hd cs)))"
  shows "\<exists>ks'. vm_ok (link_zone km va sz prot p q s) us ks' \<and>
    (\<forall>a. vm_prot (link_zone km va sz prot p q s) us ks' a =
       (if in_region va sz a then Some prot else vm_prot s us ks a)) \<and>
    set ks' = insert (fst (km sizeof_vmzone (vm_alloc s))) (set ks) \<and> hd ks' = hd ks \<and>
    new_zone va sz prot (vz_heap (link_zone km va sz prot p q s) (fst (km sizeof_vmzone (vm_alloc s))))"
proof -
  let ?x = "fst (km sizeof_vmzone (vm_alloc s))"
  let ?s = "link_zone km va sz prot p q s"
  have x: "?x \<noteq> NULL" "?x \<notin> set us" "?x \<notin> set ks" using assms(2) by (auto simp: fresh_node_def)
  have us: "linked_list (get_vz_next (vz_heap s)) (uvmzone s) us"
    and ks: "linked_list (get_vz_next (vz_heap s)) (kvmzone s) ks" and dis: "set ks \<inter> set us = {}"
    and zu: "zones_in (unat USER_MIN_ADDR) (unat USER_MAX_ADDR) (map (vz_heap s) us)"
    and zk: "zones_in (unat USER_MAX_ADDR) (unat KERN_MAX_ADDR) (map (vz_heap s) ks)"
    and km0: "ks \<noteq> []" "vz_base (vz_heap s (hd ks)) = USER_MAX_ADDR"
    using assms(1) by (auto simp: vm_ok_def)
  have split: "ks = bs @ cs" using assms(3) by (simp add: stop_at_def)
  have qx: "q \<noteq> ?x"
    using assms(3) x by (cases bs rule: rev_cases) (auto simp: stop_at_def)
  have qn: "q \<noteq> NULL"
    using link_zone_list(2) [where km = km and s = s and x = ?x, OF ks assms(3) refl x(1,3)] assms(4) by simp
  have low: "unat USER_MAX_ADDR \<le> unat va"
  proof -
    have "last bs \<in> set ks" using assms(4) split by simp
    then have "unat USER_MAX_ADDR \<le> unat (vz_base (vz_heap s (last bs)))"
      using zones_in_bounds [OF zk] by auto
    then show ?thesis using assms(6) by (simp add: z_end_def)
  qed
  have "linked_list (get_vz_next (vz_heap ?s)) (kvmzone ?s) (bs @ ?x # cs)"
    using link_zone_list(1) [where km = km and s = s and x = ?x, OF ks assms(3) refl x(1,3)] qn
      link_zone_fields(3) [of km s ?x q, OF refl qx] by simp
  moreover have "linked_list (get_vz_next (vz_heap ?s)) (uvmzone ?s) us"
    using link_zone_other [where km = km and s = s and x = ?x, OF us dis assms(3) refl x(1,3,2)] qn
      link_zone_fields(4) [of km s ?x q, OF refl qx] by simp
  moreover note zones = link_zone_zones [where km = km and s = s and x = ?x and as = ks and bs = bs and cs = cs and p = p and q = q and prot = prot,
      OF zk _ assms(3) refl x(1,3) low assms(5) _ assms(7) refl]
  have "zones_in (unat USER_MAX_ADDR) (unat KERN_MAX_ADDR) (map (vz_heap ?s) (bs @ ?x # cs))"
    using assms(6) by (intro zones(1)) (simp_all add: paging_consts)
  moreover have "zones_in (unat USER_MIN_ADDR) (unat USER_MAX_ADDR) (map (vz_heap ?s) us)"
    using zu by (simp add: same_zones_other(1) [where km = km and s = s and x = ?x, OF refl qx x(2)])
  moreover have "same_zone (vz_heap ?s (hd ks)) (vz_heap s (hd ks))"
    using km0(1) x(3) by (intro link_zone_fields(2) [where km = km and s = s and x = ?x, OF refl qx]) (metis hd_in_set)
  then have "vz_base (vz_heap ?s (hd (bs @ ?x # cs))) = USER_MAX_ADDR"
    using km0(2) split assms(4) by (simp add: same_zone_def)
  ultimately have ok: "vm_ok ?s us (bs @ ?x # cs)"
    using dis x km0(1) split by (auto simp: vm_ok_def)
  have "vm_lookup (map (vz_heap ?s) (bs @ ?x # cs)) a =
      (if in_region va sz a then Some prot else vm_lookup (map (vz_heap s) ks) a)" for a
    using assms(6) unfolding in_region_def
    by (intro zones(2)) (simp_all add: paging_consts)
  moreover have "in_region va sz a \<Longrightarrow> \<not> a < USER_MAX_ADDR" for a
    using low by (simp add: in_region_def word_less_nat_alt)
  ultimately have "vm_prot ?s us (bs @ ?x # cs) a = (if in_region va sz a then Some prot else vm_prot s us ks a)" for a
    using same_zones_other(2) [where km = km and s = s and x = ?x, OF refl qx x(2)] by (auto simp: vm_prot_def simp del: map_append)
  moreover have "set (bs @ ?x # cs) = insert ?x (set ks)" "hd (bs @ ?x # cs) = hd ks" using assms(4) by (simp_all add: split)
  ultimately show ?thesis using ok link_zone_fields(1) [of km s ?x q va sz prot p, OF refl qx] by blast
qed

section \<open>Allocating at an address\<close>

definition vm_part :: "u32 \<Rightarrow> u32 list \<Rightarrow> u32 list \<Rightarrow> u32 list" where
  "vm_part va us ks = (if va < USER_MAX_ADDR then us else ks)"

text \<open>A region that may be allocated: within one part of the address space and free of zones.\<close>

definition region_valid :: "u32 \<Rightarrow> nat \<Rightarrow> bool" where
  "region_valid va sz \<longleftrightarrow> USER_MIN_ADDR \<le> va \<and> va < KERN_MAX_ADDR \<and>
     unat va + sz \<le> (if va < USER_MAX_ADDR then unat USER_MAX_ADDR else unat KERN_MAX_ADDR)"

definition region_free :: "'h vmspace \<Rightarrow> u32 list \<Rightarrow> u32 list \<Rightarrow> u32 \<Rightarrow> nat \<Rightarrow> bool" where
  "region_free s us ks va sz \<longleftrightarrow> (\<forall>a\<in>set (vm_part va us ks). \<not> zone_conflict (unat va) sz (vz_heap s a))"

text \<open>
  The address space after a region was given a protection: the node that \<open>km\<close> returned is in the
  lists in addition.
\<close>

definition region_added ::
    "(u32 \<Rightarrow> 'h \<Rightarrow> u32 \<times> 'h) \<Rightarrow> 'h vmspace \<Rightarrow> u32 list \<Rightarrow> u32 list \<Rightarrow> u32 \<Rightarrow> u32 \<Rightarrow> u32 \<Rightarrow> 'h vmspace \<Rightarrow> bool" where
  "region_added km s us ks va sz prot s' \<longleftrightarrow>
     (\<exists>us' ks' x. vm_ok s' us' ks' \<and> km sizeof_vmzone (vm_alloc s) = (x, vm_alloc s') \<and>
        set us' \<union> set ks' = insert x (set us \<union> set ks) \<and> hd ks' = hd ks \<and>
        x \<in> set (vm_part va us' ks') \<and> new_zone va sz prot (vz_heap s' x) \<and>
        (\<forall>a. vm_prot s' us' ks' a = (if in_region va sz a then Some prot else vm_prot s us ks a)))"

lemma region_added_page_prot:
  assumes "vm_ok s us ks" "region_added km s us ks va sz prot s'"
  shows "page_prot a s' = (if in_region va sz a then Some prot else page_prot a s)"
proof -
  obtain us' ks' where "vm_ok s' us' ks'"
      "\<forall>a. vm_prot s' us' ks' a = (if in_region va sz a then Some prot else vm_prot s us ks a)"
    using assms(2) by (auto simp: region_added_def)
  then show ?thesis using assms(1) by (simp add: vm_ok_page_prot)
qed

lemma part_list:
  assumes "vm_ok s us ks"
  shows "linked_list (get_vz_next (vz_heap s)) (if va < USER_MAX_ADDR then uvmzone s else kvmzone s) (vm_part va us ks)"
    "\<exists>lo hi. zones_in lo hi (map (vz_heap s) (vm_part va us ks)) \<and> hi < 4294967296"
proof -
  have ex: "\<exists>lo hi. zones_in lo hi zs \<and> hi < 4294967296" if "zones_in l h zs" "h < 4294967296" for l h zs
    using that by blast
  show "linked_list (get_vz_next (vz_heap s)) (if va < USER_MAX_ADDR then uvmzone s else kvmzone s) (vm_part va us ks)"
    using assms by (simp add: vm_ok_def vm_part_def)
  show "\<exists>lo hi. zones_in lo hi (map (vz_heap s) (vm_part va us ks)) \<and> hi < 4294967296"
    using assms by (auto simp: vm_ok_def vm_part_def paging_consts intro: ex)
qed

lemma kernel_stop_not_Nil:
  assumes "vm_ok s us ks" "stop_at ks NULL bs cs p q" "\<not> va < USER_MAX_ADDR"
    "cs \<noteq> [] \<longrightarrow> va < vz_base (vz_heap s (hd cs))"
  shows "bs \<noteq> []"
proof
  assume "bs = []"
  then have "cs = ks" using assms(2) by (simp add: stop_at_def)
  then show False using assms by (auto simp: vm_ok_def)
qed

lemma link_zone_alloc: "km sizeof_vmzone (vm_alloc s) = (fst (km sizeof_vmzone (vm_alloc s)), vm_alloc (link_zone km va sz prot p q s))"
  by (simp add: link_zone_def Let_def split: prod.splits)

lemma link_region:
  assumes "vm_ok s us ks" "fresh_node km s us ks" "region_valid va (unat sz)"
    "stop_at (vm_part va us ks) NULL bs cs p q"
    "bs \<noteq> [] \<longrightarrow> z_end (vz_heap s (last bs)) \<le> unat va"
    "cs \<noteq> [] \<longrightarrow> unat va + unat sz \<le> unat (vz_base (vz_heap s (hd cs))) \<and> va < vz_base (vz_heap s (hd cs))"
  shows "region_added km s us ks va sz prot (link_zone km va sz prot p q s)"
  (is "region_added _ _ _ _ _ _ _ ?s")
proof (cases "va < USER_MAX_ADDR")
  let ?x = "fst (km sizeof_vmzone (vm_alloc s))"
  case True
  have "\<exists>us'. vm_ok ?s us' ks \<and>
    (\<forall>a. vm_prot ?s us' ks a = (if in_region va sz a then Some prot else vm_prot s us ks a)) \<and>
    set us' = insert ?x (set us) \<and> new_zone va sz prot (vz_heap ?s ?x)"
    using assms True by (intro link_user_zone [of s us ks km bs cs]) (auto simp: vm_part_def region_valid_def)
  then obtain us' where u: "vm_ok ?s us' ks" "\<forall>a. vm_prot ?s us' ks a = (if in_region va sz a then Some prot else vm_prot s us ks a)"
    "set us' = insert ?x (set us)" "new_zone va sz prot (vz_heap ?s ?x)" by blast
  show ?thesis unfolding region_added_def vm_part_def if_P [OF True]
    by (intro exI [of _ us'] exI [of _ ks] exI [of _ ?x] conjI link_zone_alloc u) (simp_all add: u(3))
next
  let ?x = "fst (km sizeof_vmzone (vm_alloc s))"
  case False
  then have st: "stop_at ks NULL bs cs p q" using assms(4) by (simp add: vm_part_def)
  have bs: "bs \<noteq> []" using kernel_stop_not_Nil [OF assms(1) st False] assms(6) by blast
  have "\<exists>ks'. vm_ok ?s us ks' \<and>
    (\<forall>a. vm_prot ?s us ks' a = (if in_region va sz a then Some prot else vm_prot s us ks a)) \<and>
    set ks' = insert ?x (set ks) \<and> hd ks' = hd ks \<and> new_zone va sz prot (vz_heap ?s ?x)"
    using assms False bs st by (intro link_kernel_zone [of s us ks km bs cs]) (auto simp: region_valid_def)
  then obtain ks' where k: "vm_ok ?s us ks'" "\<forall>a. vm_prot ?s us ks' a = (if in_region va sz a then Some prot else vm_prot s us ks a)"
    "set ks' = insert ?x (set ks)" "hd ks' = hd ks" "new_zone va sz prot (vz_heap ?s ?x)" by blast
  show ?thesis unfolding region_added_def vm_part_def if_not_P [OF False]
    by (intro exI [of _ us] exI [of _ ks'] exI [of _ ?x] conjI link_zone_alloc k) (simp_all add: k(3))
qed

text \<open>The checks before the search are the validity of the region.\<close>

lemma in_addr_checks:
  assumes "unat va + unat sz < 4294967296"
  shows "(va < USER_MIN_ADDR \<or> va \<ge> KERN_MAX_ADDR \<or> va + sz > KERN_MAX_ADDR) \<or>
      (va < USER_MAX_ADDR \<and> va + sz > USER_MAX_ADDR) \<longleftrightarrow> \<not> region_valid va (unat sz)"
  using unat_add_no_wrap [OF assms]
  by (auto simp: region_valid_def word_less_nat_alt word_le_nat_alt paging_consts)

lemma page_alloc_in_addr_result:
  assumes "vm_ok s us ks" "fresh_node km s us ks" "unat va + unat (npages * PAGE_SIZE) < 4294967296"
  shows "if 0 < sint npages \<and> va AND PAGE_MASK = 0 \<and> region_valid va (unat (npages * PAGE_SIZE)) \<and>
            region_free s us ks va (unat (npages * PAGE_SIZE))
         then (\<exists>s'. page_alloc_in_addr km va npages prot s = Some (va, s') \<and>
                 region_added km s us ks va (npages * PAGE_SIZE) prot s')
         else page_alloc_in_addr km va npages prot s = Some (SIZE_MAX, s)"
proof -
  let ?sz = "npages * PAGE_SIZE"
  let ?p = "if va < USER_MAX_ADDR then uvmzone s else kvmzone s"
  define as where "as = vm_part va us ks"
  obtain lo hi where z: "zones_in lo hi (map (vz_heap s) as)" "hi < 4294967296"
    using part_list(2) [OF assms(1)] unfolding as_def by blast
  have l: "linked_list (get_vz_next (vz_heap s)) ?p as"
    using part_list(1) [OF assms(1)] unfolding as_def .
  note chk = in_addr_checks [OF assms(3)]
  show ?thesis
  proof (cases "0 < sint npages \<and> va AND PAGE_MASK = 0 \<and> region_valid va (unat ?sz)")
    case False
    then show ?thesis using chk by (auto simp: page_alloc_in_addr_def Let_def)
  next
    case True
    then have eq: "page_alloc_in_addr km va npages prot s =
        (case in_addr_loop (vz_heap s) va ?sz ?p NULL of
              None \<Rightarrow> None
            | Some None \<Rightarrow> Some (SIZE_MAX, s)
            | Some (Some (p', q)) \<Rightarrow> Some (va, link_zone km va ?sz prot p' q s))"
      using chk by (auto simp: page_alloc_in_addr_def Let_def)
    from in_addr_loop_list [OF l z assms(3), of NULL] show ?thesis
    proof (elim disjE exE conjE)
      assume "in_addr_loop (vz_heap s) va ?sz ?p NULL = Some None"
        "\<exists>a\<in>set as. zone_conflict (unat va) (unat ?sz) (vz_heap s a)"
      then show ?thesis by (auto simp: eq region_free_def as_def)
    next
      fix p' q' bs cs
      assume r: "in_addr_loop (vz_heap s) va ?sz ?p NULL = Some (Some (p', q'))" "stop_at as NULL bs cs p' q'"
        "bs \<noteq> [] \<longrightarrow> z_end (vz_heap s (last bs)) \<le> unat va"
        "cs \<noteq> [] \<longrightarrow> unat va + unat ?sz \<le> unat (vz_base (vz_heap s (hd cs))) \<and> va < vz_base (vz_heap s (hd cs))"
        "\<forall>a\<in>set as. \<not> zone_conflict (unat va) (unat ?sz) (vz_heap s a)"
      moreover have "region_added km s us ks va ?sz prot (link_zone km va ?sz prot p' q' s)"
        using link_region [where prot = prot, OF assms(1,2) _ r(2) [unfolded as_def] r(3,4)] True by blast
      ultimately show ?thesis using True by (simp add: eq region_free_def as_def)
    qed
  qed
qed

text \<open>
  C5. \<open>page_alloc_in_addr\<close>: with a positive number of pages, an aligned address, a region
  inside one part of the address space and no zone in the way it returns the address and
  gives exactly that region the protection; in every other case it returns \<open>SIZE_MAX\<close> and
  changes nothing. Assumed: \<^verbatim>\<open>kmalloc\<close> returns a new node, and the region does not wrap.
\<close>

theorem page_alloc_in_addr_correct:
  assumes "vm_ok s us ks" "fresh_node km s us ks" "unat va + unat (npages * PAGE_SIZE) < 4294967296"
  shows "if 0 < sint npages \<and> va AND PAGE_MASK = 0 \<and> region_valid va (unat (npages * PAGE_SIZE)) \<and>
            region_free s us ks va (unat (npages * PAGE_SIZE))
         then (\<exists>s'. page_alloc_in_addr km va npages prot s = Some (va, s') \<and>
                 region_added km s us ks va (npages * PAGE_SIZE) prot s')
         else page_alloc_in_addr km va npages prot s = Some (SIZE_MAX, s)"
  by (rule page_alloc_in_addr_result [OF assms])

section \<open>Allocating anywhere\<close>

lemma page_alloc_loop_list:
  assumes "linked_list (get_vz_next h) p as" "zones_in (unat va) hi (map h as)" "hi + unat sz < 4294967296"
  shows "\<exists>va' p' q' bs cs. page_alloc_loop h sz va p q = Some (va', p', q') \<and> stop_at as q bs cs p' q' \<and>
     unat va' = (if bs = [] then unat va else z_end (h (last bs))) \<and> unat va \<le> unat va' \<and> unat va' \<le> hi \<and>
     (cs \<noteq> [] \<longrightarrow> unat va' + unat sz \<le> unat (vz_base (h (hd cs)))) \<and>
     (\<forall>w. unat va \<le> w \<and> w < unat va' \<longrightarrow> (\<exists>a\<in>set as. zone_conflict w (unat sz) (h a)))"
  using assms(1,2)
proof (induction as arbitrary: p q va)
  case Nil
  then show ?case by (simp add: page_alloc_loop.simps stop_at_def)
next
  case (Cons a as)
  then have p: "p = a" "a \<noteq> NULL" and l: "linked_list (get_vz_next h) (get_vz_next h a) as"
    and z: "zones_in (z_end (h a)) hi (map h as)" and base: "unat va \<le> unat (vz_base (h a))" by auto
  have hi: "z_end (h a) \<le> hi" "unat (vz_base (h a)) \<le> z_end (h a)"
    using zones_in_bounds [OF Cons.prems(2)] by (auto simp: z_end_def)
  have sum: "unat (va + sz) = unat va + unat sz"
    using base hi assms(3) by (intro unat_add_no_wrap) simp
  let ?e = "vz_base (h a) + vz_limit (h a)"
  have e: "unat ?e = z_end (h a)"
    unfolding z_end_def using hi(1) assms(3) by (intro unat_add_no_wrap) (simp add: z_end_def)
  show ?case
  proof (cases "va + sz \<le> vz_base (h a)")
    case True
    with p have "page_alloc_loop h sz va p q = Some (va, a, q)" by (subst page_alloc_loop.simps) simp
    moreover have "stop_at (a # as) q [] (a # as) a q" by (simp add: stop_at_def)
    moreover have "unat va + unat sz \<le> unat (vz_base (h a))" using True by (simp add: word_le_nat_alt sum)
    ultimately show ?thesis using base hi
      by (intro ex5I [of _ va a q "[]" "a # as"]) auto
  next
    case False
    with p have eq: "page_alloc_loop h sz va p q = page_alloc_loop h sz ?e (get_vz_next h a) a"
      by (subst page_alloc_loop.simps) simp
    have small: "unat (vz_base (h a)) < unat va + unat sz" using False by (simp add: word_le_nat_alt sum)
    from Cons.IH [OF l, of ?e a] z obtain va' p' q' bs cs where
      r: "page_alloc_loop h sz ?e (get_vz_next h a) a = Some (va', p', q')" "stop_at as a bs cs p' q'"
        "unat va' = (if bs = [] then z_end (h a) else z_end (h (last bs)))" "z_end (h a) \<le> unat va'" "unat va' \<le> hi"
        "cs \<noteq> [] \<longrightarrow> unat va' + unat sz \<le> unat (vz_base (h (hd cs)))"
        "\<forall>w. z_end (h a) \<le> w \<and> w < unat va' \<longrightarrow> (\<exists>a\<in>set as. zone_conflict w (unat sz) (h a))"
      unfolding e by blast
    have "zone_conflict w (unat sz) (h a)" if "unat va \<le> w" "w < z_end (h a)" for w
      using that small by (auto simp: zone_conflict_def)
    with r(7) have "\<forall>w. unat va \<le> w \<and> w < unat va' \<longrightarrow> (\<exists>a\<in>set (a # as). zone_conflict w (unat sz) (h a))"
      by (metis list.set_intros linorder_not_less)
    moreover have "unat va \<le> unat va'" using base hi r(4) by linarith
    ultimately show ?thesis
      using r stop_at_Cons [OF r(2), of q] unfolding eq
      by (intro ex5I [of _ va' p' q' "a # bs" cs]) auto
  qed
qed

text \<open>
  Where the search starts: at the bottom of the user part when nothing is allocated, else
  behind the first zone, so that a gap below the first zone is not used.
\<close>

definition alloc_start :: "'h vmspace \<Rightarrow> u32 list \<Rightarrow> u32" where
  "alloc_start s as = (if as = [] then USER_MIN_ADDR else vz_base (vz_heap s (hd as)) + vz_limit (vz_heap s (hd as)))"

definition alloc_candidate :: "'h vmspace \<Rightarrow> u32 list \<Rightarrow> u32 list \<Rightarrow> bool \<Rightarrow> nat \<Rightarrow> u32 \<Rightarrow> bool" where
  "alloc_candidate s us ks user sz w \<longleftrightarrow>
     alloc_start s (if user then us else ks) \<le> w \<and> (user \<longrightarrow> w < USER_MAX_ADDR) \<and>
     region_valid w sz \<and> region_free s us ks w sz"

definition alloc_top :: "bool \<Rightarrow> u32" where
  "alloc_top user = (if user then USER_MAX_ADDR else KERN_MAX_ADDR)"

text \<open>
  The end of the search: the candidate \<open>va\<close> and the split of the list around it. Everything
  from the start of the search up to \<open>va\<close> is in conflict with a zone.
\<close>

definition search_end ::
    "'h vmspace \<Rightarrow> u32 list \<Rightarrow> bool \<Rightarrow> nat \<Rightarrow> u32 \<Rightarrow> u32 \<Rightarrow> u32 \<Rightarrow> u32 list \<Rightarrow> u32 list \<Rightarrow> bool" where
  "search_end s as user sz va p q bs cs \<longleftrightarrow> stop_at as NULL bs cs p q \<and>
     (bs \<noteq> [] \<longrightarrow> z_end (vz_heap s (last bs)) \<le> unat va) \<and>
     (cs \<noteq> [] \<longrightarrow> unat va + sz \<le> unat (vz_base (vz_heap s (hd cs)))) \<and>
     alloc_start s as \<le> va \<and>
     (\<forall>w. unat (alloc_start s as) \<le> w \<and> w < unat va \<longrightarrow> (\<exists>a\<in>set as. zone_conflict w sz (vz_heap s a)))"

lemma alloc_zones:
  "vm_ok s us ks \<Longrightarrow> zones_in (unat USER_MIN_ADDR) (unat (alloc_top user)) (map (vz_heap s) (if user then us else ks))"
  using zones_in_lower [of "unat USER_MAX_ADDR" "unat KERN_MAX_ADDR" "map (vz_heap s) ks" "unat USER_MIN_ADDR"]
  by (auto simp: vm_ok_def alloc_top_def paging_consts)

lemma page_alloc_search:
  assumes "vm_ok s us ks" "unat sz + unat (alloc_top user) < 4294967296"
    "as = (if user then us else ks)" "p = (if user then uvmzone s else kvmzone s)"
  shows "\<exists>va' p' q' bs cs. (let (va, p1, q1) = (if p = NULL then (USER_MIN_ADDR, p, NULL)
            else (vz_base (vz_heap s p) + vz_limit (vz_heap s p), get_vz_next (vz_heap s) p, p))
        in page_alloc_loop (vz_heap s) sz va p1 q1) = Some (va', p', q') \<and> search_end s as user (unat sz) va' p' q' bs cs"
proof -
  have l: "linked_list (get_vz_next (vz_heap s)) p as"
    using assms by (auto simp: vm_ok_def)
  have z: "zones_in (unat USER_MIN_ADDR) (unat (alloc_top user)) (map (vz_heap s) as)"
    using alloc_zones [OF assms(1)] by (simp only: assms(3))
  show ?thesis
  proof (cases as)
    case Nil
    with l have "p = NULL" by auto
    with Nil show ?thesis
      by (intro ex5I [of _ USER_MIN_ADDR NULL NULL "[]" "[]"])
        (simp add: page_alloc_loop.simps stop_at_def alloc_start_def search_end_def)
  next
    case (Cons a as')
    with l have p: "p = a" "a \<noteq> NULL" and l': "linked_list (get_vz_next (vz_heap s)) (get_vz_next (vz_heap s) a) as'" by auto
    let ?h = "vz_heap s" let ?e = "vz_base (vz_heap s a) + vz_limit (vz_heap s a)"
    have b: "z_end (?h a) \<le> unat (alloc_top user)"
      using zones_in_bounds [OF z] Cons by auto
    have e: "unat ?e = z_end (?h a)"
      unfolding z_end_def using b assms(2) by (intro unat_add_no_wrap) (simp add: z_end_def)
    have z': "zones_in (unat ?e) (unat (alloc_top user)) (map ?h as')"
      using z Cons by (simp add: e)
    have "unat (alloc_top user) + unat sz < 4294967296" using assms(2) by simp
    from page_alloc_loop_list [OF l' z' this, of a] obtain va' p' q' bs cs where
      r: "page_alloc_loop ?h sz ?e (get_vz_next ?h a) a = Some (va', p', q')" "stop_at as' a bs cs p' q'"
        "unat va' = (if bs = [] then unat ?e else z_end (?h (last bs)))" "unat ?e \<le> unat va'"
        "cs \<noteq> [] \<longrightarrow> unat va' + unat sz \<le> unat (vz_base (?h (hd cs)))"
        "\<forall>w. unat ?e \<le> w \<and> w < unat va' \<longrightarrow> (\<exists>a\<in>set as'. zone_conflict w (unat sz) (?h a))"
      by blast
    have "stop_at as NULL (a # bs) cs p' q'" using stop_at_Cons [OF r(2), of NULL] Cons by simp
    moreover have "\<forall>w. unat ?e \<le> w \<and> w < unat va' \<longrightarrow> (\<exists>a\<in>set as. zone_conflict w (unat sz) (?h a))"
      using r(6) Cons by auto
    moreover have "z_end (?h (last (a # bs))) \<le> unat va'" using r(3) e by auto
    ultimately have "search_end s as user (unat sz) va' p' q' (a # bs) cs"
      using r(4,5) Cons by (simp add: search_end_def alloc_start_def word_le_nat_alt del: last.simps)
    with r(1) p show ?thesis
      by (intro ex5I [of _ va' p' q' "a # bs" cs]) simp
  qed
qed

lemma no_conflict_at:
  assumes "zones_in lo hi (map h (bs @ cs))" "bs \<noteq> [] \<longrightarrow> z_end (h (last bs)) \<le> va"
    "cs \<noteq> [] \<longrightarrow> va + sz \<le> unat (vz_base (h (hd cs)))" "0 < sz" "a \<in> set (bs @ cs)"
  shows "\<not> zone_conflict va sz (h a)"
proof (cases "a \<in> set bs")
  case True
  then have bs: "bs \<noteq> []" by auto
  then have "zones_in lo (z_end (h (last bs))) (map h bs)"
    using assms(1) by (simp add: zones_in_append last_map split: if_splits)
  then have "z_end (h a) \<le> z_end (h (last bs))"
    using zones_in_last [of lo _ "map h bs" "h a"] True bs by (simp add: last_map)
  with bs assms(2) show ?thesis by (simp add: zone_conflict_def z_end_def)
next
  case False
  then have cs: "a \<in> set cs" "cs \<noteq> []" using assms(5) by auto
  obtain lo' where "zones_in lo' hi (map h cs)"
    using assms(1) by (auto simp: zones_in_append)
  then have "unat (vz_base (h (hd cs))) \<le> unat (vz_base (h a))"
  proof (cases cs)
    case (Cons c cs')
    with \<open>zones_in lo' hi (map h cs)\<close> have "zones_in (z_end (h c)) hi (map h cs')" by simp
    from zones_in_bounds [OF this] Cons cs(1) show ?thesis by (auto simp: z_end_def)
  qed (use cs in simp)
  with assms(3,4) cs show ?thesis by (auto simp: zone_conflict_def)
qed

lemma alloc_candidate_no_conflict:
  assumes "vm_ok s us ks" "alloc_candidate s us ks user sz w" "a \<in> set (if user then us else ks)"
    "user \<or> USER_MAX_ADDR \<le> w"
  shows "\<not> zone_conflict (unat w) sz (vz_heap s a)"
  using assms(2-4) by (auto simp: alloc_candidate_def region_free_def vm_part_def split: if_splits)

text \<open>The start of a search in the kernel part is above \<^verbatim>\<open>km0\<close>.\<close>

lemma kernel_start:
  assumes "vm_ok s us ks"
  shows "USER_MAX_ADDR \<le> alloc_start s ks"
proof -
  have "z_end (vz_heap s (hd ks)) \<le> unat KERN_MAX_ADDR" "ks \<noteq> []" and base: "vz_base (vz_heap s (hd ks)) = USER_MAX_ADDR"
    using assms zones_in_bounds [of "unat USER_MAX_ADDR" "unat KERN_MAX_ADDR" "map (vz_heap s) ks"]
    by (auto simp: vm_ok_def)
  then have "unat (vz_base (vz_heap s (hd ks)) + vz_limit (vz_heap s (hd ks))) = z_end (vz_heap s (hd ks))"
    unfolding z_end_def by (intro unat_add_no_wrap) (simp add: paging_consts)
  then show ?thesis
    using \<open>ks \<noteq> []\<close> base by (simp add: alloc_start_def word_le_nat_alt z_end_def)
qed

text \<open>The four facts about the end of a search that \<open>page_alloc\<close> needs.\<close>

lemma alloc_start_low:
  assumes "vm_ok s us ks" "as = (if user then us else ks)"
  shows "USER_MIN_ADDR \<le> alloc_start s as"
proof (cases "as = []")
  case False
  then have "hd as \<in> set as" by simp
  then have b: "unat USER_MIN_ADDR \<le> unat (vz_base (vz_heap s (hd as)))" "z_end (vz_heap s (hd as)) \<le> unat (alloc_top user)"
    using zones_in_bounds [OF alloc_zones [OF assms(1), of user]] by (auto simp: assms(2))
  then have "unat (vz_base (vz_heap s (hd as)) + vz_limit (vz_heap s (hd as))) = z_end (vz_heap s (hd as))"
    unfolding z_end_def by (intro unat_add_no_wrap) (auto simp: alloc_top_def paging_consts split: if_splits)
  then show ?thesis
    using b(1) False by (simp add: alloc_start_def word_le_nat_alt z_end_def)
qed (simp add: alloc_start_def)

lemma search_end_least:
  assumes "vm_ok s us ks" "search_end s as user sz va p q bs cs" "as = (if user then us else ks)"
    "alloc_candidate s us ks user sz w"
  shows "va \<le> w"
proof (rule ccontr)
  assume "\<not> va \<le> w"
  moreover have start: "alloc_start s as \<le> w" using assms(3,4) by (simp add: alloc_candidate_def)
  ultimately have "\<exists>a\<in>set as. zone_conflict (unat w) sz (vz_heap s a)"
    using assms(2) by (simp add: search_end_def word_le_nat_alt)
  moreover have "user \<or> USER_MAX_ADDR \<le> w"
    using start kernel_start [OF assms(1)] assms(3) by (auto split: if_splits)
  ultimately show False
    using alloc_candidate_no_conflict [OF assms(1,4)] by (auto simp: assms(3))
qed

lemma search_end_part:
  assumes "vm_ok s us ks" "search_end s as user sz va p q bs cs" "as = (if user then us else ks)" "va < alloc_top user"
  shows "vm_part va us ks = as" "USER_MIN_ADDR \<le> va" "\<not> user \<Longrightarrow> USER_MAX_ADDR \<le> va"
  using assms kernel_start [OF assms(1)] alloc_start_low [OF assms(1), of as user]
  by (auto simp: search_end_def vm_part_def alloc_top_def split: if_splits)

lemma search_end_candidate:
  assumes "vm_ok s us ks" "search_end s as user sz va p q bs cs" "as = (if user then us else ks)" "0 < sz"
    "va < alloc_top user" "unat va + sz \<le> unat (alloc_top user)"
  shows "alloc_candidate s us ks user sz va"
proof -
  note part = search_end_part [OF assms(1-3,5)]
  have valid: "region_valid va sz"
    using part assms(5,6)
    by (auto simp: region_valid_def alloc_top_def paging_consts word_less_nat_alt word_le_nat_alt split: if_splits)
  have sp: "as = bs @ cs" using assms(2) by (simp add: search_end_def stop_at_def)
  have "zones_in (unat USER_MIN_ADDR) (unat (alloc_top user)) (map (vz_heap s) (bs @ cs))"
    using alloc_zones [OF assms(1), of user] unfolding assms(3) [symmetric] sp .
  then have "\<not> zone_conflict (unat va) sz (vz_heap s a)" if "a \<in> set as" for a
    using assms(2,4) that by (intro no_conflict_at) (auto simp: sp search_end_def)
  then have "region_free s us ks va sz" by (simp add: region_free_def part(1))
  then show ?thesis
    using valid assms(2,3,5) by (auto simp: alloc_candidate_def alloc_top_def search_end_def)
qed

lemma search_end_link:
  assumes "vm_ok s us ks" "fresh_node km s us ks" "search_end s as user (unat sz) va p q bs cs"
    "as = (if user then us else ks)" "0 < sz" "va < alloc_top user" "unat va + unat sz \<le> unat (alloc_top user)"
  shows "region_added km s us ks va sz prot (link_zone km va sz prot p q s)"
proof (rule link_region [OF assms(1,2)])
  have "0 < unat sz" using assms(5) by (simp add: word_less_nat_alt)
  then show "region_valid va (unat sz)"
    using search_end_candidate [OF assms(1,3,4) _ assms(6,7)] by (simp add: alloc_candidate_def)
  show "stop_at (vm_part va us ks) NULL bs cs p q"
    using assms(3) by (simp add: search_end_part [OF assms(1,3,4,6)] search_end_def)
  show "bs \<noteq> [] \<longrightarrow> z_end (vz_heap s (last bs)) \<le> unat va"
    "cs \<noteq> [] \<longrightarrow> unat va + unat sz \<le> unat (vz_base (vz_heap s (hd cs))) \<and> va < vz_base (vz_heap s (hd cs))"
    using assms(3) \<open>0 < unat sz\<close> by (auto simp: search_end_def word_less_nat_alt)
qed

lemma page_alloc_result:
  assumes "vm_ok s us ks" "fresh_node km s us ks" "0 < sint npages" "0 < npages * PAGE_SIZE"
    "unat (npages * PAGE_SIZE) + unat (alloc_top (user \<noteq> 0)) < 4294967296"
  shows "(\<exists>va s'. page_alloc km npages prot user s = Some (va, s') \<and>
       region_added km s us ks va (npages * PAGE_SIZE) prot s' \<and>
       alloc_candidate s us ks (user \<noteq> 0) (unat (npages * PAGE_SIZE)) va \<and>
       (\<forall>w. alloc_candidate s us ks (user \<noteq> 0) (unat (npages * PAGE_SIZE)) w \<longrightarrow> va \<le> w)) \<or>
     (page_alloc km npages prot user s = Some (SIZE_MAX, s) \<and>
       (\<forall>w. \<not> alloc_candidate s us ks (user \<noteq> 0) (unat (npages * PAGE_SIZE)) w))"
proof -
  let ?sz = "npages * PAGE_SIZE" let ?h = "vz_heap s"
  define u where "u = (user \<noteq> 0)"
  define as where "as = (if u then us else ks)"
  define p where "p = (if u then uvmzone s else kvmzone s)"
  obtain va p' q' bs cs where
    run: "(let (va, p1, q1) = (if p = NULL then (USER_MIN_ADDR, p, NULL)
            else (vz_base (?h p) + vz_limit (?h p), get_vz_next ?h p, p))
        in page_alloc_loop ?h ?sz va p1 q1) = Some (va, p', q')"
    and e: "search_end s as u (unat ?sz) va p' q' bs cs"
    using page_alloc_search [OF assms(1) assms(5) as_def [unfolded u_def] p_def [unfolded u_def]] u_def by blast
  note min = search_end_least [OF assms(1) e as_def]
  let ?full = "va \<ge> alloc_top u \<or> va + ?sz > alloc_top u"
  have eq: "page_alloc km npages prot user s =
      (if ?full then Some (SIZE_MAX, s) else Some (va, link_zone km va ?sz prot p' q' s))"
    using run assms(3) unfolding page_alloc_def p_def u_def alloc_top_def
    by (auto simp: Let_def split: prod.splits if_splits)
  have full: "?full \<longleftrightarrow> va \<ge> alloc_top u \<or> unat va + unat ?sz > unat (alloc_top u)"
  proof (cases "va < alloc_top u")
    case True
    then have "unat va + unat ?sz < 4294967296" using assms(5) by (simp add: word_less_nat_alt u_def)
    from unat_add_no_wrap [OF this] show ?thesis by (auto simp: word_le_nat_alt word_less_nat_alt)
  qed auto
  show ?thesis
  proof (cases ?full)
    case True
    have "\<not> alloc_candidate s us ks u (unat ?sz) w" for w
    proof
      assume c: "alloc_candidate s us ks u (unat ?sz) w"
      then have "va \<le> w" by (rule min)
      moreover have "unat w + unat ?sz \<le> unat (alloc_top u)"
        using c kernel_start [OF assms(1)] by (auto simp: alloc_candidate_def region_valid_def alloc_top_def split: if_splits)
      ultimately show False
        using True assms(4) unfolding full by (auto simp: word_le_nat_alt word_less_nat_alt)
    qed
    with True show ?thesis by (simp add: eq u_def)
  next
    case False
    then have t: "va < alloc_top u" "unat va + unat ?sz \<le> unat (alloc_top u)" unfolding full by auto
    have "alloc_candidate s us ks u (unat ?sz) va"
      using assms(4) by (intro search_end_candidate [OF assms(1) e as_def _ t]) (simp add: word_less_nat_alt)
    moreover have "region_added km s us ks va ?sz prot (link_zone km va ?sz prot p' q' s)"
      by (rule search_end_link [OF assms(1,2) e as_def assms(4) t])
    ultimately show ?thesis using False min by (auto simp: eq u_def)
  qed
qed

section \<open>Freeing\<close>

lemma vm_lookup_remove:
  assumes "zones_in lo hi (xs @ z # ys)" "hi < 4294967296"
  shows "vm_lookup (xs @ ys) a = (if zone_has z a then None else vm_lookup (xs @ z # ys) a)"
proof -
  have "vm_lookup (xs @ ys) a = None" if "zone_has z a"
  proof -
    have "z_end z \<le> hi" using zones_in_bounds [OF assms(1)] by auto
    with that assms(2) have a: "unat (vz_base z) \<le> unat a" "unat a < z_end z" by (auto simp: zone_has_iff)
    have "\<not> zone_has y a" if y: "y \<in> set (xs @ ys)" for y
    proof -
      have yh: "zone_has y a \<longleftrightarrow> unat (vz_base y) \<le> unat a \<and> unat a < z_end y"
        using zones_in_bounds [OF assms(1)] y assms(2) by (intro zone_has_iff) (auto intro: le_less_trans)
      show ?thesis
      proof (cases "y \<in> set xs")
        case True
        then have "zones_in lo (z_end (last xs)) xs" "z_end (last xs) \<le> unat (vz_base z)"
          using assms(1) by (auto simp: zones_in_append split: if_splits)
        then show ?thesis using zones_in_last [of lo _ xs y] True a yh by fastforce
      next
        case False
        have "zones_in (z_end z) hi ys" using assms(1) by (simp add: zones_in_append)
        with False y zones_in_bounds [OF this] show ?thesis using a yh by auto
      qed
    qed
    then show ?thesis by (simp add: vm_lookup_None)
  qed
  then show ?thesis using vm_lookup_insert [OF assms, of a] by auto
qed


text \<open>The address space without the node \<open>x\<close>, whose zone was the region; the node is given back.\<close>

definition region_removed ::
    "(u32 \<Rightarrow> 'h \<Rightarrow> 'h) \<Rightarrow> 'h vmspace \<Rightarrow> u32 list \<Rightarrow> u32 list \<Rightarrow> u32 \<Rightarrow> u32 \<Rightarrow> 'h vmspace \<Rightarrow> bool" where
  "region_removed kf s us ks va sz s' \<longleftrightarrow>
     (\<exists>us' ks' x. vm_ok s' us' ks' \<and> x \<in> set us \<union> set ks \<and> vz_base (vz_heap s x) = va \<and> vz_limit (vz_heap s x) = sz \<and>
        set us' \<union> set ks' = (set us \<union> set ks) - {x} \<and> hd ks' = hd ks \<and> vm_alloc s' = kf x (vm_alloc s) \<and>
        (\<forall>a. vm_prot s' us' ks' a = (if in_region va sz a then None else vm_prot s us ks a)))"

definition unlink_zone :: "u32 \<Rightarrow> u32 \<Rightarrow> 'h vmspace \<Rightarrow> 'h vmspace" where
  "unlink_zone p q s = (if q = NULL then s\<lparr>uvmzone := get_vz_next (vz_heap s) p\<rparr>
     else s\<lparr>vz_heap := set_vz_next q (get_vz_next (vz_heap s) p) (vz_heap s)\<rparr>)"

lemma unlink_zone_same: "same_zone (vz_heap (unlink_zone p q s) a) (vz_heap s a)"
  by (simp add: unlink_zone_def same_zone_def set_vz_next_def)

lemma unlink_zone_fields:
  "kvmzone (unlink_zone p q s) = kvmzone s" "vm_alloc (unlink_zone p q s) = vm_alloc s"
  "uvmzone (unlink_zone p q s) = (if q = NULL then get_vz_next (vz_heap s) p else uvmzone s)"
  by (simp_all add: unlink_zone_def)

lemma unlink_zone_zones:
  assumes "zones_in lo hi (map (vz_heap s) (bs @ x # cs))" "hi < 4294967296"
  shows "zones_in lo hi (map (vz_heap (unlink_zone p q s)) (bs @ cs))"
    "vm_lookup (map (vz_heap (unlink_zone p q s)) (bs @ cs)) a =
      (if in_region (vz_base (vz_heap s x)) (vz_limit (vz_heap s x)) a then None
       else vm_lookup (map (vz_heap s) (bs @ x # cs)) a)"
proof -
  have same: "zones_in lo hi (map (vz_heap (unlink_zone p q s)) as) = zones_in lo hi (map (vz_heap s) as)"
    "vm_lookup (map (vz_heap (unlink_zone p q s)) as) a = vm_lookup (map (vz_heap s) as) a" for as
    by (rule same_zone_zones_in same_zone_lookup, rule unlink_zone_same)+
  have "zones_in lo hi (map (vz_heap s) (bs @ cs))"
    using assms(1) zones_in_remove [of lo hi "map (vz_heap s) bs" "vz_heap s x" "map (vz_heap s) cs"] by simp
  then show "zones_in lo hi (map (vz_heap (unlink_zone p q s)) (bs @ cs))"
    by (simp only: same)
  have "z_end (vz_heap s x) < 4294967296"
    using zones_in_bounds [OF assms(1)] assms(2) by auto
  then have "zone_has (vz_heap s x) a \<longleftrightarrow> in_region (vz_base (vz_heap s x)) (vz_limit (vz_heap s x)) a"
    by (simp add: zone_has_iff in_region_def) (simp add: z_end_def)
  then show "vm_lookup (map (vz_heap (unlink_zone p q s)) (bs @ cs)) a =
      (if in_region (vz_base (vz_heap s x)) (vz_limit (vz_heap s x)) a then None
       else vm_lookup (map (vz_heap s) (bs @ x # cs)) a)"
    using vm_lookup_remove [of lo hi "map (vz_heap s) bs" "vz_heap s x" "map (vz_heap s) cs" a] assms
    by (simp only: same) simp
qed

lemma unlink_zone_lists:
  assumes "linked_list (get_vz_next (vz_heap s)) p0 as" "stop_at as NULL bs (p # cs) p q"
    "linked_list (get_vz_next (vz_heap s)) p1 os" "set as \<inter> set os = {}"
  shows "q = NULL \<longleftrightarrow> bs = []"
    "linked_list (get_vz_next (vz_heap (unlink_zone p q s))) (if q = NULL then get_vz_next (vz_heap s) p else p0) (bs @ cs)"
    "linked_list (get_vz_next (vz_heap (unlink_zone p q s))) p1 os"
proof -
  have as: "as = bs @ p # cs" using assms(2) by (simp add: stop_at_def)
  have nn: "NULL \<notin> set as" using assms(1) by (rule linked_list_not_NULL)
  show q: "q = NULL \<longleftrightarrow> bs = []"
    using assms(2) nn by (cases bs rule: rev_cases) (auto simp: stop_at_def as)
  show "linked_list (get_vz_next (vz_heap (unlink_zone p q s))) (if q = NULL then get_vz_next (vz_heap s) p else p0) (bs @ cs)"
  proof (cases bs rule: rev_cases)
    case Nil
    then show ?thesis using assms(1) as q by (simp add: unlink_zone_def)
  next
    case (snoc bs' b)
    then have "q = b" using assms(2) by (simp add: stop_at_def)
    then show ?thesis
      using vz.unlink_after [of "vz_heap s" p0 bs' b p cs] assms(1) as snoc q by (simp add: unlink_zone_def)
  qed
  have "q \<in> set as \<or> q = NULL"
    using assms(2) by (cases bs rule: rev_cases) (auto simp: stop_at_def)
  then show "linked_list (get_vz_next (vz_heap (unlink_zone p q s))) p1 os"
    using assms(3,4) by (auto simp: unlink_zone_def vz.list_frame disjoint_iff)
qed

lemma vm_ok_unlink:
  assumes "vm_ok s us ks" "stop_at (vm_part va us ks) NULL bs (p # cs) p q" "va = vz_base (vz_heap s p)" "va \<noteq> USER_MAX_ADDR"
  shows "region_removed kf s us ks va (vz_limit (vz_heap s p))
    (unlink_zone p q s\<lparr>vm_alloc := kf p (vm_alloc s)\<rparr>)"
proof -
  let ?s = "unlink_zone p q s\<lparr>vm_alloc := kf p (vm_alloc s)\<rparr>"
  have us: "linked_list (get_vz_next (vz_heap s)) (uvmzone s) us"
    and ks: "linked_list (get_vz_next (vz_heap s)) (kvmzone s) ks" and dis: "set us \<inter> set ks = {}" "set ks \<inter> set us = {}"
    and zu: "zones_in (unat USER_MIN_ADDR) (unat USER_MAX_ADDR) (map (vz_heap s) us)"
    and zk: "zones_in (unat USER_MAX_ADDR) (unat KERN_MAX_ADDR) (map (vz_heap s) ks)"
    and km0: "ks \<noteq> []" "vz_base (vz_heap s (hd ks)) = USER_MAX_ADDR"
    using assms(1) by (auto simp: vm_ok_def)
  have same: "zones_in lo hi (map (vz_heap (unlink_zone p q s)) as) = zones_in lo hi (map (vz_heap s) as)"
    "vm_lookup (map (vz_heap (unlink_zone p q s)) as) a = vm_lookup (map (vz_heap s) as) a" for as lo hi a
    by (rule same_zone_zones_in same_zone_lookup, rule unlink_zone_same)+
  have top: "unat USER_MAX_ADDR < 4294967296" "unat KERN_MAX_ADDR < 4294967296" by (simp_all add: paging_consts)
  have sp: "vm_part va us ks = bs @ p # cs" using assms(2) by (simp add: stop_at_def)
  have dist: "distinct us" "distinct ks" using us ks by (auto intro: linked_list_distinct)
  show ?thesis
  proof (cases "va < USER_MAX_ADDR")
    case True
    then have st: "stop_at us NULL bs (p # cs) p q" and split: "us = bs @ p # cs" using assms(2) sp by (simp_all add: vm_part_def)
    note L = unlink_zone_lists [OF us st ks dis(1)]
    note Z = unlink_zone_zones [OF zu [unfolded split] top(1), of p q]
    have ok: "vm_ok ?s (bs @ cs) ks"
      unfolding vm_ok_def
      using L Z(1) zk km0 dis split unlink_zone_same [of p q s "hd ks"]
      by (auto simp: unlink_zone_fields same same_zone_def)
    have "in_region va (vz_limit (vz_heap s p)) a \<Longrightarrow> a < USER_MAX_ADDR" for a
      using zones_in_bounds [OF zu] split assms(3) by (auto simp: in_region_def z_end_def word_less_nat_alt)
    then have "vm_prot ?s (bs @ cs) ks a = (if in_region va (vz_limit (vz_heap s p)) a then None else vm_prot s us ks a)" for a
      using Z(2) [of a] assms(3) by (auto simp: vm_prot_def same split simp del: map_append)
    moreover have "set (bs @ cs) \<union> set ks = (set us \<union> set ks) - {p}"
      using dist(1) dis split by auto
    ultimately show ?thesis
      using ok split assms(3) unfolding region_removed_def
      by (intro exI [of _ "bs @ cs"] exI [of _ ks] exI [of _ p]) simp
  next
    case False
    then have st: "stop_at ks NULL bs (p # cs) p q" and split: "ks = bs @ p # cs" using assms(2) sp by (simp_all add: vm_part_def)
    note L = unlink_zone_lists [OF ks st us dis(2)]
    note Z = unlink_zone_zones [OF zk [unfolded split] top(2), of p q]
    have bs: "bs \<noteq> []" using km0 assms(3,4) split by auto
    then have hd: "hd (bs @ cs) = hd ks" using split by simp
    have ok: "vm_ok ?s us (bs @ cs)"
      unfolding vm_ok_def hd
      using L bs Z(1) zu km0 dis split unlink_zone_same [of p q s "hd ks"]
      by (auto simp: unlink_zone_fields same same_zone_def simp del: map_append)
    have "in_region va (vz_limit (vz_heap s p)) a \<Longrightarrow> \<not> a < USER_MAX_ADDR" for a
      using False by (auto simp: in_region_def word_less_nat_alt)
    then have "vm_prot ?s us (bs @ cs) a = (if in_region va (vz_limit (vz_heap s p)) a then None else vm_prot s us ks a)" for a
      using Z(2) [of a] assms(3) by (auto simp: vm_prot_def same split simp del: map_append)
    moreover have "set us \<union> set (bs @ cs) = (set us \<union> set ks) - {p}"
      using dist(2) dis split by auto
    ultimately show ?thesis
      using ok split assms(3) hd unfolding region_removed_def
      by (intro exI [of _ us] exI [of _ "bs @ cs"] exI [of _ p]) simp
  qed
qed

lemma page_free_result:
  assumes "vm_ok s us ks"
  shows "if 0 < sint npages \<and> va \<noteq> USER_MAX_ADDR \<and>
            (\<exists>a\<in>set (vm_part va us ks). vz_base (vz_heap s a) = va \<and> vz_limit (vz_heap s a) = npages * PAGE_SIZE)
         then (\<exists>s'. page_free kf va npages s = Some (0, s') \<and>
                 region_removed kf s us ks va (npages * PAGE_SIZE) s')
         else page_free kf va npages s = Some (-1, s)"
proof (cases "0 < sint npages \<and> va \<noteq> USER_MAX_ADDR")
  case False
  then show ?thesis by (auto simp: page_free_def Let_def)
next
  case True
  let ?sz = "npages * PAGE_SIZE" let ?h = "vz_heap s"
  let ?p = "if va < USER_MAX_ADDR then uvmzone s else kvmzone s"
  have eq: "page_free kf va npages s = (case page_free_loop ?h va ?sz ?p NULL of
              None \<Rightarrow> None
            | Some None \<Rightarrow> Some (-1, s)
            | Some (Some (p', q)) \<Rightarrow> Some (0, unlink_zone p' q s\<lparr>vm_alloc := kf p' (vm_alloc s)\<rparr>))"
    using True by (simp add: page_free_def Let_def unlink_zone_def unlink_zone_fields split: option.split)
  from page_free_loop_list [OF part_list(1) [OF assms, of va], of va ?sz NULL] show ?thesis
  proof (elim disjE exE conjE)
    fix p' q' bs cs
    assume r: "page_free_loop ?h va ?sz ?p NULL = Some (Some (p', q'))" "stop_at (vm_part va us ks) NULL bs (p' # cs) p' q'"
      "va = vz_base (?h p')" "?sz = vz_limit (?h p')"
    then have "p' \<in> set (vm_part va us ks)" by (simp add: stop_at_def)
    then have "\<exists>a\<in>set (vm_part va us ks). vz_base (?h a) = va \<and> vz_limit (?h a) = ?sz" using r(3,4) by auto
    moreover have "region_removed kf s us ks va ?sz (unlink_zone p' q' s\<lparr>vm_alloc := kf p' (vm_alloc s)\<rparr>)"
      using vm_ok_unlink [where kf = kf, OF assms r(2,3)] True r(4) by simp
    ultimately show ?thesis using True r(1) by (simp add: eq)
  qed (use True eq in auto)
qed

text \<open>
  C22. \<open>page_free\<close> removes exactly the zone that starts at \<open>va\<close> and has the given length:
  afterwards no address of the region has a protection, every other address keeps its own,
  and the node has been given to \<^verbatim>\<open>kfree\<close>. When there is no such zone, or the address is
  that of \<^verbatim>\<open>km0\<close>, it returns \<open>-1\<close> and changes nothing.
\<close>

theorem page_free_correct:
  assumes "vm_ok s us ks"
  shows "if 0 < sint npages \<and> va \<noteq> USER_MAX_ADDR \<and>
            (\<exists>a\<in>set (vm_part va us ks). vz_base (vz_heap s a) = va \<and> vz_limit (vz_heap s a) = npages * PAGE_SIZE)
         then (\<exists>s'. page_free kf va npages s = Some (0, s') \<and>
                 region_removed kf s us ks va (npages * PAGE_SIZE) s')
         else page_free kf va npages s = Some (-1, s)"
  by (rule page_free_result [OF assms])

text \<open>A free region has no protection, and the region that is freed is the one that was added.\<close>

lemma region_free_no_prot:
  assumes "vm_ok s us ks" "region_free s us ks va sz" "region_valid va sz" "unat va \<le> unat a" "unat a < unat va + sz"
  shows "vm_prot s us ks a = None"
proof -
  have part: "vm_part a us ks = vm_part va us ks"
    using assms(3-5) by (auto simp: vm_part_def region_valid_def word_less_nat_alt word_le_nat_alt split: if_splits)
  obtain lo hi where z: "zones_in lo hi (map (vz_heap s) (vm_part va us ks))" "hi < 4294967296"
    using part_list(2) [OF assms(1)] by blast
  have "\<not> zone_has (vz_heap s x) a" if "x \<in> set (vm_part va us ks)" for x
  proof -
    have "z_end (vz_heap s x) < 4294967296" using zones_in_bounds [OF z(1)] z(2) that by auto
    moreover have "\<not> zone_conflict (unat va) sz (vz_heap s x)" using assms(2) that by (simp add: region_free_def)
    ultimately show ?thesis using assms(4,5) by (auto simp: zone_has_iff zone_conflict_def)
  qed
  then show ?thesis
    unfolding vm_prot_def vm_part_def [symmetric] part by (simp add: vm_lookup_None)
qed

lemma page_free_added:
  assumes "vm_ok s us ks" "region_added km s us ks va (npages * PAGE_SIZE) prot s1" "0 < sint npages" "va \<noteq> USER_MAX_ADDR"
  shows "\<exists>s2. page_free kf va npages s1 = Some (0, s2) \<and>
    (\<forall>a. page_prot a s2 = (if in_region va (npages * PAGE_SIZE) a then Some (- 1) else page_prot a s))"
proof -
  obtain us1 ks1 where ok1: "vm_ok s1 us1 ks1"
      and p1: "\<forall>a. vm_prot s1 us1 ks1 a = (if in_region va (npages * PAGE_SIZE) a then Some prot else vm_prot s us ks a)"
      and n1: "\<exists>x\<in>set (vm_part va us1 ks1). new_zone va (npages * PAGE_SIZE) prot (vz_heap s1 x)"
    using assms(2) unfolding region_added_def by blast
  from n1 have "\<exists>a\<in>set (vm_part va us1 ks1). vz_base (vz_heap s1 a) = va \<and> vz_limit (vz_heap s1 a) = npages * PAGE_SIZE"
    by (auto simp: new_zone_def)
  with page_free_result [OF ok1, of npages va kf] assms(3,4) obtain s2 where
    s2: "page_free kf va npages s1 = Some (0, s2)" "region_removed kf s1 us1 ks1 va (npages * PAGE_SIZE) s2"
    by auto
  from s2(2) obtain us2 ks2 where "vm_ok s2 us2 ks2"
      "\<forall>a. vm_prot s2 us2 ks2 a = (if in_region va (npages * PAGE_SIZE) a then None else vm_prot s1 us1 ks1 a)"
    unfolding region_removed_def by blast
  then have "page_prot a s2 = (if in_region va (npages * PAGE_SIZE) a then Some (- 1) else page_prot a s)" for a
    using p1 by (simp add: vm_ok_page_prot [of s2] vm_ok_page_prot [OF assms(1)])
  with s2(1) show ?thesis by blast
qed

text \<open>
  C23. Round trip: freeing what \<open>page_alloc_in_addr\<close> has allocated succeeds and every address
  has again the protection it had before.
\<close>

theorem page_alloc_free_roundtrip:
  assumes "vm_ok s us ks" "fresh_node km s us ks" "unat va + unat (npages * PAGE_SIZE) < 4294967296"
    "page_alloc_in_addr km va npages prot s = Some (va, s1)" "va \<noteq> SIZE_MAX" "va \<noteq> USER_MAX_ADDR"
  shows "\<exists>s2. page_free kf va npages s1 = Some (0, s2) \<and> (\<forall>a. page_prot a s2 = page_prot a s)"
proof -
  let ?sz = "npages * PAGE_SIZE"
  have c: "0 < sint npages" "region_valid va (unat ?sz)" "region_free s us ks va (unat ?sz)" "region_added km s us ks va ?sz prot s1"
    using page_alloc_in_addr_result [OF assms(1-3), of prot] assms(4,5) by (auto split: if_splits)
  have "page_prot a s = Some (- 1)" if "in_region va ?sz a" for a
    using region_free_no_prot [OF assms(1) c(3,2)] that by (simp add: in_region_def vm_ok_page_prot [OF assms(1)])
  with page_free_added [OF assms(1) c(4,1) assms(6), of kf] show ?thesis by auto
qed

section \<open>Requests the code gets wrong\<close>

text \<open>
  What a failed \<^verbatim>\<open>kmalloc\<close> does: node \<open>NULL\<close> is filled in and linked, which cuts the list.
\<close>

lemma link_zone_NULL:
  assumes "linked_list (get_vz_next (vz_heap s)) (uvmzone s) us" "stop_at us NULL bs cs p q"
    "fst (km sizeof_vmzone (vm_alloc s)) = NULL"
  shows "linked_list (get_vz_next (vz_heap (link_zone km va sz prot p q s))) (uvmzone (link_zone km va sz prot p q s)) bs"
    "a \<noteq> NULL \<Longrightarrow> same_zone (vz_heap (link_zone km va sz prot p q s) a) (vz_heap s a)"
proof -
  have us: "us = bs @ cs" using assms(2) by (simp add: stop_at_def)
  have nn: "NULL \<notin> set us" using assms(1) by (rule linked_list_not_NULL)
  obtain al where km: "km sizeof_vmzone (vm_alloc s) = (NULL, al)" using assms(3) by (metis prod.collapse)
  define h1 where "h1 = (vz_heap s)(NULL := (vz_heap s NULL)\<lparr>vz_base := va, vz_limit := sz, vz_protect := prot\<rparr>)"
  define h2 where "h2 = set_vz_next NULL (get_vz_next h1 q) h1"
  have "linked_list (get_vz_next h2) (uvmzone s) us \<longleftrightarrow> linked_list (get_vz_next (vz_heap s)) (uvmzone s) us"
    using nn by (intro linked_list_cong) (auto simp: h2_def h1_def get_vz_next_def set_vz_next_def)
  then have l2: "linked_list (get_vz_next h2) (uvmzone s) us" using assms(1) by simp
  show "linked_list (get_vz_next (vz_heap (link_zone km va sz prot p q s))) (uvmzone (link_zone km va sz prot p q s)) bs"
  proof (cases bs rule: rev_cases)
    case Nil
    then have "q = NULL" using assms(2) by (simp add: stop_at_def)
    with Nil km show ?thesis by (simp add: link_zone_def)
  next
    case (snoc bs' b)
    then have q: "q = b" "b \<noteq> NULL" using assms(2) nn us by (auto simp: stop_at_def)
    then have "vz_heap (link_zone km va sz prot p q s) = set_vz_next b NULL h2" "uvmzone (link_zone km va sz prot p q s) = uvmzone s"
      using km by (simp_all add: link_zone_def h1_def h2_def Let_def)
    then show ?thesis
      using vz.truncate_after [of h2 "uvmzone s" bs' b cs] l2 us snoc by simp
  qed
  show "same_zone (vz_heap (link_zone km va sz prot p q s) a) (vz_heap s a)" if "a \<noteq> NULL"
    using km that by (simp add: link_zone_def same_zone_def set_vz_next_def Let_def)
qed

text \<open>
  C21. The result of \<^verbatim>\<open>kmalloc\<close> is not checked: when it is \<open>NULL\<close>, a request in the user
  part that could be served is reported as served, the region gets no protection, and every
  zone above it is lost from the list.
\<close>

theorem page_alloc_in_addr_no_memory:
  assumes "vm_ok s us ks" "fst (km sizeof_vmzone (vm_alloc s)) = NULL" "unat va + unat (npages * PAGE_SIZE) < 4294967296"
    "0 < sint npages" "va AND PAGE_MASK = 0" "va < USER_MAX_ADDR"
    "region_valid va (unat (npages * PAGE_SIZE))" "region_free s us ks va (unat (npages * PAGE_SIZE))"
  shows "\<exists>s'. page_alloc_in_addr km va npages prot s = Some (va, s') \<and>
    (\<forall>a. va \<le> a \<and> a < USER_MAX_ADDR \<longrightarrow> page_prot a s' = Some (- 1))"
proof -
  let ?sz = "npages * PAGE_SIZE" let ?h = "vz_heap s"
  have part: "vm_part va us ks = us" using assms(6) by (simp add: vm_part_def)
  obtain us: "linked_list (get_vz_next ?h) (uvmzone s) us"
    and zu: "zones_in (unat USER_MIN_ADDR) (unat USER_MAX_ADDR) (map ?h us)"
    using assms(1) by (simp add: vm_ok_def)
  have top: "unat USER_MAX_ADDR < 4294967296" by (simp add: paging_consts)
  have free: "\<not> (\<exists>a\<in>set us. zone_conflict (unat va) (unat ?sz) (?h a))"
    using assms(8) by (simp add: region_free_def part)
  from in_addr_loop_list [OF us zu top assms(3), of NULL] free obtain p q bs cs where
    r: "in_addr_loop ?h va ?sz (uvmzone s) NULL = Some (Some (p, q))" "stop_at us NULL bs cs p q"
      "bs \<noteq> [] \<longrightarrow> z_end (?h (last bs)) \<le> unat va"
    by blast
  let ?s = "link_zone km va ?sz prot p q s"
  have eq: "page_alloc_in_addr km va npages prot s = Some (va, ?s)"
    using assms(4-7) r(1) in_addr_checks [OF assms(3)] by (auto simp: page_alloc_in_addr_def Let_def)
  note l = link_zone_NULL [where km = km and s = s and va = va and sz = ?sz and prot = prot, OF us r(2) assms(2)]
  have "page_prot a ?s = Some (- 1)" if a: "va \<le> a" "a < USER_MAX_ADDR" for a
  proof -
    have sp: "us = bs @ cs" using r(2) by (simp add: stop_at_def)
    have "\<not> zone_has (vz_heap ?s x) a" if x: "x \<in> set bs" for x
    proof -
      have bs: "bs \<noteq> []" using x by auto
      have "zones_in (unat USER_MIN_ADDR) (z_end (?h (last bs))) (map ?h bs)"
        using zu bs by (simp add: sp zones_in_append last_map)
      then have "z_end (?h x) \<le> z_end (?h (last bs))"
        using zones_in_last [of _ _ "map ?h bs" "?h x"] x bs by (simp add: last_map)
      moreover have "same_zone (vz_heap ?s x) (?h x)"
        using x linked_list_not_NULL [OF us] sp by (intro l(2)) auto
      ultimately have "z_end (vz_heap ?s x) \<le> unat va"
        using r(3) bs by (simp add: same_zone_def z_end_def)
      moreover have "unat va < 4294967296" by (rule u32_unat_bound)
      ultimately show ?thesis using a(1) by (simp add: zone_has_iff word_le_nat_alt)
    qed
    then have "vm_lookup (map (vz_heap ?s) bs) a = None" by (simp add: vm_lookup_None)
    then show ?thesis
      using a(2) page_prot_loop_list [OF l(1), of a] by (simp add: page_prot_def)
  qed
  with eq show ?thesis by blast
qed

text \<open>
  The size and the end of a region are computed on 32 bits: when the kernel list holds only
  \<^verbatim>\<open>km0\<close>, a request that runs past the end of the address space succeeds as soon as its
  wrapped end is below the limit.
\<close>

theorem page_alloc_wraps:
  assumes "vm_ok s us [k]" "0 < sint npages" "e = vz_base (vz_heap s k) + vz_limit (vz_heap s k)" "e < KERN_MAX_ADDR"
    "4294967296 \<le> unat e + unat npages * 4096" "e + npages * PAGE_SIZE \<le> KERN_MAX_ADDR"
  shows "\<exists>s'. page_alloc km npages prot 0 s = Some (e, s') \<and> unat KERN_MAX_ADDR < unat e + unat npages * 4096"
proof -
  have "kvmzone s = k" "k \<noteq> NULL" "get_vz_next (vz_heap s) k = NULL"
    using assms(1) by (auto simp: vm_ok_def)
  then show ?thesis
    using assms(2-6) by (auto simp: page_alloc_def Let_def paging_consts page_alloc_loop.simps [of _ _ _ NULL] not_le not_less)
qed

section \<open>Witnesses\<close>

text \<open>An address space just initialised, with an allocator that hands out the next node.\<close>

definition bump :: "u32 \<Rightarrow> u32 \<Rightarrow> u32 \<times> u32" where
  "bump n h = (h, h + n)"

definition example_vm :: "u32 vmspace" where
  "example_vm = init_vmspace 0xC0010000 0xC0100000
     \<lparr>vz_heap = (\<lambda>_. \<lparr>vz_base = 0, vz_limit = 0, vz_protect = 0, vz_next = 0\<rparr>), kvmzone = 0, uvmzone = 0, vm_alloc = 0xC0200000\<rparr>"

lemma example_vm_ok: "vm_ok example_vm [] [0xC0010000]"
  unfolding example_vm_def by (rule init_vmspace_ok) (simp_all add: NULL_def paging_consts)

lemma example_vm_fresh: "fresh_node bump example_vm [] [0xC0010000]"
  by (simp add: fresh_node_def bump_def example_vm_def init_vmspace_def NULL_def)

lemma example_vm_region: "region_valid 0x400000 12288" "region_free example_vm [] [0xC0010000] 0x400000 12288"
  by (simp_all add: region_valid_def region_free_def vm_part_def paging_consts)

lemma example_region_added:
  obtains s' where "page_alloc_in_addr bump 0x400000 3 prot example_vm = Some (0x400000, s')"
    "region_added bump example_vm [] [0xC0010000] 0x400000 (3 * PAGE_SIZE) prot s'"
proof -
  let ?h = "vz_heap example_vm"
  have "in_addr_loop ?h 0x400000 (3 * PAGE_SIZE) (uvmzone example_vm) NULL = Some (Some (NULL, NULL))"
    by (simp add: example_vm_def init_vmspace_def in_addr_loop.simps)
  then have "page_alloc_in_addr bump 0x400000 3 prot example_vm =
      Some (0x400000, link_zone bump 0x400000 (3 * PAGE_SIZE) prot NULL NULL example_vm)"
    by (simp add: page_alloc_in_addr_def paging_consts)
  moreover have "region_added bump example_vm [] [0xC0010000] 0x400000 (3 * PAGE_SIZE) prot
      (link_zone bump 0x400000 (3 * PAGE_SIZE) prot NULL NULL example_vm)"
    using example_vm_region by (intro link_region [OF example_vm_ok example_vm_fresh, of _ _ "[]" "[]"])
      (simp_all add: stop_at_def vm_part_def paging_consts)
  ultimately show ?thesis by (rule that)
qed

theorem page_alloc_in_addr_correct_witness:
  "\<exists>s'. page_alloc_in_addr bump 0x400000 3 3 example_vm = Some (0x400000, s') \<and>
     page_prot 0x402FFF s' = Some 3 \<and> page_prot 0x403000 s' = page_prot 0x403000 example_vm"
proof -
  obtain s' where "page_alloc_in_addr bump 0x400000 3 3 example_vm = Some (0x400000, s')"
    "region_added bump example_vm [] [0xC0010000] 0x400000 (3 * PAGE_SIZE) 3 s'"
    using page_alloc_in_addr_correct [OF example_vm_ok example_vm_fresh, of "0x400000" 3 3] example_vm_region
    by (auto simp: paging_consts)
  then show ?thesis
    using region_added_page_prot [OF example_vm_ok] by (simp add: in_region_def paging_consts)
qed


theorem page_free_correct_witness:
  "page_free (\<lambda>x h. h) 0x400000 3 example_vm = Some (-1, example_vm)"
  using page_free_correct [OF example_vm_ok, of 3 "0x400000" "\<lambda>x h. h"] by (simp add: vm_part_def paging_consts)

theorem page_alloc_free_roundtrip_witness:
  "\<exists>s1 s2. page_alloc_in_addr bump 0x400000 3 3 example_vm = Some (0x400000, s1) \<and>
     page_free (\<lambda>x h. h) 0x400000 3 s1 = Some (0, s2) \<and> page_prot 0x401000 s2 = page_prot 0x401000 example_vm"
proof -
  have "in_addr_loop (vz_heap example_vm) 0x400000 (3 * PAGE_SIZE) (uvmzone example_vm) NULL = Some (Some (NULL, NULL))"
    by (simp add: example_vm_def init_vmspace_def in_addr_loop.simps)
  then obtain s1 where s1: "page_alloc_in_addr bump 0x400000 3 3 example_vm = Some (0x400000, s1)"
    by (simp add: page_alloc_in_addr_def paging_consts)
  with page_alloc_free_roundtrip [OF example_vm_ok example_vm_fresh _ s1, of "\<lambda>x h. h"] show ?thesis
    by (auto simp: paging_consts SIZE_MAX_def)
qed

theorem page_alloc_in_addr_no_memory_witness:
  "\<exists>s'. page_alloc_in_addr (\<lambda>n h. (NULL, h)) 0x400000 3 3 example_vm = Some (0x400000, s') \<and>
     page_prot 0x400000 s' = Some (- 1)"
  using page_alloc_in_addr_no_memory [OF example_vm_ok, of "\<lambda>n h. (NULL, h)" "0x400000" 3 3] example_vm_region
  by (auto simp: paging_consts)

theorem page_alloc_wraps_witness:
  "\<exists>s'. page_alloc bump 0x40000 3 0 example_vm = Some (0xC0100000, s') \<and>
     unat KERN_MAX_ADDR < unat (0xC0100000::u32) + 0x40000 * 4096"
  using page_alloc_wraps [OF example_vm_ok, of "0x40000" "0xC0100000" bump 3]
  by (simp add: example_vm_def init_vmspace_def paging_consts)

end
