(* ===== verification/Memset.thy ===== *)
theory Memset
  imports Memory
begin

text \<open>
  \<^verbatim>\<open>lib/memset.c\<close>: fill memory, by words once the destination is aligned. Loops return the
  final destination pointer with the memory.
\<close>

section \<open>The program\<close>

definition wsize :: u32 where "wsize = 4"
definition wmask :: u32 where "wmask = wsize - 1"

text \<open>\<open>while (length != 0)\<close> and, for a count other than 0, \<open>do ... while (--t != 0)\<close>, by bytes.\<close>

function memset_bytes :: "u32 \<Rightarrow> u8 \<Rightarrow> u32 \<Rightarrow> mem \<Rightarrow> u32 \<times> mem" where
  "memset_bytes dst v len m =
     (if len \<noteq> 0 then memset_bytes (dst + 1) v (len - 1) (m(dst := v)) else (dst, m))"
  by pat_completeness auto
termination
  by (relation "measure (\<lambda>(dst, v, len, m). unat len)") (auto simp: unat_minus_one unat_gt_0)

text \<open>\<open>do { *(uint32_t *)dst = c; dst += wsize; } while (--t != 0)\<close>\<close>

function memset_words :: "u32 \<Rightarrow> u32 \<Rightarrow> u32 \<Rightarrow> mem \<Rightarrow> u32 \<times> mem" where
  "memset_words dst c t m =
     (let m' = store32 dst c m in
      if t - 1 \<noteq> 0 then memset_words (dst + wsize) c (t - 1) m' else (dst + wsize, m'))"
  by pat_completeness auto
termination
  by (relation "measure (\<lambda>(dst, c, t, m). unat (t - 1))") (auto simp: unat_Suc_pred [of "t - 1" for t])

text \<open>The fill byte in every byte of a word.\<close>

definition fill_word :: "u32 \<Rightarrow> u32" where
  "fill_word c0 =
     (let c = ucast (ucast c0 :: u8) :: u32 in
      if c \<noteq> 0 then (let c = push_bit 8 c OR c in push_bit 16 c OR c) else c)"

definition memset :: "u32 \<Rightarrow> u32 \<Rightarrow> u32 \<Rightarrow> mem \<Rightarrow> u32 \<times> mem" where
  "memset dst0 c0 len m =
     (let v = ucast c0 in
      if len < 3 * wsize then (dst0, snd (memset_bytes dst0 v len m))
      else
        let c = fill_word c0;
            t = dst0 AND wmask;
            (dst, len, m) =
              (if t \<noteq> 0
               then let t = wsize - t; len = len - t; (dst, m) = memset_bytes dst0 v t m in (dst, len, m)
               else (dst0, len, m));
            (dst, m) = memset_words dst c (len div wsize) m;
            t = len AND wmask;
            (dst, m) = (if t \<noteq> 0 then memset_bytes dst v t m else (dst, m))
        in (dst0, m))"

declare memset_bytes.simps [simp del] and memset_words.simps [simp del]

section \<open>What the loops write\<close>

lemma memset_bytes_range:
  "memset_bytes dst v len m = (dst + len, mem_range dst (unat len) (\<lambda>_. v) m)"
proof (induction dst v len m rule: memset_bytes.induct)
  case (1 dst v len m)
  show ?case
  proof (cases "len = 0")
    case True
    then show ?thesis by (simp add: memset_bytes.simps)
  next
    case False
    then have n: "unat len = 1 + unat (len - 1)" by (simp add: unat_Suc_pred)
    have "1 + unat (len - 1) \<le> 4294967296" using u32_unat_bound [of "len - 1"] by simp
    from mem_range_append [OF this, of dst "\<lambda>_. v" "\<lambda>_. v" m]
    have "mem_range (dst + 1) (unat (len - 1)) (\<lambda>_. v) (m(dst := v)) = mem_range dst (unat len) (\<lambda>_. v) m"
      by (simp add: n mem_range_byte)
    moreover have "memset_bytes dst v len m = memset_bytes (dst + 1) v (len - 1) (m(dst := v))"
      using False by (subst memset_bytes.simps) simp
    ultimately show ?thesis by (simp only: 1 [OF False]) simp
  qed
qed

lemma fill_word_eq: "fill_word c0 = (let b = ucast (ucast c0 :: u8); x = push_bit 8 b OR b in push_bit 16 x OR x)"
  by (simp add: fill_word_def Let_def)

lemma byte_of_fill_word:
  assumes "j < 4"
  shows "byte_of (fill_word c0) j = ucast c0"
proof (rule bit_word_eqI)
  fix n :: nat
  assume "n < LENGTH(8)"
  then have n: "n < 8" by simp
  define b :: u8 where "b = ucast c0"
  have out: "\<not> bit b (8 + n)" "\<not> bit b (16 + n)" "\<not> bit b (24 + n)"
    by (simp_all add: bit_word_def)
  from assms consider "j = 0" | "j = 1" | "j = 2" | "j = 3" by linarith
  then have "bit (byte_of (fill_word c0) j) n = bit b n"
    by cases (insert n out, simp_all add: fill_word_eq b_def [symmetric] byte_of_def Let_def bit_simps)
  then show "bit (byte_of (fill_word c0) j) n = bit (ucast c0 :: u8) n"
    by (simp add: b_def)
qed

lemma memset_words_range:
  assumes "\<And>j. j < 4 \<Longrightarrow> byte_of c j = v" "t \<noteq> 0" "4 * unat t \<le> 4294967296"
  shows "memset_words dst c t m = (dst + 4 * t, mem_range dst (4 * unat t) (\<lambda>_. v) m)"
  using assms
proof (induction dst c t m rule: memset_words.induct)
  case (1 dst c t m)
  have store: "store32 dst c m = mem_range dst 4 (\<lambda>_. v) m"
    unfolding mem_range_store32 using 1(2) by (intro mem_range_cong)
  have n: "unat t = 1 + unat (t - 1)" using 1(3) by (simp add: unat_Suc_pred)
  show ?case
  proof (cases "t - 1 = 0")
    case True
    then have "t = 1" by simp
    then show ?thesis using store by (simp add: memset_words.simps wsize_def)
  next
    case False
    have "memset_words dst c t m = memset_words (dst + wsize) c (t - 1) (store32 dst c m)"
      using False by (subst memset_words.simps) simp
    also have "\<dots> = (dst + wsize + 4 * (t - 1), mem_range (dst + wsize) (4 * unat (t - 1)) (\<lambda>_. v) (store32 dst c m))"
      using 1(4) n by (intro 1(1) [OF refl False] 1(2) False) simp_all
    also have "mem_range (dst + wsize) (4 * unat (t - 1)) (\<lambda>_. v) (store32 dst c m) = mem_range dst (4 * unat t) (\<lambda>_. v) m"
      using mem_range_append [of 4 "4 * unat (t - 1)" dst "\<lambda>_. v" "\<lambda>_. v" m] 1(4) n by (simp add: store wsize_def)
    finally show ?thesis by (simp add: wsize_def algebra_simps)
  qed
qed

text \<open>The three parts of \<open>memset\<close> cover the range.\<close>

lemma unat_and_wmask: "unat (x AND wmask) = unat x mod 4"
  by (simp add: wmask_def wsize_def unat_and_3)

lemma fill_append:
  assumes "unat a + n \<le> 4294967296"
  shows "mem_range (d + a) n (\<lambda>_. v) (mem_range d (unat a) (\<lambda>_. v) m) = mem_range d (unat a + n) (\<lambda>_. v) m"
  using mem_range_append [OF assms, of d "\<lambda>_. v" "\<lambda>_. v" m] by simp

lemma memset_tail:
  assumes "4 \<le> unat len"
  shows "snd (let (dst, m) = memset_words d (fill_word c0) (len div wsize) m; t = len AND wmask
     in if t \<noteq> 0 then memset_bytes dst (ucast c0) t m else (dst, m)) = mem_range d (unat len) (\<lambda>_. ucast c0) m"
proof -
  let ?v = "ucast c0 :: u8"
  define q where "q = len div wsize"
  have q: "unat q = unat len div 4" by (simp add: q_def wsize_def unat_div)
  then have q0: "q \<noteq> 0" using assms by (auto simp: word_unat_eq_iff div_eq_0_iff)
  have q4: "unat (4 * q) = 4 * (unat len div 4)"
    using u32_unat_bound [of len] by (simp add: unat_word_ariths q)
  have w: "memset_words d (fill_word c0) q m = (d + 4 * q, mem_range d (4 * (unat len div 4)) (\<lambda>_. ?v) m)"
    unfolding q [symmetric] using u32_unat_bound [of len] q0
    by (intro memset_words_range) (auto simp: byte_of_fill_word q)
  have t: "unat (len AND wmask) = unat len mod 4" by (rule unat_and_wmask)
  have "mem_range (d + 4 * q) (unat len mod 4) (\<lambda>_. ?v) (mem_range d (4 * (unat len div 4)) (\<lambda>_. ?v) m)
      = mem_range d (unat len) (\<lambda>_. ?v) m"
    using fill_append [of "4 * q" "unat len mod 4" d ?v m] u32_unat_bound [of len] by (simp add: q4)
  moreover have "len AND wmask = 0 \<Longrightarrow> unat len mod 4 = 0" using t by simp
  ultimately show ?thesis unfolding q_def [symmetric] by (auto simp: w memset_bytes_range t Let_def)
qed

lemma memset_fill:
  "memset dst0 c0 len m = (dst0, \<lambda>x. if x - dst0 < len then ucast c0 else m x)"
proof -
  let ?v = "ucast c0 :: u8"
  have range: "mem_range dst0 (unat len) (\<lambda>_. ?v) m = (\<lambda>x. if x - dst0 < len then ?v else m x)"
    by (simp add: mem_range_def fun_eq_iff word_less_nat_alt)
  show ?thesis
  proof (cases "len < 3 * wsize")
    case True
    then show ?thesis by (simp add: memset_def memset_bytes_range range)
  next
    case False
    then have len: "12 \<le> unat len" by (simp add: wsize_def word_less_nat_alt)
    have "unat (dst0 AND wmask) < 4" by (simp add: unat_and_wmask)
    then have "dst0 AND wmask \<le> wsize" by (simp add: wsize_def word_le_nat_alt)
    then have k: "unat (wsize - (dst0 AND wmask)) \<le> 4"
      by (simp add: unat_sub_no_wrap) (simp add: wsize_def)
    let ?k = "if dst0 AND wmask \<noteq> 0 then wsize - (dst0 AND wmask) else 0"
    let ?m = "mem_range dst0 (unat ?k) (\<lambda>_. ?v) m"
    have len': "unat (len - ?k) = unat len - unat ?k"
      using len k by (intro unat_sub_no_wrap) (simp add: word_le_nat_alt)
    have "memset dst0 c0 len m = (dst0, snd (let (dst, m) = memset_words (dst0 + ?k) (fill_word c0) ((len - ?k) div wsize) ?m;
        t = (len - ?k) AND wmask in if t \<noteq> 0 then memset_bytes dst ?v t m else (dst, m)))"
      using False by (simp add: memset_def memset_bytes_range Let_def split: prod.split)
    also have "\<dots> = (dst0, mem_range (dst0 + ?k) (unat (len - ?k)) (\<lambda>_. ?v) ?m)"
      using len k len' by (subst memset_tail) auto
    also have "\<dots> = (dst0, mem_range dst0 (unat len) (\<lambda>_. ?v) m)"
      using fill_append [of ?k "unat (len - ?k)" dst0 ?v m] len k len' u32_unat_bound [of len] by simp
    finally show ?thesis by (simp only: range)
  qed
qed

text \<open>
  \<open>memset\<close> returns its destination and sets exactly the \<open>len\<close> bytes from there on to the
  low byte of its second argument, whatever the alignment and the length.
\<close>

theorem memset_correct:
  "memset dst0 c0 len m = (dst0, \<lambda>x. if x - dst0 < len then ucast c0 else m x)"
  by (rule memset_fill)

end
