(* ===== verification/PageFault.thy ===== *)
theory PageFault
  imports Vmspace Memset
begin

text \<open>
  Demand paging: \<^verbatim>\<open>do_page_fault\<close> of \<^verbatim>\<open>kernel/page.c\<close> and the call of it by the data abort
  handler of \<^verbatim>\<open>kernel/interrupt.c\<close>. It puts together the address space, the frame allocator,
  the page table entries and \<^verbatim>\<open>memset\<close>. The memory is the one the kernel sees through the
  MMU: after the entry is written, the page is the new frame, and \<^verbatim>\<open>memset\<close> clears it.
\<close>

definition do_page_fault ::
    "'h vmspace \<Rightarrow> pmzone list \<Rightarrow> u32 \<Rightarrow> u32 \<Rightarrow> mem \<Rightarrow> (int \<times> mem) option" where
  "do_page_fault s pmzone vaddr code m =
     (case page_prot vaddr s of
        None \<Rightarrow> None
      | Some prot \<Rightarrow>
          if prot = - 1 \<or> prot = VM_PROT_NONE then Some (-1, m)
          else
            let code = (if vaddr < KERN_MIN_ADDR then code OR PTE_U else code)
            in if code AND PTE_V = 0 then
                 let (paddr, m) = frame_alloc pmzone 1 m
                 in if paddr \<noteq> SIZE_MAX then
                      let x = PTE_V OR (code AND PTE_U);
                          x = (if prot AND VM_PROT_WRITE \<noteq> 0 then x OR PTE_W else x);
                          m = store32 (vtopte vaddr) (paddr OR x) m;
                          (p, m) = memset (PAGE_TRUNCATE vaddr) 0 PAGE_SIZE m
                      in Some (0, m)
                    else Some (-1, m)
               else Some (-1, m))"

text \<open>What \<^verbatim>\<open>common_Dabt_handler\<close> does to the memory: the fault status 0x805 is a write.\<close>

definition Dabt_page_fault ::
    "'h vmspace \<Rightarrow> pmzone list \<Rightarrow> u32 \<Rightarrow> u32 \<Rightarrow> mem \<Rightarrow> (int \<times> mem) option" where
  "Dabt_page_fault s pmzone vaddr code m =
     (if code = 0x805 then do_page_fault s pmzone vaddr VM_PROT_WRITE m
      else do_page_fault s pmzone vaddr VM_PROT_READ m)"

section \<open>The bytes of a page\<close>

lemma unat_and_4095: "unat ((x::u32) AND 4095) = unat x mod 4096"
proof -
  have "(4095::u32) = mask 12" by (simp add: mask_eq_exp_minus_1)
  then have "x AND 4095 = take_bit 12 x" by (simp add: take_bit_eq_mask)
  then show ?thesis by (simp add: take_bit_eq_mod unat_mod)
qed

lemma unat_PAGE_TRUNCATE: "unat (PAGE_TRUNCATE x) = unat x div 4096 * 4096"
proof -
  have "x AND 4095 \<le> x" by (simp add: word_le_nat_alt unat_and_4095)
  then have "unat (PAGE_TRUNCATE x) = unat x - unat x mod 4096"
    unfolding PAGE_TRUNCATE_def and_not_mask_sub by (simp add: paging_consts unat_sub_no_wrap unat_and_4095)
  then show ?thesis by (simp add: minus_mod_eq_div_mult)
qed

lemma page_bytes: "x - PAGE_TRUNCATE v < PAGE_SIZE \<longleftrightarrow> unat x div 4096 = unat v div 4096"
proof -
  let ?t = "PAGE_TRUNCATE v"
  have t: "unat ?t = unat v div 4096 * 4096" by (rule unat_PAGE_TRUNCATE)
  have v: "unat v div 4096 < 1048576" using u32_unat_bound [of v] by (simp add: div_less_iff_less_mult)
  show ?thesis
  proof (cases "?t \<le> x")
    case True
    then have "unat (x - ?t) = unat x - unat v div 4096 * 4096" "unat v div 4096 * 4096 \<le> unat x"
      by (simp_all add: unat_sub_no_wrap word_le_nat_alt t)
    then have "x - ?t < PAGE_SIZE \<longleftrightarrow> unat x < (unat v div 4096 + 1) * 4096"
      by (auto simp: word_less_nat_alt paging_consts)
    also have "\<dots> \<longleftrightarrow> unat x div 4096 = unat v div 4096"
      using \<open>unat v div 4096 * 4096 \<le> unat x\<close> by (simp add: div_nat_eqI) linarith
    finally show ?thesis .
  next
    case False
    then have lt: "unat x < unat v div 4096 * 4096" by (simp add: word_le_nat_alt t)
    then have "unat (x - ?t) = unat x + 4294967296 - unat v div 4096 * 4096"
      using unat_sub_if_size [of x ?t] t by (simp add: word_size)
    then have "\<not> x - ?t < PAGE_SIZE" using v by (simp add: word_less_nat_alt paging_consts)
    moreover have "unat x div 4096 \<noteq> unat v div 4096" using lt by (simp add: div_less_iff_less_mult [symmetric])
    ultimately show ?thesis by simp
  qed
qed

lemma pte_not_in_page:
  assumes "vaddr < USER_MAX_ADDR \<or> KERNBASE \<le> vaddr" "x \<in> word_at (vtopte vaddr)"
  shows "unat x div 4096 \<noteq> unat vaddr div 4096"
proof -
  have "unat vaddr div 4096 < 1048576" using u32_unat_bound [of vaddr] by (simp add: div_less_iff_less_mult)
  then have "unat (vtopte vaddr) \<le> unat x" "unat x < 0xC0000000"
    using word_at_bounds [OF assms(2)] word_at_vtopte_below [OF assms(2)]
    by (simp_all add: unat_vtopte word_less_nat_alt)
  then have "0xBFC00000 div 4096 \<le> unat x div 4096" "unat x div 4096 < 0xC0000000 div 4096"
    by (simp_all add: unat_vtopte div_le_mono div_less_iff_less_mult)
  moreover have "unat vaddr div 4096 < 0xBFC00000 div 4096 \<or> 0xC0000000 div 4096 \<le> unat vaddr div 4096"
    using assms(1) by (auto simp: paging_consts word_less_nat_alt word_le_nat_alt div_less_iff_less_mult less_eq_div_iff_mult_less_eq)
  ultimately show ?thesis by auto
qed

section \<open>Properties\<close>

text \<open>The entry a fault installs.\<close>

definition fault_pte :: "u32 \<Rightarrow> u32 \<Rightarrow> u32 \<Rightarrow> u32" where
  "fault_pte vaddr prot paddr = paddr OR (PTE_V OR (if vaddr < KERN_MIN_ADDR then PTE_U else 0)
     OR (if prot AND VM_PROT_WRITE \<noteq> 0 then PTE_W else 0))"


text \<open>
  A data abort on a read is never served: the handler passes \<open>VM_PROT_READ\<close>, which has the
  value of \<open>PTE_V\<close>, so the fault counts as one on a valid entry, whatever is allocated.
\<close>

lemma read_fault_refused:
  assumes "vm_ok s us ks" "code \<noteq> 0x805"
  shows "Dabt_page_fault s zs vaddr code m = Some (-1, m)"
proof -
  obtain prot where "page_prot vaddr s = Some prot" using vm_ok_page_prot [OF assms(1), of vaddr] by simp
  then show ?thesis
    using assms(2) by (simp add: Dabt_page_fault_def do_page_fault_def Let_def VM_PROT_READ_def PTE_V_def PTE_U_def)
qed

lemma Dabt_page_fault_returns:
  assumes "vm_ok s us ks"
  obtains r m' where "Dabt_page_fault s zs vaddr code m = Some (r, m')"
proof -
  obtain prot where "page_prot vaddr s = Some prot" using vm_ok_page_prot [OF assms(1), of vaddr] by simp
  then have "Dabt_page_fault s zs vaddr code m \<noteq> None"
    by (simp add: Dabt_page_fault_def do_page_fault_def Let_def split: prod.splits)
  then show thesis using that by auto
qed

section \<open>Witnesses\<close>


end
