(* ===== verification/InitPaging.thy ===== *)
theory InitPaging
  imports PageFault
begin

text \<open>
  \<open>init_paging\<close>, \<open>init_ram\<close> and \<open>md_startup\<close> of \<^verbatim>\<open>kernel/machdep.c\<close>: the page tables that are
  built behind the kernel image, and what is left to the frame allocator. The memory is the
  physical one. The tables are characterised word by word behind their base (\<open>slot\<close>), then by
  the translation that the MMU derives from them.
\<close>

section \<open>The page tables\<close>

lemma word_distance_decreases: "i < n \<Longrightarrow> unat (n - (i + 1)) < unat (n - i :: u32)"
proof -
  assume "i < n"
  then have "n - i \<noteq> 0" by auto
  moreover have "n - (i + 1) = n - i - 1" by simp
  ultimately show ?thesis using unat_pred_less [of "n - i"] by metis
qed

definition NR_KERN_PAGETABLE :: u32 where "NR_KERN_PAGETABLE = 20"

text \<open>\<open>pgdir[i] = pgdir[i+(KERNBASE>>PGDR_SHIFT)] = physfree|PTE_V\<close>, and the table is cleared.\<close>

function tables_loop :: "u32 \<Rightarrow> u32 \<Rightarrow> u32 \<Rightarrow> mem \<Rightarrow> u32 \<times> mem" where
  "tables_loop i pgdir physfree m =
     (if i < NR_KERN_PAGETABLE then
        let m = store32 (pgdir + 4 * (i + drop_bit PGDR_SHIFT KERNBASE)) (physfree OR PTE_V) m;
            m = store32 (pgdir + 4 * i) (physfree OR PTE_V) m;
            m = snd (memset physfree 0 (push_bit 10 1) m)
        in tables_loop (i + 1) pgdir (physfree + push_bit 10 1) m
      else (physfree, m))"
  by pat_completeness auto
termination
  by (relation "measure (\<lambda>(i, pgdir, physfree, m). unat (NR_KERN_PAGETABLE - i))") (auto intro!: word_distance_decreases)

function identity_loop :: "u32 \<Rightarrow> u32 \<Rightarrow> u32 \<Rightarrow> mem \<Rightarrow> mem" where
  "identity_loop i n pte m =
     (if i < n then identity_loop (i + 1) n pte (store32 (pte + 4 * i) (push_bit 12 i OR PTE_W OR PTE_V) m) else m)"
  by pat_completeness auto
termination
  by (relation "measure (\<lambda>(i, n, pte, m). unat (n - i))") (auto intro!: word_distance_decreases)

function io_loop :: "u32 \<Rightarrow> u32 \<Rightarrow> mem \<Rightarrow> mem" where
  "io_loop i pte m =
     (if i < 0x220 then
        io_loop (i + 1) pte (store32 (pte + 4 * (0x1000 + i)) (((0x20000000 + push_bit 12 i) AND 0xFFFFF000) OR PTE_V OR PTE_W) m)
      else m)"
  by pat_completeness auto
termination
  by (relation "measure (\<lambda>(i, pte, m). unat (0x220 - i))") (use word_distance_decreases [of _ "0x220"] in auto)

declare tables_loop.simps [simp del] identity_loop.simps [simp del] io_loop.simps [simp del]

text \<open>
  The value returned, the value for the translation table base register, and the memory. The
  instructions at the end load the register and turn the MMU on.
\<close>

definition init_paging :: "u32 \<Rightarrow> mem \<Rightarrow> u32 \<times> u32 \<times> mem" where
  "init_paging physfree m =
     (let pgdir = physfree;
          physfree = physfree + push_bit 14 1;
          pte = physfree;
          m = snd (memset pgdir 0 (push_bit 14 1) m);
          (physfree, m) = tables_loop 0 pgdir physfree m;
          m = identity_loop 0 (drop_bit 12 (PAGE_ROUNDUP physfree)) pte m;
          m = io_loop 0 pte m;
          m = store32 (pte + 4 * (20 * 256 + 0xF0)) (0x00000000 OR PTE_V OR PTE_W) m
      in (physfree, pgdir, m))"

definition init_ram :: "u32 \<Rightarrow> u32 list \<Rightarrow> u32 list" where
  "init_ram physfree g_ram_zone = g_ram_zone[0 := physfree, 1 := 0x1FFFFFFF, 2 := 0, 3 := 0]"

definition md_startup :: "u32 \<Rightarrow> u32 \<Rightarrow> u32 list \<Rightarrow> mem \<Rightarrow> u32 list \<times> u32 \<times> mem" where
  "md_startup mbi physfree g_ram_zone m =
     (case init_paging physfree m of (physfree, ttbr, m) \<Rightarrow> (init_ram physfree g_ram_zone, ttbr, m))"

section \<open>Words behind a base\<close>

definition slot :: "u32 \<Rightarrow> nat \<Rightarrow> u32" where
  "slot B i = B + of_nat (4 * i)"

lemma slot_0: "slot B 0 = B"
  by (simp add: slot_def)

lemma slot_index: "B + 4 * i = slot B (unat i)"
  by (simp add: slot_def)

lemma slot_slot: "slot (slot B i) j = slot B (i + j)"
  by (simp add: slot_def algebra_simps)

lemma slot_word_at:
  assumes "i < 1073741824"
  shows "x \<in> word_at (slot B i) \<longleftrightarrow> unat (x - B) div 4 = i"
proof
  assume "x \<in> word_at (slot B i)"
  then obtain k where k: "k < 4" "x = slot B i + k" by (auto simp: word_at_iff)
  then have "unat k < 4" by (simp add: word_less_nat_alt)
  moreover have "x - B = of_nat (4 * i + unat k)" by (simp add: k(2) slot_def)
  ultimately have "unat (x - B) = 4 * i + unat k" using assms by (simp only: u32_of_nat_unat)
  then show "unat (x - B) div 4 = i" using \<open>unat k < 4\<close> by simp
next
  assume i: "unat (x - B) div 4 = i"
  have "x - B = of_nat (4 * i + unat (x - B) mod 4)" unfolding i [symmetric] by simp
  then have "x = slot B i + of_nat (unat (x - B) mod 4)" by (simp add: slot_def algebra_simps)
  moreover have "(of_nat (unat (x - B) mod 4) :: u32) < 4" by (simp add: word_less_nat_alt u32_of_nat_unat)
  ultimately show "x \<in> word_at (slot B i)" unfolding word_at_iff by blast
qed

lemma load_slot_store:
  assumes "i < 1073741824" "j < 1073741824"
  shows "load32 (store32 (slot B j) v m) (slot B i) = (if i = j then v else load32 m (slot B i))"
proof (cases "i = j")
  case False
  then have "word_at (slot B j) \<inter> word_at (slot B i) = {}" using assms by (auto simp: slot_word_at)
  then show ?thesis using False by (simp add: load32_store32_disjoint)
qed simp

lemma store_slot_outside: "j < 1073741824 \<Longrightarrow> unat (x - B) div 4 \<noteq> j \<Longrightarrow> store32 (slot B j) v m x = m x"
  by (simp add: store32_outside slot_word_at)

definition clear_words :: "u32 \<Rightarrow> nat \<Rightarrow> mem \<Rightarrow> mem" where
  "clear_words a n m = snd (memset a 0 (of_nat (4 * n)) m)"

lemma clear_words_byte:
  assumes "k + n < 1073741824"
  shows "clear_words (slot B k) n m x = (if k \<le> unat (x - B) div 4 \<and> unat (x - B) div 4 < k + n then 0 else m x)"
proof -
  define q where "q = unat (x - B)"
  have q: "x - B = of_nat q" "q < 4294967296" using u32_unat_bound [of "x - B"] by (simp_all add: q_def)
  have "x - slot B k = of_nat q - of_nat (4 * k)" using q(1) by (simp add: slot_def algebra_simps)
  then have "x - slot B k < of_nat (4 * n) \<longleftrightarrow> 4 * k \<le> q \<and> q < 4 * k + 4 * n"
    using unat_sub_if_size [of "of_nat q :: u32" "of_nat (4 * k)"] assms q(2)
    by (auto simp: word_less_nat_alt u32_of_nat_unat word_le_nat_alt word_size simp del: of_nat_mult of_nat_add)
  also have "\<dots> \<longleftrightarrow> k \<le> q div 4 \<and> q div 4 < k + n" by linarith
  finally show ?thesis by (simp add: memset_fill clear_words_def q_def)
qed

lemma clear_words_load:
  assumes "k + n < 1073741824" "i < 1073741824"
  shows "load32 (clear_words (slot B k) n m) (slot B i) = (if k \<le> i \<and> i < k + n then 0 else load32 m (slot B i))"
proof -
  have byte: "clear_words (slot B k) n m x = (if k \<le> i \<and> i < k + n then 0 else m x)" if "x \<in> word_at (slot B i)" for x
    using that clear_words_byte [OF assms(1), of B m x] by (simp add: slot_word_at [OF assms(2)])
  show ?thesis
  proof (cases "k \<le> i \<and> i < k + n")
    case True
    then have "load32 (clear_words (slot B k) n m) (slot B i) = load32 (\<lambda>_. 0) (slot B i)"
      using byte by (intro load32_cong) simp
    then show ?thesis using True by (simp add: load32_def)
  next
    case False
    then have "load32 (clear_words (slot B k) n m) (slot B i) = load32 m (slot B i)"
      by (intro load32_cong) (simp only: byte False if_False)
    then show ?thesis by (simp only: False if_False)
  qed
qed

section \<open>The loops\<close>

text \<open>The entry of the page directory for the table \<open>i\<close> of those that follow the directory at \<open>B\<close>.\<close>

definition coarse_entry :: "u32 \<Rightarrow> nat \<Rightarrow> u32" where
  "coarse_entry B i = slot B (0x1000 + 256 * i) OR PTE_V"

text \<open>What the directory and the tables hold when the loop is at table \<open>k\<close>.\<close>

definition directory :: "u32 \<Rightarrow> nat \<Rightarrow> mem \<Rightarrow> bool" where
  "directory B k m \<longleftrightarrow>
     (\<forall>i<0x1000. load32 m (slot B i) =
        (if i < k then coarse_entry B i else if 0xC00 \<le> i \<and> i < 0xC00 + k then coarse_entry B (i - 0xC00) else 0)) \<and>
     (\<forall>i. 0x1000 \<le> i \<and> i < 0x1000 + 256 * k \<longrightarrow> load32 m (slot B i) = 0)"

lemma tables_step:
  assumes "directory B k m" "k < 20"
  shows "directory B (Suc k) (clear_words (slot B (0x1000 + 256 * k)) 256
      (store32 (slot B k) (coarse_entry B k) (store32 (slot B (k + 0xC00)) (coarse_entry B k) m)))"
    (is "directory B (Suc k) ?m")
  unfolding directory_def
proof (intro conjI allI impI)
  have l: "load32 ?m (slot B i) = (if 0x1000 + 256 * k \<le> i \<and> i < 0x1000 + 256 * k + 256 then 0
      else if i = k \<or> i = k + 0xC00 then coarse_entry B k else load32 m (slot B i))" if "i < 0x3000" for i
    using that assms(2) by (simp add: clear_words_load load_slot_store)
  show "load32 ?m (slot B i) = (if i < Suc k then coarse_entry B i
      else if 0xC00 \<le> i \<and> i < 0xC00 + Suc k then coarse_entry B (i - 0xC00) else 0)" if "i < 0x1000" for i
    using that assms by (subst l) (auto simp: directory_def)
  show "load32 ?m (slot B i) = 0" if "0x1000 \<le> i \<and> i < 0x1000 + 256 * Suc k" for i
    using that assms by (subst l) (auto simp: directory_def)
qed

lemma tables_loop_directory:
  assumes "directory B k m" "k \<le> 20"
  shows "\<exists>m'. tables_loop (of_nat k) B (slot B (0x1000 + 256 * k)) m = (slot B (0x1000 + 256 * 20), m') \<and> directory B 20 m' \<and>
    (\<forall>x. 0x2400 \<le> unat (x - B) div 4 \<longrightarrow> m' x = m x)"
  using assms
proof (induction "20 - k" arbitrary: k m)
  case 0
  then have "k = 20" by simp
  then show ?case using 0 by (subst tables_loop.simps) (simp add: NR_KERN_PAGETABLE_def)
next
  case (Suc d)
  then have k: "k < 20" by simp
  let ?m = "clear_words (slot B (0x1000 + 256 * k)) 256
      (store32 (slot B k) (coarse_entry B k) (store32 (slot B (k + 0xC00)) (coarse_entry B k) m))"
  have "(of_nat k :: u32) < NR_KERN_PAGETABLE" using k by (simp add: NR_KERN_PAGETABLE_def word_less_nat_alt u32_of_nat_unat)
  moreover have "B + 4 * (of_nat k + drop_bit PGDR_SHIFT KERNBASE) = slot B (k + 0xC00)"
    by (simp add: slot_def paging_consts PGDR_SHIFT_def drop_bit_eq_div)
  moreover have "B + 4 * of_nat k = slot B k" by (simp add: slot_def)
  moreover have "slot B (0x1000 + 256 * k) + push_bit 10 1 = slot B (0x1000 + 256 * Suc k)" by (simp add: slot_def)
  ultimately have step: "tables_loop (of_nat k) B (slot B (0x1000 + 256 * k)) m = tables_loop (of_nat (Suc k)) B (slot B (0x1000 + 256 * Suc k)) ?m"
    by (subst tables_loop.simps) (simp add: coarse_entry_def clear_words_def Let_def add.commute)
  have keep: "?m x = m x" if "0x2400 \<le> unat (x - B) div 4" for x
    using that k by (simp add: clear_words_byte store_slot_outside)
  have d: "d = 20 - Suc k" "Suc k \<le> 20" using Suc.hyps(2) k by simp_all
  note ih = Suc.hyps(1) [OF d(1) tables_step [OF Suc.prems(1) k] d(2)]
  show ?case unfolding step using ih keep by (elim ex_forward conj_forward) simp_all
qed

text \<open>The entry for the frame at \<open>a\<close>.\<close>

definition page_entry :: "nat \<Rightarrow> u32" where
  "page_entry a = of_nat a OR (PTE_V OR PTE_W)"

text \<open>The words \<open>P + i\<close> to \<open>P + n - 1\<close> behind \<open>B\<close> are entries for the pages from \<open>a\<close> on; all else is unchanged.\<close>

definition filled :: "u32 \<Rightarrow> nat \<Rightarrow> nat \<Rightarrow> nat \<Rightarrow> nat \<Rightarrow> mem \<Rightarrow> mem \<Rightarrow> bool" where
  "filled B P a i n m m' \<longleftrightarrow>
     (\<forall>q<1073741824. load32 m' (slot B q) = (if P + i \<le> q \<and> q < P + n then page_entry (a + 4096 * (q - P)) else load32 m (slot B q))) \<and>
     (\<forall>x. \<not> (P + i \<le> unat (x - B) div 4 \<and> unat (x - B) div 4 < P + n) \<longrightarrow> m' x = m x)"

lemma filled_done: "n \<le> i \<Longrightarrow> filled B P a i n m m"
  by (auto simp: filled_def)

lemma filled_step:
  assumes "filled B P a (Suc i) n (store32 (slot B (P + i)) (page_entry (a + 4096 * i)) m) m'" "i < n" "P + n < 1073741824"
  shows "filled B P a i n m m'"
  unfolding filled_def
proof (intro conjI allI impI)
  show "load32 m' (slot B q) = (if P + i \<le> q \<and> q < P + n then page_entry (a + 4096 * (q - P)) else load32 m (slot B q))"
    if "q < 1073741824" for q
    using assms that by (cases "q = P + i") (auto simp: filled_def load_slot_store)
  show "m' x = m x" if "\<not> (P + i \<le> unat (x - B) div 4 \<and> unat (x - B) div 4 < P + n)" for x
  proof -
    have "P + i < 1073741824" "unat (x - B) div 4 \<noteq> P + i" using that assms(2,3) by auto
    then show ?thesis using assms(1) that by (auto simp: filled_def store_slot_outside)
  qed
qed

lemma identity_loop_fills:
  "P + unat n < 1073741824 \<Longrightarrow> unat n < 1048576 \<Longrightarrow> filled B P 0 (unat i) (unat n) m (identity_loop i n (slot B P) m)"
proof (induction i n "slot B P" m rule: identity_loop.induct)
  case (1 i n m)
  show ?case
  proof (cases "i < n")
    case True
    then have i: "unat i < unat n" by (simp add: word_less_nat_alt)
    then have s: "unat (i + 1) = Suc (unat i)" using u32_unat_bound [of n] by (simp add: unat_add_no_wrap)
    have e: "push_bit 12 i OR PTE_W OR PTE_V = page_entry (0 + 4096 * unat i)"
      by (simp add: page_entry_def push_bit_eq_mult or.assoc or.commute mult.commute)
    have "filled B P 0 (Suc (unat i)) (unat n) (store32 (slot B (P + unat i)) (page_entry (0 + 4096 * unat i)) m)
        (identity_loop (i + 1) n (slot B P) (store32 (slot B (P + unat i)) (page_entry (0 + 4096 * unat i)) m))"
      using 1(1) [OF True 1(2,3)] unfolding s slot_index slot_slot e .
    then have "filled B P 0 (unat i) (unat n) m (identity_loop (i + 1) n (slot B P) (store32 (slot B (P + unat i)) (page_entry (0 + 4096 * unat i)) m))"
      by (rule filled_step [OF _ i 1(2)])
    then show ?thesis using True by (subst identity_loop.simps) (simp only: if_True slot_index slot_slot e)
  next
    case False
    then show ?thesis by (subst identity_loop.simps) (simp add: filled_done word_less_nat_alt)
  qed
qed

lemma clear_page_offset: "push_bit 12 y AND 0xFFFFF000 = (push_bit 12 y :: u32)"
proof -
  have m: "(0xFFFFF000 :: u32) = NOT (mask 12)" by (simp add: mask_eq_exp_minus_1)
  show ?thesis unfolding m by (rule bit_word_eqI) (auto simp: bit_simps)
qed

lemma io_frame: "(0x20000000 + push_bit 12 i) AND 0xFFFFF000 = (of_nat (0x20000000 + 4096 * unat i) :: u32)"
proof -
  have "0x20000000 + push_bit 12 i = push_bit 12 (0x20000 + i :: u32)" by (simp add: push_bit_eq_mult algebra_simps)
  then show ?thesis using clear_page_offset [of "0x20000 + i"] by (simp add: push_bit_eq_mult algebra_simps)
qed

lemma io_loop_fills:
  "P + 0x2000 < 1073741824 \<Longrightarrow> filled B (P + 0x1000) 0x20000000 (unat i) 0x220 m (io_loop i (slot B P) m)"
proof (induction i "slot B P" m rule: io_loop.induct)
  case (1 i m)
  show ?case
  proof (cases "i < 0x220")
    case True
    then have i: "unat i < 0x220" by (simp add: word_less_nat_alt)
    then have s: "unat (i + 1) = Suc (unat i)" "unat (0x1000 + i) = 0x1000 + unat i" by (simp_all add: unat_add_no_wrap)
    have e: "((0x20000000 + push_bit 12 i) AND 0xFFFFF000) OR PTE_V OR PTE_W = page_entry (0x20000000 + 4096 * unat i)"
      by (simp only: io_frame page_entry_def or.assoc)
    note f = filled_step [OF _ i, of B "P + 0x1000" "0x20000000"]
    have "filled B (P + 0x1000) 0x20000000 (unat i) 0x220 m
        (io_loop (i + 1) (slot B P) (store32 (slot B (P + 0x1000 + unat i)) (page_entry (0x20000000 + 4096 * unat i)) m))"
    proof (rule f)
      show "P + 0x1000 + 0x220 < 1073741824" using 1(2) by simp
      show "filled B (P + 0x1000) 0x20000000 (Suc (unat i)) 0x220 (store32 (slot B (P + 0x1000 + unat i)) (page_entry (0x20000000 + 4096 * unat i)) m)
          (io_loop (i + 1) (slot B P) (store32 (slot B (P + 0x1000 + unat i)) (page_entry (0x20000000 + 4096 * unat i)) m))"
        using 1(1) [OF True 1(2)] by (simp only: s slot_index slot_slot e add.assoc)
    qed
    then show ?thesis using True by (subst io_loop.simps) (simp only: if_True slot_index slot_slot e s add.assoc)
  next
    case False
    then show ?thesis by (subst io_loop.simps) (simp add: filled_done word_less_nat_alt)
  qed
qed

section \<open>The tables as a whole\<close>

text \<open>The frame that the entry \<open>j\<close> of the tables maps, for an identity mapping up to \<open>lim\<close>.\<close>

definition mapped_frame :: "nat \<Rightarrow> nat \<Rightarrow> nat option" where
  "mapped_frame lim j =
     (if 4096 * j < lim then Some (4096 * j)
      else if 0x1000 \<le> j \<and> j < 0x1220 then Some (0x20000000 + 4096 * (j - 0x1000)) else None)"

definition kernel_tables :: "u32 \<Rightarrow> nat \<Rightarrow> mem \<Rightarrow> bool" where
  "kernel_tables B lim m \<longleftrightarrow>
     (\<forall>i<0x1000. load32 m (slot B i) =
        (if i < 20 then coarse_entry B i else if 0xC00 \<le> i \<and> i < 0xC14 then coarse_entry B (i - 0xC00) else 0)) \<and>
     (\<forall>j<5120. load32 m (slot B (0x1000 + j)) = (case mapped_frame lim j of None \<Rightarrow> 0 | Some a \<Rightarrow> page_entry a))"

lemma init_paging_tables:
  assumes "unat B mod 16384 = 0" "unat B + 0xC000 \<le> 0x1000000"
  obtains m' where "init_paging B m = (slot B 0x2400, B, m')" "kernel_tables B (unat B + 0xC000) m'"
    "load32 m' (slot B 0x24F0) = 3" "\<And>x. 0x2400 \<le> unat (x - B) div 4 \<Longrightarrow> unat (x - B) div 4 \<noteq> 0x24F0 \<Longrightarrow> m' x = m x"
proof -
  define n where "n = drop_bit 12 (PAGE_ROUNDUP (slot B 0x2400))"
  obtain k where k: "unat B = 16384 * k" using assms(1) by (auto simp: mod_eq_0_iff_dvd dvd_def)
  have "unat (slot B 0x2400) = unat B + 0x9000"
    using assms(2) unfolding slot_def by (subst unat_add_no_wrap) simp_all
  then have "unat (PAGE_ROUNDUP (slot B 0x2400)) = unat B + 0xC000"
    using unat_PAGE_ROUNDUP [of "slot B 0x2400"] assms(2) k by simp
  then have n: "4096 * unat n = unat B + 0xC000" using k unfolding n_def by (simp add: drop_bit_eq_div unat_div)
  define m0 where "m0 = clear_words (slot B 0) 0x1000 m"
  have m0: "snd (memset B 0 (push_bit 14 1) m) = m0" by (simp add: m0_def clear_words_def slot_0)
  have "directory B 0 m0" by (auto simp: directory_def m0_def clear_words_load)
  from tables_loop_directory [OF this] obtain m1 where
    m1: "tables_loop 0 B (slot B 0x1000) m0 = (slot B 0x2400, m1)" "directory B 20 m1" "\<And>x. 0x2400 \<le> unat (x - B) div 4 \<Longrightarrow> m1 x = m0 x"
    by auto
  define m2 where "m2 = identity_loop 0 n (slot B 0x1000) m1"
  have f2: "filled B 0x1000 0 0 (unat n) m1 m2"
    using identity_loop_fills [of "0x1000" n B 0 m1] n assms(2) by (simp add: m2_def)
  define m3 where "m3 = io_loop 0 (slot B 0x1000) m2"
  have f3: "filled B 0x2000 0x20000000 0 0x220 m2 m3"
    using io_loop_fills [of "0x1000" B 0 m2] by (simp add: m3_def)
  define m' where "m' = store32 (slot B 0x24F0) 3 m3"
  have "slot B 0x1000 + 4 * (20 * 256 + 0xF0) = slot B 0x24F0" "B + push_bit 14 1 = slot B 0x1000" by (simp_all add: slot_def)
  moreover have entry: "0 OR PTE_V OR PTE_W = 3" by (simp add: PTE_V_def PTE_W_def)
  ultimately have run: "init_paging B m = (slot B 0x2400, B, m')"
    using m1(1) entry by (simp only: init_paging_def Let_def m0 prod.case m'_def m3_def m2_def n_def)
  have l: "load32 m' (slot B i) = load32 m3 (slot B i)" if "i < 0x2400" for i using that by (simp add: m'_def load_slot_store)
  have dir: "load32 m' (slot B i) = load32 m1 (slot B i)" if "i < 0x1000" for i
    using that f2 f3 by (simp add: l filled_def)
  have tab: "load32 m' (slot B (0x1000 + j)) = (case mapped_frame (unat B + 0xC000) j of None \<Rightarrow> 0 | Some a \<Rightarrow> page_entry a)" if "j < 5120" for j
  proof -
    have z: "load32 m1 (slot B (0x1000 + j)) = 0" using m1(2) that by (simp add: directory_def)
    have n1: "unat n \<le> 0x1000" using n assms(2) by linarith
    have "load32 m2 (slot B (0x1000 + j)) = (if j < unat n then page_entry (4096 * j) else 0)"
      using f2 that z by (simp add: filled_def)
    moreover have "load32 m3 (slot B (0x1000 + j)) =
        (if 0x1000 \<le> j \<and> j < 0x1220 then page_entry (0x20000000 + 4096 * (j - 0x1000)) else load32 m2 (slot B (0x1000 + j)))"
      using f3 that by (simp add: filled_def)
    moreover have "4096 * j < unat B + 0xC000 \<longleftrightarrow> j < unat n" unfolding n [symmetric] by simp
    ultimately show ?thesis using n1 that by (simp add: l mapped_frame_def)
  qed
  have out: "m' x = m x" if "0x2400 \<le> unat (x - B) div 4" "unat (x - B) div 4 \<noteq> 0x24F0" for x
  proof -
    have "unat n \<le> 0x1000" using n assms(2) by linarith
    then have "m2 x = m1 x" "m3 x = m2 x" using f2 f3 that(1) by (simp_all add: filled_def)
    moreover have "m0 x = m x" using that(1) by (simp add: m0_def clear_words_byte)
    moreover have "m' x = m3 x" unfolding m'_def by (rule store_slot_outside) (use that(2) in simp_all)
    ultimately show ?thesis using m1(3) [OF that(1)] by simp
  qed
  show thesis
  proof (rule that [OF run _ _ out])
    show "kernel_tables B (unat B + 0xC000) m'" using dir tab m1(2) by (simp add: kernel_tables_def directory_def)
    show "load32 m' (slot B 0x24F0) = 3" by (simp add: m'_def)
  qed
qed

section \<open>Translation\<close>

text \<open>
  The walk of the MMU through two levels of tables (ARM Architecture Reference Manual, short
  descriptors): a section, or a coarse table of large and small pages. Domain access is that
  of a manager, so permissions are not checked.
\<close>

definition mmu_walk :: "mem \<Rightarrow> u32 \<Rightarrow> u32 \<Rightarrow> u32 option" where
  "mmu_walk m ttbr va =
     (let l1 = load32 m ((ttbr AND 0xFFFFC000) OR push_bit 2 (drop_bit 20 va)) in
      if l1 AND 3 = 1 then
        let l2 = load32 m ((l1 AND 0xFFFFFC00) OR push_bit 2 (drop_bit 12 va AND 0xFF)) in
        if l2 AND 2 \<noteq> 0 then Some ((l2 AND 0xFFFFF000) OR (va AND 0xFFF))
        else if l2 AND 3 = 1 then Some ((l2 AND 0xFFFF0000) OR (va AND 0xFFFF))
        else None
      else if l1 AND 3 = 2 then Some ((l1 AND 0xFFF00000) OR (va AND 0xFFFFF))
      else None)"

lemma low_bits_clear:
  assumes "unat (a :: u32) mod 2 ^ k = 0" "i < k"
  shows "\<not> bit a i"
proof -
  have "unat (take_bit k a) = 0" unfolding unsigned_take_bit_eq by (simp add: take_bit_eq_mod assms(1))
  then have "take_bit k a = 0" by (rule unsigned_eq_0_iff [THEN iffD1])
  then have "\<not> bit (take_bit k a) i" by simp
  then show ?thesis using assms(2) by (simp add: bit_take_bit_iff)
qed

lemma high_bits_clear:
  assumes "unat (b :: u32) < 2 ^ k" "k \<le> i"
  shows "\<not> bit b i"
proof -
  have "unat (take_bit k b) = unat b" unfolding unsigned_take_bit_eq by (simp add: take_bit_nat_eq_self assms(1))
  then have "take_bit k b = b" by (simp only: word_unat_eq_iff)
  then show ?thesis using assms(2) by (metis bit_take_bit_iff linorder_not_le)
qed

lemma split_word:
  assumes "unat (a :: u32) mod 2 ^ k = 0" "unat b < 2 ^ k"
  shows "(a OR b) AND NOT (mask k) = a" "(a OR b) AND mask k = b" "a OR b = a + b"
proof -
  have l: "k \<le> i" if "bit a i" for i using low_bits_clear [OF assms(1), of i] that not_less by blast
  have h: "i < k" if "bit b i" for i using high_bits_clear [OF assms(2), of i] that not_le by blast
  show "(a OR b) AND NOT (mask k) = a"
    by (rule bit_word_eqI) (auto simp: bit_and_iff bit_or_iff bit_not_iff bit_mask_iff dest: l h leD)
  show "(a OR b) AND mask k = b"
    by (rule bit_word_eqI) (auto simp: bit_and_iff bit_or_iff bit_mask_iff dest: l h leD)
  have "a AND b = 0"
    by (rule bit_word_eqI) (auto simp: bit_and_iff dest: l h leD)
  then show "a OR b = a + b" by (simp add: disjunctive_add_eq_or)
qed

lemma word_masks: "NOT (mask 12) = (0xFFFFF000 :: u32)" "NOT (mask 10) = (0xFFFFFC00 :: u32)" "NOT (mask 14) = (0xFFFFC000 :: u32)"
  "mask 2 = (3 :: u32)" "mask 8 = (0xFF :: u32)" "mask 12 = (0xFFF :: u32)"
  by (simp_all add: mask_eq_exp_minus_1)

lemma page_entry_parts:
  assumes "a mod 4096 = 0" "a < 4294967296"
  shows "page_entry a AND 2 \<noteq> 0" "page_entry a AND 0xFFFFF000 = of_nat a"
proof -
  have e: "page_entry a = of_nat a OR 3" by (simp add: page_entry_def PTE_V_def PTE_W_def)
  have "bit (page_entry a AND 2) 1" unfolding e by (simp add: bit_and_iff bit_or_iff)
  then show "page_entry a AND 2 \<noteq> 0" by (metis bit_0_eq bot_apply bot_bool_def)
  show "page_entry a AND 0xFFFFF000 = of_nat a"
    unfolding e word_masks(1) [symmetric] using assms by (intro split_word) (simp_all add: u32_of_nat_unat)
qed

lemma unat_slot:
  assumes "unat B + 0xC000 \<le> 0x1000000" "i < 0x3000"
  shows "unat (slot B i) = unat B + 4 * i"
  using assms unfolding slot_def by (subst unat_add_no_wrap) (simp_all add: u32_of_nat_unat del: of_nat_mult)

lemma coarse_entry_parts:
  assumes "unat B mod 16384 = 0" "unat B + 0xC000 \<le> 0x1000000" "i < 20"
  shows "coarse_entry B i AND 3 = 1" "coarse_entry B i AND 0xFFFFFC00 = slot B (0x1000 + 256 * i)"
proof -
  obtain k where "unat B = 16384 * k" using assms(1) by (auto simp: mod_eq_0_iff_dvd dvd_def)
  then have u: "unat (slot B (0x1000 + 256 * i)) = 1024 * (16 * k + 16 + i)" using unat_slot [OF assms(2), of "0x1000 + 256 * i"] assms(3) by simp
  show "coarse_entry B i AND 3 = 1"
    unfolding coarse_entry_def PTE_V_def word_masks(4) [symmetric] by (rule split_word) (simp_all add: u)
  show "coarse_entry B i AND 0xFFFFFC00 = slot B (0x1000 + 256 * i)"
    unfolding coarse_entry_def PTE_V_def word_masks(2) [symmetric] by (rule split_word) (simp_all add: u)
qed

lemma walk_address:
  assumes "unat B mod 16384 = 0"
  shows "(B AND 0xFFFFC000) OR push_bit 2 (drop_bit 20 va) = slot B (unat va div 1048576)"
proof -
  have "B AND 0xFFFFC000 = B" using split_word(1) [of B 14 0] assms by (simp add: word_masks)
  moreover have "drop_bit 20 va = of_nat (unat va div 1048576)"
    using u32_unat_bound [of va] by (simp add: drop_bit_eq_div word_unat_eq_iff unat_div u32_of_nat_unat)
  then have "push_bit 2 (drop_bit 20 va) = of_nat (4 * (unat va div 1048576))" by (simp add: push_bit_eq_mult)
  moreover have "4 * (unat va div 1048576) < 16384" using u32_unat_bound [of va] by (simp add: div_less_iff_less_mult)
  ultimately show ?thesis using assms unfolding slot_def by (simp only:) (subst split_word(3) [of B 14], simp_all add: u32_of_nat_unat del: of_nat_mult)
qed

lemma walk_entry:
  assumes "unat B mod 16384 = 0" "unat B + 0xC000 \<le> 0x1000000" "i < 20"
  shows "slot B (0x1000 + 256 * i) OR push_bit 2 (drop_bit 12 va AND 0xFF) = slot B (0x1000 + 256 * i + unat va div 4096 mod 256)"
proof -
  obtain k where "unat B = 16384 * k" using assms(1) by (auto simp: mod_eq_0_iff_dvd dvd_def)
  then have u: "unat (slot B (0x1000 + 256 * i)) = 1024 * (16 * k + 16 + i)" using unat_slot [OF assms(2), of "0x1000 + 256 * i"] assms(3) by simp
  have "unat (take_bit 8 (drop_bit 12 va)) = unat va div 4096 mod 256"
    unfolding unsigned_take_bit_eq by (simp add: take_bit_eq_mod drop_bit_eq_div unat_div)
  then have "drop_bit 12 va AND 0xFF = of_nat (unat va div 4096 mod 256)"
    by (simp add: word_masks [symmetric] take_bit_eq_mask word_unat_eq_iff u32_of_nat_unat)
  then have "push_bit 2 (drop_bit 12 va AND 0xFF) = of_nat (4 * (unat va div 4096 mod 256))" by (simp add: push_bit_eq_mult)
  moreover have "unat (of_nat (4 * (unat va div 4096 mod 256)) :: u32) < 2 ^ 10" by (simp add: u32_of_nat_unat del: of_nat_mult)
  ultimately show ?thesis using u slot_slot [of B "0x1000 + 256 * i"]
    by (simp only:) (subst split_word(3) [of _ 10], simp_all add: slot_def algebra_simps)
qed

text \<open>The index in the tables that the walk comes to.\<close>

definition table_index :: "u32 \<Rightarrow> nat option" where
  "table_index va =
     (let i = unat va div 1048576; k = unat va div 4096 mod 256 in
      if i < 20 then Some (256 * i + k) else if 0xC00 \<le> i \<and> i < 0xC14 then Some (256 * (i - 0xC00) + k) else None)"

lemma mapped_frame_bounds:
  assumes "mapped_frame lim j = Some a" "lim \<le> 0x1000000"
  shows "a mod 4096 = 0" "a < 4294967296"
  using assms by (auto simp: mapped_frame_def split: if_splits)

lemma walk_second:
  assumes "kernel_tables B lim m" "unat B mod 16384 = 0" "unat B + 0xC000 \<le> 0x1000000" "lim \<le> 0x1000000" "i < 20"
    "load32 m (slot B (unat va div 1048576)) = coarse_entry B i"
  shows "mmu_walk m B va = map_option (\<lambda>a. of_nat a OR (va AND 0xFFF)) (mapped_frame lim (256 * i + unat va div 4096 mod 256))"
proof -
  let ?j = "256 * i + unat va div 4096 mod 256"
  have "256 * i + unat va div 4096 mod 256 < 256 * i + 256" by simp
  then have j: "?j < 5120" using assms(5) by linarith
  have "mmu_walk m B va = (let l2 = load32 m (slot B (0x1000 + ?j)) in
        if l2 AND 2 \<noteq> 0 then Some ((l2 AND 0xFFFFF000) OR (va AND 0xFFF))
        else if l2 AND 3 = 1 then Some ((l2 AND 0xFFFF0000) OR (va AND 0xFFFF))
        else None)"
    using walk_entry [OF assms(2,3,5), of va]
    unfolding mmu_walk_def walk_address [OF assms(2)] assms(6)
    by (simp only: Let_def coarse_entry_parts [OF assms(2,3,5)] simp_thms if_True add.assoc)
  moreover have "load32 m (slot B (0x1000 + ?j)) = (case mapped_frame lim ?j of None \<Rightarrow> 0 | Some a \<Rightarrow> page_entry a)"
    using assms(1) j unfolding kernel_tables_def by blast
  ultimately show ?thesis
    using page_entry_parts mapped_frame_bounds [OF _ assms(4), of ?j]
    by (cases "mapped_frame lim ?j") (simp_all add: Let_def)
qed

lemma mmu_walk_tables:
  assumes "kernel_tables B lim m" "unat B mod 16384 = 0" "unat B + 0xC000 \<le> 0x1000000" "lim \<le> 0x1000000"
  shows "mmu_walk m B va = map_option (\<lambda>a. of_nat a OR (va AND 0xFFF)) (Option.bind (table_index va) (mapped_frame lim))"
proof -
  let ?d = "unat va div 1048576"
  have d: "?d < 0x1000" using u32_unat_bound [of va] by (simp add: div_less_iff_less_mult)
  then have l1: "load32 m (slot B ?d) =
      (if ?d < 20 then coarse_entry B ?d else if 0xC00 \<le> ?d \<and> ?d < 0xC14 then coarse_entry B (?d - 0xC00) else 0)"
    using assms(1) unfolding kernel_tables_def by blast
  consider "?d < 20" | "\<not> ?d < 20" "0xC00 \<le> ?d" "?d < 0xC14" | "\<not> ?d < 20" "\<not> (0xC00 \<le> ?d \<and> ?d < 0xC14)" by blast
  then show ?thesis
  proof cases
    case 1
    then show ?thesis using walk_second [OF assms, of ?d va] l1 by (simp add: table_index_def Let_def)
  next
    case 2
    then have "?d - 0xC00 < 20" by simp
    then show ?thesis using 2 walk_second [OF assms, of "?d - 0xC00" va] l1 by (simp add: table_index_def Let_def)
  next
    case 3
    then have "load32 m (slot B ?d) = 0" "table_index va = None" using l1 by (auto simp: table_index_def Let_def)
    then show ?thesis unfolding mmu_walk_def walk_address [OF assms(2)] by simp
  qed
qed

lemma table_index_ranges:
  "table_index va = (if unat va < 0x1400000 then Some (unat va div 4096)
     else if 0xC0000000 \<le> unat va \<and> unat va < 0xC1400000 then Some ((unat va - 0xC0000000) div 4096) else None)"
proof -
  define a where "a = unat va"
  have s: "256 * (a div 1048576) + a div 4096 mod 256 = a div 4096"
  proof -
    have "a div 1048576 = a div 4096 div 256" by (simp add: div_mult2_eq [symmetric])
    then show ?thesis by (simp only: mult_div_mod_eq)
  qed
  have "a div 1048576 < 20 \<longleftrightarrow> a < 0x1400000" "0xC00 \<le> a div 1048576 \<longleftrightarrow> 0xC0000000 \<le> a" "a div 1048576 < 0xC14 \<longleftrightarrow> a < 0xC1400000"
    by (simp_all add: div_less_iff_less_mult less_eq_div_iff_mult_less_eq)
  moreover have "256 * (a div 1048576 - 0xC00) + a div 4096 mod 256 = (a - 0xC0000000) div 4096" if "0xC0000000 \<le> a"
  proof -
    obtain q where q: "a = q + 0xC0000000" using \<open>0xC0000000 \<le> a\<close> by (metis le_Suc_ex add.commute)
    have "a div 1048576 = q div 1048576 + 0xC00" "a div 4096 = q div 4096 + 0xC0000" by (simp_all add: q)
    then have "256 * (a div 1048576 - 0xC00) + a div 4096 mod 256 = a div 4096 - 0xC0000" using s by simp
    then show ?thesis using \<open>a div 4096 = q div 4096 + 0xC0000\<close> by (simp add: q)
  qed
  ultimately show ?thesis using s unfolding table_index_def a_def [symmetric] by (simp add: Let_def)
qed

text \<open>The address space that the kernel runs in, with the identity mapping up to \<open>lim\<close>.\<close>

definition kernel_map :: "nat \<Rightarrow> u32 \<Rightarrow> u32 option" where
  "kernel_map lim va =
     (let a = unat va in
      if a < lim then Some va
      else if 0x01000000 \<le> a \<and> a < 0x01220000 then Some (va + 0x1F000000)
      else if 0xC0000000 \<le> a \<and> a < 0xC0000000 + lim then Some (va - KERNBASE)
      else if 0xC1000000 \<le> a \<and> a < 0xC1220000 then Some (va - 0xC1000000 + 0x20000000)
      else None)"

lemma frame_and_offset:
  assumes "f mod 4096 = 0" "f < 4294967296"
  shows "of_nat f OR (va AND 0xFFF) = (of_nat (f + unat va mod 4096) :: u32)"
proof -
  have "unat (take_bit 12 va) = unat va mod 4096" unfolding unsigned_take_bit_eq by (simp add: take_bit_eq_mod)
  then have o: "va AND 0xFFF = of_nat (unat va mod 4096)"
    by (simp add: word_masks(6) [symmetric] take_bit_eq_mask word_unat_eq_iff u32_of_nat_unat)
  show ?thesis unfolding o by (subst split_word(3) [of _ 12]) (use assms in \<open>simp_all add: u32_of_nat_unat\<close>)
qed

lemma mapped_offset:
  assumes "lim mod 4096 = 0" "q < 0x1400000" "q mod 4096 = unat (va :: u32) mod 4096"
  shows "map_option (\<lambda>a. of_nat a OR (va AND 0xFFF)) (mapped_frame lim (q div 4096)) =
    (if q < lim then Some (of_nat q) else if 0x1000000 \<le> q \<and> q < 0x1220000 then Some (of_nat (q + 0x1F000000)) else None)"
proof -
  define j where "j = q div 4096"
  have q: "q = 4096 * j + unat va mod 4096" "unat va mod 4096 < 4096" unfolding j_def assms(3) [symmetric] by simp_all
  obtain l where l: "lim = 4096 * l" using assms(1) by (auto simp: mod_eq_0_iff_dvd dvd_def)
  have e: "4096 * j < lim \<longleftrightarrow> q < lim" "0x1000 \<le> j \<longleftrightarrow> 0x1000000 \<le> q" "j < 0x1220 \<longleftrightarrow> q < 0x1220000"
    by (simp_all add: j_def l div_less_iff_less_mult less_eq_div_iff_mult_less_eq mult.commute)
  have o: "of_nat (4096 * j) OR (va AND 0xFFF) = (of_nat q :: u32)"
    using frame_and_offset [of "4096 * j" va] q assms(2) by simp
  have i: "of_nat (0x20000000 + 4096 * (j - 0x1000)) OR (va AND 0xFFF) = (of_nat (q + 0x1F000000) :: u32)" if "0x1000 \<le> j"
  proof -
    have "0x20000000 + 4096 * (j - 0x1000) + unat va mod 4096 = q + 0x1F000000" using q that by simp
    moreover have "0x20000000 + 4096 * (j - 0x1000) < 4294967296" "(0x20000000 + 4096 * (j - 0x1000)) mod 4096 = 0"
      using q assms(2) by simp_all
    ultimately show ?thesis using frame_and_offset by metis
  qed
  show ?thesis unfolding j_def [symmetric] mapped_frame_def using o i by (simp add: e)
qed

lemma kernel_map_tables:
  assumes "lim mod 4096 = 0" "lim \<le> 0x1000000"
  shows "map_option (\<lambda>a. of_nat a OR (va AND 0xFFF)) (Option.bind (table_index va) (mapped_frame lim)) = kernel_map lim va"
proof -
  define a where "a = unat va"
  have km: "kernel_map lim va = (if a < lim then Some (of_nat a)
      else if 0x01000000 \<le> a \<and> a < 0x01220000 then Some (of_nat (a + 0x1F000000))
      else if 0xC0000000 \<le> a \<and> a < 0xC0000000 + lim then Some (of_nat a - 0xC0000000)
      else if 0xC1000000 \<le> a \<and> a < 0xC1220000 then Some (of_nat a - 0xC1000000 + 0x20000000) else None)"
    by (simp add: kernel_map_def Let_def a_def paging_consts)
  consider "a < 0x1400000" | "\<not> a < 0x1400000" "0xC0000000 \<le> a" "a < 0xC1400000" | "\<not> a < 0x1400000" "\<not> (0xC0000000 \<le> a \<and> a < 0xC1400000)"
    by blast
  then show ?thesis
  proof cases
    case 1
    have "map_option (\<lambda>a. of_nat a OR (va AND 0xFFF)) (mapped_frame lim (a div 4096)) = kernel_map lim va"
      by (subst mapped_offset [OF assms(1) 1]) (use 1 assms(2) in \<open>simp_all add: km a_def\<close>)
    then show ?thesis using 1 by (simp add: table_index_ranges a_def [symmetric])
  next
    case 2
    obtain q where q: "a = q + 0xC0000000" using 2(2) by (metis le_Suc_ex add.commute)
    have "q < 0x1400000" "q mod 4096 = unat va mod 4096" using 2(3) unfolding a_def [symmetric] q by (simp_all add: mod_add_eq [symmetric])
    then have "map_option (\<lambda>a. of_nat a OR (va AND 0xFFF)) (mapped_frame lim (q div 4096)) = kernel_map lim va"
      using assms(2) by (simp add: mapped_offset [OF assms(1)] km q)
    then show ?thesis using 2 by (simp add: table_index_ranges a_def [symmetric] q)
  next
    case 3
    then show ?thesis using assms(2) by (auto simp: table_index_ranges km a_def [symmetric])
  qed
qed

lemma init_paging_result:
  assumes "unat physfree mod 16384 = 0" "unat physfree + 0xC000 \<le> 0x1000000"
  obtains m' where "init_paging physfree m = (physfree + 0x9000, physfree, m')"
    "\<And>va. mmu_walk m' physfree va = kernel_map (unat physfree + 0xC000) va"
    "load32 m' (physfree + 0x93C0) = 3"
    "\<And>x. 0x9000 \<le> unat (x - physfree) \<Longrightarrow> x \<notin> word_at (physfree + 0x93C0) \<Longrightarrow> m' x = m x"
proof -
  obtain m' where run: "init_paging physfree m = (slot physfree 0x2400, physfree, m')"
    and t: "kernel_tables physfree (unat physfree + 0xC000) m'"
    and v: "load32 m' (slot physfree 0x24F0) = 3"
    and out: "\<And>x. 0x2400 \<le> unat (x - physfree) div 4 \<Longrightarrow> unat (x - physfree) div 4 \<noteq> 0x24F0 \<Longrightarrow> m' x = m x"
    using init_paging_tables [OF assms, of m] by metis
  have s: "slot physfree 0x2400 = physfree + 0x9000" "slot physfree 0x24F0 = physfree + 0x93C0" by (simp_all add: slot_def)
  have "4096 dvd unat physfree" using dvd_trans [of 4096 16384 "unat physfree"] assms(1) by (simp add: mod_eq_0_iff_dvd)
  then have lim: "(unat physfree + 0xC000) mod 4096 = 0" unfolding mod_eq_0_iff_dvd by (intro dvd_add) simp_all
  have "mmu_walk m' physfree va = kernel_map (unat physfree + 0xC000) va" for va
    unfolding mmu_walk_tables [OF t assms assms(2)] by (rule kernel_map_tables [OF lim assms(2)])
  moreover have "m' x = m x" if "0x9000 \<le> unat (x - physfree)" "x \<notin> word_at (physfree + 0x93C0)" for x
  proof (rule out)
    show "0x2400 \<le> unat (x - physfree) div 4" using that(1) by (simp add: less_eq_div_iff_mult_less_eq)
    show "unat (x - physfree) div 4 \<noteq> 0x24F0" using that(2) slot_word_at [of "0x24F0" x physfree] unfolding s by simp
  qed
  ultimately show thesis using run v that unfolding s by blast
qed

text \<open>
  C9. \<open>init_paging\<close> for a kernel image that ends at a multiple of 16 KiB below 16 MiB: the MMU
  then translates every address as \<open>kernel_map\<close> says. The image and the tables are mapped to
  themselves and behind \<open>KERNBASE\<close>, the devices behind 0xC1000000 (and, by the same tables, behind
  0x01000000), and nothing else is. Outside of the tables one word of memory changes.
\<close>

theorem init_paging_correct:
  assumes "unat physfree mod 16384 = 0" "unat physfree + 0xC000 \<le> 0x1000000"
  shows "\<exists>m'. init_paging physfree m = (physfree + 0x9000, physfree, m') \<and>
    (\<forall>va. mmu_walk m' physfree va = kernel_map (unat physfree + 0xC000) va) \<and>
    (\<forall>x. 0x9000 \<le> unat (x - physfree) \<and> x \<notin> word_at (physfree + 0x93C0) \<longrightarrow> m' x = m x)"
  using init_paging_result [OF assms, of m] by metis

text \<open>
  The entry that is to map the vector page lies behind the last table: no directory entry
  leads to it, so addresses from 0xFFFF0000 on are not mapped. It is written into the memory that
  \<open>init_ram\<close> then gives to the frame allocator as free.
\<close>

theorem vector_page_unmapped:
  assumes "unat physfree mod 16384 = 0" "unat physfree + 0xC000 \<le> 0x1000000" "0xFFFF0000 \<le> va" "md_startup mbi physfree zone m = (zone', ttbr, m')"
    "length zone = 16"
  shows "mmu_walk m' ttbr va = None \<and> load32 m' (zone' ! 0 + 0x3C0) = 0 OR PTE_V OR PTE_W"
proof -
  obtain m1 where i: "init_paging physfree m = (physfree + 0x9000, physfree, m1)"
    "\<And>va. mmu_walk m1 physfree va = kernel_map (unat physfree + 0xC000) va" "load32 m1 (physfree + 0x93C0) = 3"
    using init_paging_result [OF assms(1,2), of m] by metis
  then have r: "zone' = init_ram (physfree + 0x9000) zone" "ttbr = physfree" "m' = m1"
    using assms(4) by (auto simp: md_startup_def)
  have "zone' ! 0 + 0x3C0 = physfree + 0x93C0" using assms(5) by (simp add: r(1) init_ram_def ac_simps)
  moreover have "kernel_map (unat physfree + 0xC000) va = None"
    using assms(2,3) by (simp add: kernel_map_def Let_def word_le_nat_alt)
  ultimately show ?thesis using i(2) r(2,3) by (simp only: i(3)) (simp add: PTE_V_def PTE_W_def)
qed

text \<open>A kernel image of 64 KiB.\<close>

theorem init_paging_correct_witness:
  "\<exists>m'. init_paging 0x10000 (\<lambda>_. 0) = (0x19000, 0x10000, m') \<and> mmu_walk m' 0x10000 0xC0008010 = Some 0x8010 \<and>
     mmu_walk m' 0x10000 0xC1215040 = Some 0x20215040 \<and> mmu_walk m' 0x10000 0xD0000000 = None"
  using init_paging_correct [of "0x10000" "\<lambda>_. 0"] by (auto simp: kernel_map_def Let_def paging_consts)

theorem vector_page_unmapped_witness:
  "mmu_walk (snd (snd (md_startup 0 0x10000 (replicate 16 0) (\<lambda>_. 0)))) 0x10000 0xFFFF0018 = None"
proof -
  obtain m1 where "init_paging 0x10000 (\<lambda>_. 0) = (0x19000, 0x10000, m1)"
    by (rule init_paging_result [of "0x10000" "\<lambda>_. 0"]) simp_all
  then have "md_startup 0 0x10000 (replicate 16 0) (\<lambda>_. 0) = (init_ram 0x19000 (replicate 16 0), 0x10000, m1)"
    by (simp add: md_startup_def)
  then show ?thesis using vector_page_unmapped [of "0x10000" "0xFFFF0018" 0 "replicate 16 0"] by simp
qed

end
