(* ===== verification/Memcpy.thy ===== *)
theory Memcpy
  imports Memory
begin

text \<open>
  \<^verbatim>\<open>lib/memcpy.c\<close> in the configuration that is compiled (\<^verbatim>\<open>LITTLE_ENDIAN\<close>,
  \<^verbatim>\<open>INDEXED_COPY\<close>, 32-bit words): bytes until the destination is aligned, then words,
  put together from two source words by shifts when the source is not aligned, then bytes.
  The word loops are written once, as the macros are, over the macro that copies one word.
\<close>

section \<open>The program\<close>

definition TYPE_WIDTH :: u32 where "TYPE_WIDTH = 4"

text \<open>\<open>INC_VAL(dst8) = INC_VAL(src8)\<close> a number of times, on (\<open>dst8\<close>, \<open>src8\<close>, memory).\<close>

primrec copy_bytes :: "nat \<Rightarrow> u32 \<times> u32 \<times> mem \<Rightarrow> u32 \<times> u32 \<times> mem" where
  "copy_bytes 0 st = st"
| "copy_bytes (Suc n) st = (case st of (d, s, m) \<Rightarrow> copy_bytes n (d + 1, s + 1, m(d := m s)))"

text \<open>The \<open>switch\<close> that falls through: case \<open>k\<close> copies \<open>k\<close> bytes, above 7 none.\<close>

definition COPY_REMAINING :: "u32 \<Rightarrow> u32 \<times> u32 \<times> mem \<Rightarrow> u32 \<times> u32 \<times> mem" where
  "COPY_REMAINING count st = (if count < 8 then copy_bytes (unat count) st else st)"

text \<open>One word at \<open>dstN\<close> from \<open>srcN\<close>; the shifting variant carries \<open>srcWord\<close>.\<close>

definition CP :: "u32 \<Rightarrow> u32 \<Rightarrow> unit \<Rightarrow> mem \<Rightarrow> unit \<times> mem" where
  "CP dstN srcN w m = ((), store32 dstN (load32 m srcN) m)"

definition CP_SH :: "nat \<Rightarrow> nat \<Rightarrow> u32 \<Rightarrow> u32 \<Rightarrow> u32 \<Rightarrow> mem \<Rightarrow> u32 \<times> mem" where
  "CP_SH shl shr dstN srcN srcWord m =
     (let dstWord = drop_bit shl srcWord;
          srcWord = load32 m srcN;
          dstWord = dstWord OR push_bit shr srcWord
      in (srcWord, store32 dstN dstWord m))"

text \<open>\<open>while (length & 7)\<close>: single words; \<open>while (length--)\<close>: eight words at a time.\<close>

function copy_single ::
    "(u32 \<Rightarrow> u32 \<Rightarrow> 'w \<Rightarrow> mem \<Rightarrow> 'w \<times> mem) \<Rightarrow> u32 \<Rightarrow> u32 \<Rightarrow> u32 \<Rightarrow> 'w \<Rightarrow> mem \<Rightarrow> u32 \<times> u32 \<times> u32 \<times> 'w \<times> mem" where
  "copy_single cp dstN srcN len w m =
     (if len AND 7 \<noteq> 0
      then let (w, m) = cp dstN srcN w m
           in copy_single cp (dstN + TYPE_WIDTH) (srcN + TYPE_WIDTH) (len - 1) w m
      else (dstN, srcN, len, w, m))"
  by pat_completeness auto
termination
  by (relation "measure (\<lambda>(cp, dstN, srcN, len, w, m). unat len)")
    (auto intro!: unat_pred_less)

definition copy_block ::
    "(u32 \<Rightarrow> u32 \<Rightarrow> 'w \<Rightarrow> mem \<Rightarrow> 'w \<times> mem) \<Rightarrow> u32 \<Rightarrow> u32 \<Rightarrow> 'w \<times> mem \<Rightarrow> 'w \<times> mem" where
  "copy_block cp dstN srcN =
     fold (\<lambda>idx (w, m). cp (dstN + TYPE_WIDTH * idx) (srcN + TYPE_WIDTH * idx) w m) [0, 1, 2, 3, 4, 5, 6, 7]"

function copy_blocks ::
    "(u32 \<Rightarrow> u32 \<Rightarrow> 'w \<Rightarrow> mem \<Rightarrow> 'w \<times> mem) \<Rightarrow> u32 \<Rightarrow> u32 \<Rightarrow> u32 \<Rightarrow> 'w \<Rightarrow> mem \<Rightarrow> u32 \<times> u32 \<times> 'w \<times> mem" where
  "copy_blocks cp dstN srcN len w m =
     (if len \<noteq> 0
      then let (w, m) = copy_block cp dstN srcN (w, m)
           in copy_blocks cp (dstN + TYPE_WIDTH * 8) (srcN + TYPE_WIDTH * 8) (len - 1) w m
      else (dstN, srcN, w, m))"
  by pat_completeness auto
termination
  by (relation "measure (\<lambda>(cp, dstN, srcN, len, w, m). unat len)") (auto simp: unat_Suc_pred)

definition COPY_NO_SHIFT :: "u32 \<Rightarrow> u32 \<Rightarrow> u32 \<Rightarrow> mem \<Rightarrow> mem" where
  "COPY_NO_SHIFT dst8 src8 count m =
     (let (dstN, srcN, len, w, m) = copy_single CP dst8 src8 (count div TYPE_WIDTH) () m;
          (dstN, srcN, w, m) = copy_blocks CP dstN srcN (len div 8) w m;
          (dst8, src8, m) = COPY_REMAINING (count AND (TYPE_WIDTH - 1)) (dstN, srcN, m)
      in m)"

definition COPY_SHIFT :: "nat \<Rightarrow> u32 \<Rightarrow> u32 \<Rightarrow> u32 \<Rightarrow> mem \<Rightarrow> mem" where
  "COPY_SHIFT shift dst8 src8 count m =
     (let dstN = dst8 AND NOT (TYPE_WIDTH - 1);
          srcN = src8 AND NOT (TYPE_WIDTH - 1);
          srcWord = load32 m srcN;
          srcN = srcN + TYPE_WIDTH;
          cp = CP_SH (8 * shift) (8 * (4 - shift));
          (dstN, srcN, len, w, m) = copy_single cp dstN srcN (count div TYPE_WIDTH) srcWord m;
          (dstN, srcN, w, m) = copy_blocks cp dstN srcN (len div 8) w m;
          src8 = srcN + (of_nat shift - TYPE_WIDTH);
          (dst8, src8, m) = COPY_REMAINING (count AND (TYPE_WIDTH - 1)) (dstN, src8, m)
      in m)"

function copy_align :: "u32 \<Rightarrow> u32 \<Rightarrow> u32 \<Rightarrow> mem \<Rightarrow> u32 \<times> u32 \<times> u32 \<times> mem" where
  "copy_align dst8 src8 count m =
     (if dst8 AND (TYPE_WIDTH - 1) \<noteq> 0
      then copy_align (dst8 + 1) (src8 + 1) (count - 1) (m(dst8 := m src8))
      else (dst8, src8, count, m))"
  by pat_completeness auto
termination
proof (relation "measure (\<lambda>(dst8, src8, count, m). (4 - unat dst8 mod 4) mod 4)")
  fix dst8 src8 count :: u32 and m :: mem
  assume "dst8 AND (TYPE_WIDTH - 1) \<noteq> 0"
  then have "unat dst8 mod 4 \<noteq> 0"
    using unat_and_3 [of dst8] by (simp add: TYPE_WIDTH_def word_unat_eq_iff)
  moreover have "unat (dst8 + 1) mod 4 = (unat dst8 mod 4 + 1) mod 4"
    using unat_add_mod4 [of dst8 1] by (simp add: mod_simps)
  moreover have "unat dst8 mod 4 < 4" by simp
  ultimately have "(4 - unat (dst8 + 1) mod 4) mod 4 < (4 - unat dst8 mod 4) mod 4"
    by (cases "unat dst8 mod 4 = 3") simp_all
  then show "((dst8 + 1, src8 + 1, count - 1, m(dst8 := m src8)), dst8, src8, count, m)
      \<in> measure (\<lambda>(dst8, src8, count, m). (4 - unat dst8 mod 4) mod 4)" by simp
qed simp

declare copy_single.simps [simp del] and copy_blocks.simps [simp del] and copy_align.simps [simp del]

definition memcpy :: "u32 \<Rightarrow> u32 \<Rightarrow> u32 \<Rightarrow> mem \<Rightarrow> u32 \<times> mem" where
  "memcpy dest src count m =
     (if count < 8 then (case COPY_REMAINING count (dest, src, m) of (dst8, src8, m) \<Rightarrow> (dest, m))
      else
        let (dst8, src8, count, m) = copy_align dest src count m;
            k = src8 AND (TYPE_WIDTH - 1)
        in (dest, if k = 0 then COPY_NO_SHIFT dst8 src8 count m
                  else if k = 1 then COPY_SHIFT 1 dst8 src8 count m
                  else if k = 2 then COPY_SHIFT 2 dst8 src8 count m
                  else COPY_SHIFT 3 dst8 src8 count m))"

section \<open>The contract of the macros that copy a word\<close>

text \<open>
  A copying job: the memory before it, where it copies from and to, and its length. The ranges
  must be disjoint; then the source can be read from the memory as it was.
\<close>

record copy_job =
  j_mem :: mem
  j_dst :: u32
  j_src :: u32
  j_len :: nat

definition no_overlap :: "u32 \<Rightarrow> u32 \<Rightarrow> nat \<Rightarrow> bool" where
  "no_overlap d s n \<longleftrightarrow> n \<le> unat (d - s) \<and> n \<le> unat (s - d)"

definition copied :: "copy_job \<Rightarrow> nat \<Rightarrow> mem \<Rightarrow> bool" where
  "copied j k m \<longleftrightarrow> no_overlap (j_dst j) (j_src j) (j_len j) \<and> k \<le> j_len j \<and>
     m = mem_range (j_dst j) k (\<lambda>i. j_mem j (j_src j + of_nat i)) (j_mem j)"

lemma unat_sub_swap: "(d::u32) \<noteq> s \<Longrightarrow> unat (s - d) + unat (d - s) = 4294967296"
  using unat_sub_if_size [of s d] unat_sub_if_size [of d s] u32_unat_bound [of s] u32_unat_bound [of d]
  by (auto simp: word_size word_unat_eq_iff)

lemma no_overlap_bound:
  assumes "no_overlap d s n" "0 < n"
  shows "2 * n \<le> 4294967296"
proof -
  have "d \<noteq> s" using assms by (auto simp: no_overlap_def)
  then have "unat (s - d) + unat (d - s) = 4294967296" by (rule unat_sub_swap)
  then show ?thesis using assms(1) by (simp add: no_overlap_def)
qed

lemma no_overlap_outside:
  assumes "no_overlap d s n" "i < n"
  shows "\<not> unat (s + of_nat i - d) < n"
proof -
  have d: "d \<noteq> s" using assms by (auto simp: no_overlap_def)
  then have "unat (s - d) + unat (d - s) = 4294967296" by (rule unat_sub_swap)
  then have le: "unat (s - d) + i < 4294967296" and low: "n \<le> unat (s - d)"
    using assms by (auto simp: no_overlap_def)
  then have "unat (of_nat i :: u32) = i" by (simp add: u32_of_nat_unat)
  then have "unat ((s - d) + of_nat i) = unat (s - d) + i"
    using le by (simp add: unat_add_no_wrap)
  then show ?thesis using low by (simp add: algebra_simps)
qed

lemma copied_source: "copied j k m \<Longrightarrow> i < j_len j \<Longrightarrow> m (j_src j + of_nat i) = j_mem j (j_src j + of_nat i)"
  using no_overlap_outside [of "j_dst j" "j_src j" "j_len j" i] by (auto simp: copied_def mem_range_def)

lemma copied_extend:
  assumes "copied j k m" "k + n \<le> j_len j" "\<And>i. i < n \<Longrightarrow> f i = j_mem j (j_src j + of_nat (k + i))"
  shows "copied j (k + n) (mem_range (j_dst j + of_nat k) n f m)"
proof (cases "n = 0")
  case False
  then have len: "k + n \<le> 4294967296"
    using assms no_overlap_bound [of "j_dst j" "j_src j" "j_len j"] by (auto simp: copied_def)
  have "mem_range (j_dst j + of_nat k) n f m =
      mem_range (j_dst j + of_nat k) n (\<lambda>i. j_mem j (j_src j + of_nat (k + i))) m"
    using assms(3) by (rule mem_range_cong)
  also have "\<dots> = mem_range (j_dst j) (k + n) (\<lambda>i. j_mem j (j_src j + of_nat i)) (j_mem j)"
    using assms(1) mem_range_extend [OF len, of "j_dst j" "\<lambda>i. j_mem j (j_src j + of_nat i)"] by (simp add: copied_def)
  finally show ?thesis using assms(1,2) by (simp add: copied_def)
qed (use assms in simp)

lemma copy_bytes_copied:
  "copied j k m \<Longrightarrow> k + n \<le> j_len j \<Longrightarrow>
   \<exists>m'. copy_bytes n (j_dst j + of_nat k, j_src j + of_nat k, m) =
       (j_dst j + of_nat (k + n), j_src j + of_nat (k + n), m') \<and> copied j (k + n) m'"
proof (induction n arbitrary: k m)
  case (Suc n)
  define m1 where "m1 = m(j_dst j + of_nat k := m (j_src j + of_nat k))"
  have "copied j (k + 1) m1"
    unfolding m1_def mem_range_byte
    using Suc.prems copied_source [OF Suc.prems(1), of k] by (intro copied_extend) auto
  moreover have "copy_bytes (Suc n) (j_dst j + of_nat k, j_src j + of_nat k, m) =
      copy_bytes n (j_dst j + of_nat (k + 1), j_src j + of_nat (k + 1), m1)"
    by (simp add: m1_def add.assoc add.commute [of 1])
  ultimately show ?case
    using Suc.IH [of "k + 1" m1] Suc.prems(2) by simp
qed simp

locale word_copier =
  fixes cp :: "'p \<Rightarrow> u32 \<Rightarrow> u32 \<Rightarrow> 'w \<Rightarrow> mem \<Rightarrow> 'w \<times> mem"
    and inv :: "'p \<Rightarrow> nat \<Rightarrow> 'w \<Rightarrow> mem \<Rightarrow> bool"
    and dst src :: "'p \<Rightarrow> u32" and num :: "'p \<Rightarrow> nat"
  assumes cp_inv: "inv p k w m \<Longrightarrow> k < num p \<Longrightarrow>
    cp p (dst p + TYPE_WIDTH * of_nat k) (src p + TYPE_WIDTH * of_nat k) w m = (w', m') \<Longrightarrow> inv p (Suc k) w' m'"
begin

lemma single:
  "inv p k w m \<Longrightarrow> k + unat len \<le> num p \<Longrightarrow>
   \<exists>w' m'. copy_single (cp p) (dst p + TYPE_WIDTH * of_nat k) (src p + TYPE_WIDTH * of_nat k) len w m =
      (dst p + TYPE_WIDTH * of_nat (k + unat len mod 8), src p + TYPE_WIDTH * of_nat (k + unat len mod 8),
       len - len mod 8, w', m') \<and> inv p (k + unat len mod 8) w' m'"
proof (induction "unat len mod 8" arbitrary: k w m len)
  case 0
  then have "len AND 7 = 0" "len mod 8 = 0" by (simp_all add: and_7_mod word_unat_eq_iff unat_mod)
  then show ?case using 0 by (subst copy_single.simps) simp
next
  case (Suc r)
  have l: "len mod 8 \<noteq> 0" "len \<noteq> 0" using Suc.hyps(2) by (auto simp: word_unat_eq_iff unat_mod)
  then have n: "unat len = Suc (unat (len - 1))" by (simp add: unat_Suc_pred)
  then have r: "unat (len - 1) mod 8 = r" using Suc.hyps(2) by (simp add: mod_Suc split: if_splits)
  obtain w1 m1 where cp: "cp p (dst p + TYPE_WIDTH * of_nat k) (src p + TYPE_WIDTH * of_nat k) w m = (w1, m1)"
    by fastforce
  with cp_inv Suc.prems n have inv: "inv p (Suc k) w1 m1" by simp
  have step: "copy_single (cp p) (dst p + TYPE_WIDTH * of_nat k) (src p + TYPE_WIDTH * of_nat k) len w m =
      copy_single (cp p) (dst p + TYPE_WIDTH * of_nat (Suc k)) (src p + TYPE_WIDTH * of_nat (Suc k)) (len - 1) w1 m1"
    using l(1) cp by (subst copy_single.simps) (simp add: and_7_mod algebra_simps)
  have e1: "len - 1 - (len - 1) mod 8 = len - len mod 8"
  proof -
    have m: "unat (len mod 8) = Suc (unat ((len - 1) mod 8))" using r Suc.hyps(2) by (simp add: unat_mod)
    moreover have "unat ((len - 1) mod 8) < 8" by (simp add: unat_mod)
    then have "unat ((len - 1) mod 8 + 1) = Suc (unat ((len - 1) mod 8))" by (intro unat_plus_one_bound) simp
    ultimately have "len mod 8 = (len - 1) mod 8 + 1" by (simp only: word_unat_eq_iff)
    then show ?thesis by simp
  qed
  have e2: "Suc k + unat (len - 1) mod 8 = k + unat len mod 8" using r Suc.hyps(2) by simp
  have "Suc k + unat (len - 1) \<le> num p" using Suc.prems(2) n by simp
  from Suc.hyps(1) [OF r [symmetric] inv this] show ?case unfolding step e1 e2 .
qed

lemma block:
  assumes "inv p k w m" "k + 8 \<le> num p"
  shows "\<exists>w' m'. copy_block (cp p) (dst p + TYPE_WIDTH * of_nat k) (src p + TYPE_WIDTH * of_nat k) (w, m) = (w', m') \<and>
    inv p (k + 8) w' m'"
proof -
  let ?f = "\<lambda>i (w, m). cp p (dst p + TYPE_WIDTH * of_nat k + TYPE_WIDTH * i) (src p + TYPE_WIDTH * of_nat k + TYPE_WIDTH * i) w m"
  have "\<exists>w' m'. fold ?f (map of_nat [0..<n]) (w, m) = (w', m') \<and> inv p (k + n) w' m'" if "n \<le> 8" for n
    using that
  proof (induction n)
    case (Suc n)
    then obtain w' m' where f: "fold ?f (map of_nat [0..<n]) (w, m) = (w', m')" "inv p (k + n) w' m'" by auto
    obtain w2 m2 where c: "cp p (dst p + TYPE_WIDTH * of_nat (k + n)) (src p + TYPE_WIDTH * of_nat (k + n)) w' m' = (w2, m2)"
      by fastforce
    then have "inv p (k + Suc n) w2 m2" using cp_inv [OF f(2) _ c] Suc.prems assms(2) by simp
    moreover have "fold ?f (map of_nat [0..<Suc n]) (w, m) = (w2, m2)"
      using f(1) c by (simp add: algebra_simps)
    ultimately show ?case by blast
  qed (use assms in simp)
  from this [of 8] show ?thesis by (simp add: copy_block_def upt_rec)
qed

lemma blocks:
  "inv p k w m \<Longrightarrow> k + 8 * unat len \<le> num p \<Longrightarrow>
   \<exists>w' m'. copy_blocks (cp p) (dst p + TYPE_WIDTH * of_nat k) (src p + TYPE_WIDTH * of_nat k) len w m =
      (dst p + TYPE_WIDTH * of_nat (k + 8 * unat len), src p + TYPE_WIDTH * of_nat (k + 8 * unat len), w', m') \<and>
      inv p (k + 8 * unat len) w' m'"
proof (induction "unat len" arbitrary: k w m len)
  case 0
  then have "len = 0" by (simp add: word_unat_eq_iff)
  then show ?case using 0 by (subst copy_blocks.simps) simp
next
  case (Suc r)
  then have l: "len \<noteq> 0" by auto
  then have n: "unat len = Suc (unat (len - 1))" by (simp add: unat_Suc_pred)
  with Suc.prems(2) have "k + 8 \<le> num p" by simp
  from block [OF Suc.prems(1) this] obtain w1 m1 where
    b: "copy_block (cp p) (dst p + TYPE_WIDTH * of_nat k) (src p + TYPE_WIDTH * of_nat k) (w, m) = (w1, m1)"
      "inv p (k + 8) w1 m1" by blast
  have step: "copy_blocks (cp p) (dst p + TYPE_WIDTH * of_nat k) (src p + TYPE_WIDTH * of_nat k) len w m =
      copy_blocks (cp p) (dst p + TYPE_WIDTH * of_nat (k + 8)) (src p + TYPE_WIDTH * of_nat (k + 8)) (len - 1) w1 m1"
    using l b(1) by (subst copy_blocks.simps) (simp add: algebra_simps)
  have "r = unat (len - 1)" "k + 8 + 8 * unat (len - 1) \<le> num p" using n Suc by simp_all
  from Suc.hyps(1) [OF this(1) b(2) this(2)] show ?case
    unfolding step n by (simp add: algebra_simps)
qed

text \<open>Both loops together copy all words.\<close>

lemma all_words:
  assumes "inv p 0 w m" "unat len \<le> num p"
  shows "\<exists>w' m'. (let (d, s, l, w, m) = copy_single (cp p) (dst p) (src p) len w m in copy_blocks (cp p) d s (l div 8) w m) =
    (dst p + TYPE_WIDTH * len, src p + TYPE_WIDTH * len, w', m') \<and> inv p (unat len) w' m'"
proof -
  from single [OF assms(1), of len] assms(2) obtain w1 m1 where
    s: "copy_single (cp p) (dst p) (src p) len w m =
        (dst p + TYPE_WIDTH * of_nat (unat len mod 8), src p + TYPE_WIDTH * of_nat (unat len mod 8), len - len mod 8, w1, m1)"
       "inv p (unat len mod 8) w1 m1"
    by auto
  have le: "len mod 8 \<le> len" by (simp add: word_le_nat_alt unat_mod)
  have "unat (len - len mod 8) = unat len div 8 * 8"
    by (simp only: unat_sub_no_wrap [OF le] unat_mod) (simp add: minus_mod_eq_div_mult)
  then have "unat ((len - len mod 8) div 8) = unat len div 8"
    by (simp only: unat_div) simp
  then have "unat len mod 8 + 8 * unat ((len - len mod 8) div 8) = unat len" by simp
  then show ?thesis
    using blocks [OF s(2), of "(len - len mod 8) div 8"] assms(2) s(1) by (simp add: Let_def)
qed

end

section \<open>The two macros meet the contract\<close>

text \<open>
  A job of which \<open>off\<close> bytes are already copied. Without a shift the memory alone says how
  far the copy is; with a shift, \<open>srcWord\<close> also holds the source bytes of the next word that
  the last source word had.
\<close>

definition plain_inv :: "copy_job \<times> nat \<Rightarrow> nat \<Rightarrow> unit \<Rightarrow> mem \<Rightarrow> bool" where
  "plain_inv p k w m \<longleftrightarrow> copied (fst p) (snd p + 4 * k) m"

definition shift_inv :: "nat \<times> copy_job \<times> nat \<Rightarrow> nat \<Rightarrow> u32 \<Rightarrow> mem \<Rightarrow> bool" where
  "shift_inv p k w m \<longleftrightarrow> (case p of (sh, j, off) \<Rightarrow>
     0 < sh \<and> sh < 4 \<and> copied j (off + 4 * k) m \<and>
     (\<forall>i<4 - sh. off + 4 * k + i < j_len j \<longrightarrow>
        byte_of w (sh + i) = j_mem j (j_src j + of_nat (off + 4 * k + i))))"

lemma bit_byte_of: "bit (byte_of v j) n \<longleftrightarrow> n < 8 \<and> bit v (8 * j + n)"
  by (auto simp: byte_of_def bit_simps dest: bit_imp_le_length)

lemma byte_of_shifted:
  assumes "0 < sh" "sh < 4" "i < 4"
  shows "byte_of (drop_bit (8 * sh) w OR push_bit (8 * (4 - sh)) w') i =
    (if i < 4 - sh then byte_of w (sh + i) else byte_of w' (i - (4 - sh)))"
proof (rule bit_word_eqI)
  fix n :: nat
  assume "n < LENGTH(8)"
  then have n: "n < 8" by simp
  have sh: "sh = 1 \<or> sh = 2 \<or> sh = 3" and i: "i = 0 \<or> i = 1 \<or> i = 2 \<or> i = 3" using assms by linarith+
  have "\<not> bit w (32 + n)" "\<not> bit w (40 + n)" "\<not> bit w (48 + n)"
    by (simp_all add: bit_word_def)
  with sh i n show "bit (byte_of (drop_bit (8 * sh) w OR push_bit (8 * (4 - sh)) w') i) n =
      bit (if i < 4 - sh then byte_of w (sh + i) else byte_of w' (i - (4 - sh))) n"
    by (elim disjE) (simp_all add: bit_byte_of bit_simps)
qed

lemma word_address: "(a::u32) + of_nat off + TYPE_WIDTH * of_nat k = a + of_nat (off + 4 * k)"
  by (simp add: TYPE_WIDTH_def)

interpretation plain: word_copier "\<lambda>p. CP" plain_inv
  "\<lambda>p. j_dst (fst p) + of_nat (snd p)" "\<lambda>p. j_src (fst p) + of_nat (snd p)" "\<lambda>p. (j_len (fst p) - snd p) div 4"
proof (unfold_locales, goal_cases)
  case (1 p k w m w' m')
  obtain j off where p: "p = (j, off)" by fastforce
  have c: "copied j (off + 4 * k) m" using 1(1) by (simp add: plain_inv_def p)
  have le: "off + 4 * k + 4 \<le> j_len j" using 1(2) by (simp add: p)
  have "m' = mem_range (j_dst j + of_nat (off + 4 * k)) 4 (byte_of (load32 m (j_src j + of_nat (off + 4 * k)))) m"
    using 1(3) by (simp only: p fst_conv snd_conv CP_def word_address mem_range_store32) simp
  moreover have "byte_of (load32 m (j_src j + of_nat (off + 4 * k))) i = j_mem j (j_src j + of_nat (off + 4 * k + i))"
    if "i < 4" for i
    using copied_source [OF c, of "off + 4 * k + i"] le that by (simp add: byte_of_load32 add.assoc)
  ultimately have "copied j (off + 4 * k + 4) m'"
    using copied_extend [OF c le] by simp
  then show ?case by (simp add: plain_inv_def p algebra_simps)
qed

interpretation shifted: word_copier "\<lambda>(sh, j, off). CP_SH (8 * sh) (8 * (4 - sh))" shift_inv
  "\<lambda>(sh, j, off). j_dst j + of_nat off" "\<lambda>(sh, j, off). j_src j + of_nat off - of_nat sh + TYPE_WIDTH"
  "\<lambda>(sh, j, off). (j_len j - off) div 4"
proof (unfold_locales, goal_cases)
  case (1 p k w m w' m')
  obtain sh j off where p: "p = (sh, j, off)" by (cases p)
  have sh: "0 < sh" "sh < 4" and c: "copied j (off + 4 * k) m"
    and w: "\<And>i. i < 4 - sh \<Longrightarrow> off + 4 * k + i < j_len j \<Longrightarrow> byte_of w (sh + i) = j_mem j (j_src j + of_nat (off + 4 * k + i))"
    using 1(1) by (auto simp: shift_inv_def p)
  have le: "off + 4 * k + 4 \<le> j_len j" using 1(2) by (simp add: p)
  define a where "a = j_src j + of_nat off - of_nat sh + TYPE_WIDTH + TYPE_WIDTH * of_nat k"
  have w': "w' = load32 m a"
    and m': "m' = mem_range (j_dst j + of_nat (off + 4 * k)) 4
      (byte_of (drop_bit (8 * sh) w OR push_bit (8 * (4 - sh)) w')) m"
    using 1(3) by (auto simp: p CP_SH_def Let_def a_def word_address mem_range_store32)
  have a: "a + of_nat i = j_src j + of_nat (off + 4 * k + (4 - sh + i))" for i
    using sh by (simp add: a_def TYPE_WIDTH_def of_nat_diff)
  have src: "byte_of w' i = j_mem j (j_src j + of_nat (off + 4 * k + (4 - sh + i)))"
    if "i < 4" "off + 4 * k + (4 - sh + i) < j_len j" for i
    using copied_source [OF c that(2)] that(1) by (simp only: w' byte_of_load32 a)
  have "byte_of (drop_bit (8 * sh) w OR push_bit (8 * (4 - sh)) w') i = j_mem j (j_src j + of_nat (off + 4 * k + i))"
    if "i < 4" for i
    using w [of i] src [of "i - (4 - sh)"] le that sh by (auto simp: byte_of_shifted add.assoc)
  then have "copied j (off + 4 * k + 4) m'"
    unfolding m' using copied_extend [OF c le] by simp
  moreover have "byte_of w' (sh + i) = j_mem j (j_src j + of_nat (off + 4 * Suc k + i))"
    if "i < 4 - sh" "off + 4 * Suc k + i < j_len j" for i
    using src [of "sh + i"] that sh by (simp add: algebra_simps)
  ultimately show ?case using sh by (simp add: shift_inv_def p algebra_simps)
qed

section \<open>The copy\<close>

text \<open>What is left after the words is fewer than four bytes.\<close>

lemma count_split:
  "4 * unat (count div TYPE_WIDTH) + unat (count AND (TYPE_WIDTH - 1)) = unat count"
  "count AND (TYPE_WIDTH - 1) < 8" "TYPE_WIDTH * (count div TYPE_WIDTH) = of_nat (4 * unat (count div TYPE_WIDTH))"
proof -
  have "unat (count AND (TYPE_WIDTH - 1)) = unat count mod 4" by (simp add: TYPE_WIDTH_def unat_and_3)
  then show "4 * unat (count div TYPE_WIDTH) + unat (count AND (TYPE_WIDTH - 1)) = unat count"
    "count AND (TYPE_WIDTH - 1) < 8"
    by (simp_all add: TYPE_WIDTH_def unat_div word_less_nat_alt)
  show "TYPE_WIDTH * (count div TYPE_WIDTH) = of_nat (4 * unat (count div TYPE_WIDTH))"
    by (simp add: TYPE_WIDTH_def)
qed

lemma remaining_copied:
  assumes "copied j k m" "k + unat c = j_len j" "c < 8"
  shows "\<exists>m'. COPY_REMAINING c (j_dst j + of_nat k, j_src j + of_nat k, m) =
       (j_dst j + of_nat (j_len j), j_src j + of_nat (j_len j), m') \<and> copied j (j_len j) m'"
  using copy_bytes_copied [OF assms(1), of "unat c"] assms(2,3) by (simp add: COPY_REMAINING_def)

lemma no_shift_copied:
  assumes "copied j off m" "off + unat count = j_len j"
  shows "copied j (j_len j) (COPY_NO_SHIFT (j_dst j + of_nat off) (j_src j + of_nat off) count m)"
proof -
  let ?q = "count div TYPE_WIDTH"
  have q: "unat ?q \<le> (j_len j - off) div 4"
    using assms(2) by (simp add: TYPE_WIDTH_def unat_div)
  have "plain_inv (j, off) 0 () m" using assms(1) by (simp add: plain_inv_def)
  from plain.all_words [OF this, of ?q] q obtain m1 where
    w: "(let (d, s, l, w, m) = copy_single CP (j_dst j + of_nat off) (j_src j + of_nat off) ?q () m in copy_blocks CP d s (l div 8) w m) =
      (j_dst j + of_nat off + TYPE_WIDTH * ?q, j_src j + of_nat off + TYPE_WIDTH * ?q, (), m1)"
    and c: "copied j (off + 4 * unat ?q) m1"
    by (auto simp: plain_inv_def)
  have len: "off + 4 * unat ?q + unat (count AND (TYPE_WIDTH - 1)) = j_len j"
    using count_split(1) [of count] assms(2) by simp
  obtain m2 where r: "COPY_REMAINING (count AND (TYPE_WIDTH - 1))
      (j_dst j + of_nat (off + 4 * unat ?q), j_src j + of_nat (off + 4 * unat ?q), m1) =
      (j_dst j + of_nat (j_len j), j_src j + of_nat (j_len j), m2)" "copied j (j_len j) m2"
    using remaining_copied [OF c len count_split(2)] by blast
  have "COPY_NO_SHIFT (j_dst j + of_nat off) (j_src j + of_nat off) count m = m2"
    using w r(1) unfolding COPY_NO_SHIFT_def count_split(3)
    by (simp add: Let_def add.assoc split: prod.splits)
  with r(2) show ?thesis by simp
qed

lemma shift_copied:
  assumes "copied j off m" "off + unat count = j_len j" "0 < sh" "sh < 4"
    "(j_dst j + of_nat off) AND 3 = 0" "(j_src j + of_nat off) AND 3 = of_nat sh"
  shows "copied j (j_len j) (COPY_SHIFT sh (j_dst j + of_nat off) (j_src j + of_nat off) count m)"
proof -
  let ?q = "count div TYPE_WIDTH" let ?d = "j_dst j + of_nat off" let ?s = "j_src j + of_nat off"
  let ?cp = "CP_SH (8 * sh) (8 * (4 - sh))"
  have q: "unat ?q \<le> (j_len j - off) div 4"
    using assms(2) by (simp add: TYPE_WIDTH_def unat_div)
  have al: "?d AND NOT (TYPE_WIDTH - 1) = ?d" "?s AND NOT (TYPE_WIDTH - 1) = ?s - of_nat sh"
    unfolding and_not_mask_sub using assms(5,6) by (simp_all add: TYPE_WIDTH_def)
  define w0 where "w0 = load32 m (?s - of_nat sh)"
  have "byte_of w0 (sh + i) = j_mem j (j_src j + of_nat (off + i))" if "i < 4 - sh" "off + i < j_len j" for i
    using copied_source [OF assms(1) that(2)] that(1) assms(3,4)
    by (simp add: w0_def byte_of_load32 algebra_simps)
  then have "shift_inv (sh, j, off) 0 w0 m" using assms(1,3,4) by (simp add: shift_inv_def)
  from shifted.all_words [OF this, of ?q] q obtain w1 m1 where
    w: "(let (d, s, l, w, m) = copy_single ?cp ?d (?s - of_nat sh + TYPE_WIDTH) ?q w0 m in copy_blocks ?cp d s (l div 8) w m) =
      (?d + TYPE_WIDTH * ?q, ?s - of_nat sh + TYPE_WIDTH + TYPE_WIDTH * ?q, w1, m1)"
    and c: "copied j (off + 4 * unat ?q) m1"
    by (auto simp: shift_inv_def)
  have len: "off + 4 * unat ?q + unat (count AND (TYPE_WIDTH - 1)) = j_len j"
    using count_split(1) [of count] assms(2) by simp
  obtain m2 where r: "COPY_REMAINING (count AND (TYPE_WIDTH - 1))
      (j_dst j + of_nat (off + 4 * unat ?q), j_src j + of_nat (off + 4 * unat ?q), m1) =
      (j_dst j + of_nat (j_len j), j_src j + of_nat (j_len j), m2)" "copied j (j_len j) m2"
    using remaining_copied [OF c len count_split(2)] by blast
  have e: "?s - of_nat sh + TYPE_WIDTH + TYPE_WIDTH * ?q + (of_nat sh - TYPE_WIDTH) = j_src j + of_nat (off + 4 * unat ?q)"
    "?d + TYPE_WIDTH * ?q = j_dst j + of_nat (off + 4 * unat ?q)"
    unfolding count_split(3) by simp_all
  have "COPY_SHIFT sh ?d ?s count m =
      (let (dstN, srcN, w, m) = (let (d, s, l, w, m) = copy_single ?cp ?d (?s - of_nat sh + TYPE_WIDTH) ?q w0 m in copy_blocks ?cp d s (l div 8) w m);
          src8 = srcN + (of_nat sh - TYPE_WIDTH);
          (dst8, src8, m) = COPY_REMAINING (count AND (TYPE_WIDTH - 1)) (dstN, src8, m)
      in m)"
    unfolding COPY_SHIFT_def al w0_def by (simp add: Let_def split: prod.splits)
  then have "COPY_SHIFT sh ?d ?s count m = m2"
    unfolding w by (simp only: Let_def prod.case e r(1))
  with r(2) show ?thesis by simp
qed

lemma align_step:
  assumes "a < (4::nat)" "a \<noteq> 0" "b = (a + 1) mod 4" "Suc r = (4 - a) mod 4"
  shows "r = (4 - b) mod 4"
proof -
  have "a = 1 \<or> a = 2 \<or> a = 3" using assms(1,2) by linarith
  with assms(3,4) show ?thesis by auto
qed

text \<open>The alignment loop copies fewer than four bytes.\<close>

lemma align_copied:
  "copied j k m \<Longrightarrow> k + (4 - unat (j_dst j + of_nat k) mod 4) mod 4 \<le> j_len j \<Longrightarrow> j_len j < 4294967296 \<Longrightarrow>
   \<exists>k' m'. copy_align (j_dst j + of_nat k) (j_src j + of_nat k) (of_nat (j_len j - k)) m =
      (j_dst j + of_nat k', j_src j + of_nat k', of_nat (j_len j - k'), m') \<and>
      k' \<le> j_len j \<and> copied j k' m' \<and> (j_dst j + of_nat k') AND 3 = 0"
proof (induction "(4 - unat (j_dst j + of_nat k) mod 4) mod 4" arbitrary: k m)
  case 0
  then have "unat (j_dst j + of_nat k) mod 4 = 0" by (simp add: mod_eq_0_iff_dvd)  presburger
  then have "(j_dst j + of_nat k) AND 3 = 0" using unat_and_3 [of "j_dst j + of_nat k"] by (simp add: word_unat_eq_iff)
  with 0 show ?case
    by (subst copy_align.simps) (auto simp: TYPE_WIDTH_def)
next
  case (Suc r)
  let ?d = "j_dst j + of_nat k"
  have nz: "unat ?d mod 4 \<noteq> 0" using Suc.hyps(2) by (intro notI) simp
  then have and3: "?d AND 3 \<noteq> 0" using unat_and_3 [of ?d] by (auto simp: word_unat_eq_iff)
  have d1: "j_dst j + of_nat (Suc k) = ?d + 1" by simp
  have b: "unat (j_dst j + of_nat (Suc k)) mod 4 = (unat ?d mod 4 + 1) mod 4"
    unfolding d1 using unat_add_mod4 [of ?d 1] by (simp add: mod_simps)
  have r: "r = (4 - unat (j_dst j + of_nat (Suc k)) mod 4) mod 4"
    by (rule align_step [OF _ nz b Suc.hyps(2)]) simp
  have k: "k < j_len j" using Suc.hyps(2) Suc.prems(2) by simp
  define m1 where "m1 = m(?d := m (j_src j + of_nat k))"
  have c1: "copied j (Suc k) m1"
    using copied_extend [OF Suc.prems(1), of 1 "\<lambda>_. m (j_src j + of_nat k)"] copied_source [OF Suc.prems(1) k] k
    by (simp add: m1_def mem_range_byte)
  have "(of_nat (j_len j - k) :: u32) - 1 = of_nat (j_len j - Suc k)"
    using k by (simp add: of_nat_diff)
  then have step: "copy_align ?d (j_src j + of_nat k) (of_nat (j_len j - k)) m =
      copy_align (j_dst j + of_nat (Suc k)) (j_src j + of_nat (Suc k)) (of_nat (j_len j - Suc k)) m1"
    using and3 by (subst copy_align.simps) (simp add: TYPE_WIDTH_def m1_def algebra_simps)
  have "Suc k + (4 - unat (j_dst j + of_nat (Suc k)) mod 4) mod 4 \<le> j_len j"
    using Suc.hyps(2) Suc.prems(2) r by simp
  from Suc.hyps(1) [OF r c1 this Suc.prems(3)] show ?case unfolding step .
qed

lemma aligned_copied:
  assumes "copied j k m" "k + unat c = j_len j" "(j_dst j + of_nat k) AND 3 = 0"
  shows "copied j (j_len j)
    (let s = j_src j + of_nat k; a = s AND (TYPE_WIDTH - 1); d = j_dst j + of_nat k
     in if a = 0 then COPY_NO_SHIFT d s c m else if a = 1 then COPY_SHIFT 1 d s c m
        else if a = 2 then COPY_SHIFT 2 d s c m else COPY_SHIFT 3 d s c m)"
proof -
  let ?s = "j_src j + of_nat k"
  note shift = shift_copied [OF assms(1,2) _ _ assms(3)]
  have "unat (?s AND 3) < 4" by (simp add: unat_and_3)
  then have "unat (?s AND 3) = 0 \<or> unat (?s AND 3) = 1 \<or> unat (?s AND 3) = 2 \<or> unat (?s AND 3) = 3" by linarith
  then consider "?s AND 3 = 0" | "?s AND 3 = 1" | "?s AND 3 = 2" | "?s AND 3 = 3"
    by (auto simp: word_unat_eq_iff)
  then show ?thesis
  proof cases
    case 1
    then show ?thesis using no_shift_copied [OF assms(1,2)] by (simp add: TYPE_WIDTH_def)
  next
    case 2
    then show ?thesis using shift [of 1] by (simp add: TYPE_WIDTH_def)
  next
    case 3
    then show ?thesis using shift [of 2] by (simp add: TYPE_WIDTH_def)
  next
    case 4
    then show ?thesis using shift [of 3] by (simp add: TYPE_WIDTH_def)
  qed
qed

lemma memcpy_copies:
  assumes "no_overlap dest src (unat count)"
  shows "memcpy dest src count m = (dest, \<lambda>x. if x - dest < count then m (src + (x - dest)) else m x)"
proof -
  define j where "j = \<lparr>j_mem = m, j_dst = dest, j_src = src, j_len = unat count\<rparr>"
  have j: "j_mem j = m" "j_dst j = dest" "j_src j = src" "j_len j = unat count" by (simp_all add: j_def)
  have c0: "copied j 0 m" using assms by (simp add: copied_def j_def)
  have "fst (memcpy dest src count m) = dest \<and> copied j (j_len j) (snd (memcpy dest src count m))"
  proof (cases "count < 8")
    case True
    with remaining_copied [OF c0 _ True] show ?thesis by (auto simp: j memcpy_def)
  next
    case False
    have "(4 - unat (j_dst j + of_nat 0) mod 4) mod 4 \<le> 3" by simp
    then have "0 + (4 - unat (j_dst j + of_nat 0) mod 4) mod 4 \<le> j_len j"
      using False by (simp add: j word_less_nat_alt)
    from align_copied [OF c0 this] obtain k m1 where
      al: "copy_align dest src count m = (dest + of_nat k, src + of_nat k, of_nat (unat count - k), m1)"
        "k \<le> unat count" "copied j k m1" "(j_dst j + of_nat k) AND 3 = 0"
      by (auto simp: j u32_unat_bound)
    have "unat (of_nat (unat count - k) :: u32) = unat count - k"
      by (rule u32_of_nat_unat) (use u32_unat_bound [of count] in simp)
    then have "k + unat (of_nat (unat count - k) :: u32) = j_len j" using al(2) by (simp add: j)
    from aligned_copied [OF al(3) this al(4)] show ?thesis
      using al(1) False by (simp add: memcpy_def j Let_def split del: if_split)
  qed
  moreover have "m' = (\<lambda>x. if x - dest < count then m (src + (x - dest)) else m x)" if "copied j (j_len j) m'" for m'
    using that by (simp add: copied_def j mem_range_def fun_eq_iff word_less_nat_alt)
  ultimately show ?thesis unfolding prod_eq_iff by simp
qed

text \<open>
  C37. \<open>memcpy\<close> of disjoint ranges returns the destination and leaves there exactly the bytes
  of the source, whatever the alignment of the two, and changes no other byte.
\<close>

theorem memcpy_correct:
  assumes "no_overlap dest src (unat count)"
  shows "memcpy dest src count m = (dest, \<lambda>x. if x - dest < count then m (src + (x - dest)) else m x)"
  by (rule memcpy_copies [OF assms])

theorem memcpy_correct_witness:
  "snd (memcpy 0x1000 0x2003 10 (\<lambda>x. ucast x)) 0x1009 = 0x0c"
  using memcpy_correct [of "0x1000" "0x2003" 10 "\<lambda>x. ucast x"] by (simp add: no_overlap_def)

end
