(* ===== verification/CString.thy ===== *)
theory CString
  imports Memcpy
begin

text \<open>
  \<^verbatim>\<open>lib/string.c\<close>: comparison, search and copying of bytes and of strings that end in a
  zero byte. A loop that ends only at a zero byte may run for ever and is a
  \<open>partial_function\<close>; a loop with a count is total.
\<close>

section \<open>The program\<close>

text \<open>\<open>do { if (*p1++ != *p2++) break; } while (--len)\<close>\<close>

function memcmp_loop :: "u32 \<Rightarrow> u32 \<Rightarrow> u32 \<Rightarrow> mem \<Rightarrow> u32" where
  "memcmp_loop p1 p2 len m =
     (if m p1 \<noteq> m p2 then len
      else if len - 1 \<noteq> 0 then memcmp_loop (p1 + 1) (p2 + 1) (len - 1) m else len - 1)"
  by pat_completeness auto
termination
  by (relation "measure (\<lambda>(p1, p2, len, m). unat (len - 1))") (auto simp: unat_pred_pred)

definition memcmp :: "u32 \<Rightarrow> u32 \<Rightarrow> u32 \<Rightarrow> mem \<Rightarrow> u32" where
  "memcmp b1 b2 len m = (if len = 0 then len else memcmp_loop b1 b2 len m)"

function memmove_up :: "u32 \<Rightarrow> u32 \<Rightarrow> u32 \<Rightarrow> mem \<Rightarrow> mem" where
  "memmove_up tmp s count m =
     (if count \<noteq> 0 then memmove_up (tmp + 1) (s + 1) (count - 1) (m(tmp := m s)) else m)"
  by pat_completeness auto
termination
  by (relation "measure (\<lambda>(tmp, s, count, m). unat count)") (auto intro!: unat_pred_less)

function memmove_down :: "u32 \<Rightarrow> u32 \<Rightarrow> u32 \<Rightarrow> mem \<Rightarrow> mem" where
  "memmove_down tmp s count m =
     (if count \<noteq> 0 then memmove_down (tmp - 1) (s - 1) (count - 1) (m(tmp - 1 := m (s - 1))) else m)"
  by pat_completeness auto
termination
  by (relation "measure (\<lambda>(tmp, s, count, m). unat count)") (auto intro!: unat_pred_less)

definition memmove :: "u32 \<Rightarrow> u32 \<Rightarrow> u32 \<Rightarrow> mem \<Rightarrow> u32 \<times> mem" where
  "memmove dest src count m =
     (dest, if dest \<le> src then memmove_up dest src count m
            else memmove_down (dest + count) (src + count) count m)"

function memchr :: "u32 \<Rightarrow> u32 \<Rightarrow> u32 \<Rightarrow> mem \<Rightarrow> u32" where
  "memchr p c n m =
     (if n \<noteq> 0 then if ucast c = m p then p else memchr (p + 1) c (n - 1) m else 0)"
  by pat_completeness auto
termination
  by (relation "measure (\<lambda>(p, c, n, m). unat n)") (auto intro!: unat_pred_less)

partial_function (option) strend :: "u32 \<Rightarrow> mem \<Rightarrow> u32 option" where
  "strend s m = (if m s \<noteq> 0 then strend (s + 1) m else Some s)"

definition strlen :: "u32 \<Rightarrow> mem \<Rightarrow> u32 option" where
  "strlen str m = map_option (\<lambda>s. s - str) (strend str m)"

text \<open>\<open>while ((*s++ = *append++) != 0);\<close>\<close>

partial_function (option) strcat_loop :: "u32 \<Rightarrow> u32 \<Rightarrow> mem \<Rightarrow> mem option" where
  "strcat_loop s app m =
     (let c = m app; m' = m(s := c)
      in if c \<noteq> 0 then strcat_loop (s + 1) (app + 1) m' else Some m')"

definition strcat :: "u32 \<Rightarrow> u32 \<Rightarrow> mem \<Rightarrow> (u32 \<times> mem) option" where
  "strcat s app m = (case strend s m of None \<Rightarrow> None
     | Some e \<Rightarrow> map_option (\<lambda>m'. (s, m')) (strcat_loop e app m))"

text \<open>\<open>for (; (*to = *from) != 0; ++from, ++to);\<close>\<close>

partial_function (option) strcpy_loop :: "u32 \<Rightarrow> u32 \<Rightarrow> mem \<Rightarrow> mem option" where
  "strcpy_loop to from' m =
     (let c = m from'; m' = m(to := c)
      in if c \<noteq> 0 then strcpy_loop (to + 1) (from' + 1) m' else Some m')"

definition strcpy :: "u32 \<Rightarrow> u32 \<Rightarrow> mem \<Rightarrow> (u32 \<times> mem) option" where
  "strcpy to from' m = map_option (\<lambda>m'. (to, m')) (strcpy_loop to from' m)"

partial_function (option) strcmp :: "u32 \<Rightarrow> u32 \<Rightarrow> mem \<Rightarrow> int option" where
  "strcmp s1 s2 m =
     (if m s1 = m s2 then if m s1 = 0 then Some 0 else strcmp (s1 + 1) (s2 + 1) m
      else Some (uint (m s1) - uint (m s2)))"

function strncmp :: "u32 \<Rightarrow> u32 \<Rightarrow> u32 \<Rightarrow> mem \<Rightarrow> int" where
  "strncmp cs ct count m =
     (if count \<noteq> 0 then
        if m cs \<noteq> m ct then if m cs < m ct then -1 else 1
        else if m cs = 0 then 0
        else strncmp (cs + 1) (ct + 1) (count - 1) m
      else 0)"
  by pat_completeness auto
termination
  by (relation "measure (\<lambda>(cs, ct, count, m). unat count)") (auto intro!: unat_pred_less)

partial_function (option) strchr :: "u32 \<Rightarrow> u32 \<Rightarrow> mem \<Rightarrow> u32 option" where
  "strchr s c m =
     (if m s \<noteq> ucast c then if m s = 0 then Some 0 else strchr (s + 1) c m else Some s)"

text \<open>\<open>do { if (*s == (char)c) last = s; } while (*s++)\<close>\<close>

partial_function (option) strrchr_loop :: "u32 \<Rightarrow> u32 \<Rightarrow> u32 \<Rightarrow> mem \<Rightarrow> u32 option" where
  "strrchr_loop s c la m =
     (let la' = (if m s = ucast c then s else la)
      in if m s \<noteq> 0 then strrchr_loop (s + 1) c la' m else Some la')"

definition strrchr :: "u32 \<Rightarrow> u32 \<Rightarrow> mem \<Rightarrow> u32 option" where
  "strrchr s c m = strrchr_loop s c 0 m"

partial_function (option) strstr_loop :: "u32 \<Rightarrow> u32 \<Rightarrow> u32 \<Rightarrow> u32 \<Rightarrow> mem \<Rightarrow> u32 option" where
  "strstr_loop s1 s2 l1 l2 m =
     (if l1 \<ge> l2 then if memcmp s1 s2 l2 m = 0 then Some s1 else strstr_loop (s1 + 1) s2 (l1 - 1) l2 m
      else Some 0)"

definition strstr :: "u32 \<Rightarrow> u32 \<Rightarrow> mem \<Rightarrow> u32 option" where
  "strstr s1 s2 m =
     (case strlen s2 m of None \<Rightarrow> None
      | Some l2 \<Rightarrow> if l2 = 0 then Some s1
          else (case strlen s1 m of None \<Rightarrow> None | Some l1 \<Rightarrow> strstr_loop s1 s2 l1 l2 m))"

function strncpy_copy :: "u32 \<Rightarrow> u32 \<Rightarrow> u32 \<Rightarrow> u32 \<Rightarrow> mem \<Rightarrow> u32 \<times> mem" where
  "strncpy_copy dest src n i m =
     (if i < n \<and> m (src + i) \<noteq> 0 then strncpy_copy dest src n (i + 1) (m(dest + i := m (src + i)))
      else (i, m))"
  by pat_completeness auto
termination
  by (relation "measure (\<lambda>(dest, src, n, i, m). unat n - unat i)") (auto simp: loop_measure_less)

function strncpy_pad :: "u32 \<Rightarrow> u32 \<Rightarrow> u32 \<Rightarrow> mem \<Rightarrow> mem" where
  "strncpy_pad dest n i m = (if i < n then strncpy_pad dest n (i + 1) (m(dest + i := 0)) else m)"
  by pat_completeness auto
termination
  by (relation "measure (\<lambda>(dest, n, i, m). unat n - unat i)") (auto simp: loop_measure_less)

definition strncpy :: "u32 \<Rightarrow> u32 \<Rightarrow> u32 \<Rightarrow> mem \<Rightarrow> u32 \<times> mem" where
  "strncpy dest src n m = (case strncpy_copy dest src n 0 m of (i, m) \<Rightarrow> (dest, strncpy_pad dest n i m))"

declare memcmp_loop.simps [simp del] and memmove_up.simps [simp del] and memmove_down.simps [simp del]
  and memchr.simps [simp del] and strncmp.simps [simp del] and strncpy_copy.simps [simp del]
  and strncpy_pad.simps [simp del]

section \<open>Strings\<close>

primrec cstr :: "mem \<Rightarrow> u32 \<Rightarrow> u8 list \<Rightarrow> bool" where
  "cstr m s [] \<longleftrightarrow> m s = 0"
| "cstr m s (b # bs) \<longleftrightarrow> m s = b \<and> b \<noteq> 0 \<and> cstr m (s + 1) bs"

lemma offset_Suc: "(a::u32) + of_nat (Suc i) = a + 1 + of_nat i"
  by simp

lemma cstr_nth: "cstr m s bs \<Longrightarrow> i \<le> length bs \<Longrightarrow> m (s + of_nat i) = (bs @ [0]) ! i"
proof (induction bs arbitrary: s i)
  case (Cons b bs)
  then show ?case by (cases i) (simp_all del: of_nat_Suc add: offset_Suc)
qed simp

lemma cstr_nonzero: "cstr m s bs \<Longrightarrow> 0 \<notin> set bs"
  by (induction bs arbitrary: s) auto

lemma cstr_intro: "(\<And>i. i < length bs \<Longrightarrow> m (s + of_nat i) = bs ! i) \<Longrightarrow> m (s + of_nat (length bs)) = 0 \<Longrightarrow> 0 \<notin> set bs
   \<Longrightarrow> cstr m s bs"
proof (induction bs arbitrary: s)
  case (Cons b bs)
  have "m (s + 1 + of_nat i) = bs ! i" if "i < length bs" for i
    using Cons.prems(1) [of "Suc i"] that by (simp del: of_nat_Suc add: offset_Suc)
  then show ?case
    using Cons.IH [of "s + 1"] Cons.prems(1) [of 0] Cons.prems(2,3) by (auto simp: add.assoc)
qed simp

lemma strend_cstr: "cstr m s bs \<Longrightarrow> strend s m = Some (s + of_nat (length bs))"
proof (induction bs arbitrary: s)
  case (Cons b bs)
  then show ?case by (subst strend.simps) (simp add: add.assoc)
qed (simp add: strend.simps)

lemma strlen_cstr: "cstr m s bs \<Longrightarrow> strlen s m = Some (of_nat (length bs))"
  by (simp add: strlen_def strend_cstr)

lemma cstr_length: "cstr m s bs \<Longrightarrow> length bs < 4294967296"
proof (rule ccontr)
  assume c: "cstr m s bs" and "\<not> length bs < 4294967296"
  then have len: "length bs - 4294967296 < length bs" "4294967296 \<le> length bs" by simp_all
  have "(of_nat (length bs) :: u32) = of_nat (length bs - 4294967296)"
  proof -
    have "(of_nat (length bs - 4294967296 + 4294967296) :: u32) = of_nat (length bs - 4294967296)"
      by (simp only: of_nat_add) simp
    then show ?thesis using len(2) by simp
  qed
  moreover have "m (s + of_nat (length bs)) = 0" using cstr_nth [OF c, of "length bs"] by simp
  moreover have "m (s + of_nat (length bs - 4294967296)) = bs ! (length bs - 4294967296)"
    using cstr_nth [OF c less_imp_le [OF len(1)]] len(1) by (simp only: nth_append if_True)
  moreover have "bs ! (length bs - 4294967296) \<noteq> 0"
    using cstr_nonzero [OF c] len(1) by (metis nth_mem)
  ultimately show False by simp
qed

section \<open>Comparison\<close>

lemma uint_pos: "(b::u8) \<noteq> 0 \<Longrightarrow> 0 < uint b"
  using uint_0_iff [of b] uint_ge_0 [of b] by linarith

abbreviation lex_less :: "u8 list \<Rightarrow> u8 list \<Rightarrow> bool" where
  "lex_less \<equiv> ord_class.lexordp"

lemma memcmp_loop_result:
  "len \<noteq> 0 \<Longrightarrow> memcmp_loop p1 p2 len m \<le> len \<and>
   (\<forall>i<unat len - unat (memcmp_loop p1 p2 len m). m (p1 + of_nat i) = m (p2 + of_nat i)) \<and>
   (memcmp_loop p1 p2 len m \<noteq> 0 \<longrightarrow> m (p1 + (len - memcmp_loop p1 p2 len m)) \<noteq> m (p2 + (len - memcmp_loop p1 p2 len m)))"
proof (induction p1 p2 len m rule: memcmp_loop.induct)
  case (1 p1 p2 len m)
  have n: "unat len = Suc (unat (len - 1))" using 1(2) by (rule unat_Suc_pred)
  show ?case
  proof (cases "m p1 = m p2")
    case False
    then have "memcmp_loop p1 p2 len m = len" by (simp add: memcmp_loop.simps)
    with False show ?thesis by simp
  next
    case eq: True
    show ?thesis
    proof (cases "len - 1 = 0")
      case True
      then have "memcmp_loop p1 p2 len m = 0" using eq by (simp add: memcmp_loop.simps)
      with eq True n show ?thesis by simp
    next
      case False
      define r where "r = memcmp_loop (p1 + 1) (p2 + 1) (len - 1) m"
      have r: "memcmp_loop p1 p2 len m = r"
        using eq False unfolding r_def by (subst memcmp_loop.simps) simp
      have IH: "r \<le> len - 1" "\<And>i. i < unat (len - 1) - unat r \<Longrightarrow> m (p1 + 1 + of_nat i) = m (p2 + 1 + of_nat i)"
        "r \<noteq> 0 \<Longrightarrow> m (p1 + 1 + (len - 1 - r)) \<noteq> m (p2 + 1 + (len - 1 - r))"
        using 1(1) [OF _ False] eq False unfolding r_def by auto
      have "r \<le> len" using IH(1) n by (simp add: word_le_nat_alt)
      moreover have "m (p1 + of_nat i) = m (p2 + of_nat i)" if "i < unat len - unat r" for i
      proof (cases i)
        case (Suc j)
        have "j < unat (len - 1) - unat r" using that n Suc IH(1) by (simp add: word_le_nat_alt)
        from IH(2) [OF this] show ?thesis by (simp only: Suc offset_Suc)
      qed (use eq in simp)
      ultimately show ?thesis using IH(3) by (simp add: r algebra_simps)
    qed
  qed
qed

lemma memcmp_zero_iff: "memcmp b1 b2 len m = 0 \<longleftrightarrow> (\<forall>i<unat len. m (b1 + of_nat i) = m (b2 + of_nat i))"
proof (cases "len = 0")
  case False
  define r where "r = memcmp b1 b2 len m"
  have r: "r \<le> len" "\<And>i. i < unat len - unat r \<Longrightarrow> m (b1 + of_nat i) = m (b2 + of_nat i)"
    "r \<noteq> 0 \<Longrightarrow> m (b1 + (len - r)) \<noteq> m (b2 + (len - r))"
    using memcmp_loop_result [OF False, of b1 b2 m] False by (auto simp: r_def memcmp_def)
  have "\<not> (\<forall>i<unat len. m (b1 + of_nat i) = m (b2 + of_nat i))" if "r \<noteq> 0"
  proof -
    have "0 < unat r" "unat r \<le> unat len" using that r(1) by (simp_all add: unat_gt_0 word_le_nat_alt)
    then have "unat (len - r) < unat len" using r(1) by (simp add: unat_sub_no_wrap)
    moreover have "of_nat (unat (len - r)) = len - r" by simp
    ultimately show ?thesis using r(3) [OF that] by metis
  qed
  then show ?thesis using r unfolding r_def [symmetric] by (cases "r = 0") auto
qed (simp add: memcmp_def)

text \<open>
  \<open>memcmp\<close> returns 0 exactly for equal ranges; otherwise it returns how many bytes remain
  from the first difference on, a positive number whichever of the two ranges is greater.
\<close>

theorem memcmp_correct:
  "(memcmp b1 b2 len m = 0 \<longleftrightarrow> (\<forall>i<unat len. m (b1 + of_nat i) = m (b2 + of_nat i))) \<and>
   (memcmp b1 b2 len m \<noteq> 0 \<longrightarrow> memcmp b1 b2 len m \<le> len \<and>
      (\<forall>i<unat len - unat (memcmp b1 b2 len m). m (b1 + of_nat i) = m (b2 + of_nat i)) \<and>
      m (b1 + (len - memcmp b1 b2 len m)) \<noteq> m (b2 + (len - memcmp b1 b2 len m)))"
  using memcmp_zero_iff [of b1 b2 len m] memcmp_loop_result [of len b1 b2 m]
  by (cases "len = 0") (auto simp: memcmp_def)

text \<open>
  \<open>strcmp\<close> on two strings returns 0 exactly when they are equal and a negative number
  exactly when the first precedes the second in lexicographic order of unsigned bytes.
\<close>

theorem strcmp_correct:
  assumes "cstr m s1 as" "cstr m s2 bs"
  shows "\<exists>r. strcmp s1 s2 m = Some r \<and> (r = 0 \<longleftrightarrow> as = bs) \<and> (r < 0 \<longleftrightarrow> lex_less as bs)"
  using assms
proof (induction as arbitrary: bs s1 s2)
  case Nil
  show ?case
  proof (cases bs)
    case (Cons b bs')
    then have "0 < uint b" using Nil by (auto intro: uint_pos)
    with Nil Cons show ?thesis by (subst strcmp.simps) auto
  qed (use Nil in \<open>simp add: strcmp.simps\<close>)
next
  case (Cons a as)
  show ?case
  proof (cases bs)
    case Nil
    then have "0 < uint a" using Cons.prems by (auto intro: uint_pos)
    with Nil Cons.prems show ?thesis by (subst strcmp.simps) auto
  next
    case b: (Cons b bs')
    show ?thesis
    proof (cases "a = b")
      case True
      then have "strcmp s1 s2 m = strcmp (s1 + 1) (s2 + 1) m"
        using Cons.prems b by (subst strcmp.simps) simp
      then show ?thesis using Cons.IH [of "s1 + 1" "s2 + 1" bs'] Cons.prems b True by simp
    next
      case False
      then have "strcmp s1 s2 m = Some (uint a - uint b)"
        using Cons.prems b by (subst strcmp.simps) simp
      with False b show ?thesis by (auto simp: word_less_def word_uint_eq_iff)
    qed
  qed
qed

text \<open>
  \<open>strncmp\<close> compares the first \<open>count\<close> bytes of two strings: 0 when these are equal,
  \<open>-1\<close> when those of the first precede those of the second, else 1.
\<close>

theorem strncmp_correct:
  assumes "cstr m cs as" "cstr m ct bs"
  shows "strncmp cs ct count m =
    (if take (unat count) as = take (unat count) bs then 0
     else if lex_less (take (unat count) as) (take (unat count) bs) then -1 else 1)"
  using assms
proof (induction "unat count" arbitrary: count as bs cs ct)
  case 0
  then have "count = 0" by (simp add: word_unat_eq_iff)
  then show ?case by (simp add: strncmp.simps)
next
  case (Suc k)
  then have c: "count \<noteq> 0" by auto
  then have n: "unat count = Suc (unat (count - 1))" by (rule unat_Suc_pred)
  then have k: "k = unat (count - 1)" using Suc.hyps(2) by simp
  have b: "m cs = (case as of [] \<Rightarrow> 0 | a # _ \<Rightarrow> a)" "m ct = (case bs of [] \<Rightarrow> 0 | b # _ \<Rightarrow> b)"
    using Suc.prems by (cases as; simp) (cases bs; use Suc.prems in simp)
  show ?case
  proof (cases "m cs = m ct \<and> m cs \<noteq> 0")
    case True
    then obtain a as' bs' where l: "as = a # as'" "bs = a # bs'" using b by (auto split: list.splits)
    have "strncmp cs ct count m = strncmp (cs + 1) (ct + 1) (count - 1) m"
      using True c by (subst strncmp.simps) auto
    also have "\<dots> = (if take k as' = take k bs' then 0 else if lex_less (take k as') (take k bs') then -1 else 1)"
      using Suc.hyps(1) [OF k, of "cs + 1" as' "ct + 1" bs'] Suc.prems l k by simp
    finally show ?thesis using l by (simp add: n k)
  next
    case False
    then have "strncmp cs ct count m = (if m cs \<noteq> m ct then if m cs < m ct then -1 else 1 else 0)"
      using c by (subst strncmp.simps) auto
    moreover have "b \<noteq> 0 \<Longrightarrow> 0 < b" for b :: u8 by (simp add: word_greater_zero_iff)
    ultimately show ?thesis
      using False b Suc.prems by (cases as; cases bs) (auto simp: n word_greater_zero_iff not_less_iff_gr_or_eq)
  qed
qed

section \<open>Search\<close>

definition first_at :: "u8 list \<Rightarrow> u8 \<Rightarrow> nat \<Rightarrow> bool" where
  "first_at zs c i \<longleftrightarrow> i < length zs \<and> zs ! i = c \<and> c \<notin> set (take i zs)"

definition last_at :: "u8 list \<Rightarrow> u8 \<Rightarrow> nat \<Rightarrow> bool" where
  "last_at zs c i \<longleftrightarrow> i < length zs \<and> zs ! i = c \<and> c \<notin> set (drop (Suc i) zs)"

lemma strchr_result:
  "cstr m s bs \<Longrightarrow> (if ucast c \<in> set (bs @ [0]) then \<exists>i. strchr s c m = Some (s + of_nat i) \<and> first_at (bs @ [0]) (ucast c) i
     else strchr s c m = Some 0)"
proof (induction bs arbitrary: s)
  case Nil
  then show ?case by (auto simp: strchr.simps first_at_def intro!: exI [of _ 0])
next
  case (Cons b bs)
  show ?case
  proof (cases "b = ucast c")
    case True
    then have "strchr s c m = Some s" using Cons.prems by (subst strchr.simps) simp
    with True show ?thesis by (auto simp: first_at_def intro!: exI [of _ 0])
  next
    case False
    then have "strchr s c m = strchr (s + 1) c m" using Cons.prems by (subst strchr.simps) simp
    moreover have "first_at (bs @ [0]) (ucast c) i \<Longrightarrow> first_at ((b # bs) @ [0]) (ucast c) (Suc i)" for i
      using False by (auto simp: first_at_def)
    ultimately show ?thesis
      using Cons.IH [of "s + 1"] Cons.prems False
      by (auto simp del: of_nat_Suc simp: offset_Suc [symmetric] split: if_splits)
  qed
qed

lemma strrchr_loop_result:
  "cstr m s bs \<Longrightarrow> (if ucast c \<in> set (bs @ [0])
     then \<exists>i. strrchr_loop s c la m = Some (s + of_nat i) \<and> last_at (bs @ [0]) (ucast c) i
     else strrchr_loop s c la m = Some la)"
proof (induction bs arbitrary: s la)
  case Nil
  then show ?case by (auto simp: strrchr_loop.simps last_at_def intro!: exI [of _ 0])
next
  case (Cons b bs)
  let ?la = "if b = ucast c then s else la"
  have step: "strrchr_loop s c la m = strrchr_loop (s + 1) c ?la m"
    using Cons.prems by (subst strrchr_loop.simps) simp
  have IH: "if ucast c \<in> set (bs @ [0])
     then \<exists>i. strrchr_loop (s + 1) c ?la m = Some (s + 1 + of_nat i) \<and> last_at (bs @ [0]) (ucast c) i
     else strrchr_loop (s + 1) c ?la m = Some ?la"
    using Cons by (intro Cons.IH) simp
  show ?case
  proof (cases "ucast c \<in> set (bs @ [0])")
    case True
    with IH obtain i where "strrchr_loop (s + 1) c ?la m = Some (s + of_nat (Suc i))" "last_at (bs @ [0]) (ucast c) i"
      by (auto simp del: of_nat_Suc simp: offset_Suc)
    moreover from this(2) have "last_at ((b # bs) @ [0]) (ucast c) (Suc i)" by (simp add: last_at_def)
    moreover have "ucast c \<in> set ((b # bs) @ [0])" using True by auto
    ultimately show ?thesis unfolding step if_P [OF \<open>ucast c \<in> set ((b # bs) @ [0])\<close>] by blast
  next
    case False
    show ?thesis
    proof (cases "b = ucast c")
      case True
      then have "last_at ((b # bs) @ [0]) (ucast c) 0" using False by (simp add: last_at_def)
      then show ?thesis using False True IH step by (auto intro!: exI [of _ 0])
    qed (use False IH step in auto)
  qed
qed

text \<open>
  \<open>strchr\<close> and \<open>strrchr\<close> find the first and the last place at which the string,
  its terminator included, has the character, and return \<open>NULL\<close> when it has none.
\<close>

theorem strchr_strrchr_correct:
  assumes "cstr m s bs"
  shows "if ucast c \<in> set (bs @ [0])
    then (\<exists>i. strchr s c m = Some (s + of_nat i) \<and> first_at (bs @ [0]) (ucast c) i) \<and>
         (\<exists>i. strrchr s c m = Some (s + of_nat i) \<and> last_at (bs @ [0]) (ucast c) i)
    else strchr s c m = Some 0 \<and> strrchr s c m = Some 0"
  using strchr_result [OF assms, of c] strrchr_loop_result [OF assms, of c 0]
  by (auto simp: strrchr_def split: if_splits)

text \<open>\<open>memchr\<close> stops at the first match.\<close>

lemma memchr_result:
  "(memchr p c n m = 0 \<and> (\<forall>i<unat n. m (p + of_nat i) \<noteq> ucast c)) \<or>
   (\<exists>i<unat n. memchr p c n m = p + of_nat i \<and> m (p + of_nat i) = ucast c \<and> (\<forall>k<i. m (p + of_nat k) \<noteq> ucast c))"
proof (induction "unat n" arbitrary: n p)
  case 0
  then have "n = 0" by (simp add: word_unat_eq_iff)
  then show ?case by (simp add: memchr.simps)
next
  case (Suc r)
  then have "n \<noteq> 0" by auto
  then have n: "n \<noteq> 0" "unat n = Suc (unat (n - 1))" by (simp, rule unat_Suc_pred)
  show ?case
  proof (cases "m p = ucast c")
    case True
    then have "memchr p c n m = p" using n(1) by (subst memchr.simps) simp
    with True n(2) show ?thesis by (intro disjI2 exI [of _ 0]) simp
  next
    case False
    then have step: "memchr p c n m = memchr (p + 1) c (n - 1) m" using n(1) by (subst memchr.simps) auto
    have "r = unat (n - 1)" using Suc.hyps(2) n(2) by simp
    from Suc.hyps(1) [OF this, of "p + 1"] show ?thesis
    proof (elim disjE exE conjE)
      assume a: "memchr (p + 1) c (n - 1) m = 0" "\<forall>i<unat (n - 1). m (p + 1 + of_nat i) \<noteq> ucast c"
      have "m (p + of_nat i) \<noteq> ucast c" if "i < unat n" for i
        using that a(2) False n(2) by (cases i) (simp_all del: of_nat_Suc add: offset_Suc)
      with a step show ?thesis by simp
    next
      fix i
      assume a: "i < unat (n - 1)" "memchr (p + 1) c (n - 1) m = p + 1 + of_nat i" "m (p + 1 + of_nat i) = ucast c"
        "\<forall>k<i. m (p + 1 + of_nat k) \<noteq> ucast c"
      have "m (p + of_nat k) \<noteq> ucast c" if "k < Suc i" for k
        using that a(4) False by (cases k) (simp_all del: of_nat_Suc add: offset_Suc)
      with a n(2) step show ?thesis
        by (intro disjI2 exI [of _ "Suc i"]) (simp del: of_nat_Suc add: offset_Suc)
    qed
  qed
qed

lemma cstr_drop: "cstr m s bs \<Longrightarrow> i \<le> length bs \<Longrightarrow> cstr m (s + of_nat i) (drop i bs)"
proof (induction bs arbitrary: s i)
  case (Cons b bs)
  then show ?case by (cases i) (simp_all del: of_nat_Suc add: offset_Suc)
qed simp

lemma memcmp_cstr:
  assumes "cstr m s1 as" "cstr m s2 bs" "length bs \<le> length as"
  shows "memcmp s1 s2 (of_nat (length bs)) m = 0 \<longleftrightarrow> take (length bs) as = bs"
proof -
  have n: "unat (of_nat (length bs) :: u32) = length bs"
    using cstr_length [OF assms(2)] by (rule u32_of_nat_unat)
  have "m (s1 + of_nat i) = as ! i" "m (s2 + of_nat i) = bs ! i" if "i < length bs" for i
    using cstr_nth [OF assms(1), of i] cstr_nth [OF assms(2), of i] assms(3) that by (simp_all add: nth_append)
  then have "(\<forall>i<length bs. m (s1 + of_nat i) = m (s2 + of_nat i)) \<longleftrightarrow> take (length bs) as = bs"
    using assms(3) by (auto simp: list_eq_iff_nth_eq)
  then show ?thesis using memcmp_zero_iff [of s1 s2 "of_nat (length bs)" m] by (simp only: n)
qed

definition substring_at :: "u8 list \<Rightarrow> u8 list \<Rightarrow> nat \<Rightarrow> bool" where
  "substring_at bs as i \<longleftrightarrow> i + length bs \<le> length as \<and> take (length bs) (drop i as) = bs"

lemma strstr_loop_result:
  assumes "cstr m s2 bs" "bs \<noteq> []"
  shows "cstr m s1 as \<Longrightarrow>
   (strstr_loop s1 s2 (of_nat (length as)) (of_nat (length bs)) m = Some 0 \<and> (\<forall>i. \<not> substring_at bs as i)) \<or>
   (\<exists>i. strstr_loop s1 s2 (of_nat (length as)) (of_nat (length bs)) m = Some (s1 + of_nat i) \<and>
        substring_at bs as i \<and> (\<forall>k<i. \<not> substring_at bs as k))"
proof (induction as arbitrary: s1)
  case Nil
  have "\<not> (of_nat (length ([]::u8 list)) :: u32) \<ge> of_nat (length bs)"
    using cstr_length [OF assms(1)] assms(2) by (simp add: word_le_nat_alt u32_of_nat_unat)
  then show ?case using assms(2) by (subst strstr_loop.simps) (simp add: substring_at_def)
next
  case (Cons a as)
  have le: "(of_nat (length (a # as)) :: u32) \<ge> of_nat (length bs) \<longleftrightarrow> length bs \<le> length (a # as)"
    using cstr_length [OF assms(1)] cstr_length [OF Cons.prems] by (simp only: word_le_nat_alt u32_of_nat_unat)
  show ?case
  proof (cases "length bs \<le> length (a # as)")
    case False
    then have "strstr_loop s1 s2 (of_nat (length (a # as))) (of_nat (length bs)) m = Some 0"
      using le by (subst strstr_loop.simps) simp
    with False show ?thesis by (simp add: substring_at_def)
  next
    case True
    note cmp = memcmp_cstr [OF Cons.prems assms(1) True]
    show ?thesis
    proof (cases "take (length bs) (a # as) = bs")
      case t: True
      then have "strstr_loop s1 s2 (of_nat (length (a # as))) (of_nat (length bs)) m = Some s1"
        using le True cmp by (subst strstr_loop.simps) simp
      moreover have "substring_at bs (a # as) 0" using t True by (simp add: substring_at_def)
      ultimately show ?thesis by (intro disjI2 exI [of _ 0]) simp
    next
      case t: False
      have "(of_nat (length (a # as)) :: u32) - 1 = of_nat (length as)" by simp
      then have step: "strstr_loop s1 s2 (of_nat (length (a # as))) (of_nat (length bs)) m =
          strstr_loop (s1 + 1) s2 (of_nat (length as)) (of_nat (length bs)) m"
        using le True cmp t by (subst strstr_loop.simps) simp
      have no: "\<not> substring_at bs (a # as) 0" using t by (simp add: substring_at_def)
      have sub: "substring_at bs (a # as) (Suc i) \<longleftrightarrow> substring_at bs as i" for i
        by (simp add: substring_at_def)
      have "cstr m (s1 + 1) as" using Cons.prems by simp
      from Cons.IH [OF this] show ?thesis
      proof (elim disjE exE conjE)
        assume r: "strstr_loop (s1 + 1) s2 (of_nat (length as)) (of_nat (length bs)) m = Some 0" "\<forall>i. \<not> substring_at bs as i"
        have "\<not> substring_at bs (a # as) i" for i using no sub r(2) by (cases i) simp_all
        with r step show ?thesis by simp
      next
        fix i
        assume r: "strstr_loop (s1 + 1) s2 (of_nat (length as)) (of_nat (length bs)) m = Some (s1 + 1 + of_nat i)"
          "substring_at bs as i" "\<forall>k<i. \<not> substring_at bs as k"
        have "\<not> substring_at bs (a # as) k" if "k < Suc i" for k using that no sub r(3) by (cases k) simp_all
        with r step sub [of i] show ?thesis
          by (intro disjI2 exI [of _ "Suc i"]) (simp del: of_nat_Suc length_Cons add: offset_Suc)
      qed
    qed
  qed
qed

text \<open>
  \<open>strstr\<close> finds the first place at which the second string is part of the first one, and
  returns \<open>NULL\<close> when it is not part of it.
\<close>

theorem strstr_correct:
  assumes "cstr m s1 as" "cstr m s2 bs"
  shows "(strstr s1 s2 m = Some 0 \<and> (\<forall>i. \<not> substring_at bs as i)) \<or>
   (\<exists>i. strstr s1 s2 m = Some (s1 + of_nat i) \<and> substring_at bs as i \<and> (\<forall>k<i. \<not> substring_at bs as k))"
proof (cases "bs = []")
  case True
  then have "strstr s1 s2 m = Some s1" using strlen_cstr [OF assms(2)] by (simp add: strstr_def)
  with True show ?thesis by (intro disjI2 exI [of _ 0]) (simp add: substring_at_def)
next
  case False
  then have "(of_nat (length bs) :: u32) \<noteq> 0"
    using cstr_length [OF assms(2)] by (simp add: word_unat_eq_iff u32_of_nat_unat)
  then have "strstr s1 s2 m = strstr_loop s1 s2 (of_nat (length as)) (of_nat (length bs)) m"
    using strlen_cstr [OF assms(1)] strlen_cstr [OF assms(2)] by (simp add: strstr_def)
  then show ?thesis using strstr_loop_result [OF assms(2) False assms(1)] by simp
qed

section \<open>Copying\<close>

text \<open>
  \<open>strcpy\<close> and \<open>strcat\<close> copy with the same loop; what it does is proved for any function that
  satisfies its equation.
\<close>

lemma copy_loop_copied:
  assumes eq: "\<And>d s m. loop d s m = (let c = m s; m' = m(d := c)
      in if c \<noteq> 0 then loop (d + 1) (s + 1) m' else Some m')"
    and str: "cstr (j_mem j) (j_src j) bs" and len: "j_len j = Suc (length bs)"
  shows "copied j k m \<Longrightarrow> k \<le> length bs \<Longrightarrow>
    \<exists>m'. loop (j_dst j + of_nat k) (j_src j + of_nat k) m = Some m' \<and> copied j (Suc (length bs)) m'"
proof (induction "length bs - k" arbitrary: k m)
  case (0 k m)
  then have k: "k = length bs" by simp
  have c: "m (j_src j + of_nat k) = 0"
    using copied_source [OF 0(2), of k] cstr_nth [OF str, of k] k len by simp
  have "copied j (k + 1) (m(j_dst j + of_nat k := 0))"
    unfolding mem_range_byte using copied_extend [OF 0(2), of 1 "\<lambda>_. 0"] k len c copied_source [OF 0(2), of k] by simp
  then show ?case using c k by (subst eq) simp
next
  case (Suc r k m)
  then have k: "k < length bs" by simp
  define c where "c = m (j_src j + of_nat k)"
  have c: "c = bs ! k" "c = j_mem j (j_src j + of_nat k)"
    using copied_source [OF Suc.prems(1), of k] cstr_nth [OF str, of k] k len by (simp_all add: c_def nth_append)
  then have nz: "c \<noteq> 0" using cstr_nonzero [OF str] k by (metis nth_mem)
  have c1: "copied j (Suc k) (m(j_dst j + of_nat k := c))"
    unfolding mem_range_byte using copied_extend [OF Suc.prems(1), of 1 "\<lambda>_. c"] k len c(2) by simp
  have "loop (j_dst j + of_nat k) (j_src j + of_nat k) m =
      loop (j_dst j + of_nat (Suc k)) (j_src j + of_nat (Suc k)) (m(j_dst j + of_nat k := c))"
    using nz by (subst eq) (simp add: c_def add.assoc add.commute [of 1 "of_nat k"])
  moreover have "r = length bs - Suc k" "Suc k \<le> length bs" using Suc.hyps(2) k by simp_all
  ultimately show ?case using Suc.hyps(1) [OF _ c1] by simp
qed

lemma copied_string:
  assumes "copied j (Suc (length bs)) m'" "j_mem j = m" "cstr m (j_src j) bs"
  shows "m' = mem_range (j_dst j) (Suc (length bs)) (\<lambda>i. (bs @ [0]) ! i) m"
  using assms cstr_nth [OF assms(3)] by (auto simp: copied_def intro!: mem_range_cong)

lemma cstr_mem_range:
  assumes "0 \<notin> set bs" "Suc (length bs) \<le> 4294967296"
  shows "cstr (mem_range d (Suc (length bs)) (\<lambda>i. (bs @ [0]) ! i) m) d bs"
  using assms by (intro cstr_intro) (simp_all add: mem_range_def u32_of_nat_unat nth_append)

text \<open>
  \<open>strcpy\<close> of a string to a place that does not overlap it writes the string with its
  terminator there and nothing else, and returns the destination.
\<close>

theorem strcpy_correct:
  assumes "cstr m from' bs" "no_overlap to from' (Suc (length bs))"
  shows "\<exists>m'. strcpy to from' m = Some (to, m') \<and> cstr m' to bs \<and>
    m' = mem_range to (Suc (length bs)) (\<lambda>i. (bs @ [0]) ! i) m"
proof -
  define j where "j = \<lparr>j_mem = m, j_dst = to, j_src = from', j_len = Suc (length bs)\<rparr>"
  have "copied j 0 m" using assms(2) by (simp add: copied_def j_def)
  from copy_loop_copied [OF strcpy_loop.simps _ _ this, of bs] assms(1) obtain m' where
    l: "strcpy_loop to from' m = Some m'" and c: "copied j (Suc (length bs)) m'"
    by (auto simp: j_def)
  from c assms(1) have m': "m' = mem_range to (Suc (length bs)) (\<lambda>i. (bs @ [0]) ! i) m"
    using copied_string [of j bs m' m] by (simp add: j_def)
  have "cstr m' to bs"
    unfolding m' using cstr_nonzero [OF assms(1)] cstr_length [OF assms(1)] by (intro cstr_mem_range) auto
  then show ?thesis using l m' by (simp add: strcpy_def)
qed

lemma cstr_append:
  assumes "cstr m s as" "cstr m' (s + of_nat (length as)) bs" "\<And>i. i < length as \<Longrightarrow> m' (s + of_nat i) = m (s + of_nat i)"
  shows "cstr m' s (as @ bs)"
  using assms
proof (induction as arbitrary: s)
  case (Cons a as)
  have "m' (s + 1 + of_nat i) = m (s + 1 + of_nat i)" if "i < length as" for i
    using Cons.prems(3) [of "Suc i"] that by (simp del: of_nat_Suc add: offset_Suc)
  then show ?case
    using Cons.IH [of "s + 1"] Cons.prems(1,2) Cons.prems(3) [of 0] by (simp add: add.assoc)
qed simp

text \<open>
  \<open>strcat\<close> turns the first string into the concatenation of the two, writing from its
  terminator on and nowhere else.
\<close>

theorem strcat_correct:
  assumes "cstr m s as" "cstr m app bs" "no_overlap (s + of_nat (length as)) app (Suc (length bs))"
    "length as + length bs < 4294967296"
  shows "\<exists>m'. strcat s app m = Some (s, m') \<and> cstr m' s (as @ bs) \<and>
    m' = mem_range (s + of_nat (length as)) (Suc (length bs)) (\<lambda>i. (bs @ [0]) ! i) m"
proof -
  let ?e = "s + of_nat (length as)"
  define j where "j = \<lparr>j_mem = m, j_dst = ?e, j_src = app, j_len = Suc (length bs)\<rparr>"
  have "copied j 0 m" using assms(3) by (simp add: copied_def j_def)
  from copy_loop_copied [OF strcat_loop.simps _ _ this, of bs] assms(2) obtain m' where
    l: "strcat_loop ?e app m = Some m'" and c: "copied j (Suc (length bs)) m'"
    by (auto simp: j_def)
  from c assms(2) have m': "m' = mem_range ?e (Suc (length bs)) (\<lambda>i. (bs @ [0]) ! i) m"
    using copied_string [of j bs m' m] by (simp add: j_def)
  have tail: "cstr m' ?e bs"
    unfolding m' using cstr_nonzero [OF assms(2)] cstr_length [OF assms(2)] by (intro cstr_mem_range) auto
  have head: "m' (s + of_nat i) = m (s + of_nat i)" if i: "i < length as" for i
  proof -
    have k: "unat (of_nat (length as - i) :: u32) = length as - i"
      using cstr_length [OF assms(1)] by (intro u32_of_nat_unat) simp
    have d: "?e - (s + of_nat i) = of_nat (length as - i)" using i by (simp add: of_nat_diff)
    then have "s + of_nat i \<noteq> ?e" using k i by (metis cancel_comm_monoid_add_class.diff_cancel unat_0 zero_less_diff less_irrefl)
    from unat_sub_swap [OF this [symmetric]] have "unat (s + of_nat i - ?e) = 4294967296 - (length as - i)"
      by (simp only: d k)
    moreover have "\<not> 4294967296 - (length as - i) < Suc (length bs)" using assms(4) i by simp
    ultimately show ?thesis by (simp only: m' mem_range_def if_False)
  qed
  have "strcat s app m = Some (s, m')"
    using strend_cstr [OF assms(1)] l by (simp add: strcat_def)
  with cstr_append [OF assms(1) tail head] m' show ?thesis by blast
qed

text \<open>\<open>strncpy\<close>: up to \<open>n\<close> bytes of the string, then zero bytes up to \<open>n\<close>.\<close>

lemma strncpy_pad_range:
  "unat i \<le> unat n \<Longrightarrow> strncpy_pad dest n i m = mem_range (dest + i) (unat n - unat i) (\<lambda>_. 0) m"
proof (induction dest n i m rule: strncpy_pad.induct)
  case (1 dest n i m)
  show ?case
  proof (cases "i < n")
    case True
    then have l: "unat i < unat n" by (simp add: word_less_nat_alt)
    have s: "unat (i + 1) = Suc (unat i)" using True by (rule unat_plus_one_less)
    have "1 + (unat n - unat (i + 1)) \<le> 4294967296" using u32_unat_bound [of n] by simp
    from mem_range_append [OF this, of "dest + i" "\<lambda>_. 0" "\<lambda>_. 0" m]
    have e: "mem_range (dest + (i + 1)) (unat n - unat (i + 1)) (\<lambda>_. 0) (m(dest + i := 0)) =
        mem_range (dest + i) (unat n - unat i) (\<lambda>_. 0) m"
      using l s by (simp add: mem_range_byte add.assoc Suc_diff_Suc)
    have "strncpy_pad dest n i m = strncpy_pad dest n (i + 1) (m(dest + i := 0))"
      using True by (subst strncpy_pad.simps) simp
    also have "\<dots> = mem_range (dest + (i + 1)) (unat n - unat (i + 1)) (\<lambda>_. 0) (m(dest + i := 0))"
      using l s by (intro 1 True) simp
    finally show ?thesis unfolding e .
  next
    case False
    then show ?thesis using 1(2) by (subst strncpy_pad.simps) (simp add: word_less_nat_alt)
  qed
qed

lemma strncpy_copy_result:
  assumes str: "cstr (j_mem j) (j_src j) bs" and len: "j_len j = unat n"
  shows "copied j (unat i) m \<Longrightarrow> unat i \<le> length bs \<Longrightarrow>
    \<exists>i' m'. strncpy_copy (j_dst j) (j_src j) n i m = (i', m') \<and> unat i' = min (unat n) (length bs) \<and> copied j (unat i') m'"
proof (induction "min (unat n) (length bs) - unat i" arbitrary: i m)
  case (0 i m)
  then have le: "unat i \<le> unat n" by (simp add: copied_def len)
  have i: "unat i = min (unat n) (length bs)" using 0 le by simp
  have "\<not> (i < n \<and> m (j_src j + i) \<noteq> 0)"
  proof (cases "i < n")
    case True
    then have b: "unat i = length bs" "unat i < unat n" using i by (auto simp: word_less_nat_alt)
    then have "m (j_src j + of_nat (unat i)) = 0"
      using copied_source [OF 0(2), of "unat i"] cstr_nth [OF str, of "unat i"] len by simp
    then show ?thesis by simp
  qed simp
  then have "strncpy_copy (j_dst j) (j_src j) n i m = (i, m)" by (subst strncpy_copy.simps) auto
  with i 0(2) show ?case by simp
next
  case (Suc r i m)
  then have i: "unat i < unat n" "unat i < length bs" by simp_all
  then have lt: "i < n" by (simp add: word_less_nat_alt)
  define c where "c = m (j_src j + i)"
  have c: "c = bs ! unat i" "c = j_mem j (j_src j + of_nat (unat i))"
    using copied_source [OF Suc.prems(1), of "unat i"] cstr_nth [OF str, of "unat i"] i len
    by (simp_all add: c_def nth_append)
  then have nz: "c \<noteq> 0" using cstr_nonzero [OF str] i by (metis nth_mem)
  have s: "unat (i + 1) = Suc (unat i)" using lt by (rule unat_plus_one_less)
  have c1: "copied j (unat (i + 1)) (m(j_dst j + i := c))"
    unfolding mem_range_byte s using copied_extend [OF Suc.prems(1), of 1 "\<lambda>_. c"] i len c(2) by simp
  have "strncpy_copy (j_dst j) (j_src j) n i m = strncpy_copy (j_dst j) (j_src j) n (i + 1) (m(j_dst j + i := c))"
    using nz lt by (subst strncpy_copy.simps) (simp add: c_def)
  moreover have "r = min (unat n) (length bs) - unat (i + 1)" "unat (i + 1) \<le> length bs"
    using Suc.hyps(2) i s by simp_all
  ultimately show ?case using Suc.hyps(1) [OF _ c1] by simp
qed

text \<open>
  \<open>strncpy\<close> writes exactly \<open>n\<close> bytes: those of the string as far as it reaches, then
  zero bytes; a string of \<open>n\<close> or more bytes is left without a terminator.
\<close>

theorem strncpy_correct:
  assumes "cstr m src bs" "no_overlap dest src (unat n)"
  shows "strncpy dest src n m = (dest, mem_range dest (unat n) (\<lambda>i. if i < length bs then bs ! i else 0) m)"
proof -
  define j where "j = \<lparr>j_mem = m, j_dst = dest, j_src = src, j_len = unat n\<rparr>"
  have "copied j (unat (0::u32)) m" using assms(2) by (simp add: copied_def j_def)
  from strncpy_copy_result [OF _ _ this, of bs n] assms(1) obtain i m' where
    l: "strncpy_copy dest src n 0 m = (i, m')" and i: "unat i = min (unat n) (length bs)" and c: "copied j (unat i) m'"
    by (auto simp: j_def)
  let ?g = "\<lambda>i. if i < length bs then bs ! i else 0"
  have "m' = mem_range dest (unat i) ?g m"
    using c i cstr_nth [OF assms(1)] by (auto simp: copied_def j_def nth_append intro!: mem_range_cong)
  then have "strncpy_pad dest n i m' = mem_range (dest + i) (unat n - unat i) (\<lambda>_. 0) (mem_range dest (unat i) ?g m)"
    using i by (simp add: strncpy_pad_range)
  also have "\<dots> = mem_range (dest + i) (unat n - unat i) (\<lambda>k. ?g (unat i + k)) (mem_range dest (unat i) ?g m)"
    using i by (intro mem_range_cong) (auto simp: min_def split: if_splits)
  also have "\<dots> = mem_range dest (unat i + (unat n - unat i)) ?g m"
  proof -
    have "unat i + (unat n - unat i) \<le> 4294967296" using i u32_unat_bound [of n] by simp
    from mem_range_extend [OF this, of dest ?g m] show ?thesis by simp
  qed
  finally show ?thesis using l i by (simp add: strncpy_def)
qed

text \<open>
  \<open>memmove\<close> copies upwards or downwards, so that no source byte is overwritten before it is
  read: a byte not yet read is outside of what is written.
\<close>

lemma memmove_up_result:
  assumes "dest \<le> src" "unat src + n \<le> 4294967296"
  shows "m' = mem_range dest k (\<lambda>i. m (src + of_nat i)) m \<Longrightarrow> k + unat c = n \<Longrightarrow>
    memmove_up (dest + of_nat k) (src + of_nat k) c m' = mem_range dest n (\<lambda>i. m (src + of_nat i)) m"
proof (induction "unat c" arbitrary: k c m')
  case 0
  then have "c = 0" by (simp add: word_unat_eq_iff)
  with 0 show ?case by (simp add: memmove_up.simps)
next
  case (Suc r)
  then have c0: "c \<noteq> 0" by auto
  note c = c0 unat_Suc_pred [OF c0]
  have k: "k < n" using Suc.hyps(2) Suc.prems(2) by simp
  have le: "unat dest \<le> unat src" using assms(1) by (simp add: word_le_nat_alt)
  have small: "unat (of_nat k :: u32) = k"
    using k assms(2) by (intro u32_of_nat_unat) simp
  have "unat (src + of_nat k - dest) = unat src + k - unat dest"
  proof -
    have s: "unat (src + of_nat k) = unat src + k"
      using k assms(2) small by (subst unat_add_no_wrap) simp_all
    then have "dest \<le> src + of_nat k" using le by (simp add: word_le_nat_alt)
    then show ?thesis by (simp only: unat_sub_no_wrap s)
  qed
  then have "\<not> unat (src + of_nat k - dest) < k" using le by simp
  then have src: "m' (src + of_nat k) = m (src + of_nat k)"
    by (simp only: Suc.prems(1) mem_range_def if_False)
  define m1 where "m1 = m'(dest + of_nat k := m' (src + of_nat k))"
  have "m1 = mem_range (dest + of_nat k) 1 (\<lambda>i. m (src + of_nat (k + i))) m'"
    unfolding m1_def mem_range_byte by (intro mem_range_cong) (simp add: src)
  also have "\<dots> = mem_range dest (k + 1) (\<lambda>i. m (src + of_nat i)) m"
    unfolding Suc.prems(1) using k assms(2) by (intro mem_range_extend) simp
  finally have m1: "m1 = mem_range dest (Suc k) (\<lambda>i. m (src + of_nat i)) m" by simp
  have "dest + of_nat k + 1 = dest + of_nat (Suc k)" "src + of_nat k + 1 = src + of_nat (Suc k)" by simp_all
  then have "memmove_up (dest + of_nat k) (src + of_nat k) c m' =
      memmove_up (dest + of_nat (Suc k)) (src + of_nat (Suc k)) (c - 1) m1"
    using c0 unfolding m1_def by (subst memmove_up.simps) (simp only: if_True not_False_eq_True)
  moreover have "r = unat (c - 1)" "Suc k + unat (c - 1) = n" using Suc.hyps(2) Suc.prems(2) c(2) by simp_all
  ultimately show ?case using Suc.hyps(1) [OF _ m1] by simp
qed

lemma memmove_down_source:
  assumes "(src::u32) < dest" "unat dest + n \<le> 4294967296" "c \<noteq> 0" "unat c < n"
  shows "\<not> unat (src + (c - 1) - (dest + c)) < n - unat c"
proof -
  have lt: "unat src < unat dest" using assms(1) by (simp add: word_less_nat_alt)
  have d: "unat (dest - src) = unat dest - unat src"
    using assms(1) by (intro unat_sub_no_wrap) simp
  have "0 < unat c" using assms(3) by (simp add: unat_gt_0)
  then have "unat (dest - src) < 4294967295" using d assms(2,4) by linarith
  then have e: "unat (dest - src + 1) = Suc (unat (dest - src))" by (rule unat_plus_one_bound)
  have w: "dest + c - (src + (c - 1)) = dest - src + 1" by simp
  have "src + (c - 1) \<noteq> dest + c"
  proof
    assume "src + (c - 1) = dest + c"
    then have "dest + c - (src + (c - 1)) = 0" by (simp only: diff_self)
    then have "dest - src + 1 = 0" by (simp only: w)
    then show False using e by simp
  qed
  from unat_sub_swap [OF this] have "unat (dest - src + 1) + unat (src + (c - 1) - (dest + c)) = 4294967296"
    by (simp only: w)
  then show ?thesis using e d assms(2,4) \<open>0 < unat c\<close> by linarith
qed

lemma memmove_down_result:
  assumes "src < dest" "unat dest + n \<le> 4294967296"
  shows "m' = mem_range (dest + c) (n - unat c) (\<lambda>i. m (src + c + of_nat i)) m \<Longrightarrow> unat c \<le> n \<Longrightarrow>
    memmove_down (dest + c) (src + c) c m' = mem_range dest n (\<lambda>i. m (src + of_nat i)) m"
proof (induction "unat c" arbitrary: c m')
  case 0
  then have "c = 0" by (simp add: word_unat_eq_iff)
  with 0 show ?case by (simp add: memmove_down.simps)
next
  case (Suc r)
  then have c0: "c \<noteq> 0" by auto
  note c = c0 unat_Suc_pred [OF c0]
  define f where "f i = m (src + (c - 1) + of_nat i)" for i
  have "\<not> unat (src + (c - 1) - (dest + c)) < n - unat c"
    using memmove_down_source [OF assms c0] by (cases "unat c < n") simp_all
  then have src: "m' (src + (c - 1)) = f 0"
    by (simp only: Suc.prems(1) mem_range_def if_False f_def) simp
  define m1 where "m1 = m'(dest + (c - 1) := m' (src + (c - 1)))"
  have m': "m' = mem_range (dest + (c - 1) + of_nat 1) (n - unat c) (\<lambda>i. f (1 + i)) m"
    unfolding Suc.prems(1) f_def by (simp add: algebra_simps)
  have "m1 = mem_range (dest + (c - 1)) 1 f m'"
    unfolding m1_def mem_range_byte src by (intro mem_range_cong) simp
  also have "\<dots> = mem_range (dest + (c - 1)) 1 f (mem_range (dest + (c - 1) + of_nat 1) (n - unat c) (\<lambda>i. f (1 + i)) m)"
    by (simp only: m')
  also have "\<dots> = mem_range (dest + (c - 1)) (1 + (n - unat c)) f m"
    using c(2) Suc.prems(2) assms(2) by (intro mem_range_prepend) simp
  also have "1 + (n - unat c) = n - unat (c - 1)" using c(2) Suc.prems(2) by simp
  finally have m1: "m1 = mem_range (dest + (c - 1)) (n - unat (c - 1)) (\<lambda>i. m (src + (c - 1) + of_nat i)) m"
    unfolding f_def .
  have "dest + c - 1 = dest + (c - 1)" "src + c - 1 = src + (c - 1)" by simp_all
  then have "memmove_down (dest + c) (src + c) c m' = memmove_down (dest + (c - 1)) (src + (c - 1)) (c - 1) m1"
    using c0 unfolding m1_def by (subst memmove_down.simps) (simp only: if_True not_False_eq_True)
  moreover have "r = unat (c - 1)" "unat (c - 1) \<le> n" using Suc.hyps(2) Suc.prems(2) c(2) by simp_all
  ultimately show ?case using Suc.hyps(1) [OF _ m1] by simp
qed

text \<open>
  C38. \<open>memmove\<close> returns the destination and leaves there the bytes the source had before the
  call, also when the two ranges overlap, and changes no other byte.
\<close>

theorem memmove_correct:
  assumes "unat dest + unat count \<le> 4294967296" "unat src + unat count \<le> 4294967296"
  shows "memmove dest src count m = (dest, \<lambda>x. if x - dest < count then m (src + (x - dest)) else m x)"
proof -
  have range: "mem_range dest (unat count) (\<lambda>i. m (src + of_nat i)) m =
      (\<lambda>x. if x - dest < count then m (src + (x - dest)) else m x)"
    by (simp add: mem_range_def fun_eq_iff word_less_nat_alt)
  show ?thesis
  proof (cases "dest \<le> src")
    case True
    have "memmove_up dest src count m = mem_range dest (unat count) (\<lambda>i. m (src + of_nat i)) m"
      using memmove_up_result [OF True assms(2), of m 0 m count] by simp
    with True range show ?thesis by (simp add: memmove_def)
  next
    case False
    then have "memmove_down (dest + count) (src + count) count m = mem_range dest (unat count) (\<lambda>i. m (src + of_nat i)) m"
      using memmove_down_result [of src dest "unat count" m count m] assms(1) by simp
    with False range show ?thesis by (simp add: memmove_def)
  qed
qed

section \<open>Witnesses\<close>

text \<open>Two strings, \<open>"abcab"\<close> and \<open>"ca"\<close>, in a memory of zero bytes.\<close>

definition example_strings :: mem where
  "example_strings = (\<lambda>_. 0)(0x1000 := 97, 0x1001 := 98, 0x1002 := 99, 0x1003 := 97, 0x1004 := 98,
     0x2000 := 99, 0x2001 := 97)"

lemma example_cstr:
  "cstr example_strings 0x1000 [97, 98, 99, 97, 98]" "cstr example_strings 0x2000 [99, 97]"
  by (simp_all add: example_strings_def)

theorem memcmp_correct_witness:
  "memcmp 0x1000 0x1003 2 example_strings = 0"
  using memcmp_correct [of "0x1000" "0x1003" 2 example_strings]
  by (simp add: example_strings_def less_2_cases_iff)

theorem strcmp_correct_witness:
  "\<exists>r. strcmp 0x1000 0x2000 example_strings = Some r \<and> r < 0"
  using strcmp_correct [OF example_cstr] by auto

theorem strncmp_correct_witness:
  "strncmp 0x2000 0x1000 1 example_strings = 1"
  using strncmp_correct [OF example_cstr(2,1), of 1] by simp

theorem strchr_strrchr_correct_witness:
  "strchr 0x1000 100 example_strings = Some 0 \<and> (\<exists>i. strrchr 0x1000 98 example_strings = Some (0x1000 + of_nat i) \<and> last_at [97, 98, 99, 97, 98, 0] 98 i)"
  using strchr_strrchr_correct [OF example_cstr(1), of 100] strchr_strrchr_correct [OF example_cstr(1), of 98] by simp

theorem strstr_correct_witness:
  "\<exists>i. strstr 0x1000 0x2000 example_strings = Some (0x1000 + of_nat i) \<and> substring_at [99, 97] [97, 98, 99, 97, 98] i"
proof -
  have "substring_at [99, 97] [97, 98, 99, 97, 98] 2" by (simp add: substring_at_def)
  then show ?thesis using strstr_correct [OF example_cstr] by blast
qed

theorem strcpy_correct_witness:
  "\<exists>m'. strcpy 0x3000 0x2000 example_strings = Some (0x3000, m') \<and> cstr m' 0x3000 [99, 97]"
  using strcpy_correct [OF example_cstr(2), of "0x3000"] by (auto simp: no_overlap_def)

theorem strcat_correct_witness:
  "\<exists>m'. strcat 0x1000 0x2000 example_strings = Some (0x1000, m') \<and> cstr m' 0x1000 [97, 98, 99, 97, 98, 99, 97]"
  using strcat_correct [OF example_cstr] by (auto simp: no_overlap_def simp del: cstr.simps)

theorem strncpy_correct_witness:
  "snd (strncpy 0x3000 0x2000 1 example_strings) 0x3000 = 99"
  using strncpy_correct [OF example_cstr(2), of "0x3000" 1] by (simp add: no_overlap_def mem_range_def)

theorem memmove_correct_witness:
  "snd (memmove 0x1001 0x1000 3 example_strings) 0x1003 = 99"
  using memmove_correct [of "0x1001" 3 "0x1000" example_strings] by (simp add: example_strings_def)

end
