(* ===== verification/Ctype.thy ===== *)
theory Ctype
  imports Memcpy
begin

text \<open>
  \<^verbatim>\<open>include/ctype.h\<close>: the inline character classes and case conversions. The argument is a C
  \<^verbatim>\<open>int\<close>; no operation leaves its range, so it is an integer. The formatted output uses
  \<open>isdigit\<close>. The lemmas show how the classes divide the ASCII codes, and that the conversions
  are inverse on letters.
\<close>

section \<open>The program\<close>

definition islower :: "int \<Rightarrow> bool" where
  "islower c \<longleftrightarrow> c \<ge> of_char (CHR ''a'') \<and> c \<le> of_char (CHR ''z'')"

definition isupper :: "int \<Rightarrow> bool" where
  "isupper c \<longleftrightarrow> c \<ge> of_char (CHR ''A'') \<and> c \<le> of_char (CHR ''Z'')"

definition isalpha :: "int \<Rightarrow> bool" where
  "isalpha c \<longleftrightarrow> islower c \<or> isupper c"

definition isdigit :: "int \<Rightarrow> bool" where
  "isdigit c \<longleftrightarrow> c \<ge> of_char (CHR ''0'') \<and> c \<le> of_char (CHR ''9'')"

definition isalnum :: "int \<Rightarrow> bool" where
  "isalnum c \<longleftrightarrow> isalpha c \<or> isdigit c"

definition isxdigit :: "int \<Rightarrow> bool" where
  "isxdigit c \<longleftrightarrow> isdigit c \<or> (c \<ge> of_char (CHR ''a'') \<and> c \<le> of_char (CHR ''f''))
     \<or> (c \<ge> of_char (CHR ''A'') \<and> c \<le> of_char (CHR ''F''))"

text \<open>\<open>0x0C\<close> is \<^verbatim>\<open>'\f'\<close> and \<open>0x0B\<close> is \<^verbatim>\<open>'\v'\<close>.\<close>

definition isspace :: "int \<Rightarrow> bool" where
  "isspace c \<longleftrightarrow> c = of_char (CHR '' '') \<or> c = of_char (CHR 0x0C) \<or> c = of_char (CHR 0x0A)
     \<or> c = of_char (CHR 0x0D) \<or> c = of_char (CHR 0x09) \<or> c = of_char (CHR 0x0B)"

definition isblank :: "int \<Rightarrow> bool" where
  "isblank c \<longleftrightarrow> c = of_char (CHR '' '') \<or> c = of_char (CHR 0x09)"

definition isgraph :: "int \<Rightarrow> bool" where
  "isgraph c \<longleftrightarrow> c > 32 \<and> c < 127"

definition isprint :: "int \<Rightarrow> bool" where
  "isprint c \<longleftrightarrow> c \<ge> 32 \<and> c < 127"

definition iscntrl :: "int \<Rightarrow> bool" where
  "iscntrl c \<longleftrightarrow> (c \<ge> 0 \<and> c < 32) \<or> c = 127"

definition isascii :: "int \<Rightarrow> bool" where
  "isascii c \<longleftrightarrow> c \<ge> 0 \<and> c < 128"

definition ispunct :: "int \<Rightarrow> bool" where
  "ispunct c \<longleftrightarrow> isprint c \<and> \<not> isalnum c \<and> \<not> isspace c"

definition tolower :: "int \<Rightarrow> int" where
  "tolower c = (if isupper c then c - of_char (CHR ''A'') + of_char (CHR ''a'') else c)"

definition toupper :: "int \<Rightarrow> int" where
  "toupper c = (if islower c then c - of_char (CHR ''a'') + of_char (CHR ''A'') else c)"

section \<open>Properties\<close>

named_theorems char_classes

lemmas char_class_defs [char_classes] = islower_def isupper_def isalpha_def isdigit_def isalnum_def isxdigit_def isspace_def
  isblank_def isgraph_def isprint_def iscntrl_def isascii_def ispunct_def tolower_def toupper_def

text \<open>An ASCII code is in exactly one of the four classes, or is the space.\<close>

theorem ascii_classes:
  "isascii c \<longleftrightarrow> length (filter (\<lambda>P. P c) [iscntrl, isalpha, isdigit, ispunct, (\<lambda>c. c = 32)]) = 1"
  by (auto simp: char_classes)

text \<open>The printing characters are the space and the graphic ones; the blanks that do not print are controls.\<close>

theorem printing_classes:
  "isprint c \<longleftrightarrow> isgraph c \<or> c = 32" "isgraph c \<longleftrightarrow> isalnum c \<or> ispunct c"
  "isspace c \<Longrightarrow> c = 32 \<or> iscntrl c" "isblank c \<Longrightarrow> isspace c" "isxdigit c \<Longrightarrow> isalnum c"
  by (auto simp: char_classes)

text \<open>The conversions exchange the two cases and leave everything else alone.\<close>

theorem case_conversions:
  "toupper (tolower c) = toupper c" "tolower (toupper c) = tolower c"
  "islower c \<Longrightarrow> isupper (toupper c) \<and> tolower (toupper c) = c"
  "isupper c \<Longrightarrow> islower (tolower c) \<and> toupper (tolower c) = c"
  "\<not> isalpha c \<Longrightarrow> tolower c = c \<and> toupper c = c"
  by (auto simp: char_classes)

end
