(* ===== verification/Snprintf.thy ===== *)
theory Snprintf
  imports CString Ctype
begin

text \<open>
  \<^verbatim>\<open>lib/snprintf.c\<close>: the formatted output of \<^verbatim>\<open>printk\<close>. The state machine \<open>dopr\<close> reads a format
  string and writes to a buffer that it never overruns. Variable arguments are a list:
  \<open>va_arg\<close> takes the next one, and reading one that was not passed, or with another type,
  is undefined and ends the model with \<open>None\<close>. C \<^verbatim>\<open>int\<close>s are integers wrapped to 32 bits;
  the floating-point arithmetic of \<^verbatim>\<open>fmtfp\<close> (\<open>abs_val\<close>, \<open>pow10\<close>, \<open>round\<close> on doubles) is an
  argument that yields the parts that are printed.
\<close>

section \<open>Output\<close>

definition to_char :: "u8 \<Rightarrow> char" where
  "to_char c = char_of (unat c)"

definition s32 :: "int \<Rightarrow> int" where
  "s32 i = sint (word_of_int i :: u32)"

text \<open>The position in the buffer (\<open>currlen\<close>) and the memory.\<close>

type_synonym outbuf = "u32 \<times> mem"

definition dopr_outch :: "u32 \<Rightarrow> u32 \<Rightarrow> u8 \<Rightarrow> outbuf \<Rightarrow> outbuf" where
  "dopr_outch buffer maxlen c ou =
     (case ou of (currlen, m) \<Rightarrow>
        if currlen < maxlen then (currlen + 1, m(buffer + currlen := c)) else (currlen, m))"

text \<open>\<open>while (n > 0) { dopr_outch (.., c); --n; }\<close>, and its counterpart for a negative \<open>n\<close>.\<close>

function pad_down :: "u32 \<Rightarrow> u32 \<Rightarrow> u8 \<Rightarrow> int \<Rightarrow> outbuf \<Rightarrow> outbuf" where
  "pad_down b ml c n ou = (if n > 0 then pad_down b ml c (n - 1) (dopr_outch b ml c ou) else ou)"
  by pat_completeness auto
termination by (relation "measure (\<lambda>(b, ml, c, n, ou). nat n)") auto

function pad_up :: "u32 \<Rightarrow> u32 \<Rightarrow> u8 \<Rightarrow> int \<Rightarrow> outbuf \<Rightarrow> outbuf" where
  "pad_up b ml c n ou = (if n < 0 then pad_up b ml c (n + 1) (dopr_outch b ml c ou) else ou)"
  by pat_completeness auto
termination by (relation "measure (\<lambda>(b, ml, c, n, ou). nat (- n))") auto

text \<open>\<open>while (place > 0) dopr_outch (.., convert[--place])\<close>\<close>

primrec out_digits :: "u32 \<Rightarrow> u32 \<Rightarrow> u8 list \<Rightarrow> nat \<Rightarrow> outbuf \<Rightarrow> outbuf" where
  "out_digits b ml convert 0 ou = ou"
| "out_digits b ml convert (Suc place) ou = out_digits b ml convert place (dopr_outch b ml (convert ! place) ou)"

section \<open>Flags\<close>

definition DP_F_MINUS :: u32 where "DP_F_MINUS = 1"
definition DP_F_PLUS :: u32 where "DP_F_PLUS = 2"
definition DP_F_SPACE :: u32 where "DP_F_SPACE = 4"
definition DP_F_NUM :: u32 where "DP_F_NUM = 8"
definition DP_F_ZERO :: u32 where "DP_F_ZERO = 16"
definition DP_F_UP :: u32 where "DP_F_UP = 32"
definition DP_F_UNSIGNED :: u32 where "DP_F_UNSIGNED = 64"

definition has :: "u32 \<Rightarrow> u32 \<Rightarrow> bool" where
  "has flags f \<longleftrightarrow> flags AND f \<noteq> 0"

section \<open>Integers\<close>

definition hex_digit :: "bool \<Rightarrow> u32 \<Rightarrow> u8" where
  "hex_digit caps k = of_char ((if caps then ''0123456789ABCDEF'' else ''0123456789abcdef'') ! unat k)"

text \<open>The array \<open>convert\<close> is the list of the \<open>place\<close> characters written so far.\<close>

function convert_loop :: "bool \<Rightarrow> u32 \<Rightarrow> u32 \<Rightarrow> u8 list \<Rightarrow> u8 list" where
  "convert_loop caps base uvalue cs =
     (let cs = cs @ [hex_digit caps (uvalue mod base)]; uvalue = uvalue div base
      in if uvalue \<noteq> 0 \<and> length cs < 20 then convert_loop caps base uvalue cs else cs)"
  by pat_completeness auto
termination by (relation "measure (\<lambda>(caps, base, uvalue, cs). 20 - length cs)") (auto simp: Let_def)

definition sign_char :: "bool \<Rightarrow> u32 \<Rightarrow> u8" where
  "sign_char neg flags =
     (if neg then of_char (CHR ''-'')
      else if has flags DP_F_PLUS then of_char (CHR ''+'')
      else if has flags DP_F_SPACE then of_char (CHR '' '') else 0)"

definition fmtint :: "u32 \<Rightarrow> u32 \<Rightarrow> u32 \<Rightarrow> u32 \<Rightarrow> int \<Rightarrow> int \<Rightarrow> u32 \<Rightarrow> outbuf \<Rightarrow> outbuf" where
  "fmtint buffer maxlen v base mi ma flags ou =
     (let ma = (if ma < 0 then 0 else ma);
          signed = \<not> has flags DP_F_UNSIGNED;
          uvalue = (if signed \<and> sint v < 0 then - v else v);
          signvalue = (if signed then sign_char (sint v < 0) flags else 0);
          convert = convert_loop (has flags DP_F_UP) base uvalue [];
          place = (if length convert = 20 then 19 else length convert);
          zpadlen = s32 (ma - int place);
          spadlen = s32 (mi - max ma (int place) - (if signvalue \<noteq> 0 then 1 else 0));
          zpadlen = (if zpadlen < 0 then 0 else zpadlen);
          spadlen = (if spadlen < 0 then 0 else spadlen);
          (zpadlen, spadlen) = (if has flags DP_F_ZERO then (max zpadlen spadlen, 0) else (zpadlen, spadlen));
          spadlen = (if has flags DP_F_MINUS then - spadlen else spadlen);
          ou = pad_down buffer maxlen (of_char (CHR '' '')) spadlen ou;
          ou = (if signvalue \<noteq> 0 then dopr_outch buffer maxlen signvalue ou else ou);
          ou = pad_down buffer maxlen (of_char (CHR ''0'')) zpadlen ou;
          ou = out_digits buffer maxlen convert place ou
      in pad_up buffer maxlen (of_char (CHR '' '')) spadlen ou)"

section \<open>Strings\<close>

text \<open>\<open>for (strln = 0; value[strln]; ++strln);\<close>\<close>

partial_function (option) strln_loop :: "u32 \<Rightarrow> u32 \<Rightarrow> mem \<Rightarrow> u32 option" where
  "strln_loop v strln m = (if m (v + strln) \<noteq> 0 then strln_loop v (strln + 1) m else Some strln)"

text \<open>The three loops of \<open>fmtstr\<close>, each with the counter \<open>cnt\<close> it shares with the others.\<close>

function str_pad_left :: "u32 \<Rightarrow> u32 \<Rightarrow> int \<Rightarrow> int \<Rightarrow> int \<Rightarrow> outbuf \<Rightarrow> int \<times> int \<times> outbuf" where
  "str_pad_left b ml padlen cnt ma ou =
     (if padlen > 0 \<and> cnt < ma then str_pad_left b ml (padlen - 1) (cnt + 1) ma (dopr_outch b ml (of_char (CHR '' '')) ou)
      else (padlen, cnt, ou))"
  by pat_completeness auto
termination by (relation "measure (\<lambda>(b, ml, padlen, cnt, ma, ou). nat padlen)") auto

function str_copy :: "u32 \<Rightarrow> u32 \<Rightarrow> u32 \<Rightarrow> int \<Rightarrow> int \<Rightarrow> outbuf \<Rightarrow> int \<times> outbuf" where
  "str_copy b ml v cnt ma ou =
     (if snd ou v \<noteq> 0 \<and> cnt < ma then str_copy b ml (v + 1) (cnt + 1) ma (dopr_outch b ml (snd ou v) ou)
      else (cnt, ou))"
  by pat_completeness auto
termination by (relation "measure (\<lambda>(b, ml, v, cnt, ma, ou). nat (ma - cnt))") auto

function str_pad_right :: "u32 \<Rightarrow> u32 \<Rightarrow> int \<Rightarrow> int \<Rightarrow> int \<Rightarrow> outbuf \<Rightarrow> outbuf" where
  "str_pad_right b ml padlen cnt ma ou =
     (if padlen < 0 \<and> cnt < ma then str_pad_right b ml (padlen + 1) (cnt + 1) ma (dopr_outch b ml (of_char (CHR '' '')) ou)
      else ou)"
  by pat_completeness auto
termination by (relation "measure (\<lambda>(b, ml, padlen, cnt, ma, ou). nat (- padlen))") auto

text \<open>\<open>nulls\<close> is the address of the literal \<^verbatim>\<open>"<NULL>"\<close>.\<close>

definition fmtstr :: "u32 \<Rightarrow> u32 \<Rightarrow> u32 \<Rightarrow> u32 \<Rightarrow> u32 \<Rightarrow> int \<Rightarrow> int \<Rightarrow> outbuf \<Rightarrow> outbuf option" where
  "fmtstr nulls buffer maxlen v flags mi ma ou =
     (let v = (if v = 0 then nulls else v) in
      case strln_loop v 0 (snd ou) of
        None \<Rightarrow> None
      | Some strln \<Rightarrow>
          let padlen = s32 (mi - sint strln);
              padlen = (if padlen < 0 then 0 else padlen);
              padlen = (if has flags DP_F_MINUS then - padlen else padlen);
              (padlen, cnt, ou) = str_pad_left buffer maxlen padlen 0 ma ou;
              (cnt, ou) = str_copy buffer maxlen v cnt ma ou
          in Some (str_pad_right buffer maxlen padlen cnt ma ou))"

section \<open>Floating point\<close>

text \<open>
  What the arithmetic on a double yields: its sign, the integer part of its absolute value,
  and the rest multiplied by a power of ten and rounded.
\<close>

record fpval =
  fp_neg :: bool
  fp_int :: int
  fp_frac :: "int \<Rightarrow> int"

function fconvert_loop :: "int \<Rightarrow> u8 list \<Rightarrow> u8 list" where
  "fconvert_loop part cs =
     (let cs = cs @ [hex_digit False (word_of_int (part mod 10))]; part = part div 10
      in if part \<noteq> 0 \<and> length cs < 20 then fconvert_loop part cs else cs)"
  by pat_completeness auto
termination by (relation "measure (\<lambda>(part, cs). 20 - length cs)") (auto simp: Let_def)

definition fmtfp :: "u32 \<Rightarrow> u32 \<Rightarrow> fpval \<Rightarrow> int \<Rightarrow> int \<Rightarrow> u32 \<Rightarrow> outbuf \<Rightarrow> outbuf" where
  "fmtfp buffer maxlen fv mi ma flags ou =
     (let ma = (if ma < 0 then 6 else ma);
          signvalue = sign_char (fp_neg fv) flags;
          intpart = fp_int fv;
          ma = (if ma > 9 then 9 else ma);
          fracpart = fp_frac fv ma;
          (intpart, fracpart) = (if fracpart \<ge> 10 ^ nat ma then (s32 (intpart + 1), fracpart - 10 ^ nat ma) else (intpart, fracpart));
          iconvert = fconvert_loop intpart [];
          iplace = (if length iconvert = 20 then 19 else length iconvert);
          fconvert = fconvert_loop fracpart [];
          fplace = (if length fconvert = 20 then 19 else length fconvert);
          padlen = s32 (mi - int iplace - ma - 1 - (if signvalue \<noteq> 0 then 1 else 0));
          zpadlen = ma - int fplace;
          zpadlen = (if zpadlen < 0 then 0 else zpadlen);
          padlen = (if padlen < 0 then 0 else padlen);
          padlen = (if has flags DP_F_MINUS then - padlen else padlen);
          (padlen, signvalue, ou) =
            (if has flags DP_F_ZERO \<and> padlen > 0 then
               let (padlen, signvalue, ou) = (if signvalue \<noteq> 0 then (padlen - 1, 0, dopr_outch buffer maxlen signvalue ou)
                                              else (padlen, signvalue, ou))
               in (0, signvalue, pad_down buffer maxlen (of_char (CHR ''0'')) padlen ou)
             else (padlen, signvalue, ou));
          ou = pad_down buffer maxlen (of_char (CHR '' '')) padlen ou;
          ou = (if signvalue \<noteq> 0 then dopr_outch buffer maxlen signvalue ou else ou);
          ou = out_digits buffer maxlen iconvert iplace ou;
          ou = (if ma > 0 then out_digits buffer maxlen fconvert fplace (dopr_outch buffer maxlen (of_char (CHR ''.'')) ou) else ou);
          ou = pad_down buffer maxlen (of_char (CHR ''0'')) zpadlen ou
      in pad_up buffer maxlen (of_char (CHR '' '')) padlen ou)"

section \<open>The state machine\<close>

datatype dp_state = DP_S_DEFAULT | DP_S_FLAGS | DP_S_MIN | DP_S_DOT | DP_S_MAX | DP_S_MOD | DP_S_CONV | DP_S_DONE

datatype dp_cflag = DP_C_NONE | DP_C_SHORT | DP_C_LONG | DP_C_LDOUBLE

datatype va = Word u32 | Double "64 word"

record dopr_state =
  d_ch :: u8
  d_state :: dp_state
  d_format :: u32
  d_min :: int
  d_max :: int
  d_flags :: u32
  d_cflags :: dp_cflag
  d_args :: "va list"
  d_out :: outbuf

definition next_ch :: "dopr_state \<Rightarrow> dopr_state" where
  "next_ch s = s\<lparr>d_ch := snd (d_out s) (d_format s), d_format := d_format s + 1\<rparr>"

definition char_to_int :: "u8 \<Rightarrow> int" where
  "char_to_int c = uint c - 48"

definition va_word :: "dopr_state \<Rightarrow> (u32 \<times> dopr_state) option" where
  "va_word s = (case d_args s of Word w # as \<Rightarrow> Some (w, s\<lparr>d_args := as\<rparr>) | _ \<Rightarrow> None)"

definition va_double :: "dopr_state \<Rightarrow> (64 word \<times> dopr_state) option" where
  "va_double s = (case d_args s of Double w # as \<Rightarrow> Some (w, s\<lparr>d_args := as\<rparr>) | _ \<Rightarrow> None)"

definition store16 :: "u32 \<Rightarrow> u32 \<Rightarrow> mem \<Rightarrow> mem" where
  "store16 a v m = m(a := ucast v, a + 1 := ucast (drop_bit 8 v))"

text \<open>The integer conversions: \<open>flags\<close> with the bits the case sets, and its base.\<close>

definition conv_int :: "u32 \<Rightarrow> u32 \<Rightarrow> u32 \<Rightarrow> u32 \<Rightarrow> dopr_state \<Rightarrow> dopr_state option" where
  "conv_int buffer maxlen fl base s =
     (case va_word s of
        None \<Rightarrow> None
      | Some (v, s) \<Rightarrow>
          let s = s\<lparr>d_flags := d_flags s OR fl\<rparr>
          in Some (s\<lparr>d_out := fmtint buffer maxlen v base (d_min s) (d_max s) (d_flags s) (d_out s)\<rparr>))"

text \<open>The inner switch of \<open>DP_S_CONV\<close>.\<close>

definition dopr_conv :: "(64 word \<Rightarrow> fpval) \<Rightarrow> u32 \<Rightarrow> u32 \<Rightarrow> u32 \<Rightarrow> dopr_state \<Rightarrow> dopr_state option" where
  "dopr_conv fp nulls buffer maxlen s =
     (let c = to_char (d_ch s) in
      if c = CHR ''d'' \<or> c = CHR ''i'' then conv_int buffer maxlen 0 10 s
      else if c = CHR ''o'' then conv_int buffer maxlen DP_F_UNSIGNED 8 s
      else if c = CHR ''u'' then conv_int buffer maxlen DP_F_UNSIGNED 10 s
      else if c = CHR ''X'' then conv_int buffer maxlen (DP_F_UP OR DP_F_UNSIGNED) 16 s
      else if c = CHR ''x'' then conv_int buffer maxlen DP_F_UNSIGNED 16 s
      else if c = CHR ''f'' then
        (case va_double s of
           None \<Rightarrow> None
         | Some (v, s) \<Rightarrow> Some (s\<lparr>d_out := fmtfp buffer maxlen (fp v) (d_min s) (d_max s) (d_flags s) (d_out s)\<rparr>))
      else if c = CHR ''E'' \<or> c = CHR ''e'' \<or> c = CHR ''G'' \<or> c = CHR ''g'' then map_option snd (va_double s)
      else if c = CHR ''c'' then
        (case va_word s of
           None \<Rightarrow> None
         | Some (v, s) \<Rightarrow> Some (s\<lparr>d_out := dopr_outch buffer maxlen (ucast v) (d_out s)\<rparr>))
      else if c = CHR ''s'' then
        (case va_word s of
           None \<Rightarrow> None
         | Some (v, s) \<Rightarrow>
             let s = (if d_max s < 0 then s\<lparr>d_max := s32 (uint maxlen)\<rparr> else s)
             in map_option (\<lambda>ou. s\<lparr>d_out := ou\<rparr>)
                  (fmtstr nulls buffer maxlen v (d_flags s) (d_min s) (d_max s) (d_out s)))
      else if c = CHR ''p'' then conv_int buffer maxlen 0 16 s
      else if c = CHR ''n'' then
        (case va_word s of
           None \<Rightarrow> None
         | Some (num, s) \<Rightarrow>
             let (len, m) = d_out s
             in Some (s\<lparr>d_out := (len, if d_cflags s = DP_C_SHORT then store16 num len m else store32 num len m)\<rparr>))
      else if c = CHR ''%'' then Some (s\<lparr>d_out := dopr_outch buffer maxlen (d_ch s) (d_out s)\<rparr>)
      else if c = CHR ''w'' then Some (next_ch s)
      else Some s)"

text \<open>One round of the loop.\<close>

definition dopr_body :: "(64 word \<Rightarrow> fpval) \<Rightarrow> u32 \<Rightarrow> u32 \<Rightarrow> u32 \<Rightarrow> dopr_state \<Rightarrow> dopr_state option" where
  "dopr_body fp nulls buffer maxlen s =
     (let s = (if d_ch s = 0 \<or> fst (d_out s) \<ge> maxlen then s\<lparr>d_state := DP_S_DONE\<rparr> else s);
          c = to_char (d_ch s)
      in case d_state s of
        DP_S_DEFAULT \<Rightarrow>
          if c = CHR ''%'' then Some (next_ch (s\<lparr>d_state := DP_S_FLAGS\<rparr>))
          else Some (next_ch (s\<lparr>d_out := dopr_outch buffer maxlen (d_ch s) (d_out s)\<rparr>))
      | DP_S_FLAGS \<Rightarrow>
          if c = CHR ''-'' then Some (next_ch (s\<lparr>d_flags := d_flags s OR DP_F_MINUS\<rparr>))
          else if c = CHR ''+'' then Some (next_ch (s\<lparr>d_flags := d_flags s OR DP_F_PLUS\<rparr>))
          else if c = CHR '' '' then Some (next_ch (s\<lparr>d_flags := d_flags s OR DP_F_SPACE\<rparr>))
          else if c = CHR ''#'' then Some (next_ch (s\<lparr>d_flags := d_flags s OR DP_F_NUM\<rparr>))
          else if c = CHR ''0'' then Some (next_ch (s\<lparr>d_flags := d_flags s OR DP_F_ZERO\<rparr>))
          else Some (s\<lparr>d_state := DP_S_MIN\<rparr>)
      | DP_S_MIN \<Rightarrow>
          if isdigit (uint (d_ch s)) then Some (next_ch (s\<lparr>d_min := s32 (10 * d_min s + char_to_int (d_ch s))\<rparr>))
          else if c = CHR ''*'' then
            map_option (\<lambda>(v, s). (next_ch (s\<lparr>d_min := sint v\<rparr>))\<lparr>d_state := DP_S_DOT\<rparr>) (va_word s)
          else Some (s\<lparr>d_state := DP_S_DOT\<rparr>)
      | DP_S_DOT \<Rightarrow>
          if c = CHR ''.'' then Some (next_ch (s\<lparr>d_state := DP_S_MAX\<rparr>))
          else Some (s\<lparr>d_state := DP_S_MOD\<rparr>)
      | DP_S_MAX \<Rightarrow>
          if isdigit (uint (d_ch s)) then
            let ma = (if d_max s < 0 then 0 else d_max s)
            in Some (next_ch (s\<lparr>d_max := s32 (10 * ma + char_to_int (d_ch s))\<rparr>))
          else if c = CHR ''*'' then
            map_option (\<lambda>(v, s). (next_ch (s\<lparr>d_max := sint v\<rparr>))\<lparr>d_state := DP_S_MOD\<rparr>) (va_word s)
          else Some (s\<lparr>d_state := DP_S_MOD\<rparr>)
      | DP_S_MOD \<Rightarrow>
          let s = (if c = CHR ''h'' then next_ch (s\<lparr>d_cflags := DP_C_SHORT\<rparr>)
                   else if c = CHR ''l'' then next_ch (s\<lparr>d_cflags := DP_C_LONG\<rparr>)
                   else if c = CHR ''L'' then next_ch (s\<lparr>d_cflags := DP_C_LDOUBLE\<rparr>) else s)
          in Some (s\<lparr>d_state := DP_S_CONV\<rparr>)
      | DP_S_CONV \<Rightarrow>
          map_option
            (\<lambda>s. (next_ch s)\<lparr>d_state := DP_S_DEFAULT, d_flags := 0, d_cflags := DP_C_NONE, d_min := 0, d_max := - 1\<rparr>)
            (dopr_conv fp nulls buffer maxlen s)
      | DP_S_DONE \<Rightarrow> Some s)"

partial_function (option) dopr_loop ::
    "(64 word \<Rightarrow> fpval) \<Rightarrow> u32 \<Rightarrow> u32 \<Rightarrow> u32 \<Rightarrow> dopr_state \<Rightarrow> dopr_state option" where
  "dopr_loop fp nulls buffer maxlen s =
     (if d_state s \<noteq> DP_S_DONE then
        case dopr_body fp nulls buffer maxlen s of
          None \<Rightarrow> None
        | Some s' \<Rightarrow> dopr_loop fp nulls buffer maxlen s'
      else Some s)"

definition dopr :: "(64 word \<Rightarrow> fpval) \<Rightarrow> u32 \<Rightarrow> u32 \<Rightarrow> u32 \<Rightarrow> u32 \<Rightarrow> va list \<Rightarrow> mem \<Rightarrow> mem option" where
  "dopr fp nulls buffer maxlen format args m =
     (case dopr_loop fp nulls buffer maxlen
             \<lparr>d_ch = m format, d_state = DP_S_DEFAULT, d_format = format + 1, d_min = 0, d_max = - 1,
              d_flags = 0, d_cflags = DP_C_NONE, d_args = args, d_out = (0, m)\<rparr> of
        None \<Rightarrow> None
      | Some s \<Rightarrow>
          let (currlen, m) = d_out s
          in Some (if currlen < maxlen - 1 then m(buffer + currlen := 0) else m(buffer + (maxlen - 1) := 0)))"

definition vsnprintf :: "(64 word \<Rightarrow> fpval) \<Rightarrow> u32 \<Rightarrow> u32 \<Rightarrow> u32 \<Rightarrow> u32 \<Rightarrow> va list \<Rightarrow> mem \<Rightarrow> (u32 \<times> mem) option" where
  "vsnprintf fp nulls str count fmt args m =
     (case dopr fp nulls str count fmt args (m(str := 0)) of
        None \<Rightarrow> None
      | Some m \<Rightarrow> map_option (\<lambda>n. (n, m)) (strlen str m))"

definition snprintf :: "(64 word \<Rightarrow> fpval) \<Rightarrow> u32 \<Rightarrow> u32 \<Rightarrow> u32 \<Rightarrow> u32 \<Rightarrow> va list \<Rightarrow> mem \<Rightarrow> (u32 \<times> mem) option" where
  "snprintf fp nulls str count fmt args m =
     (case vsnprintf fp nulls str count fmt args m of
        None \<Rightarrow> None
      | Some (n, m) \<Rightarrow> map_option (\<lambda>n. (n, m)) (strlen str m))"

declare pad_down.simps [simp del] and pad_up.simps [simp del] and convert_loop.simps [simp del]
  and str_pad_left.simps [simp del] and str_copy.simps [simp del] and str_pad_right.simps [simp del]
  and fconvert_loop.simps [simp del]

section \<open>Output of a text\<close>

definition emit :: "u32 \<Rightarrow> u32 \<Rightarrow> u8 list \<Rightarrow> outbuf \<Rightarrow> outbuf" where
  "emit b ml cs ou = fold (dopr_outch b ml) cs ou"

lemma emit_simps [simp]: "emit b ml [] ou = ou" "emit b ml (c # cs) ou = emit b ml cs (dopr_outch b ml c ou)"
  by (simp_all add: emit_def)

lemma emit_append: "emit b ml (as @ bs) ou = emit b ml bs (emit b ml as ou)"
  by (simp add: emit_def)

lemma outch_emit: "dopr_outch b ml c ou = emit b ml [c] ou"
  by simp

lemma pad_down_emit: "pad_down b ml c n ou = emit b ml (replicate (nat n) c) ou"
proof (induction b ml c n ou rule: pad_down.induct)
  case (1 b ml c n ou)
  show ?case
  proof (cases "n > 0")
    case True
    then have "nat n = Suc (nat (n - 1))" by simp
    with 1 True show ?thesis by (simp add: pad_down.simps [of b ml c n ou])
  qed (simp add: pad_down.simps)
qed

lemma pad_up_emit: "pad_up b ml c n ou = emit b ml (replicate (nat (- n)) c) ou"
proof (induction b ml c n ou rule: pad_up.induct)
  case (1 b ml c n ou)
  show ?case
  proof (cases "n < 0")
    case True
    then have "nat (- n) = Suc (nat (- (n + 1)))" by simp
    with 1 True show ?thesis by (simp add: pad_up.simps [of b ml c n ou])
  qed (simp add: pad_up.simps)
qed

lemma out_digits_emit: "k \<le> length cs \<Longrightarrow> out_digits b ml cs k ou = emit b ml (rev (take k cs)) ou"
  by (induction k arbitrary: ou) (simp_all add: take_Suc_conv_app_nth)

text \<open>What an output leaves alone, and when it has no effect.\<close>

definition outside :: "u32 \<Rightarrow> u32 \<Rightarrow> u32 \<Rightarrow> bool" where
  "outside b ml x \<longleftrightarrow> unat ml \<le> unat (x - b)"

lemma outch_outside: "outside b ml x \<Longrightarrow> snd (dopr_outch b ml c ou) x = snd ou x"
  by (auto simp: dopr_outch_def outside_def word_less_nat_alt split: prod.splits)

lemma emit_outside: "outside b ml x \<Longrightarrow> snd (emit b ml cs ou) x = snd ou x"
  by (induction cs arbitrary: ou) (simp_all add: outch_outside)

lemma emit_full: "ml \<le> fst ou \<Longrightarrow> emit b ml cs ou = ou"
  by (induction cs) (auto simp: dopr_outch_def split: prod.splits)

lemma outch_fst: "fst (dopr_outch b ml c ou) = (if fst ou < ml then fst ou + 1 else fst ou)"
  by (simp add: dopr_outch_def split: prod.splits)

lemma emit_take: "unat ml \<le> unat (fst ou) + k \<Longrightarrow> emit b ml (take k cs) ou = emit b ml cs ou"
proof (induction cs arbitrary: ou k)
  case (Cons c cs)
  show ?case
  proof (cases "fst ou < ml")
    case True
    then obtain k' where k: "k = Suc k'" using Cons.prems by (cases k) (auto simp: word_less_nat_alt)
    have "unat ml \<le> unat (fst (dopr_outch b ml c ou)) + k'"
      using Cons.prems True unat_plus_one_less [OF True] by (simp add: outch_fst k)
    from Cons.IH [OF this] show ?thesis by (simp add: k)
  next
    case False
    then have "ml \<le> fst ou" by simp
    then show ?thesis by (simp only: emit_full)
  qed
qed simp

lemma emit_from_start:
  "emit b ml cs (0, m) = (of_nat (min (length cs) (unat ml)), mem_range b (min (length cs) (unat ml)) (\<lambda>i. cs ! i) m)"
proof (induction cs rule: rev_induct)
  case (snoc c cs)
  show ?case
  proof (cases "length cs < unat ml")
    case True
    have "unat ml < 4294967296" using u32_unat_bound by simp
    with True have n: "unat (of_nat (length cs) :: u32) = length cs" "length cs < 4294967296"
      by (simp_all add: u32_of_nat_unat)
    have "mem_range (b + of_nat (length cs)) 1 (\<lambda>i. (cs @ [c]) ! (length cs + i)) (mem_range b (length cs) (\<lambda>i. (cs @ [c]) ! i) m)
        = mem_range b (length cs + 1) (\<lambda>i. (cs @ [c]) ! i) m"
      using n(2) by (intro mem_range_extend) simp
    moreover have "mem_range b (length cs) (\<lambda>i. (cs @ [c]) ! i) m = mem_range b (length cs) (\<lambda>i. cs ! i) m"
      by (rule mem_range_cong) (simp add: nth_append)
    moreover have "mem_range d 1 (\<lambda>i. (cs @ [c]) ! (length cs + i)) m' = m'(d := c)" for d m'
      unfolding mem_range_byte by (rule mem_range_cong) simp
    ultimately show ?thesis using snoc True n
      by (simp add: emit_append dopr_outch_def word_less_nat_alt min_def)
  next
    case False
    then have "ml \<le> fst (emit b ml cs (0, m))" using snoc by (simp add: min_def)
    then have "emit b ml (cs @ [c]) (0, m) = emit b ml cs (0, m)"
      unfolding emit_append by (rule emit_full)
    moreover have "mem_range b (unat ml) (\<lambda>i. (cs @ [c]) ! i) m = mem_range b (unat ml) (\<lambda>i. cs ! i) m"
      using False by (intro mem_range_cong) (simp add: nth_append)
    ultimately show ?thesis using snoc False by (simp add: min_def)
  qed
qed simp

section \<open>Numerals\<close>

text \<open>The numeral of a number, most significant digit first, and the number of a numeral.\<close>

function numeral_of :: "bool \<Rightarrow> nat \<Rightarrow> nat \<Rightarrow> u8 list" where
  "numeral_of caps base n =
     (if n < base \<or> base < 2 then [hex_digit caps (of_nat n)]
      else numeral_of caps base (n div base) @ [hex_digit caps (of_nat (n mod base))])"
  by pat_completeness auto
termination by (relation "measure (\<lambda>(caps, base, n). n)") auto

declare numeral_of.simps [simp del]

definition digit_value :: "u8 \<Rightarrow> nat" where
  "digit_value c = (if unat c < 58 then unat c - 48 else if unat c < 97 then unat c - 55 else unat c - 87)"

definition number_of :: "nat \<Rightarrow> u8 list \<Rightarrow> nat" where
  "number_of base cs = foldl (\<lambda>n c. n * base + digit_value c) 0 cs"

lemma numeral_length: "2 \<le> base \<Longrightarrow> n < base ^ k \<Longrightarrow> 0 < k \<Longrightarrow> length (numeral_of caps base n) \<le> k"
proof (induction caps base n arbitrary: k rule: numeral_of.induct)
  case (1 caps base n)
  show ?case
  proof (cases "n < base")
    case True
    with 1 show ?thesis by (simp add: numeral_of.simps)
  next
    case False
    then obtain k' where k: "k = Suc k'" "0 < k'"
    proof (cases k)
      case (Suc k')
      then have "k' \<noteq> 0" using 1(3) False by (cases k') auto
      with that Suc show ?thesis by simp
    qed (use 1(4) in simp)
    have "n div base < base ^ k'" using 1(3) k 1(2) by (simp add: less_mult_imp_div_less mult.commute)
    then show ?thesis using 1(1) [of k'] False 1(2) k by (simp add: numeral_of.simps [of caps base n])
  qed
qed

lemma digit_value_table:
  assumes "i < 16"
  shows "digit_value (of_char (''0123456789ABCDEF'' ! i)) = i" "digit_value (of_char (''0123456789abcdef'' ! i)) = i"
proof -
  have "i = 0 \<or> i = 1 \<or> i = 2 \<or> i = 3 \<or> i = 4 \<or> i = 5 \<or> i = 6 \<or> i = 7 \<or> i = 8 \<or> i = 9 \<or>
    i = 10 \<or> i = 11 \<or> i = 12 \<or> i = 13 \<or> i = 14 \<or> i = 15"
    using assms by presburger
  then show "digit_value (of_char (''0123456789ABCDEF'' ! i)) = i" "digit_value (of_char (''0123456789abcdef'' ! i)) = i"
    by (elim disjE; simp add: digit_value_def)+
qed

lemma digit_value_hex_digit: "unat k < 16 \<Longrightarrow> digit_value (hex_digit caps k) = unat k"
  by (simp add: hex_digit_def digit_value_table)

lemma number_of_numeral: "2 \<le> base \<Longrightarrow> base \<le> 16 \<Longrightarrow> number_of base (numeral_of caps base n) = n"
proof (induction caps base n rule: numeral_of.induct)
  case (1 caps base n)
  have d: "digit_value (hex_digit caps (of_nat i)) = i" if "i < base" for i
    using that 1(3) digit_value_hex_digit [of "of_nat i" caps] by (simp add: u32_of_nat_unat)
  show ?case
  proof (cases "n < base")
    case True
    then show ?thesis using d by (simp add: numeral_of.simps number_of_def)
  next
    case False
    have "n mod base < base" using 1(2) by simp
    moreover have "number_of base (numeral_of caps base (n div base)) = n div base" using 1 False by simp
    ultimately show ?thesis using False 1(2) d [of "n mod base"]
      by (simp add: numeral_of.simps [of caps base n] number_of_def)
  qed
qed

lemma convert_loop_numeral:
  assumes "2 \<le> unat base"
  shows "length cs + length (numeral_of caps (unat base) (unat u)) \<le> 20 \<Longrightarrow>
    convert_loop caps base u cs = cs @ rev (numeral_of caps (unat base) (unat u))"
proof (induction caps "unat base" "unat u" arbitrary: u cs rule: numeral_of.induct)
  case (1 caps u cs)
  have dm: "unat (u div base) = unat u div unat base" "unat (u mod base) = unat u mod unat base"
    by (simp_all add: unat_div unat_mod)
  have w: "(of_nat (unat u mod unat base) :: u32) = u mod base" by (simp flip: dm(2))
  show ?case
  proof (cases "unat u < unat base")
    case True
    then have "u div base = 0" using dm(1) by (simp add: unat_eq_zero [symmetric])
    moreover have "u mod base = u" using True by (simp add: word_unat_eq_iff dm(2))
    ultimately show ?thesis using True
      by (simp add: convert_loop.simps [of caps base u cs] numeral_of.simps Let_def)
  next
    case False
    then have n: "numeral_of caps (unat base) (unat u) =
        numeral_of caps (unat base) (unat (u div base)) @ [hex_digit caps (u mod base)]"
      using assms by (subst numeral_of.simps) (simp add: dm(1) w)
    have pos: "0 < length (numeral_of caps (unat base) (unat (u div base)))" by (subst numeral_of.simps) simp
    have "0 < unat u div unat base" using False assms by (simp add: div_greater_zero_iff)
    then have nz: "u div base \<noteq> 0" using dm(1) by auto
    have "convert_loop caps base (u div base) (cs @ [hex_digit caps (u mod base)]) =
        (cs @ [hex_digit caps (u mod base)]) @ rev (numeral_of caps (unat base) (unat (u div base)))"
      using 1(1) [of "u div base" "cs @ [hex_digit caps (u mod base)]"] False assms 1(2) dm(1) n by simp
    moreover have "length cs + 1 < 20"
    proof -
      have "length (numeral_of caps (unat base) (unat u)) = length (numeral_of caps (unat base) (unat (u div base))) + 1"
        by (subst n) simp
      then show ?thesis using 1(2) pos by linarith
    qed
    ultimately show ?thesis using nz n by (simp add: convert_loop.simps [of caps base u cs] Let_def)
  qed
qed

text \<open>A 32-bit number has at most 11 digits in a base from 8 on.\<close>

lemma numeral_short: "8 \<le> base \<Longrightarrow> length (numeral_of caps base (unat (u::u32))) \<le> 11"
proof -
  assume b: "8 \<le> base"
  have "unat u < 8 ^ 11" using u32_unat_bound [of u] by simp
  also have "(8::nat) ^ 11 \<le> base ^ 11" using b by (rule power_mono) simp
  finally show ?thesis using b by (intro numeral_length) simp_all
qed

lemma convert_numeral: "8 \<le> unat base \<Longrightarrow> convert_loop caps base u [] = rev (numeral_of caps (unat base) (unat u))"
  using convert_loop_numeral [of base "[]" caps u] numeral_short [of "unat base" caps u] by simp

section \<open>The text of a conversion\<close>

text \<open>
  What each conversion prints, as a list of characters: for an integer the sign, the zeros
  that the precision (or the flag \<^verbatim>\<open>0\<close>) asks for, the numeral, and spaces to the width on
  the side that the flag \<^verbatim>\<open>-\<close> chooses.
\<close>

definition spaces :: "int \<Rightarrow> u8 list" where
  "spaces n = replicate (nat n) (of_char (CHR '' ''))"

definition zeros :: "int \<Rightarrow> u8 list" where
  "zeros n = replicate (nat n) (of_char (CHR ''0''))"

definition sign_text :: "u8 \<Rightarrow> u8 list" where
  "sign_text c = (if c = 0 then [] else [c])"

definition int_text :: "u32 \<Rightarrow> u32 \<Rightarrow> int \<Rightarrow> int \<Rightarrow> u32 \<Rightarrow> u8 list" where
  "int_text v base mi ma flags =
     (let signed = \<not> has flags DP_F_UNSIGNED;
          neg = (signed \<and> sint v < 0);
          sgn = sign_text (if signed then sign_char neg flags else 0);
          num = numeral_of (has flags DP_F_UP) (unat base) (unat (if neg then - v else v));
          prec = max (max 0 ma) (int (length num));
          pad = mi - prec - int (length sgn);
          z = prec - int (length num)
      in if has flags DP_F_ZERO then sgn @ zeros (max z pad) @ num
         else if has flags DP_F_MINUS then sgn @ zeros z @ num @ spaces pad
         else spaces pad @ sgn @ zeros z @ num)"

definition str_field :: "u8 list \<Rightarrow> int \<Rightarrow> u32 \<Rightarrow> u8 list" where
  "str_field bs mi flags =
     (if has flags DP_F_MINUS then bs @ spaces (mi - int (length bs)) else spaces (mi - int (length bs)) @ bs)"

text \<open>The characters of \<^verbatim>\<open>iconvert\<close> and \<^verbatim>\<open>fconvert\<close> in the order of printing.\<close>

definition fp_digits :: "int \<Rightarrow> u8 list" where
  "fp_digits part = (let cs = fconvert_loop part [] in rev (take (if length cs = 20 then 19 else length cs) cs))"

definition fp_text :: "fpval \<Rightarrow> int \<Rightarrow> int \<Rightarrow> u32 \<Rightarrow> u8 list" where
  "fp_text fv mi ma flags =
     (let p = (if ma < 0 then 6 else min ma 9);
          sgn = sign_text (sign_char (fp_neg fv) flags);
          carry = fp_frac fv p \<ge> 10 ^ nat p;
          num = fp_digits (if carry then s32 (fp_int fv + 1) else fp_int fv);
          frac = fp_digits (if carry then fp_frac fv p - 10 ^ nat p else fp_frac fv p);
          body = num @ (if p > 0 then of_char (CHR ''.'') # frac else []) @ zeros (p - int (length frac));
          pad = mi - int (length num) - p - 1 - int (length sgn)
      in if has flags DP_F_MINUS then sgn @ body @ spaces pad
         else if has flags DP_F_ZERO \<and> pad > 0 then sgn @ zeros (pad - int (length sgn)) @ body
         else spaces pad @ sgn @ body)"

text \<open>A C \<^verbatim>\<open>int\<close> that may be the argument of a width or a precision.\<close>

definition int32 :: "int \<Rightarrow> bool" where
  "int32 i \<longleftrightarrow> - (2 ^ 31) \<le> i \<and> i < 2 ^ 31"

lemma s32_id: "int32 i \<Longrightarrow> s32 i = i"
  by (simp add: s32_def int32_def signed_of_int signed_take_bit_int_eq_self)

lemma s32_int32: "int32 (s32 i)"
  using sint_ge [of "word_of_int i :: u32"] sint_lt [of "word_of_int i :: u32"] by (simp add: s32_def int32_def)

lemma sint_int32: "int32 (sint (v::u32))"
  using sint_ge [of v] sint_lt [of v] by (simp add: int32_def)

lemma spaces_simps [simp]: "n \<le> 0 \<Longrightarrow> spaces n = []" "n \<le> 0 \<Longrightarrow> zeros n = []" "length (spaces n) = nat n" "length (zeros n) = nat n"
  by (simp_all add: spaces_def zeros_def)

lemmas pad_emit = pad_down_emit [of b ml "of_char (CHR '' '')", folded spaces_def]
  pad_down_emit [of b ml "of_char (CHR ''0'')", folded zeros_def]
  pad_up_emit [of b ml "of_char (CHR '' '')", folded spaces_def] for b ml

lemma sign_emit: "(if c \<noteq> 0 then dopr_outch b ml c ou else ou) = emit b ml (sign_text c) ou"
  by (simp add: sign_text_def)

lemma sign_length: "(if c \<noteq> 0 then 1 else 0) = int (length (sign_text c))"
  by (simp add: sign_text_def)

lemma fmtint_emit:
  assumes "8 \<le> unat base" "0 \<le> mi" "int32 mi" "int32 ma"
  shows "fmtint b ml v base mi ma flags ou = emit b ml (int_text v base mi ma flags) ou"
proof -
  define sc where "sc = (if \<not> has flags DP_F_UNSIGNED then sign_char (sint v < 0) flags else 0)"
  define u where "u = (if \<not> has flags DP_F_UNSIGNED \<and> sint v < 0 then - v else v)"
  define num where "num = numeral_of (has flags DP_F_UP) (unat base) (unat u)"
  have num: "convert_loop (has flags DP_F_UP) base u [] = rev num" "length num \<le> 11"
    using convert_numeral [OF assms(1)] numeral_short [OF assms(1)] by (simp_all add: num_def)
  define z where "z = max 0 ma - int (length num)"
  define pad where "pad = mi - max (max 0 ma) (int (length num)) - int (length (sign_text sc))"
  have s32: "s32 z = z" "s32 pad = pad"
    using assms(2-4) num(2) by (auto intro!: s32_id simp: int32_def z_def pad_def sign_text_def)
  have z': "(if z < 0 then 0 else z) = max (max 0 ma) (int (length num)) - int (length num)"
    by (auto simp: z_def)
  have tx: "int_text v base mi ma flags = (let z = max (max 0 ma) (int (length num)) - int (length num) in
      if has flags DP_F_ZERO then sign_text sc @ zeros (max z pad) @ num
      else if has flags DP_F_MINUS then sign_text sc @ zeros z @ num @ spaces pad
      else spaces pad @ sign_text sc @ zeros z @ num)"
    by (simp add: int_text_def Let_def num_def u_def sc_def pad_def cong: if_cong)
  have place: "(if length (rev num) = 20 then 19 else length (rev num)) = length num" using num(2) by simp
  have digits: "out_digits b ml (rev num) (length num) ou = emit b ml num ou" for ou by (simp add: out_digits_emit)
  have max0: "(if ma < 0 then 0 else ma) = max 0 ma" by simp
  define Z where "Z = (if z < 0 then 0 else z)"
  have Z: "Z \<ge> 0" "Z = max (max 0 ma) (int (length num)) - int (length num)" using z' by (auto simp: Z_def)
  define P where "P = (if pad < 0 then 0 else pad)"
  have P: "spaces P = spaces pad" "max Z P = max Z pad" "P \<ge> 0" using Z(1) by (auto simp: P_def)
  have "fmtint b ml v base mi ma flags ou =
    (let (zp, sp) = (if has flags DP_F_ZERO then (max Z P, 0) else (Z, P));
         sp = (if has flags DP_F_MINUS then - sp else sp)
     in emit b ml (spaces (- sp)) (emit b ml num (emit b ml (zeros zp) (emit b ml (sign_text sc) (emit b ml (spaces sp) ou)))))"
    unfolding fmtint_def max0 sc_def [symmetric] u_def [symmetric] Let_def num(1) place sign_length z_def [symmetric]
      pad_def [symmetric] s32 Z_def [symmetric] P_def [symmetric] pad_emit digits sign_emit
    by (simp add: sign_emit split: prod.split)
  also have "\<dots> = emit b ml (int_text v base mi ma flags) ou"
    unfolding tx Z(2) [symmetric] Let_def using P Z(1)
    by (cases "has flags DP_F_ZERO"; cases "has flags DP_F_MINUS") (simp_all add: emit_append)
  finally show ?thesis .
qed

lemma fmtfp_emit:
  assumes "0 \<le> mi" "int32 mi"
  shows "fmtfp b ml fv mi ma flags ou = emit b ml (fp_text fv mi ma flags) ou"
proof -
  define p where "p = (if ma < 0 then 6 else min ma 9)"
  have p: "(let ma = (if ma < 0 then 6 else ma) in if ma > 9 then 9 else ma) = p" "0 \<le> p" "p \<le> 9" by (auto simp: p_def)
  define sc where "sc = sign_char (fp_neg fv) flags"
  define carry where "carry \<longleftrightarrow> fp_frac fv p \<ge> 10 ^ nat p"
  define ip where "ip = (if carry then s32 (fp_int fv + 1) else fp_int fv)"
  define fr where "fr = (if carry then fp_frac fv p - 10 ^ nat p else fp_frac fv p)"
  have cf: "(if carry then (s32 (fp_int fv + 1), fp_frac fv p - 10 ^ nat p) else (fp_int fv, fp_frac fv p)) = (ip, fr)"
    by (simp add: ip_def fr_def)
  define plc where "plc = (\<lambda>n. if length (fconvert_loop n []) = 20 then 19 else length (fconvert_loop n []))"
  have len: "length (fconvert_loop n cs) \<le> 20" if "length cs < 20" for n cs
    using that
  proof (induction n cs rule: fconvert_loop.induct)
    case (1 n cs)
    then show ?case by (simp add: fconvert_loop.simps [of n cs] Let_def)
  qed
  have plc: "plc n \<le> length (fconvert_loop n [])" "length (fp_digits n) = plc n" "plc n \<le> 19" for n
    using len [of "[]" n] by (auto simp: plc_def fp_digits_def Let_def)
  have digits: "out_digits b ml (fconvert_loop n []) (plc n) ou = emit b ml (fp_digits n) ou" for n ou
    unfolding out_digits_emit [OF plc(1)] by (simp add: fp_digits_def plc_def Let_def)
  define pad where "pad = mi - int (plc ip) - p - 1 - int (length (sign_text sc))"
  have s32: "s32 pad = pad"
    using assms p(2,3) plc(3) [of ip] by (auto intro!: s32_id simp: int32_def pad_def sign_text_def)
  define Z where "Z = (if p - int (plc fr) < 0 then 0 else p - int (plc fr))"
  have Z: "zeros Z = zeros (p - int (plc fr))" by (auto simp: Z_def)
  define P where "P = (if pad < 0 then 0 else pad)"
  have P: "spaces P = spaces pad" "P \<ge> 0" "(P > 0) = (pad > 0)" "pad > 0 \<Longrightarrow> P = pad" by (auto simp: P_def)
  define body where "body = fp_digits ip @ (if p > 0 then of_char (CHR ''.'') # fp_digits fr else []) @ zeros (p - int (plc fr))"
  have tx: "fp_text fv mi ma flags =
      (if has flags DP_F_MINUS then sign_text sc @ body @ spaces pad
       else if has flags DP_F_ZERO \<and> pad > 0 then sign_text sc @ zeros (pad - int (length (sign_text sc))) @ body
       else spaces pad @ sign_text sc @ body)"
    unfolding fp_text_def Let_def p_def [symmetric] sc_def [symmetric] carry_def [symmetric] ip_def [symmetric] fr_def [symmetric]
      body_def plc(2) pad_def ..
  have rest: "(let ou = out_digits b ml (fconvert_loop ip []) (plc ip) ou;
       ou = (if p > 0 then out_digits b ml (fconvert_loop fr []) (plc fr) (dopr_outch b ml (of_char (CHR ''.'')) ou) else ou)
     in pad_down b ml (of_char (CHR ''0'')) Z ou) = emit b ml body ou" for ou
    unfolding Let_def digits pad_emit Z body_def by (simp add: emit_append)
  have max9: "(if (if ma < 0 then 6 else ma) > 9 then 9 else (if ma < 0 then 6 else ma)) = p" by (auto simp: p_def)
  have plc': "(if length (fconvert_loop n []) = 20 then 19 else length (fconvert_loop n [])) = plc n" for n
    by (simp add: plc_def)
  define Q where "Q = (if has flags DP_F_MINUS then - P else P)"
  have "fmtfp b ml fv mi ma flags ou =
    (let (padlen, sg, ou) =
            (if has flags DP_F_ZERO \<and> Q > 0 then
               let (padlen, sg, ou) = (if sc \<noteq> 0 then (Q - 1, 0, dopr_outch b ml sc ou) else (Q, sc, ou))
               in (0, sg, pad_down b ml (of_char (CHR ''0'')) padlen ou)
             else (Q, sc, ou))
     in emit b ml (spaces (- padlen)) (emit b ml body (emit b ml (sign_text sg) (emit b ml (spaces padlen) ou))))"
    unfolding fmtfp_def Let_def max9 sc_def [symmetric] carry_def [symmetric] cf split plc' sign_length
      pad_def [symmetric] s32 Z_def [symmetric] P_def [symmetric] Q_def [symmetric] sign_emit pad_emit
      rest [unfolded Let_def pad_emit] ..
  also have "\<dots> = emit b ml (fp_text fv mi ma flags) ou"
  proof (cases "has flags DP_F_ZERO \<and> Q > 0")
    case True
    then have q: "\<not> has flags DP_F_MINUS" "Q = pad" "pad > 0" using P by (auto simp: Q_def split: if_splits)
    have "fp_text fv mi ma flags = sign_text sc @ zeros (pad - int (length (sign_text sc))) @ body" unfolding tx using True q by simp
    then show ?thesis using True q(2) unfolding Let_def pad_emit
      by (cases "sc = 0") (simp_all add: sign_text_def emit_append)
  next
    case False
    then have "fp_text fv mi ma flags = (if has flags DP_F_MINUS then sign_text sc @ body @ spaces pad else spaces pad @ sign_text sc @ body)"
      unfolding tx using P(3,4) by (auto simp: Q_def)
    moreover have "spaces (- Q) = (if has flags DP_F_MINUS then spaces pad else [])"
      "spaces Q = (if has flags DP_F_MINUS then [] else spaces pad)"
      using P(1,2) by (simp_all add: Q_def)
    ultimately show ?thesis unfolding if_not_P [OF False] by (simp add: emit_append)
  qed
  finally show ?thesis .
qed

lemma strln_loop_cstr:
  "cstr m (v + of_nat k) bs \<Longrightarrow> strln_loop v (of_nat k) m = Some (of_nat (k + length bs))"
proof (induction bs arbitrary: k)
  case (Cons c bs)
  then have "strln_loop v (of_nat (Suc k)) m = Some (of_nat (Suc k + length bs))"
    by (intro Cons.IH) (simp add: algebra_simps)
  then show ?case using Cons.prems by (subst strln_loop.simps) (simp add: algebra_simps)
qed (simp add: strln_loop.simps)

text \<open>A string none of whose bytes is in the buffer.\<close>

definition apart :: "u32 \<Rightarrow> u32 \<Rightarrow> u32 \<Rightarrow> nat \<Rightarrow> bool" where
  "apart b ml s n \<longleftrightarrow> (\<forall>i\<le>n. outside b ml (s + of_nat i))"

lemma apart_Suc: "apart b ml s (Suc n) \<longleftrightarrow> outside b ml s \<and> apart b ml (s + 1) n"
  unfolding apart_def less_Suc_eq_le [symmetric] All_less_Suc2 by (simp del: of_nat_Suc add: offset_Suc)

lemma cstr_emit: "apart b ml s (length bs) \<Longrightarrow> cstr (snd (emit b ml cs ou)) s bs \<longleftrightarrow> cstr (snd ou) s bs"
  by (induction bs arbitrary: s) (auto simp: apart_Suc emit_outside, auto simp: apart_def emit_outside)

lemma spaces_Suc: "0 < n \<Longrightarrow> spaces n = of_char (CHR '' '') # spaces (n - 1)"
proof -
  assume "0 < n"
  then have "nat n = Suc (nat (n - 1))" by simp
  then show ?thesis by (simp add: spaces_def)
qed

lemma str_pad_left_emit:
  "0 \<le> n \<Longrightarrow> str_pad_left b ml n cnt ma ou =
    (n - max 0 (min n (ma - cnt)), cnt + max 0 (min n (ma - cnt)), emit b ml (spaces (min n (ma - cnt))) ou)"
proof (induction b ml n cnt ma ou rule: str_pad_left.induct)
  case (1 b ml n cnt ma ou)
  show ?case
  proof (cases "n > 0 \<and> cnt < ma")
    case True
    then have m: "min n (ma - cnt) = min (n - 1) (ma - (cnt + 1)) + 1" "0 < min n (ma - cnt)" by simp_all
    show ?thesis using 1 True spaces_Suc [OF m(2)] m
      by (simp add: str_pad_left.simps [of b ml n cnt ma ou])
  next
    case False
    then have "min n (ma - cnt) \<le> 0" by auto
    with False show ?thesis by (auto simp: str_pad_left.simps [of b ml n cnt ma ou])
  qed
qed

lemma str_pad_right_emit:
  "str_pad_right b ml n cnt ma ou = emit b ml (spaces (min (- n) (ma - cnt))) ou"
proof (induction b ml n cnt ma ou rule: str_pad_right.induct)
  case (1 b ml n cnt ma ou)
  show ?case
  proof (cases "n < 0 \<and> cnt < ma")
    case True
    then have m: "min (- n) (ma - cnt) - 1 = min (- (n + 1)) (ma - (cnt + 1))" "0 < min (- n) (ma - cnt)" by simp_all
    show ?thesis using 1 True unfolding spaces_Suc [OF m(2)] m(1)
      by (simp add: str_pad_right.simps [of b ml n cnt ma ou])
  next
    case False
    then have "min (- n) (ma - cnt) \<le> 0" by auto
    with False show ?thesis by (auto simp: str_pad_right.simps [of b ml n cnt ma ou])
  qed
qed

lemma str_copy_emit:
  "cstr (snd ou) v bs \<Longrightarrow> apart b ml v (length bs) \<Longrightarrow> str_copy b ml v cnt ma ou =
    (cnt + int (min (length bs) (nat (ma - cnt))), emit b ml (take (nat (ma - cnt)) bs) ou)"
proof (induction bs arbitrary: v cnt ou)
  case Nil
  then show ?case by (simp add: str_copy.simps)
next
  case (Cons c bs)
  then have a: "apart b ml (v + 1) (length bs)" "c \<noteq> 0" by (simp_all add: apart_Suc)
  show ?case
  proof (cases "cnt < ma")
    case True
    then have k: "nat (ma - cnt) = Suc (nat (ma - (cnt + 1)))" by simp
    have "cstr (snd (dopr_outch b ml c ou)) (v + 1) bs"
      using Cons.prems(1) cstr_emit [OF a(1), of "[c]" ou] by simp
    from Cons.IH [OF this a(1), of "cnt + 1"] show ?thesis
      using Cons.prems(1) True k by (simp add: str_copy.simps [of b ml v cnt ma ou])
  next
    case False
    then show ?thesis by (simp add: str_copy.simps [of b ml v cnt ma ou])
  qed
qed

lemma take_spaces: "take (nat k) (spaces n) = spaces (min n k)"
  by (auto simp: spaces_def min_def)

lemma fmtstr_emit:
  assumes "cstr (snd ou) (if v = 0 then nulls else v) bs" "apart b ml (if v = 0 then nulls else v) (length bs)"
    "length bs < 2 ^ 31" "0 \<le> mi" "int32 mi"
  shows "fmtstr nulls b ml v flags mi ma ou = Some (emit b ml (take (nat ma) (str_field bs mi flags)) ou)"
proof -
  define w where "w = (if v = 0 then nulls else v)"
  have w: "cstr (snd ou) w bs" "apart b ml w (length bs)" using assms(1,2) by (simp_all add: w_def)
  have len: "strln_loop w 0 (snd ou) = Some (of_nat (length bs))"
    using strln_loop_cstr [of "snd ou" w 0 bs] w(1) by simp
  have sint: "sint (of_nat (length bs) :: u32) = int (length bs)"
    using assms(3) by (simp add: signed_of_nat signed_take_bit_int_eq_self)
  define p where "p = mi - int (length bs)"
  have s32: "s32 p = p" using assms(3-5) by (intro s32_id) (simp add: int32_def p_def)
  define P where "P = (if p < 0 then 0 else p)"
  have P: "0 \<le> P" "spaces P = spaces p" by (auto simp: P_def)
  have run: "fmtstr nulls b ml v flags mi ma ou =
    (let padlen = (if has flags DP_F_MINUS then - P else P); (padlen, cnt, ou) = str_pad_left b ml padlen 0 ma ou;
         (cnt, ou) = str_copy b ml w cnt ma ou
     in Some (str_pad_right b ml padlen cnt ma ou))"
    unfolding fmtstr_def Let_def w_def [symmetric] len option.case sint p_def [symmetric] s32 P_def [symmetric] ..
  show ?thesis
  proof (cases "has flags DP_F_MINUS")
    case True
    have "str_pad_left b ml (- P) 0 ma ou = (- P, 0, ou)" using P(1) by (simp add: str_pad_left.simps [of b ml "- P"])
    then have "fmtstr nulls b ml v flags mi ma ou =
        Some (emit b ml (spaces (min P (ma - int (min (length bs) (nat ma))))) (emit b ml (take (nat ma) bs) ou))"
      using True unfolding run by (simp add: str_copy_emit [OF w] str_pad_right_emit)
    moreover have "take (nat ma) (bs @ spaces p) = take (nat ma) bs @ spaces (min P (ma - int (min (length bs) (nat ma))))"
    proof -
      have "nat ma - length bs = nat (ma - int (length bs))" by simp
      moreover have "spaces (min P (ma - int (length bs))) = spaces (min P (ma - int (min (length bs) (nat ma))))"
        by (cases "int (length bs) \<le> ma"; cases "0 \<le> ma") (auto simp: min_def P(1))
      ultimately show ?thesis by (simp add: take_spaces P(2) [symmetric])
    qed
    ultimately show ?thesis using True by (simp add: str_field_def p_def emit_append)
  next
    case False
    define k where "k = max 0 (min P ma)"
    have "apart b ml w (length bs)" "cstr (snd (emit b ml (spaces (min P ma)) ou)) w bs"
      using w cstr_emit by auto
    then have "fmtstr nulls b ml v flags mi ma ou = Some (str_pad_right b ml (P - k) (k + int (min (length bs) (nat (ma - k)))) ma
        (emit b ml (take (nat (ma - k)) bs) (emit b ml (spaces (min P ma)) ou)))"
      using False P(1) unfolding run by (simp add: str_pad_left_emit str_copy_emit k_def)
    moreover have "spaces (min (- (P - k)) x) = []" for x using P(1) by (simp add: k_def)
    moreover have "take (nat ma) (spaces p @ bs) = spaces (min P ma) @ take (nat (ma - k)) bs"
    proof -
      have "nat ma - length (spaces p) = nat (ma - k)" using P by (cases "P \<le> ma") (auto simp: k_def simp flip: P(2))
      then show ?thesis by (simp add: take_spaces P(2) [symmetric])
    qed
    ultimately show ?thesis using False by (simp add: str_field_def p_def emit_append str_pad_right_emit)
  qed
qed

end
