(* ===== verification/Dopr.thy ===== *)
theory Dopr
  imports Snprintf
begin

text \<open>
  What the state machine \<open>dopr\<close> prints. A format is parsed by recursive descent (flags, width,
  precision, size, conversion); \<open>render\<close> is the text of a format and its arguments. The
  state machine writes this text, cut to the size of the buffer, and nothing else.
\<close>

section \<open>The parser of formats\<close>

definition flag_bit :: "char \<Rightarrow> u32 option" where
  "flag_bit c =
     (if c = CHR ''-'' then Some DP_F_MINUS else if c = CHR ''+'' then Some DP_F_PLUS
      else if c = CHR '' '' then Some DP_F_SPACE else if c = CHR ''#'' then Some DP_F_NUM
      else if c = CHR ''0'' then Some DP_F_ZERO else None)"

fun p_flags :: "u8 list \<Rightarrow> u32 \<Rightarrow> u32 \<times> u8 list" where
  "p_flags [] fl = (fl, [])"
| "p_flags (c # cs) fl = (case flag_bit (to_char c) of Some f \<Rightarrow> p_flags cs (fl OR f) | None \<Rightarrow> (fl, c # cs))"

text \<open>A number, from a start value; \<open>low\<close> replaces a negative value before a digit is added.\<close>

fun p_num :: "(int \<Rightarrow> int) \<Rightarrow> u8 list \<Rightarrow> int \<Rightarrow> int \<times> u8 list" where
  "p_num low [] n = (n, [])"
| "p_num low (c # cs) n = (if isdigit (uint c) then p_num low cs (s32 (10 * low n + char_to_int c)) else (n, c # cs))"

text \<open>A number or an asterisk, which takes an argument.\<close>

definition p_arg :: "(int \<Rightarrow> int) \<Rightarrow> u8 list \<Rightarrow> int \<Rightarrow> va list \<Rightarrow> (int \<times> u8 list \<times> va list) option" where
  "p_arg low cs n as =
     (case p_num low cs n of
        (n, c # cs) \<Rightarrow>
          if to_char c = CHR ''*'' then (case as of Word v # as \<Rightarrow> Some (sint v, cs, as) | _ \<Rightarrow> None)
          else Some (n, c # cs, as)
      | (n, []) \<Rightarrow> Some (n, [], as))"

abbreviation no_negative :: "int \<Rightarrow> int" where
  "no_negative n \<equiv> (if n < 0 then 0 else n)"

definition p_prec :: "u8 list \<Rightarrow> va list \<Rightarrow> (int \<times> u8 list \<times> va list) option" where
  "p_prec cs as =
     (case cs of
        c # cs' \<Rightarrow> if to_char c = CHR ''.'' then p_arg (\<lambda>n. no_negative n) cs' (- 1) as else Some (- 1, cs, as)
      | [] \<Rightarrow> Some (- 1, [], as))"

definition is_mod :: "u8 \<Rightarrow> bool" where
  "is_mod c \<longleftrightarrow> to_char c = CHR ''h'' \<or> to_char c = CHR ''l'' \<or> to_char c = CHR ''L''"

definition p_mod :: "u8 list \<Rightarrow> u8 list" where
  "p_mod cs = (case cs of c # cs' \<Rightarrow> if is_mod c then cs' else cs | [] \<Rightarrow> [])"

text \<open>Each step of the parser consumes the format.\<close>

lemma p_flags_length: "p_flags cs fl = (fl', cs') \<Longrightarrow> length cs' \<le> length cs"
  by (induction cs fl rule: p_flags.induct) (auto split: option.splits)

lemma p_num_length: "p_num low cs n = (n', cs') \<Longrightarrow> length cs' \<le> length cs"
  by (induction low cs n rule: p_num.induct) (auto split: if_splits)

lemma p_arg_length: "p_arg low cs n as = Some (n', cs', as') \<Longrightarrow> length cs' \<le> length cs"
  using p_num_length [of low cs n] by (fastforce simp: p_arg_def split: prod.splits list.splits if_splits va.splits)

lemma p_prec_length: "p_prec cs as = Some (n, cs', as') \<Longrightarrow> length cs' \<le> length cs"
  by (auto simp: p_prec_def split: list.splits if_splits dest: p_arg_length)

lemma p_mod_length: "length (p_mod cs) \<le> length cs"
  by (simp add: p_mod_def split: list.splits)

section \<open>The text of a format\<close>

definition conv_base :: "char \<Rightarrow> (u32 \<times> u32) option" where
  "conv_base c =
     (if c = CHR ''d'' \<or> c = CHR ''i'' then Some (0, 10) else if c = CHR ''o'' then Some (DP_F_UNSIGNED, 8)
      else if c = CHR ''u'' then Some (DP_F_UNSIGNED, 10)
      else if c = CHR ''X'' then Some (DP_F_UP OR DP_F_UNSIGNED, 16)
      else if c = CHR ''x'' then Some (DP_F_UNSIGNED, 16) else if c = CHR ''p'' then Some (0, 16) else None)"

text \<open>
  The text of one conversion, the arguments left and the format left; \<open>strs\<close> gives the
  strings that arguments point to. \<open>None\<close>: an argument is missing or of the wrong type, the
  string is not known, or the conversion writes to memory (\<^verbatim>\<open>%n\<close>).
\<close>

definition conv_text :: "(64 word \<Rightarrow> fpval) \<Rightarrow> (u32 \<Rightarrow> u8 list option) \<Rightarrow> u8 \<Rightarrow> u8 list \<Rightarrow> u32 \<Rightarrow> int \<Rightarrow> int \<Rightarrow> va list \<Rightarrow>
    (u8 list \<times> va list \<times> u8 list) option" where
  "conv_text fp strs d cs fl mi ma as =
     (let c = to_char d in
      case conv_base c of
        Some (f, base) \<Rightarrow>
          (case as of Word v # as \<Rightarrow> Some (int_text v base mi ma (fl OR f), as, cs) | _ \<Rightarrow> None)
      | None \<Rightarrow>
          if c = CHR ''f'' then
            (case as of Double v # as \<Rightarrow> Some (fp_text (fp v) mi ma fl, as, cs) | _ \<Rightarrow> None)
          else if c = CHR ''E'' \<or> c = CHR ''e'' \<or> c = CHR ''G'' \<or> c = CHR ''g'' then
            (case as of Double v # as \<Rightarrow> Some ([], as, cs) | _ \<Rightarrow> None)
          else if c = CHR ''c'' then (case as of Word v # as \<Rightarrow> Some ([ucast v], as, cs) | _ \<Rightarrow> None)
          else if c = CHR ''s'' then
            (case as of
               Word v # as \<Rightarrow>
                 (case strs v of
                    Some bs \<Rightarrow> Some ((if ma < 0 then str_field bs mi fl else take (nat ma) (str_field bs mi fl)), as, cs)
                  | None \<Rightarrow> None)
             | _ \<Rightarrow> None)
          else if c = CHR ''n'' then None
          else if c = CHR ''%'' then Some ([d], as, cs)
          else if c = CHR ''w'' then (case cs of [] \<Rightarrow> None | _ # cs \<Rightarrow> Some ([], as, cs))
          else Some ([], as, cs))"

lemma conv_text_length: "conv_text fp strs d cs fl mi ma as = Some (t, as', cs') \<Longrightarrow> length cs' \<le> length cs"
  by (auto simp: conv_text_def Let_def split: if_splits option.splits list.splits va.splits)

text \<open>The parts of a directive behind its percent sign: flags, width, precision, conversion.\<close>

definition p_directive :: "u8 list \<Rightarrow> va list \<Rightarrow> (u32 \<times> int \<times> int \<times> u8 list \<times> va list) option" where
  "p_directive cs as =
     (let (fl, cs) = p_flags cs 0 in
      case p_arg (\<lambda>n. n) cs 0 as of None \<Rightarrow> None
      | Some (mi, cs, as) \<Rightarrow>
          (case p_prec cs as of None \<Rightarrow> None
           | Some (ma, cs, as) \<Rightarrow> Some (fl, mi, ma, p_mod cs, as)))"

lemma p_directive_length: "p_directive cs as = Some (fl, mi, ma, cs', as') \<Longrightarrow> length cs' \<le> length cs"
  using p_mod_length
  by (fastforce simp: p_directive_def Let_def split: prod.splits option.splits
      dest!: p_flags_length p_arg_length p_prec_length intro: order_trans)

function render :: "(64 word \<Rightarrow> fpval) \<Rightarrow> (u32 \<Rightarrow> u8 list option) \<Rightarrow> u8 list \<Rightarrow> va list \<Rightarrow> u8 list option" where
  "render fp strs [] as = Some []"
| "render fp strs (c # cs) as =
     (if to_char c \<noteq> CHR ''%'' then map_option (\<lambda>t. c # t) (render fp strs cs as)
      else case p_directive cs as of
        None \<Rightarrow> None
      | Some (fl, mi, ma, [], as) \<Rightarrow> Some []
      | Some (fl, mi, ma, d # cs', as) \<Rightarrow>
          if mi < 0 then None
          else case conv_text fp strs d cs' fl mi ma as of
            None \<Rightarrow> None
          | Some (t, as, cs'') \<Rightarrow> map_option (\<lambda>t'. t @ t') (render fp strs cs'' as))"
  by pat_completeness auto
termination
  by (relation "measure (\<lambda>(fp, strs, cs, as). length cs)") (auto dest!: p_directive_length conv_text_length)

declare render.simps [simp del]

section \<open>The state machine reads the format\<close>

text \<open>The machine is at the character before the rest \<open>cs\<close> of the format, outside the buffer.\<close>

definition at :: "u32 \<Rightarrow> u32 \<Rightarrow> dopr_state \<Rightarrow> u8 list \<Rightarrow> bool" where
  "at b ml s cs \<longleftrightarrow> cstr (snd (d_out s)) (d_format s - 1) cs \<and> d_ch s = snd (d_out s) (d_format s - 1) \<and>
     apart b ml (d_format s - 1) (length cs)"

lemma at_Nil: "at b ml s [] \<Longrightarrow> d_ch s = 0"
  by (simp add: at_def)

lemma at_Cons: "at b ml s (c # cs) \<Longrightarrow> d_ch s = c \<and> c \<noteq> 0"
  by (simp add: at_def)

lemma next_ch_fields [simp]:
  "d_state (next_ch s) = d_state s" "d_flags (next_ch s) = d_flags s" "d_min (next_ch s) = d_min s"
  "d_max (next_ch s) = d_max s" "d_args (next_ch s) = d_args s" "d_out (next_ch s) = d_out s"
  "d_cflags (next_ch s) = d_cflags s"
  by (simp_all add: next_ch_def)

lemma at_next: "at b ml s (c # cs) \<Longrightarrow> d_out s' = d_out s \<Longrightarrow> d_format s' = d_format s \<Longrightarrow> at b ml (next_ch s') cs"
  by (cases cs) (simp_all add: at_def next_ch_def apart_Suc)

lemma at_cong: "d_out s' = d_out s \<Longrightarrow> d_format s' = d_format s \<Longrightarrow> d_ch s' = d_ch s \<Longrightarrow> at b ml s' cs = at b ml s cs"
  by (simp add: at_def)

text \<open>The machine gets to a state with these fields, without output.\<close>

definition becomes :: "(64 word \<Rightarrow> fpval) \<Rightarrow> u32 \<Rightarrow> u32 \<Rightarrow> u32 \<Rightarrow> dopr_state \<Rightarrow> u8 list \<Rightarrow> dp_state \<Rightarrow> u32 \<Rightarrow> int \<Rightarrow> int \<Rightarrow> va list \<Rightarrow>
    dopr_state \<Rightarrow> bool" where
  "becomes fp nulls b ml s cs st fl mi ma as s' \<longleftrightarrow>
     at b ml s' cs \<and> d_state s' = st \<and> d_flags s' = fl \<and> d_min s' = mi \<and> d_max s' = ma \<and> d_args s' = as \<and>
     d_out s' = d_out s \<and> dopr_loop fp nulls b ml s = dopr_loop fp nulls b ml s'"

text \<open>The format ends: so does the loop, without output.\<close>

definition ends :: "(64 word \<Rightarrow> fpval) \<Rightarrow> u32 \<Rightarrow> u32 \<Rightarrow> u32 \<Rightarrow> dopr_state \<Rightarrow> bool" where
  "ends fp nulls b ml s \<longleftrightarrow> (\<exists>s'. dopr_loop fp nulls b ml s = Some s' \<and> d_out s' = d_out s)"

lemma loop_end: "d_ch s = 0 \<or> ml \<le> fst (d_out s) \<Longrightarrow> ends fp nulls b ml s"
proof -
  assume e: "d_ch s = 0 \<or> ml \<le> fst (d_out s)"
  show ?thesis
  proof (cases "d_state s = DP_S_DONE")
    case True
    then show ?thesis by (simp add: ends_def dopr_loop.simps [of fp nulls b ml s])
  next
    case False
    then have "dopr_loop fp nulls b ml s = dopr_loop fp nulls b ml (s\<lparr>d_state := DP_S_DONE\<rparr>)"
      using e by (subst dopr_loop.simps) (simp add: dopr_body_def Let_def)
    also have "\<dots> = Some (s\<lparr>d_state := DP_S_DONE\<rparr>)" by (subst dopr_loop.simps) simp
    finally show ?thesis by (simp add: ends_def)
  qed
qed

lemma loop_step:
  assumes "d_state s \<noteq> DP_S_DONE" "dopr_body fp nulls b ml s = Some s'"
  shows "dopr_loop fp nulls b ml s = dopr_loop fp nulls b ml s'"
  using assms by (subst dopr_loop.simps) simp

text \<open>
  Either of the two: \<open>cs\<close> is the rest of the format, and the machine is at it with these
  fields, or it is empty, and the loop ends.
\<close>

definition gets :: "(64 word \<Rightarrow> fpval) \<Rightarrow> u32 \<Rightarrow> u32 \<Rightarrow> u32 \<Rightarrow> dopr_state \<Rightarrow> u8 list \<Rightarrow> dp_state \<Rightarrow> u32 \<Rightarrow> int \<Rightarrow> int \<Rightarrow> va list \<Rightarrow> bool" where
  "gets fp nulls b ml s cs st fl mi ma as \<longleftrightarrow>
     (if cs = [] then ends fp nulls b ml s else \<exists>s'. becomes fp nulls b ml s cs st fl mi ma as s')"

lemma gets_here:
  "at b ml s cs \<Longrightarrow> gets fp nulls b ml s cs (d_state s) (d_flags s) (d_min s) (d_max s) (d_args s)"
  by (auto simp: gets_def becomes_def intro: loop_end dest: at_Nil)

lemma gets_after:
  assumes "dopr_body fp nulls b ml s = Some s'" "d_state s \<noteq> DP_S_DONE" "d_out s' = d_out s"
    "gets fp nulls b ml s' cs st fl mi ma as"
  shows "gets fp nulls b ml s cs st fl mi ma as"
proof -
  have "dopr_loop fp nulls b ml s = dopr_loop fp nulls b ml s'" using assms(2,1) by (rule loop_step)
  then show ?thesis using assms(3,4) by (auto simp: gets_def becomes_def ends_def split: if_splits)
qed

text \<open>A round that ends a phase.\<close>

lemma gets_moved:
  assumes "dopr_body fp nulls b ml s = Some s'" "d_state s \<noteq> DP_S_DONE" "d_out s' = d_out s" "at b ml s' cs"
    "d_state s' = st" "d_flags s' = fl" "d_min s' = mi" "d_max s' = ma" "d_args s' = as"
  shows "gets fp nulls b ml s cs st fl mi ma as"
  using gets_after [OF assms(1-3) gets_here [OF assms(4)]] assms(5-9) by simp

text \<open>One round of the loop on a character of the format, the buffer not being full.\<close>

lemmas body_simps = dopr_body_def Let_def va_word_def

lemma flags_phase:
  "at b ml s cs \<Longrightarrow> d_state s = DP_S_FLAGS \<Longrightarrow> fst (d_out s) < ml \<Longrightarrow> p_flags cs (d_flags s) = (fl, cs') \<Longrightarrow>
   gets fp nulls b ml s cs' DP_S_MIN fl (d_min s) (d_max s) (d_args s)"
proof (induction cs arbitrary: s)
  case Nil
  then show ?case by (auto simp: gets_def intro: loop_end dest: at_Nil)
next
  case (Cons c cs)
  have c: "d_ch s = c" "c \<noteq> 0" using at_Cons [OF Cons.prems(1)] by simp_all
  show ?case
  proof (cases "flag_bit (to_char c)")
    case None
    then have f: "dopr_body fp nulls b ml s = Some (s\<lparr>d_state := DP_S_MIN\<rparr>)"
      using c Cons.prems(2,3) by (simp add: body_simps flag_bit_def split: if_splits)
    then show ?thesis using None Cons.prems
      by (intro gets_moved [OF f]) (auto simp: at_cong [of "s\<lparr>d_state := DP_S_MIN\<rparr>" s])
  next
    case (Some f)
    let ?s = "next_ch (s\<lparr>d_flags := d_flags s OR f\<rparr>)"
    have f: "dopr_body fp nulls b ml s = Some ?s"
      using c Some Cons.prems(2,3) by (simp add: body_simps flag_bit_def split: if_splits)
    moreover have "gets fp nulls b ml ?s cs' DP_S_MIN fl (d_min s) (d_max s) (d_args s)"
      using Cons.IH [of ?s] at_next [OF Cons.prems(1)] Cons.prems(2-4) Some by simp
    ultimately show ?thesis using Cons.prems(2) by (intro gets_after [OF f]) auto
  qed
qed

lemma p_arg_star:
  "p_arg low (c # cs) n as = Some (i, cs', as') \<Longrightarrow> \<not> isdigit (uint c) \<Longrightarrow> to_char c = CHR ''*'' \<Longrightarrow>
   \<exists>v. as = Word v # as' \<and> i = sint v \<and> cs' = cs"
  by (auto simp: p_arg_def split: list.splits va.splits)

lemma p_arg_simps:
  "isdigit (uint c) \<Longrightarrow> p_arg low (c # cs) n as = p_arg low cs (s32 (10 * low n + char_to_int c)) as"
  "\<not> isdigit (uint c) \<Longrightarrow> to_char c \<noteq> CHR ''*'' \<Longrightarrow> p_arg low (c # cs) n as = Some (n, c # cs, as)"
  "p_arg low [] n as = Some (n, [], as)"
  by (simp_all add: p_arg_def)

lemma width_phase:
  "at b ml s cs \<Longrightarrow> d_state s = DP_S_MIN \<Longrightarrow> fst (d_out s) < ml \<Longrightarrow>
   p_arg (\<lambda>n. n) cs (d_min s) (d_args s) = Some (mi, cs', as) \<Longrightarrow>
   gets fp nulls b ml s cs' DP_S_DOT (d_flags s) mi (d_max s) as"
proof (induction cs arbitrary: s)
  case Nil
  then show ?case by (auto simp: gets_def p_arg_simps intro: loop_end dest: at_Nil)
next
  case (Cons c cs)
  have c: "d_ch s = c" "c \<noteq> 0" using at_Cons [OF Cons.prems(1)] by simp_all
  consider (digit) "isdigit (uint c)" | (star) "\<not> isdigit (uint c)" "to_char c = CHR ''*''" | (other) "\<not> isdigit (uint c)" "to_char c \<noteq> CHR ''*''"
    by blast
  then show ?case
  proof cases
    case digit
    let ?s = "next_ch (s\<lparr>d_min := s32 (10 * d_min s + char_to_int c)\<rparr>)"
    have f: "dopr_body fp nulls b ml s = Some ?s" using c digit Cons.prems(2,3) by (simp add: body_simps)
    moreover have "gets fp nulls b ml ?s cs' DP_S_DOT (d_flags s) mi (d_max s) as"
      using Cons.IH [of ?s] at_next [OF Cons.prems(1)] Cons.prems(2-4) digit by (simp add: p_arg_simps)
    ultimately show ?thesis using Cons.prems(2) by (intro gets_after [OF f]) auto
  next
    case star
    then obtain v where v: "d_args s = Word v # as" "mi = sint v" "cs' = cs" using p_arg_star [OF Cons.prems(4)] by auto
    let ?s = "(next_ch (s\<lparr>d_args := as, d_min := sint v\<rparr>))\<lparr>d_state := DP_S_DOT\<rparr>"
    have f: "dopr_body fp nulls b ml s = Some ?s" using c star v(1) Cons.prems(2,3) by (simp add: body_simps)
    moreover have "at b ml ?s cs"
      using at_next [OF Cons.prems(1), of "s\<lparr>d_args := as, d_min := sint v\<rparr>"] by (simp add: at_def)
    ultimately show ?thesis using v Cons.prems(2) by (intro gets_moved [OF f]) auto
  next
    case other
    then have f: "dopr_body fp nulls b ml s = Some (s\<lparr>d_state := DP_S_DOT\<rparr>)"
      using c Cons.prems(2,3) by (simp add: body_simps)
    then show ?thesis using other Cons.prems
      by (intro gets_moved [OF f]) (auto simp: p_arg_simps at_cong [of "s\<lparr>d_state := DP_S_DOT\<rparr>" s])
  qed
qed

lemma max_phase:
  "at b ml s cs \<Longrightarrow> d_state s = DP_S_MAX \<Longrightarrow> fst (d_out s) < ml \<Longrightarrow>
   p_arg (\<lambda>n. no_negative n) cs (d_max s) (d_args s) = Some (ma, cs', as) \<Longrightarrow>
   gets fp nulls b ml s cs' DP_S_MOD (d_flags s) (d_min s) ma as"
proof (induction cs arbitrary: s)
  case Nil
  then show ?case by (auto simp: gets_def p_arg_simps intro: loop_end dest: at_Nil)
next
  case (Cons c cs)
  have c: "d_ch s = c" "c \<noteq> 0" using at_Cons [OF Cons.prems(1)] by simp_all
  consider (digit) "isdigit (uint c)" | (star) "\<not> isdigit (uint c)" "to_char c = CHR ''*''" | (other) "\<not> isdigit (uint c)" "to_char c \<noteq> CHR ''*''"
    by blast
  then show ?case
  proof cases
    case digit
    let ?s = "next_ch (s\<lparr>d_max := s32 (10 * no_negative (d_max s) + char_to_int c)\<rparr>)"
    have f: "dopr_body fp nulls b ml s = Some ?s" using c digit Cons.prems(2,3) by (simp add: body_simps)
    moreover have "gets fp nulls b ml ?s cs' DP_S_MOD (d_flags s) (d_min s) ma as"
      using Cons.IH [of ?s] at_next [OF Cons.prems(1)] Cons.prems(2-4) digit by (simp add: p_arg_simps)
    ultimately show ?thesis using Cons.prems(2) by (intro gets_after [OF f]) auto
  next
    case star
    then obtain v where v: "d_args s = Word v # as" "ma = sint v" "cs' = cs" using p_arg_star [OF Cons.prems(4)] by auto
    let ?s = "(next_ch (s\<lparr>d_args := as, d_max := sint v\<rparr>))\<lparr>d_state := DP_S_MOD\<rparr>"
    have f: "dopr_body fp nulls b ml s = Some ?s" using c star v(1) Cons.prems(2,3) by (simp add: body_simps)
    moreover have "at b ml ?s cs"
      using at_next [OF Cons.prems(1), of "s\<lparr>d_args := as, d_max := sint v\<rparr>"] by (simp add: at_def)
    ultimately show ?thesis using v Cons.prems(2) by (intro gets_moved [OF f]) auto
  next
    case other
    then have f: "dopr_body fp nulls b ml s = Some (s\<lparr>d_state := DP_S_MOD\<rparr>)"
      using c Cons.prems(2,3) by (simp add: body_simps)
    then show ?thesis using other Cons.prems
      by (intro gets_moved [OF f]) (auto simp: p_arg_simps at_cong [of "s\<lparr>d_state := DP_S_MOD\<rparr>" s])
  qed
qed

lemma prec_phase:
  assumes "at b ml s cs" "d_state s = DP_S_DOT" "fst (d_out s) < ml" "d_max s = - 1" "p_prec cs (d_args s) = Some (ma, cs', as)"
  shows "gets fp nulls b ml s cs' DP_S_MOD (d_flags s) (d_min s) ma as"
proof (cases cs)
  case Nil
  with assms show ?thesis by (auto simp: gets_def p_prec_def intro: loop_end dest: at_Nil)
next
  case (Cons c cs1)
  have c: "d_ch s = c" "c \<noteq> 0" using at_Cons assms(1) Cons by auto
  show ?thesis
  proof (cases "to_char c = CHR ''.''")
    case True
    let ?s = "next_ch (s\<lparr>d_state := DP_S_MAX\<rparr>)"
    have f: "dopr_body fp nulls b ml s = Some ?s" using c True assms(2,3) by (simp add: body_simps)
    moreover have "at b ml ?s cs1" using at_next assms(1) Cons by fastforce
    then have "gets fp nulls b ml ?s cs' DP_S_MOD (d_flags s) (d_min s) ma as"
      using max_phase [of b ml ?s cs1 ma cs' as fp nulls] True assms(3-5) Cons by (simp add: p_prec_def)
    ultimately show ?thesis using assms(2) by (intro gets_after [OF f]) auto
  next
    case False
    then have f: "dopr_body fp nulls b ml s = Some (s\<lparr>d_state := DP_S_MOD\<rparr>)" using c assms(2,3) by (simp add: body_simps)
    then show ?thesis using False Cons assms
      by (intro gets_moved [OF f]) (auto simp: p_prec_def at_cong [of "s\<lparr>d_state := DP_S_MOD\<rparr>" s])
  qed
qed

lemma mod_phase:
  assumes "at b ml s cs" "d_state s = DP_S_MOD" "fst (d_out s) < ml"
  shows "gets fp nulls b ml s (p_mod cs) DP_S_CONV (d_flags s) (d_min s) (d_max s) (d_args s)"
proof (cases cs)
  case Nil
  with assms show ?thesis by (auto simp: gets_def p_mod_def intro: loop_end dest: at_Nil)
next
  case (Cons c cs1)
  have c: "d_ch s = c" "c \<noteq> 0" using at_Cons assms(1) Cons by auto
  show ?thesis
  proof (cases "is_mod c")
    case True
    define fl where "fl = (if to_char c = CHR ''h'' then DP_C_SHORT else if to_char c = CHR ''l'' then DP_C_LONG else DP_C_LDOUBLE)"
    have f: "dopr_body fp nulls b ml s = Some ((next_ch (s\<lparr>d_cflags := fl\<rparr>))\<lparr>d_state := DP_S_CONV\<rparr>)"
      using True c assms(2,3) unfolding is_mod_def fl_def by (elim disjE) (simp_all add: body_simps)
    moreover have "at b ml ((next_ch (s\<lparr>d_cflags := fl\<rparr>))\<lparr>d_state := DP_S_CONV\<rparr>) cs1"
      using at_next [of b ml s c cs1 "s\<lparr>d_cflags := fl\<rparr>"] assms(1) Cons by (simp add: at_def)
    ultimately show ?thesis using True Cons assms(2) by (intro gets_moved [OF f]) (auto simp: p_mod_def)
  next
    case False
    then have f: "dopr_body fp nulls b ml s = Some (s\<lparr>d_state := DP_S_CONV\<rparr>)"
      using c assms(2,3) by (simp add: body_simps is_mod_def)
    then show ?thesis using False Cons assms
      by (intro gets_moved [OF f]) (auto simp: p_mod_def at_cong [of "s\<lparr>d_state := DP_S_CONV\<rparr>" s])
  qed
qed

lemma gets_trans:
  assumes "gets fp nulls b ml s cs1 st1 fl1 mi1 ma1 as1" "cs1 = [] \<Longrightarrow> cs2 = []"
    "\<And>s1. at b ml s1 cs1 \<Longrightarrow> d_state s1 = st1 \<Longrightarrow> d_flags s1 = fl1 \<Longrightarrow> d_min s1 = mi1 \<Longrightarrow> d_max s1 = ma1 \<Longrightarrow>
       d_args s1 = as1 \<Longrightarrow> d_out s1 = d_out s \<Longrightarrow> gets fp nulls b ml s1 cs2 st2 fl2 mi2 ma2 as2"
  shows "gets fp nulls b ml s cs2 st2 fl2 mi2 ma2 as2"
proof (cases "cs1 = []")
  case True
  with assms(1,2) show ?thesis by (simp add: gets_def)
next
  case False
  with assms(1) obtain s1 where s1: "becomes fp nulls b ml s cs1 st1 fl1 mi1 ma1 as1 s1" by (auto simp: gets_def)
  then have "gets fp nulls b ml s1 cs2 st2 fl2 mi2 ma2 as2" using assms(3) by (simp add: becomes_def)
  then show ?thesis using s1 by (auto simp: gets_def becomes_def ends_def split: if_splits)
qed

lemma p_directive_phase:
  assumes "at b ml s cs" "d_state s = DP_S_FLAGS" "fst (d_out s) < ml" "d_flags s = 0" "d_min s = 0" "d_max s = - 1"
    "p_directive cs (d_args s) = Some (fl, mi, ma, cs', as)"
  shows "gets fp nulls b ml s cs' DP_S_CONV fl mi ma as"
proof -
  obtain cs1 cs2 as2 cs3 where p: "p_flags cs 0 = (fl, cs1)" "p_arg (\<lambda>n. n) cs1 0 (d_args s) = Some (mi, cs2, as2)"
      "p_prec cs2 as2 = Some (ma, cs3, as)" "cs' = p_mod cs3"
    using assms(7) by (auto simp: p_directive_def Let_def split: prod.splits option.splits)
  have g1: "gets fp nulls b ml s cs1 DP_S_MIN fl 0 (- 1) (d_args s)"
    using flags_phase [OF assms(1-3), of fl cs1 fp nulls] p(1) assms(4-6) by simp
  have g2: "gets fp nulls b ml s cs2 DP_S_DOT fl mi (- 1) as2"
  proof (rule gets_trans [OF g1])
    fix s1
    assume "at b ml s1 cs1" "d_state s1 = DP_S_MIN" "d_flags s1 = fl" "d_min s1 = 0" "d_max s1 = - 1" "d_args s1 = d_args s"
      "d_out s1 = d_out s"
    then show "gets fp nulls b ml s1 cs2 DP_S_DOT fl mi (- 1) as2"
      using width_phase [of b ml s1 cs1 mi cs2 as2 fp nulls] p(2) assms(3) by simp
  qed (use p(2) in \<open>simp add: p_arg_simps\<close>)
  have g3: "gets fp nulls b ml s cs3 DP_S_MOD fl mi ma as"
  proof (rule gets_trans [OF g2])
    fix s1
    assume "at b ml s1 cs2" "d_state s1 = DP_S_DOT" "d_flags s1 = fl" "d_min s1 = mi" "d_max s1 = - 1" "d_args s1 = as2"
      "d_out s1 = d_out s"
    then show "gets fp nulls b ml s1 cs3 DP_S_MOD fl mi ma as"
      using prec_phase [of b ml s1 cs2 ma cs3 as fp nulls] p(3) assms(3) by simp
  qed (use p(3) in \<open>simp add: p_prec_def\<close>)
  show ?thesis
  proof (rule gets_trans [OF g3])
    fix s1
    assume "at b ml s1 cs3" "d_state s1 = DP_S_MOD" "d_flags s1 = fl" "d_min s1 = mi" "d_max s1 = ma" "d_args s1 = as"
      "d_out s1 = d_out s"
    then show "gets fp nulls b ml s1 cs' DP_S_CONV fl mi ma as"
      using mod_phase [of b ml s1 cs3 fp nulls] p(4) assms(3) by simp
  qed (use p(4) in \<open>simp add: p_mod_def\<close>)
qed

lemma p_num_int32: "int32 n \<Longrightarrow> p_num low cs n = (n', cs') \<Longrightarrow> int32 n'"
  by (induction low cs n rule: p_num.induct) (auto simp: s32_int32 split: if_splits)

lemma p_arg_int32: "int32 n \<Longrightarrow> p_arg low cs n as = Some (n', cs', as') \<Longrightarrow> int32 n'"
  by (auto simp: p_arg_def sint_int32 split: prod.splits list.splits if_splits va.splits dest: p_num_int32)

lemma p_directive_int32: "p_directive cs as = Some (fl, mi, ma, cs', as') \<Longrightarrow> int32 mi \<and> int32 ma"
proof -
  have "int32 0" "int32 (- 1)" by (simp_all add: int32_def)
  then show "p_directive cs as = Some (fl, mi, ma, cs', as') \<Longrightarrow> ?thesis"
    by (auto simp: p_directive_def p_prec_def Let_def split: prod.splits option.splits list.splits if_splits
        dest: p_arg_int32)
qed

section \<open>The conversions\<close>

text \<open>The strings that \<open>strs\<close> gives are in memory, outside the buffer.\<close>

definition strs_ok :: "u32 \<Rightarrow> u32 \<Rightarrow> u32 \<Rightarrow> (u32 \<Rightarrow> u8 list option) \<Rightarrow> mem \<Rightarrow> bool" where
  "strs_ok nulls b ml strs m \<longleftrightarrow>
     (\<forall>v bs. strs v = Some bs \<longrightarrow> length bs < 2 ^ 31 \<and> cstr m (if v = 0 then nulls else v) bs \<and>
        apart b ml (if v = 0 then nulls else v) (length bs))"

lemma strs_ok_emit: "strs_ok nulls b ml strs (snd ou) \<Longrightarrow> strs_ok nulls b ml strs (snd (emit b ml t ou))"
  unfolding strs_ok_def using cstr_emit by blast

lemma at_next_emit:
  assumes "at b ml s (d # cs)" "d_out s' = emit b ml t (d_out s)" "d_format s' = d_format s"
  shows "at b ml (next_ch s') cs"
proof -
  have "apart b ml (d_format s) (length cs)" "cstr (snd (d_out s)) (d_format s) cs"
    using assms(1) by (simp_all add: at_def apart_Suc)
  then show ?thesis using assms(2,3) cstr_emit [of b ml "d_format s" cs t "d_out s"] by (simp add: at_def next_ch_def)
qed

lemma dopr_conv_int:
  "conv_base (to_char (d_ch s)) = Some (f, base) \<Longrightarrow> dopr_conv fp nulls b ml s = conv_int b ml f base s \<and> 8 \<le> unat base"
  by (auto simp: conv_base_def dopr_conv_def Let_def split: if_splits)

lemma dopr_conv_text:
  assumes "at b ml s (d # cs)" "0 \<le> d_min s" "int32 (d_min s)" "int32 (d_max s)" "strs_ok nulls b ml strs (snd (d_out s))"
    "unat ml < 2 ^ 31" "conv_text fp strs d cs (d_flags s) (d_min s) (d_max s) (d_args s) = Some (t, as, cs')"
  shows "\<exists>s'. dopr_conv fp nulls b ml s = Some s' \<and> d_args s' = as \<and> d_out s' = emit b ml t (d_out s) \<and> at b ml (next_ch s') cs'"
proof -
  have d: "d_ch s = d" using at_Cons [OF assms(1)] by simp
  let ?c = "to_char d"
  have done_by: ?thesis if "dopr_conv fp nulls b ml s = Some s'" "d_args s' = as" "d_out s' = emit b ml t (d_out s)"
    "d_format s' = d_format s" "cs' = cs" for s'
    using that at_next_emit [OF assms(1) that(3,4)] by blast
  show ?thesis
  proof (cases "conv_base ?c")
    case (Some fb)
    then obtain f base where fb: "conv_base (to_char (d_ch s)) = Some (f, base)" by (cases fb) (simp add: d)
    then obtain v where v: "d_args s = Word v # as" "t = int_text v base (d_min s) (d_max s) (d_flags s OR f)" "cs' = cs"
      using assms(7) by (auto simp: conv_text_def d split: list.splits va.splits)
    have run: "dopr_conv fp nulls b ml s = Some (s\<lparr>d_args := as, d_flags := d_flags s OR f, d_out := emit b ml t (d_out s)\<rparr>)"
      using dopr_conv_int [OF fb] fmtint_emit [OF _ assms(2-4)] v
      by (simp add: conv_int_def va_word_def Let_def)
    show ?thesis by (rule done_by [OF run]) (simp_all add: v(3))
  next
    case None
    then have n: "?c \<noteq> CHR ''d''" "?c \<noteq> CHR ''i''" "?c \<noteq> CHR ''o''" "?c \<noteq> CHR ''u''" "?c \<noteq> CHR ''X''"
      "?c \<noteq> CHR ''x''" "?c \<noteq> CHR ''p''"
      by (auto simp: conv_base_def)
    note conv = assms(7) [unfolded conv_text_def Let_def None option.case]
    note prog = dopr_conv_def Let_def d n va_word_def va_double_def
    consider (f) "?c = CHR ''f''" | (e) "?c = CHR ''E'' \<or> ?c = CHR ''e'' \<or> ?c = CHR ''G'' \<or> ?c = CHR ''g''"
      | (c) "?c = CHR ''c''" | (s) "?c = CHR ''s''" | (n) "?c = CHR ''n''" | (percent) "?c = CHR ''%''"
      | (w) "?c = CHR ''w''"
      | (other) "?c \<notin> {CHR ''f'', CHR ''E'', CHR ''e'', CHR ''G'', CHR ''g'', CHR ''c'', CHR ''s'', CHR ''n'', CHR ''%'', CHR ''w''}"
      by auto
    then show ?thesis
    proof cases
      case f
      then obtain v where v: "d_args s = Double v # as" "t = fp_text (fp v) (d_min s) (d_max s) (d_flags s)" "cs' = cs"
        using conv by (auto split: list.splits va.splits)
      then have run: "dopr_conv fp nulls b ml s = Some (s\<lparr>d_args := as, d_out := emit b ml t (d_out s)\<rparr>)"
        using f fmtfp_emit [OF assms(2,3)] by (simp add: prog)
      show ?thesis by (rule done_by [OF run]) (simp_all add: v(3))
    next
      case e
      then obtain v where v: "d_args s = Double v # as" "t = []" "cs' = cs"
        using conv by (auto split: list.splits va.splits)
      then have run: "dopr_conv fp nulls b ml s = Some (s\<lparr>d_args := as\<rparr>)" using e by (elim disjE) (simp_all add: prog)
      show ?thesis by (rule done_by [OF run]) (simp_all add: v(2,3))
    next
      case c
      then obtain v where v: "d_args s = Word v # as" "t = [ucast v]" "cs' = cs"
        using conv by (auto split: list.splits va.splits)
      then have run: "dopr_conv fp nulls b ml s = Some (s\<lparr>d_args := as, d_out := emit b ml t (d_out s)\<rparr>)"
        using c by (simp add: prog)
      show ?thesis by (rule done_by [OF run]) (simp_all add: v(3))
    next
      case s
      define ma where "ma = (if d_max s < 0 then s32 (uint ml) else d_max s)"
      obtain v bs where v: "d_args s = Word v # as" "strs v = Some bs" "cs' = cs"
        "t = (if d_max s < 0 then str_field bs (d_min s) (d_flags s) else take (nat (d_max s)) (str_field bs (d_min s) (d_flags s)))"
      proof -
        define tx where "tx = (\<lambda>bs. if d_max s < 0 then str_field bs (d_min s) (d_flags s)
          else take (nat (d_max s)) (str_field bs (d_min s) (d_flags s)))"
        have "(case d_args s of Word v # as \<Rightarrow> (case strs v of Some bs \<Rightarrow> Some (tx bs, as, cs) | None \<Rightarrow> None) | _ \<Rightarrow> None)
            = Some (t, as, cs')"
          using conv unfolding s tx_def by simp
        then obtain v bs where "d_args s = Word v # as" "strs v = Some bs" "cs' = cs" "t = tx bs"
          by (auto split: list.splits va.splits option.splits)
        then show thesis using that unfolding tx_def by blast
      qed
      have "int (unat ml) < int (2 ^ 31)" using assms(6) by (simp only: of_nat_less_iff)
      then have "uint ml < 2 ^ 31" by simp
      then have ml: "s32 (uint ml) = uint ml" using uint_ge_0 [of ml] by (intro s32_id, unfold int32_def) linarith
      have ml': "unat ml \<le> unat (fst (d_out s)) + nat (uint ml)" by simp
      have t: "emit b ml (take (nat ma) (str_field bs (d_min s) (d_flags s))) (d_out s) = emit b ml t (d_out s)"
        using emit_take [OF ml'] by (simp add: ma_def v(4) ml)
      have "length bs < 2 ^ 31" "cstr (snd (d_out s)) (if v = 0 then nulls else v) bs" "apart b ml (if v = 0 then nulls else v) (length bs)"
        using assms(5) v(2) by (simp_all add: strs_ok_def split: if_splits)
      then have "fmtstr nulls b ml v (d_flags s) (d_min s) ma (d_out s) = Some (emit b ml t (d_out s))"
        using fmtstr_emit [OF _ _ _ assms(2,3)] t by simp
      then have run: "dopr_conv fp nulls b ml s = Some (s\<lparr>d_args := as, d_max := ma, d_out := emit b ml t (d_out s)\<rparr>)"
        using s v(1) by (cases "d_max s < 0") (simp_all add: prog ma_def)
      show ?thesis by (rule done_by [OF run]) (simp_all add: v(3))
    next
      case n
      then show ?thesis using conv by simp
    next
      case percent
      then have run: "dopr_conv fp nulls b ml s = Some (s\<lparr>d_out := emit b ml t (d_out s)\<rparr>)" and eq: "as = d_args s" "cs' = cs"
        using conv by (auto simp: prog)
      show ?thesis by (rule done_by [OF run]) (simp_all add: eq)
    next
      case w
      then obtain x where x: "cs = x # cs'" "as = d_args s" "t = []" using conv by (auto split: list.splits)
      have "at b ml (next_ch s) cs" using at_next [OF assms(1)] by simp
      then have "at b ml (next_ch (next_ch s)) cs'" using at_next x(1) by blast
      moreover have "dopr_conv fp nulls b ml s = Some (next_ch s)" using w by (simp add: prog)
      ultimately show ?thesis using x by auto
    next
      case other
      then have run: "dopr_conv fp nulls b ml s = Some s" and eq: "as = d_args s" "cs' = cs" "t = []" using conv by (auto simp: prog)
      show ?thesis by (rule done_by [OF run]) (simp_all add: eq)
    qed
  qed
qed

section \<open>The loop\<close>

lemma dopr_loop_render:
  "at b ml s cs \<Longrightarrow> d_state s = DP_S_DEFAULT \<Longrightarrow> d_flags s = 0 \<Longrightarrow> d_min s = 0 \<Longrightarrow> d_max s = - 1 \<Longrightarrow>
   strs_ok nulls b ml strs (snd (d_out s)) \<Longrightarrow> unat ml < 2 ^ 31 \<Longrightarrow> render fp strs cs (d_args s) = Some t \<Longrightarrow>
   \<exists>s'. dopr_loop fp nulls b ml s = Some s' \<and> d_out s' = emit b ml t (d_out s)"
proof (induction cs arbitrary: s t rule: measure_induct_rule [of length])
  case (less ccs)
  note pr = less.prems
  show ?case
  proof (cases ccs)
    case Nil
    then have "ends fp nulls b ml s" "t = []" using pr by (auto simp: render.simps intro: loop_end dest: at_Nil)
    then show ?thesis by (simp add: ends_def)
  next
    case ccs: (Cons c cs)
    have at: "at b ml s (c # cs)" using pr(1) ccs by simp
    have ren: "render fp strs (c # cs) (d_args s) = Some t" using pr(8) ccs by simp
    have c: "d_ch s = c" "c \<noteq> 0" using at_Cons [OF at] by simp_all
    show ?thesis
  proof (cases "fst (d_out s) < ml")
    case False
    then have "ml \<le> fst (d_out s)" by simp
    then have "ends fp nulls b ml s" "emit b ml t (d_out s) = d_out s" by (auto intro: loop_end emit_full)
    then show ?thesis by (simp add: ends_def)
  next
    case room: True
    show ?thesis
    proof (cases "to_char c = CHR ''%''")
      case False
      then obtain t1 where t1: "render fp strs cs (d_args s) = Some t1" "t = c # t1"
        using ren by (auto simp: render.simps)
      let ?s = "next_ch (s\<lparr>d_out := emit b ml [c] (d_out s)\<rparr>)"
      have "dopr_body fp nulls b ml s = Some ?s" using c False room pr(2) by (simp add: body_simps)
      then have l: "dopr_loop fp nulls b ml s = dopr_loop fp nulls b ml ?s" using pr(2) by (intro loop_step) simp_all
      have "at b ml ?s cs" by (rule at_next_emit [OF at, where t = "[c]"]) simp_all
      moreover have "strs_ok nulls b ml strs (snd (d_out ?s))" using strs_ok_emit [OF pr(6), of "[c]"] by simp
      ultimately have "\<exists>s'. dopr_loop fp nulls b ml ?s = Some s' \<and> d_out s' = emit b ml t1 (d_out ?s)"
        using less.IH [of cs ?s t1] ccs t1(1) pr(2-5,7) by simp
      then show ?thesis using l t1(2) by auto
    next
      case percent: True
      then obtain fl mi ma cs1 as where p: "p_directive cs (d_args s) = Some (fl, mi, ma, cs1, as)"
        using ren by (auto simp: render.simps split: option.splits)
      let ?s = "next_ch (s\<lparr>d_state := DP_S_FLAGS\<rparr>)"
      have "dopr_body fp nulls b ml s = Some ?s" using c percent room pr(2) by (simp add: body_simps)
      then have l: "dopr_loop fp nulls b ml s = dopr_loop fp nulls b ml ?s" using pr(2) by (intro loop_step) simp_all
      have "at b ml ?s cs" using at_next [OF at] by simp
      then have g: "gets fp nulls b ml ?s cs1 DP_S_CONV fl mi ma as"
        using p_directive_phase [of b ml ?s cs fl mi ma cs1 as fp nulls] room pr(3-5) p by simp
      show ?thesis
      proof (cases cs1)
        case Nil
        then have "t = []" using ren percent p by (simp add: render.simps)
        then show ?thesis using g Nil l by (simp add: gets_def ends_def)
      next
        case (Cons d cs2)
        then obtain s1 where s1: "at b ml s1 (d # cs2)" "d_state s1 = DP_S_CONV" "d_flags s1 = fl" "d_min s1 = mi" "d_max s1 = ma"
            "d_args s1 = as" "d_out s1 = d_out s" "dopr_loop fp nulls b ml ?s = dopr_loop fp nulls b ml s1"
          using g by (auto simp: gets_def becomes_def)
        obtain t0 as2 cs3 t1 where t: "conv_text fp strs d cs2 fl mi ma as = Some (t0, as2, cs3)"
            "render fp strs cs3 as2 = Some t1" "t = t0 @ t1" "\<not> mi < 0"
          using ren percent p Cons by (auto simp: render.simps split: option.splits if_splits)
        have "strs_ok nulls b ml strs (snd (d_out s1))" using pr(6) s1(7) by simp
        with dopr_conv_text [OF s1(1), of nulls strs fp t0 as2 cs3] obtain s2 where s2: "dopr_conv fp nulls b ml s1 = Some s2"
            "d_args s2 = as2" "d_out s2 = emit b ml t0 (d_out s)" "at b ml (next_ch s2) cs3"
          using t(1,4) p_directive_int32 [OF p] pr(7) s1 by auto
        let ?s3 = "(next_ch s2)\<lparr>d_state := DP_S_DEFAULT, d_flags := 0, d_cflags := DP_C_NONE, d_min := 0, d_max := - 1\<rparr>"
        have "d_ch s1 \<noteq> 0" using at_Cons [OF s1(1)] by simp
        then have "dopr_body fp nulls b ml s1 = Some ?s3" using s1(2,7) s2(1) room by (simp add: body_simps)
        then have l2: "dopr_loop fp nulls b ml s1 = dopr_loop fp nulls b ml ?s3" using s1(2) by (intro loop_step) simp_all
        have "at b ml ?s3 cs3" using s2(4) by (simp add: at_def)
        moreover have "strs_ok nulls b ml strs (snd (d_out ?s3))" using strs_ok_emit [OF pr(6), of t0] s2(3) by simp
        ultimately have "\<exists>s'. dopr_loop fp nulls b ml ?s3 = Some s' \<and> d_out s' = emit b ml t1 (d_out ?s3)"
          using less.IH [of cs3 ?s3 t1] ccs Cons t(2) s2(2) pr(7) p_directive_length [OF p] conv_text_length [OF t(1)] by simp
        then show ?thesis using l l2 s1(8) s2(3) t(3) by (auto simp: emit_append)
      qed
    qed
  qed
  qed
qed

section \<open>The buffer\<close>

text \<open>The buffer holds the first \<open>n\<close> characters of a text and a zero byte; nothing else is written.\<close>

definition holds :: "u32 \<Rightarrow> u8 list \<Rightarrow> nat \<Rightarrow> mem \<Rightarrow> mem" where
  "holds str t n m = mem_range str (n + 1) (\<lambda>i. if i < n then t ! i else 0) m"

lemma offset_eq: "n < 4294967296 \<Longrightarrow> x = str + of_nat n \<longleftrightarrow> unat (x - str :: u32) = n"
proof
  assume "unat (x - str) = n"
  then have "x - str = of_nat n" by auto
  then show "x = str + of_nat n" by (simp add: algebra_simps)
qed (simp add: u32_of_nat_unat)

lemma holds_terminated:
  assumes "n < 4294967296" "k = n \<or> k = n + 1"
  shows "(mem_range str k (\<lambda>i. t ! i) (m(str := 0)))(str + of_nat n := 0) = holds str t n m"
proof
  fix x
  show "((mem_range str k (\<lambda>i. t ! i) (m(str := 0)))(str + of_nat n := 0)) x = holds str t n m x"
    using offset_eq [OF assms(1), of x str] assms(2) by (auto simp: holds_def mem_range_def)
qed

lemma holds_string:
  assumes "n \<le> length t" "n < 4294967295"
  shows "cstr (holds str t n m) str (takeWhile (\<lambda>c. c \<noteq> 0) (take n t))"
proof -
  let ?w = "takeWhile (\<lambda>c. c \<noteq> 0) (take n t)"
  have len: "length ?w \<le> n" using length_takeWhile_le [of _ "take n t"] assms(1) by (metis length_take min.absorb2)
  have at: "holds str t n m (str + of_nat i) = (if i < n then t ! i else 0)" if "i \<le> n" for i
    using that assms(2) by (simp add: holds_def mem_range_def u32_of_nat_unat)
  show ?thesis
  proof (rule cstr_intro)
    show "holds str t n m (str + of_nat i) = ?w ! i" if "i < length ?w" for i
      using that len takeWhile_nth [OF that] by (simp add: at)
    show "holds str t n m (str + of_nat (length ?w)) = 0"
    proof (cases "length ?w < length (take n t)")
      case True
      from nth_length_takeWhile [OF this] show ?thesis using True by (simp add: at)
    next
      case False
      then show ?thesis using assms(1) len by (simp add: at)
    qed
    show "0 \<notin> set ?w" using set_takeWhileD by fastforce
  qed
qed

lemma vsnprintf_render:
  assumes "cstr m fmt cs" "apart str count fmt (length cs)" "strs_ok nulls str count strs m"
    "count \<noteq> 0" "unat count < 2 ^ 31" "render fp strs cs args = Some t" "n = min (length t) (unat count - 1)"
  shows "vsnprintf fp nulls str count fmt args m =
    Some (of_nat (length (takeWhile (\<lambda>c. c \<noteq> 0) (take n t))), holds str t n m)"
proof -
  have pos: "0 < unat count" using assms(4) by (simp add: unat_gt_0)
  then have "0 < count" by (simp add: word_less_nat_alt)
  define m1 where "m1 = m(str := 0)"
  have m1: "m1 = snd (emit str count [0] (0, m))" using \<open>0 < count\<close> by (simp add: m1_def dopr_outch_def)
  define s0 where "s0 = \<lparr>d_ch = m1 fmt, d_state = DP_S_DEFAULT, d_format = fmt + 1, d_min = 0, d_max = - 1,
      d_flags = 0, d_cflags = DP_C_NONE, d_args = args, d_out = (0, m1)\<rparr>"
  have "cstr m1 fmt cs" using assms(1) cstr_emit [OF assms(2), of "[0]" "(0, m)"] by (simp only: m1 snd_conv)
  then have "at str count s0 cs" using assms(2) by (simp add: at_def s0_def)
  moreover have "strs_ok nulls str count strs (snd (d_out s0))"
    using strs_ok_emit [of nulls str count strs "(0, m)" "[0]"] assms(3) by (simp only: m1 s0_def snd_conv dopr_state.select_convs)
  ultimately obtain s1 where s1: "dopr_loop fp nulls str count s0 = Some s1" "d_out s1 = emit str count t (0, m1)"
    using dopr_loop_render [of str count s0 cs nulls strs fp t] assms(5,6) by (auto simp: s0_def)
  define k where "k = min (length t) (unat count)"
  have k: "d_out s1 = (of_nat k, mem_range str k (\<lambda>i. t ! i) m1)" using s1(2) by (simp add: emit_from_start k_def)
  have n: "n < 4294967295" "n \<le> length t" "k = n \<or> k = n + 1" using assms(5,7) pos by (auto simp: k_def)
  have uk: "unat (of_nat k :: u32) = k" using assms(5) by (intro u32_of_nat_unat) (auto simp: k_def)
  have uc: "unat (count - 1) = unat count - 1" using unat_Suc_pred [OF assms(4)] by simp
  have pos_n: "(if (of_nat k :: u32) < count - 1 then str + of_nat k else str + (count - 1)) = str + of_nat n"
  proof (cases "k < unat count - 1")
    case True
    then have "n = k" using assms(7) by (auto simp: k_def)
    then show ?thesis using True uk uc by (simp add: word_less_nat_alt)
  next
    case False
    then have "n = unat count - 1" using assms(7) by (auto simp: k_def)
    then have "of_nat n = (of_nat (unat (count - 1)) :: u32)" by (simp only: uc)
    then have "of_nat n = count - 1" by simp
    then show ?thesis using False uk uc by (simp add: word_less_nat_alt)
  qed
  have "dopr fp nulls str count fmt args m1 =
      Some ((mem_range str k (\<lambda>i. t ! i) m1)((if (of_nat k :: u32) < count - 1 then str + of_nat k else str + (count - 1)) := 0))"
    using s1(1) k by (simp add: dopr_def s0_def)
  also have "\<dots> = Some (holds str t n m)"
    unfolding pos_n m1_def using n(1,3) by (subst holds_terminated) auto
  finally show ?thesis
    using strlen_cstr [OF holds_string [OF n(2,1)]] by (simp add: vsnprintf_def m1_def)
qed

text \<open>
  C34. \<open>vsnprintf\<close> returns for every format that is defined (arguments of the right number and
  types, strings that end, no \<^verbatim>\<open>%n\<close>); the buffer then holds the text of the format, cut to
  \<open>count - 1\<close> characters, and a zero byte, no byte outside the buffer is written, and the
  result is the length of the string in the buffer.
\<close>

theorem vsnprintf_correct:
  assumes "cstr m fmt cs" "apart str count fmt (length cs)" "strs_ok nulls str count strs m"
    "count \<noteq> 0" "unat count < 2 ^ 31" "render fp strs cs args = Some t"
  shows "\<exists>m' n. vsnprintf fp nulls str count fmt args m = Some (n, m') \<and>
    cstr m' str (takeWhile (\<lambda>c. c \<noteq> 0) (take (unat count - 1) t)) \<and>
    unat n = length (takeWhile (\<lambda>c. c \<noteq> 0) (take (unat count - 1) t)) \<and>
    (\<forall>x. outside str count x \<longrightarrow> m' x = m x)"
proof -
  define n where "n = min (length t) (unat count - 1)"
  have n: "n \<le> length t" "n < 4294967295" "n + 1 \<le> unat count" "take n t = take (unat count - 1) t"
    using assms(4,5) unat_Suc_pred [OF assms(4)] by (auto simp: n_def min_def)
  have "length (takeWhile (\<lambda>c. c \<noteq> 0) (take n t)) \<le> n"
    using length_takeWhile_le [of _ "take n t"] n(1) by (metis length_take min.absorb2)
  then have "unat (of_nat (length (takeWhile (\<lambda>c. c \<noteq> 0) (take n t))) :: u32) = length (takeWhile (\<lambda>c. c \<noteq> 0) (take n t))"
    using n(2) by (intro u32_of_nat_unat) simp
  moreover have "holds str t n m x = m x" if "outside str count x" for x
    using that n(3) by (simp add: holds_def mem_range_def outside_def)
  ultimately show ?thesis
    using vsnprintf_render [OF assms n_def] holds_string [OF n(1,2), of str m] unfolding n(4) by blast
qed

section \<open>Single conversions\<close>

lemma uint_of_int_u32: "0 \<le> i \<Longrightarrow> i < 2 ^ 32 \<Longrightarrow> uint (word_of_int i :: u32) = i"
  by (simp add: unsigned_of_int take_bit_int_eq_self)

lemma unat_uminus_sint: "sint (v::u32) < 0 \<Longrightarrow> int (unat (- v)) = - sint v"
proof -
  assume neg: "sint v < 0"
  have b: "- (2 ^ 31) \<le> sint v" using sint_ge [of v] by simp
  have "- v = word_of_int (- sint v)" by simp
  moreover have "uint (word_of_int (- sint v) :: u32) = - sint v" using neg b by (intro uint_of_int_u32) simp_all
  ultimately have "uint (- v) = - sint v" by (simp only:)
  then show ?thesis by simp
qed

text \<open>
  Printed integers read back: without width and precision, \<open>fmtint\<close> prints a minus sign
  for a negative signed value (a plus sign or a space for others when the flags ask for it)
  and the digits of the absolute value, most significant first.
\<close>

theorem fmtint_reads_back:
  assumes "8 \<le> unat base" "unat base \<le> 16"
  shows "\<exists>sg ds. fmtint b ml v base 0 (- 1) flags ou = emit b ml (sg @ ds) ou \<and>
    int (number_of (unat base) ds) = (if has flags DP_F_UNSIGNED then uint v else \<bar>sint v\<bar>) \<and>
    sg = (if has flags DP_F_UNSIGNED then [] else sign_text (sign_char (sint v < 0) flags))"
proof -
  define neg where "neg \<longleftrightarrow> \<not> has flags DP_F_UNSIGNED \<and> sint v < 0"
  define ds where "ds = numeral_of (has flags DP_F_UP) (unat base) (unat (if neg then - v else v))"
  define sg where "sg = (if has flags DP_F_UNSIGNED then [] else sign_text (sign_char (sint v < 0) flags))"
  have "0 < length ds" unfolding ds_def by (subst numeral_of.simps) simp
  then have "int_text v base 0 (- 1) flags = sg @ ds"
    by (auto simp: int_text_def Let_def sg_def ds_def neg_def sign_text_def max_def)
  then have "fmtint b ml v base 0 (- 1) flags ou = emit b ml (sg @ ds) ou"
    using fmtint_emit [OF assms(1), of 0 "- 1"] by (simp add: int32_def)
  moreover have "int (number_of (unat base) ds) = (if has flags DP_F_UNSIGNED then uint v else \<bar>sint v\<bar>)"
  proof -
    have "number_of (unat base) ds = unat (if neg then - v else v)"
      unfolding ds_def using assms by (intro number_of_numeral) simp_all
    moreover have "uint v = sint v" if "0 \<le> sint v"
      using uint_of_int_u32 [OF that] sint_lt [of v] by simp
    ultimately show ?thesis using unat_uminus_sint [of v] by (auto simp: neg_def)
  qed
  ultimately show ?thesis using sg_def by blast
qed

text \<open>
  \<^verbatim>\<open>%p\<close> prints an address of the upper half of the address space, where the kernel is,
  as a negative number.
\<close>

theorem pointer_printed_negative:
  assumes "d_ch s = of_char (CHR ''p'')" "d_flags s = 0" "d_min s = 0" "d_max s = - 1" "d_args s = Word v # as" "sint v < 0"
  shows "dopr_conv fp nulls b ml s = Some (s\<lparr>d_args := as,
    d_out := emit b ml (of_char (CHR ''-'') # numeral_of False 16 (4294967296 - unat v)) (d_out s)\<rparr>)"
proof -
  have "v \<noteq> 0" using assms(6) by auto
  then have "unat (- v) = 4294967296 - unat v"
    using unat_sub_if_size [of 0 v] by (simp add: word_size unat_eq_zero)
  then have "int_text v 16 0 (- 1) 0 = of_char (CHR ''-'') # numeral_of False 16 (4294967296 - unat v)"
    using assms(6) by (simp add: int_text_def Let_def has_def sign_text_def sign_char_def max_def)
  moreover have "conv_base (to_char (d_ch s)) = Some (0, 16)" by (simp add: assms(1) to_char_def char_of_eq_iff conv_base_def)
  ultimately show ?thesis
    using dopr_conv_int [of s 0 16 fp nulls b ml] assms fmtint_emit [of 16 0 "- 1" b ml v 0]
    by (simp add: conv_int_def va_word_def int32_def Let_def)
qed

text \<open>
  \<open>fmtfp\<close> puts the zeros that the fraction has in front behind its digits: hundredths are
  printed as tenths (1.05 as 1.50).
\<close>

theorem fmtfp_hundredths_as_tenths:
  assumes "0 \<le> f" "f < 10"
  shows "fmtfp b ml \<lparr>fp_neg = False, fp_int = 1, fp_frac = (\<lambda>p. f)\<rparr> 0 2 0 ou =
    fmtfp b ml \<lparr>fp_neg = False, fp_int = 1, fp_frac = (\<lambda>p. 10 * f)\<rparr> 0 2 0 ou"
proof -
  have one: "fp_digits i = [hex_digit False (word_of_int i)]" if "0 \<le> i" "i < 10" for i
    using that by (simp add: fp_digits_def fconvert_loop.simps Let_def)
  have two: "fp_digits (10 * i) = [hex_digit False (word_of_int i), hex_digit False 0]" if "0 < i" "i < 10" for i
    using that by (simp add: fp_digits_def fconvert_loop.simps Let_def)
  show ?thesis
    using assms one [of 1] one [of f] two [of f]
    by (cases "f = 0") (simp_all add: fmtfp_emit int32_def fp_text_def has_def sign_char_def sign_text_def zeros_def hex_digit_def)
qed

section \<open>Concrete runs\<close>

text \<open>The format \<^verbatim>\<open>"%5u|%s"\<close> at \<open>0x1000\<close> and the string \<^verbatim>\<open>"ab"\<close> at \<open>0x2000\<close>.\<close>

definition example_format :: mem where
  "example_format = (\<lambda>x. if x = 0x1000 then 37 else if x = 0x1001 then 53 else if x = 0x1002 then 117
     else if x = 0x1003 then 124 else if x = 0x1004 then 37 else if x = 0x1005 then 115
     else if x = 0x2000 then 97 else if x = 0x2001 then 98 else 0)"

definition example_strs :: "u32 \<Rightarrow> u8 list option" where
  "example_strs v = (if v = 0x2000 then Some [97, 98] else None)"

definition no_fp :: "64 word \<Rightarrow> fpval" where
  "no_fp w = \<lparr>fp_neg = False, fp_int = 0, fp_frac = (\<lambda>_. 0)\<rparr>"

lemma example_text: "render no_fp example_strs [37, 53, 117, 124, 37, 115] [Word 42, Word 0x2000] = Some [32, 32, 32, 52, 50, 124, 97, 98]"
proof -
  note char = to_char_def char_of_eq_iff Let_def
  have num: "numeral_of False 10 42 = [52, 50]"
    by (simp add: numeral_of.simps [of False 10 42] numeral_of.simps [of False 10 4] hex_digit_def)
  have d1: "p_directive [53, 117, 124, 37, 115] as = Some (0, 5, - 1, [117, 124, 37, 115], as)" for as
    by (simp add: char p_directive_def flag_bit_def p_arg_def p_prec_def p_mod_def is_mod_def isdigit_def
      char_to_int_def s32_id int32_def)
  have d2: "p_directive [115] as = Some (0, 0, - 1, [115], as)" for as
    by (simp add: char p_directive_def flag_bit_def p_arg_def p_prec_def p_mod_def is_mod_def isdigit_def)
  have sp: "spaces 3 = [32, 32, 32]" by (simp add: spaces_def eval_nat_numeral)
  have c1: "conv_text no_fp example_strs 117 cs 0 5 (- 1) (Word 42 # as) = Some ([32, 32, 32, 52, 50], as, cs)" for cs as
    by (simp add: char conv_text_def conv_base_def int_text_def has_def DP_F_UNSIGNED_def DP_F_UP_def DP_F_ZERO_def
      DP_F_MINUS_def num sign_text_def sp max_def)
  have c2: "conv_text no_fp example_strs 115 cs 0 0 (- 1) (Word 0x2000 # as) = Some ([97, 98], as, cs)" for cs as
    by (simp add: char conv_text_def conv_base_def str_field_def has_def example_strs_def)
  show ?thesis by (simp add: render.simps char d1 d2 c1 c2)
qed

lemma vsnprintf_correct_witness:
  "\<exists>m' n. vsnprintf no_fp 0 0x3000 8 0x1000 [Word 42, Word 0x2000] example_format = Some (n, m') \<and>
     cstr m' 0x3000 [32, 32, 32, 52, 50, 124, 97] \<and> unat n = 7"
proof -
  have a: "apart 0x3000 8 0x1000 (length [37 :: u8, 53, 117, 124, 37, 115])" "apart 0x3000 8 0x2000 (length [97 :: u8, 98])"
    by (simp_all add: apart_Suc) (simp_all add: apart_def outside_def)
  have c: "cstr example_format 0x1000 [37, 53, 117, 124, 37, 115]" "cstr example_format 0x2000 [97, 98]"
    by (simp_all add: example_format_def)
  have strs: "strs_ok 0 0x3000 8 example_strs example_format"
    unfolding strs_ok_def example_strs_def using c(2) a(2) by (auto split: if_splits)
  have tx: "takeWhile (\<lambda>c. c \<noteq> 0) (take (unat (8 :: u32) - 1) [32, 32, 32, 52, 50, 124, 97, 98 :: u8]) = [32, 32, 32, 52, 50, 124, 97]"
    by simp
  have "\<exists>m' n. vsnprintf no_fp 0 0x3000 8 0x1000 [Word 42, Word 0x2000] example_format = Some (n, m') \<and>
      cstr m' 0x3000 [32, 32, 32, 52, 50, 124, 97] \<and> unat n = length [32 :: u8, 32, 32, 52, 50, 124, 97] \<and>
      (\<forall>x. outside 0x3000 8 x \<longrightarrow> m' x = example_format x)"
    using vsnprintf_correct [OF c(1) a(1) strs _ _ example_text] unfolding tx by simp
  then obtain m' n where "vsnprintf no_fp 0 0x3000 8 0x1000 [Word 42, Word 0x2000] example_format = Some (n, m')"
      "cstr m' 0x3000 [32, 32, 32, 52, 50, 124, 97]" "unat n = length [32 :: u8, 32, 32, 52, 50, 124, 97]" by blast
  then show ?thesis by simp
qed

lemma fmtint_reads_back_witness:
  "\<exists>sg ds. fmtint 0x3000 8 (- 42) 10 0 (- 1) 0 (0, example_format) = emit 0x3000 8 (sg @ ds) (0, example_format) \<and>
     number_of 10 ds = 42 \<and> sg = [45]"
  using fmtint_reads_back [of 10 "0x3000" 8 "- 42" 0 "(0, example_format)"]
  by (simp add: has_def sign_text_def sign_char_def)

lemma pointer_printed_negative_witness:
  "\<exists>s. d_out s = emit 0x3000 8 (of_char (CHR ''-'') # numeral_of False 16 0x3FF00000) (0, example_format) \<and>
     dopr_conv no_fp 0 0x3000 8 \<lparr>d_ch = of_char (CHR ''p''), d_state = DP_S_CONV, d_format = 0x1003, d_min = 0, d_max = - 1,
       d_flags = 0, d_cflags = DP_C_NONE, d_args = [Word 0xC0100000], d_out = (0, example_format)\<rparr> = Some s"
  using pointer_printed_negative [of "\<lparr>d_ch = of_char (CHR ''p''), d_state = DP_S_CONV, d_format = 0x1003, d_min = 0, d_max = - 1,
       d_flags = 0, d_cflags = DP_C_NONE, d_args = [Word 0xC0100000], d_out = (0, example_format)\<rparr>" "0xC0100000" "[]" no_fp 0 "0x3000" 8]
  by simp

lemma fmtfp_hundredths_as_tenths_witness:
  "fmtfp 0x3000 8 \<lparr>fp_neg = False, fp_int = 1, fp_frac = (\<lambda>p. 5)\<rparr> 0 2 0 (0, example_format) =
   fmtfp 0x3000 8 \<lparr>fp_neg = False, fp_int = 1, fp_frac = (\<lambda>p. 50)\<rparr> 0 2 0 (0, example_format)"
  using fmtfp_hundredths_as_tenths [of 5 "0x3000" 8 "(0, example_format)"] by simp

end
