(* ===== verification/Uart.thy ===== *)
theory Uart
  imports Dopr
begin

text \<open>
  Device registers and the serial line: \<^verbatim>\<open>kernel/uart.c\<close>, \<^verbatim>\<open>kernel/printk.c\<close> and \<open>sys_putchar\<close> of
  \<^verbatim>\<open>kernel/machdep.c\<close>. The devices are not part of the program. What a register reads as is
  a parameter of the model, a function of the time and of all that has been written before;
  register writes are recorded in their order. Waiting for a device is a loop that may not
  end; that it does end is what \<open>ready\<close> says of the device.
\<close>

section \<open>Registers\<close>

text \<open>\<open>clock\<close> counts the reads, so that a register may change between two of them.\<close>

record io =
  clock :: nat
  writes :: "(u32 \<times> u32) list"

type_synonym device = "u32 \<Rightarrow> io \<Rightarrow> u32"

definition mmio_write :: "u32 \<Rightarrow> u32 \<Rightarrow> io \<Rightarrow> io" where
  "mmio_write reg data s = s\<lparr>writes := writes s @ [(reg, data)]\<rparr>"

definition mmio_read :: "device \<Rightarrow> u32 \<Rightarrow> io \<Rightarrow> u32 \<times> io" where
  "mmio_read dev reg s = (dev reg s, s\<lparr>clock := clock s + 1\<rparr>)"

definition AUX_ENABLES :: u32 where "AUX_ENABLES = 0xC1215004"
definition AUX_MU_IO_REG :: u32 where "AUX_MU_IO_REG = 0xC1215040"
definition AUX_MU_IER_REG :: u32 where "AUX_MU_IER_REG = 0xC1215044"
definition AUX_MU_IIR_REG :: u32 where "AUX_MU_IIR_REG = 0xC1215048"
definition AUX_MU_LCR_REG :: u32 where "AUX_MU_LCR_REG = 0xC121504C"
definition AUX_MU_MCR_REG :: u32 where "AUX_MU_MCR_REG = 0xC1215050"
definition AUX_MU_LSR_REG :: u32 where "AUX_MU_LSR_REG = 0xC1215054"
definition AUX_MU_CNTL_REG :: u32 where "AUX_MU_CNTL_REG = 0xC1215060"
definition AUX_MU_BAUD_REG :: u32 where "AUX_MU_BAUD_REG = 0xC1215068"
definition GPFSEL1 :: u32 where "GPFSEL1 = 0xC1200004"
definition GPPUD :: u32 where "GPPUD = 0xC1200094"
definition GPPUDCLK0 :: u32 where "GPPUDCLK0 = 0xC1200098"
definition IRQ_DISABLE1 :: u32 where "IRQ_DISABLE1 = 0xC100B21C"
definition IRQ_ENABLE1 :: u32 where "IRQ_ENABLE1 = 0xC100B210"

lemmas uart_registers = AUX_ENABLES_def AUX_MU_IO_REG_def AUX_MU_IER_REG_def AUX_MU_IIR_REG_def AUX_MU_LCR_REG_def
  AUX_MU_MCR_REG_def AUX_MU_LSR_REG_def AUX_MU_CNTL_REG_def AUX_MU_BAUD_REG_def GPFSEL1_def GPPUD_def GPPUDCLK0_def
  IRQ_DISABLE1_def IRQ_ENABLE1_def

section \<open>The serial line\<close>

definition uart_init :: "device \<Rightarrow> io \<Rightarrow> io" where
  "uart_init dev s =
     (let s = mmio_write IRQ_DISABLE1 (push_bit 29 1) s;
          s = mmio_write AUX_ENABLES 1 s;
          s = mmio_write AUX_MU_IER_REG 0 s;
          s = mmio_write AUX_MU_CNTL_REG 0 s;
          s = mmio_write AUX_MU_LCR_REG 3 s;
          s = mmio_write AUX_MU_MCR_REG 0 s;
          s = mmio_write AUX_MU_IER_REG 5 s;
          s = mmio_write AUX_MU_IIR_REG 0xC6 s;
          s = mmio_write AUX_MU_BAUD_REG 3254 s;
          (ra, s) = mmio_read dev GPFSEL1 s;
          ra = ra AND NOT (push_bit 12 7);
          ra = ra OR push_bit 12 2;
          ra = ra AND NOT (push_bit 15 7);
          ra = ra OR push_bit 15 2;
          s = mmio_write GPFSEL1 ra s;
          s = mmio_write GPPUD 0 s;
          s = mmio_write GPPUDCLK0 (push_bit 14 1 OR push_bit 15 1) s;
          s = mmio_write GPPUDCLK0 0 s;
          s = mmio_write AUX_MU_CNTL_REG 3 s
      in mmio_write IRQ_ENABLE1 (push_bit 29 1) s)"

text \<open>\<open>while(1) { if(mmio_read(AUX_MU_LSR_REG)&bits) break; }\<close>\<close>

partial_function (option) uart_wait :: "device \<Rightarrow> u32 \<Rightarrow> io \<Rightarrow> io option" where
  "uart_wait dev bits s =
     (let (lsr, s) = mmio_read dev AUX_MU_LSR_REG s
      in if lsr AND bits \<noteq> 0 then Some s else uart_wait dev bits s)"

definition uart_putc :: "device \<Rightarrow> u32 \<Rightarrow> io \<Rightarrow> io option" where
  "uart_putc dev c s = map_option (mmio_write AUX_MU_IO_REG c) (uart_wait dev 0x20 s)"

definition uart_getc :: "device \<Rightarrow> io \<Rightarrow> (u8 \<times> io) option" where
  "uart_getc dev s = map_option (\<lambda>s. case mmio_read dev AUX_MU_IO_REG s of (v, s) \<Rightarrow> (ucast v, s)) (uart_wait dev 1 s)"

text \<open>The loop of \<open>uart_write\<close>, from \<open>i\<close> on; the one of \<open>printk\<close> is the same.\<close>

function uart_write_loop :: "device \<Rightarrow> mem \<Rightarrow> u32 \<Rightarrow> int \<Rightarrow> int \<Rightarrow> io \<Rightarrow> io option" where
  "uart_write_loop dev m buf n i s =
     (if i < n then
        case uart_putc dev (ucast (m (buf + word_of_int i))) s of
          None \<Rightarrow> None
        | Some s \<Rightarrow> uart_write_loop dev m buf n (i + 1) s
      else Some s)"
  by pat_completeness auto
termination
  by (relation "measure (\<lambda>(dev, m, buf, n, i, s). nat (n - i))") auto

declare uart_write_loop.simps [simp del]

definition uart_write :: "device \<Rightarrow> mem \<Rightarrow> u32 \<Rightarrow> int \<Rightarrow> io \<Rightarrow> io option" where
  "uart_write dev m buf n s = uart_write_loop dev m buf n 0 s"

definition uart_puts :: "device \<Rightarrow> mem \<Rightarrow> u32 \<Rightarrow> io \<Rightarrow> io option" where
  "uart_puts dev m str s =
     (case strlen str m of None \<Rightarrow> None | Some n \<Rightarrow> uart_write dev m str (sint n) s)"

definition sys_putchar :: "device \<Rightarrow> u32 \<Rightarrow> io \<Rightarrow> (u32 \<times> io) option" where
  "sys_putchar dev c s = map_option (Pair c) (uart_putc dev c s)"

text \<open>
  \<open>printk\<close>, with its buffer of 128 bytes at \<open>buf\<close> on the stack; \<open>fp\<close> and \<open>nulls\<close> are those of
  \<open>vsnprintf\<close>.
\<close>

definition printk :: "device \<Rightarrow> (64 word \<Rightarrow> fpval) \<Rightarrow> u32 \<Rightarrow> u32 \<Rightarrow> u32 \<Rightarrow> va list \<Rightarrow> mem \<times> io \<Rightarrow> (int \<times> mem \<times> io) option" where
  "printk dev fp nulls buf fmt args st =
     (case st of (m, s) \<Rightarrow>
       case vsnprintf fp nulls buf 128 fmt args m of
         None \<Rightarrow> None
       | Some (i, m) \<Rightarrow> map_option (\<lambda>s. (sint i, m, s)) (uart_write_loop dev m buf (sint i) 0 s))"

section \<open>Numbers as strings\<close>

text \<open>\<open>IntToString\<close> writes four digits, \<open>HexToString\<close> the prefix and eight digits; no zero byte.\<close>

function IntToString_loop :: "nat \<Rightarrow> u32 \<Rightarrow> u32 \<Rightarrow> mem \<Rightarrow> mem" where
  "IntToString_loop i v str m =
     (if i < 4 then IntToString_loop (i + 1) (v div 10) str (m(str + of_nat (3 - i) := ucast (v mod 10 + 48))) else m)"
  by pat_completeness auto
termination
  by (relation "measure (\<lambda>(i, v, str, m). 4 - i)") auto

definition IntToString :: "u32 \<Rightarrow> u32 \<Rightarrow> mem \<Rightarrow> mem" where
  "IntToString v str m = IntToString_loop 0 v str m"

function HexToString_loop :: "nat \<Rightarrow> u32 \<Rightarrow> u32 \<Rightarrow> mem \<Rightarrow> mem" where
  "HexToString_loop i v str m =
     (if i \<ge> 2 then
        let temp = v AND 0xF;
            c = (if temp \<le> 9 then 48 + temp else 65 + temp - 10)
        in HexToString_loop (i - 1) (drop_bit 4 v) str (m(str + of_nat i := ucast c))
      else m)"
  by pat_completeness auto
termination
  by (relation "measure (\<lambda>(i, v, str, m). i)") auto

definition HexToString :: "u32 \<Rightarrow> u32 \<Rightarrow> mem \<Rightarrow> mem" where
  "HexToString v str m = HexToString_loop 9 v str (m(str := 48, str + 1 := 120))"

declare IntToString_loop.simps [simp del] HexToString_loop.simps [simp del]

lemma sint_small: "n < 2147483648 \<Longrightarrow> sint (of_nat n :: u32) = int n"
proof -
  assume n: "n < 2147483648"
  then have "uint (of_nat n :: u32) = int n" using u32_of_nat_unat [of n] by (simp add: uint_nat)
  then show ?thesis using n by (simp add: sint_uint signed_take_bit_int_eq_self)
qed

section \<open>Waiting ends\<close>

text \<open>The status of the line shows a bit of \<open>bits\<close> again and again, whatever has been written.\<close>

definition ready :: "device \<Rightarrow> u32 \<Rightarrow> bool" where
  "ready dev bits \<longleftrightarrow> (\<forall>s. \<exists>k. dev AUX_MU_LSR_REG (s\<lparr>clock := clock s + k\<rparr>) AND bits \<noteq> 0)"

lemma uart_wait_returns:
  assumes "ready dev bits"
  obtains k where "uart_wait dev bits s = Some (s\<lparr>clock := clock s + k\<rparr>)"
proof -
  have "dev AUX_MU_LSR_REG (s\<lparr>clock := clock s + k\<rparr>) AND bits \<noteq> 0 \<Longrightarrow> \<exists>k. uart_wait dev bits s = Some (s\<lparr>clock := clock s + k\<rparr>)" for k s
  proof (induction k arbitrary: s)
    case 0
    then have "uart_wait dev bits s = Some (s\<lparr>clock := clock s + 1\<rparr>)"
      by (subst uart_wait.simps) (simp add: mmio_read_def)
    then show ?case by blast
  next
    case (Suc k)
    show ?case
    proof (cases "dev AUX_MU_LSR_REG s AND bits \<noteq> 0")
      case True
      then have "uart_wait dev bits s = Some (s\<lparr>clock := clock s + 1\<rparr>)"
        by (subst uart_wait.simps) (simp add: mmio_read_def)
      then show ?thesis by blast
    next
      case False
      let ?s = "s\<lparr>clock := clock s + 1\<rparr>"
      have "uart_wait dev bits s = uart_wait dev bits ?s"
        using False by (subst uart_wait.simps) (simp add: mmio_read_def)
      moreover obtain j where "uart_wait dev bits ?s = Some (?s\<lparr>clock := clock ?s + j\<rparr>)" using Suc.IH [of ?s] Suc.prems by auto
      ultimately have "uart_wait dev bits s = Some (s\<lparr>clock := clock s + Suc j\<rparr>)" by simp
      then show ?thesis by blast
    qed
  qed
  then show thesis using assms that unfolding ready_def by blast
qed

lemma uart_putc_returns:
  assumes "ready dev 0x20"
  obtains k where "uart_putc dev c s = Some \<lparr>clock = clock s + k, writes = writes s @ [(AUX_MU_IO_REG, c)]\<rparr>"
proof -
  obtain k where "uart_wait dev 0x20 s = Some (s\<lparr>clock := clock s + k\<rparr>)" using uart_wait_returns [OF assms] .
  then show thesis using that [of k] by (simp add: uart_putc_def mmio_write_def)
qed

text \<open>What is sent for a list of bytes.\<close>

definition sent :: "u8 list \<Rightarrow> (u32 \<times> u32) list" where
  "sent cs = map (\<lambda>c. (AUX_MU_IO_REG, ucast c)) cs"

lemma uart_write_loop_sends:
  assumes "ready dev 0x20" "\<And>j. j < length cs \<Longrightarrow> m (buf + word_of_int (i + int j)) = cs ! j" "n = i + int (length cs)"
  shows "\<exists>s'. uart_write_loop dev m buf n i s = Some s' \<and> writes s' = writes s @ sent cs"
  using assms(2,3)
proof (induction cs arbitrary: i s)
  case Nil
  then show ?case by (simp add: sent_def uart_write_loop.simps)
next
  case (Cons c cs)
  have c: "m (buf + word_of_int i) = c" using Cons.prems(1) [of 0] by simp
  obtain k where p: "uart_putc dev (ucast c) s = Some \<lparr>clock = clock s + k, writes = writes s @ [(AUX_MU_IO_REG, ucast c)]\<rparr>"
    using uart_putc_returns [OF assms(1)] .
  have "m (buf + word_of_int (i + 1 + int j)) = cs ! j" if "j < length cs" for j
    using Cons.prems(1) [of "Suc j"] that by (simp add: ac_simps)
  from Cons.IH [of "i + 1", OF this] obtain s' where
    "uart_write_loop dev m buf n (i + 1) \<lparr>clock = clock s + k, writes = writes s @ [(AUX_MU_IO_REG, ucast c)]\<rparr> = Some s'"
    "writes s' = (writes s @ [(AUX_MU_IO_REG, ucast c)]) @ sent cs"
    using Cons.prems(2) by fastforce
  then show ?case using p c Cons.prems(2) by (subst uart_write_loop.simps) (simp add: sent_def)
qed

section \<open>What is sent\<close>

text \<open>
  When the transmitter becomes ready again and again, \<open>uart_puts\<close> returns, and it has sent
  exactly the bytes of the string, in their order.
\<close>

theorem uart_puts_correct:
  assumes "ready dev 0x20" "cstr m str cs" "length cs < 2 ^ 31"
  shows "\<exists>s'. uart_puts dev m str s = Some s' \<and> writes s' = writes s @ sent cs"
proof -
  have n: "sint (of_nat (length cs) :: u32) = int (length cs)" using assms(3) by (simp add: sint_small)
  have "m (str + word_of_int (0 + int j)) = cs ! j" if "j < length cs" for j
    using cstr_nth [OF assms(2), of j] that by (simp add: nth_append)
  from uart_write_loop_sends [OF assms(1) this, of "int (length cs)" s] show ?thesis
    by (simp add: uart_puts_def uart_write_def strlen_cstr [OF assms(2)] n)
qed

lemma printk_sends:
  assumes "ready dev 0x20" "cstr m fmt cs" "apart buf 128 fmt (length cs)" "strs_ok nulls buf 128 strs m"
    "render fp strs cs args = Some t"
  defines "w \<equiv> takeWhile (\<lambda>c. c \<noteq> 0) (take 127 t)"
  shows "\<exists>m' s'. printk dev fp nulls buf fmt args (m, s) = Some (int (length w), m', s') \<and> writes s' = writes s @ sent w \<and>
    (\<forall>x. outside buf 128 x \<longrightarrow> m' x = m x)"
proof -
  define n where "n = min (length t) (unat (128 :: u32) - 1)"
  have n: "n \<le> length t" "n < 4294967295" "n < 128" "take n t = take 127 t" by (auto simp: n_def min_def)
  have v: "vsnprintf fp nulls buf 128 fmt args m = Some (of_nat (length w), holds buf t n m)"
    using vsnprintf_render [OF assms(2-4) _ _ assms(5) n_def] unfolding w_def n(4) by simp
  have h: "cstr (holds buf t n m) buf w" using holds_string [OF n(1,2), of buf m] unfolding w_def n(4) .
  have "length w \<le> 127" using length_takeWhile_le [of _ "take 127 t"] unfolding w_def by (metis length_take min.cobounded2 order_trans)
  then have l: "sint (of_nat (length w) :: u32) = int (length w)" by (simp add: sint_small)
  have "holds buf t n m (buf + word_of_int (0 + int j)) = w ! j" if "j < length w" for j
    using cstr_nth [OF h, of j] that by (simp add: nth_append)
  from uart_write_loop_sends [OF assms(1) this, of "int (length w)" s] obtain s' where
    "uart_write_loop dev (holds buf t n m) buf (int (length w)) 0 s = Some s'" "writes s' = writes s @ sent w" by auto
  moreover have "holds buf t n m x = m x" if "outside buf 128 x" for x
    using that n(3) by (simp add: holds_def mem_range_def outside_def)
  ultimately show ?thesis by (simp add: printk_def v l)
qed

text \<open>
  C36. \<open>printk\<close> of a defined format returns when the transmitter becomes ready again and again.
  It has then sent the text of the format, cut to 127 characters or before its first zero
  byte, returns how many characters that were, and has changed no memory but its buffer.
\<close>

theorem printk_correct:
  assumes "ready dev 0x20" "cstr m fmt cs" "apart buf 128 fmt (length cs)" "strs_ok nulls buf 128 strs m"
    "render fp strs cs args = Some t"
  defines "w \<equiv> takeWhile (\<lambda>c. c \<noteq> 0) (take 127 t)"
  shows "\<exists>m' s'. printk dev fp nulls buf fmt args (m, s) = Some (int (length w), m', s') \<and> writes s' = writes s @ sent w \<and>
    (\<forall>x. outside buf 128 x \<longrightarrow> m' x = m x)"
  unfolding w_def by (rule printk_sends [OF assms(1-5)])

section \<open>Reading the numbers back\<close>

lemma number_of_digits:
  assumes "0 < b" "\<And>d. d < b \<Longrightarrow> digit_value (f d) = d"
  shows "number_of b (map (\<lambda>i. f (v div b ^ (k - 1 - i) mod b)) [0..<k]) = v mod b ^ k"
proof (induction k arbitrary: v)
  case (Suc k)
  have "v div b ^ (k - i) = v div b div b ^ (k - 1 - i)" if "i < k" for i
  proof -
    have "k - i = Suc (k - 1 - i)" using that by simp
    then show ?thesis by (simp only: power_Suc div_mult2_eq)
  qed
  then have eq: "map (\<lambda>i. f (v div b ^ (k - i) mod b)) [0..<k] = map (\<lambda>i. f (v div b div b ^ (k - 1 - i) mod b)) [0..<k]"
    by (intro map_cong) simp_all
  then have "number_of b (map (\<lambda>i. f (v div b ^ (Suc k - 1 - i) mod b)) [0..<Suc k]) = v div b mod b ^ k * b + v mod b"
    using Suc.IH [of "v div b"] assms by (simp add: number_of_def eq)
  then show ?case by (simp add: mod_mult2_eq mult.commute)
qed (simp add: number_of_def)

definition digit_char :: "nat \<Rightarrow> u8" where
  "digit_char d = of_nat (if d < 10 then d + 48 else d + 55)"

lemma digit_char: "d < 16 \<Longrightarrow> digit_value (digit_char d) = d"
  by (simp add: digit_value_def digit_char_def unat_of_nat)

lemma word_digits:
  "unat (v AND 0xF :: u32) = unat v mod 16" "ucast (v mod 10 + 48 :: u32) = digit_char (unat v mod 10)"
  "ucast (if v AND 0xF \<le> 9 then 48 + (v AND 0xF) else 65 + (v AND 0xF) - 10 :: u32) = digit_char (unat v mod 16)"
proof -
  have "(0xF :: u32) = mask 4" by (simp add: mask_eq_exp_minus_1)
  then have "v AND 0xF = take_bit 4 v" by (simp only: take_bit_eq_mask)
  then show m: "unat (v AND 0xF) = unat v mod 16" by (simp add: take_bit_eq_mod unat_mod)
  have d: "(ucast x :: u8) = of_nat (unat x)" for x :: u32 by simp
  have "unat (v mod 10 + 48) = unat v mod 10 + 48" by (subst unat_add_no_wrap) (simp_all add: unat_mod)
  then show "ucast (v mod 10 + 48 :: u32) = digit_char (unat v mod 10)" unfolding d digit_char_def by simp
  let ?t = "v AND 0xF"
  have t: "unat ?t < 16" unfolding m by simp
  have a: "unat (48 + ?t) = unat ?t + 48" using t by (subst unat_add_no_wrap) simp_all
  have "65 + ?t - 10 = ?t + 55" by simp
  then have b: "unat (65 + ?t - 10) = unat ?t + 55" using t by (simp only:) (subst unat_add_no_wrap, simp_all)
  show "ucast (if ?t \<le> 9 then 48 + ?t else 65 + ?t - 10) = digit_char (unat v mod 16)"
  proof (cases "unat ?t < 10")
    case True
    then have "?t \<le> 9" by (simp add: word_le_nat_alt)
    then show ?thesis using True unfolding d digit_char_def m [symmetric] by (simp only: if_True a)
  next
    case False
    then have "\<not> ?t \<le> 9" by (simp add: word_le_nat_alt)
    then show ?thesis using False unfolding d digit_char_def m [symmetric] by (simp only: if_False b)
  qed
qed

lemma IntToString_loop_bytes:
  "i \<le> 4 \<Longrightarrow> IntToString_loop i v str m =
     (\<lambda>x. if unat (x - str) < 4 - i then digit_char (unat v div 10 ^ (3 - i - unat (x - str)) mod 10) else m x)"
proof (induction i v str m rule: IntToString_loop.induct)
  case (1 i v str m)
  show ?case
  proof (cases "i < 4")
    case True
    define m' where "m' = m(str + of_nat (3 - i) := ucast (v mod 10 + 48))"
    have at: "x = str + of_nat (3 - i) \<longleftrightarrow> unat (x - str) = 3 - i" for x by (rule offset_eq) (use True in simp)
    have m': "m' x = (if unat (x - str) = 3 - i then digit_char (unat v mod 10) else m x)" for x
      unfolding m'_def using at [of x] word_digits(2) [of v] by (simp only: fun_upd_apply)
    have "IntToString_loop (i + 1) (v div 10) str m' =
      (\<lambda>x. if unat (x - str) < 4 - (i + 1) then digit_char (unat (v div 10) div 10 ^ (3 - (i + 1) - unat (x - str)) mod 10) else m' x)"
      using 1(1) [OF True, folded m'_def] True by simp
    moreover have "unat v div 10 ^ (3 - i - j) = unat (v div 10) div 10 ^ (3 - (i + 1) - j)" if "j < 3 - i" for j
    proof -
      have "3 - i - j = Suc (3 - (i + 1) - j)" using that by simp
      then show ?thesis by (simp only: power_Suc div_mult2_eq unat_div) simp
    qed
    ultimately have "IntToString_loop (i + 1) (v div 10) str m' =
      (\<lambda>x. if unat (x - str) < 4 - i then digit_char (unat v div 10 ^ (3 - i - unat (x - str)) mod 10) else m x)"
      using True by (auto simp: m' fun_eq_iff)
    then show ?thesis using True by (subst IntToString_loop.simps) (simp only: if_True m'_def)
  qed (simp add: IntToString_loop.simps)
qed

lemma HexToString_loop_bytes:
  "i \<le> 9 \<Longrightarrow> HexToString_loop i v str m =
     (\<lambda>x. if 2 \<le> unat (x - str) \<and> unat (x - str) \<le> i then digit_char (unat v div 16 ^ (i - unat (x - str)) mod 16) else m x)"
proof (induction i v str m rule: HexToString_loop.induct)
  case (1 i v str m)
  show ?case
  proof (cases "2 \<le> i")
    case True
    define m' where "m' = m(str + of_nat i := ucast (if v AND 0xF \<le> 9 then 48 + (v AND 0xF) else 65 + (v AND 0xF) - 10))"
    have at: "x = str + of_nat i \<longleftrightarrow> unat (x - str) = i" for x by (rule offset_eq) (use 1 in simp)
    have m': "m' x = (if unat (x - str) = i then digit_char (unat v mod 16) else m x)" for x
      unfolding m'_def using at [of x] word_digits(3) [of v] by (simp only: fun_upd_apply)
    have "HexToString_loop (i - 1) (drop_bit 4 v) str m' =
      (\<lambda>x. if 2 \<le> unat (x - str) \<and> unat (x - str) \<le> i - 1 then digit_char (unat (drop_bit 4 v) div 16 ^ (i - 1 - unat (x - str)) mod 16) else m' x)"
      using 1(1) [OF True refl refl, folded m'_def] 1(2) by simp
    moreover have "unat v div 16 ^ (i - j) = unat (drop_bit 4 v) div 16 ^ (i - 1 - j)" if "j \<le> i - 1" for j
    proof -
      have "i - j = Suc (i - 1 - j)" using that True by simp
      then show ?thesis by (simp only: power_Suc div_mult2_eq) (simp add: drop_bit_eq_div unat_div)
    qed
    ultimately have "HexToString_loop (i - 1) (drop_bit 4 v) str m' =
      (\<lambda>x. if 2 \<le> unat (x - str) \<and> unat (x - str) \<le> i then digit_char (unat v div 16 ^ (i - unat (x - str)) mod 16) else m x)"
      using True by (auto simp: m' fun_eq_iff)
    then show ?thesis using True by (subst HexToString_loop.simps) (simp only: if_True m'_def Let_def)
  qed (auto simp: HexToString_loop.simps fun_eq_iff)
qed

text \<open>
  \<open>HexToString\<close> writes the numeral of a word: its eight digits read back as the word, behind
  the characters \<open>0x\<close>. \<open>IntToString\<close> has four digits only, which read back as the number
  modulo 10000. Neither writes any other byte, a terminating zero included.
\<close>

theorem number_strings_read_back:
  "number_of 16 (map (\<lambda>i. HexToString v str m (str + of_nat (2 + i))) [0..<8]) = unat v \<and>
   HexToString v str m str = 48 \<and> HexToString v str m (str + 1) = 120 \<and>
   number_of 10 (map (\<lambda>i. IntToString v str m (str + of_nat i)) [0..<4]) = unat v mod 10000 \<and>
   (10 \<le> x - str \<longrightarrow> HexToString v str m x = m x) \<and> (4 \<le> x - str \<longrightarrow> IntToString v str m x = m x)"
proof -
  have off: "unat (str + of_nat j - str) = j" if "j < 10" for j using that by (simp add: u32_of_nat_unat)
  have h: "HexToString v str m = (\<lambda>x. if 2 \<le> unat (x - str) \<and> unat (x - str) \<le> 9
      then digit_char (unat v div 16 ^ (9 - unat (x - str)) mod 16) else (m(str := 48, str + 1 := 120)) x)"
    unfolding HexToString_def by (rule HexToString_loop_bytes) simp
  have d: "IntToString v str m = (\<lambda>x. if unat (x - str) < 4 then digit_char (unat v div 10 ^ (3 - unat (x - str)) mod 10) else m x)"
    using IntToString_loop_bytes [of 0 v str m, unfolded diff_zero] by (simp add: IntToString_def)
  have hs: "map (\<lambda>i. HexToString v str m (str + of_nat (2 + i))) [0..<8] = map (\<lambda>i. digit_char (unat v div 16 ^ (8 - 1 - i) mod 16)) [0..<8]"
  proof (rule map_cong [OF refl])
    fix i assume "i \<in> set [0..<8]"
    then have i: "i < 8" by simp
    have u: "unat (str + of_nat (2 + i) - str) = 2 + i" by (rule off) (use i in simp)
    show "HexToString v str m (str + of_nat (2 + i)) = digit_char (unat v div 16 ^ (8 - 1 - i) mod 16)"
      unfolding h u using i by simp
  qed
  have hx: "number_of 16 (map (\<lambda>i. HexToString v str m (str + of_nat (2 + i))) [0..<8]) = unat v"
    unfolding hs using number_of_digits [of 16 digit_char "unat v" 8] digit_char u32_unat_bound [of v] by simp
  have ds: "map (\<lambda>i. IntToString v str m (str + of_nat i)) [0..<4] = map (\<lambda>i. digit_char (unat v div 10 ^ (4 - 1 - i) mod 10)) [0..<4]"
  proof (rule map_cong [OF refl])
    fix i assume "i \<in> set [0..<4]"
    then have i: "i < 4" by simp
    have u: "unat (str + of_nat i - str) = i" by (rule off) (use i in simp)
    show "IntToString v str m (str + of_nat i) = digit_char (unat v div 10 ^ (4 - 1 - i) mod 10)"
      unfolding d u using i by simp
  qed
  moreover have "number_of 10 (map (\<lambda>i. IntToString v str m (str + of_nat i)) [0..<4]) = unat v mod 10000"
    unfolding ds using number_of_digits [of 10 digit_char "unat v" 4] digit_char by simp
  moreover have "HexToString v str m x = m x" if "10 \<le> x - str"
  proof -
    have "x \<noteq> str" "x \<noteq> str + 1" using that by (auto simp: word_le_nat_alt)
    then show ?thesis using that unfolding h by (simp add: word_le_nat_alt)
  qed
  moreover have "IntToString v str m x = m x" if "4 \<le> x - str" using that unfolding d by (simp add: word_le_nat_alt)
  moreover have "HexToString v str m str = 48" "HexToString v str m (str + 1) = 120" unfolding h by simp_all
  ultimately show ?thesis using hx by blast
qed

theorem number_strings_read_back_witness:
  "number_of 16 (map (\<lambda>i. HexToString 0xDEADBEEF 0x3000 example_format (0x3000 + of_nat (2 + i))) [0..<8]) = 0xDEADBEEF \<and>
   HexToString 0xDEADBEEF 0x3000 example_format 0x3800 = 0 \<and> IntToString 12345 0x3000 example_format 0x3800 = 0"
  using number_strings_read_back [of "0xDEADBEEF" "0x3000" example_format "0x3800"]
    number_strings_read_back [of 12345 "0x3000" example_format "0x3800"] by (simp add: example_format_def)

section \<open>Initialisation of the line\<close>

lemma numeral_bits: "bit (7 :: u32) i \<longleftrightarrow> i < 3" "bit (2 :: u32) i \<longleftrightarrow> i = 1"
proof -
  have m: "(7 :: u32) = mask 3" by (simp add: mask_eq_exp_minus_1)
  show "bit (7 :: u32) i \<longleftrightarrow> i < 3" unfolding m by (auto simp: bit_mask_iff)
  show "bit (2 :: u32) i \<longleftrightarrow> i = 1" using bit_push_bit_iff [of 1 "1 :: u32" i] by (cases "i < 32") (auto simp: bit_1_iff dest: bit_imp_le_length)
qed

lemma pin_functions:
  assumes "\<And>j. bit a j \<longleftrightarrow> j < 3" "\<And>j. bit b j \<longleftrightarrow> j = 1"
  shows "bit (((ra AND NOT (push_bit 12 a)) OR push_bit 12 b) AND NOT (push_bit 15 a) OR push_bit 15 b :: u32) i \<longleftrightarrow>
    (if 12 \<le> i \<and> i < 18 then i = 13 \<or> i = 16 else bit ra i)"
proof (cases "i < 32")
  case True
  have "i - 12 < 3 \<longleftrightarrow> i < 15" "i - 15 < 3 \<longleftrightarrow> i < 18" "i - 12 = 1 \<longleftrightarrow> i = 13" "i - 15 = 1 \<longleftrightarrow> i = 16" by auto
  then show ?thesis using True by (auto simp: bit_or_iff bit_and_iff bit_not_iff bit_push_bit_iff assms)
qed (auto dest: bit_imp_le_length)

text \<open>
  \<open>uart_init\<close> programs the line while its receiver and transmitter are off: 8 bits, 9600
  baud, the receive interrupt, and the pins 14 and 15 as the line's (function 2), without a
  change of the functions of the other pins. Then it turns the line on and its interrupt.
\<close>

theorem uart_init_correct:
  defines "setup \<equiv> [(IRQ_DISABLE1, 0x20000000), (AUX_ENABLES, 1), (AUX_MU_IER_REG, 0), (AUX_MU_CNTL_REG, 0),
      (AUX_MU_LCR_REG, 3), (AUX_MU_MCR_REG, 0), (AUX_MU_IER_REG, 5), (AUX_MU_IIR_REG, 0xC6),
      (AUX_MU_BAUD_REG, 250000000 div (8 * 9600) - 1)]"
  shows "\<exists>ra. writes (uart_init dev s) = writes s @ setup @
      [(GPFSEL1, ra), (GPPUD, 0), (GPPUDCLK0, 0xC000), (GPPUDCLK0, 0), (AUX_MU_CNTL_REG, 3), (IRQ_ENABLE1, 0x20000000)] \<and>
    (\<forall>i. bit ra i \<longleftrightarrow> (if 12 \<le> i \<and> i < 18 then i = 13 \<or> i = 16 else bit (dev GPFSEL1 (s\<lparr>writes := writes s @ setup\<rparr>)) i))"
proof -
  define ra where "ra = dev GPFSEL1 (s\<lparr>writes := writes s @ setup\<rparr>)"
  have "bit (((ra AND NOT (push_bit 12 7)) OR push_bit 12 2) AND NOT (push_bit 15 7) OR push_bit 15 2) i \<longleftrightarrow>
      (if 12 \<le> i \<and> i < 18 then i = 13 \<or> i = 16 else bit ra i)" for i
    by (rule pin_functions [OF numeral_bits])
  moreover have "writes (uart_init dev s) = writes s @ setup @
      [(GPFSEL1, ((ra AND NOT (push_bit 12 7)) OR push_bit 12 2) AND NOT (push_bit 15 7) OR push_bit 15 2),
       (GPPUD, 0), (GPPUDCLK0, 0xC000), (GPPUDCLK0, 0), (AUX_MU_CNTL_REG, 3), (IRQ_ENABLE1, 0x20000000)]"
    by (simp add: uart_init_def mmio_write_def mmio_read_def ra_def setup_def Let_def)
  ultimately show ?thesis unfolding ra_def by blast
qed

section \<open>Concrete runs\<close>

text \<open>A line that is ready at every other look.\<close>

definition lazy_line :: device where
  "lazy_line r s = (if r = AUX_MU_LSR_REG \<and> odd (clock s) then 0x21 else 0)"

lemma ready_lazy_line: "ready lazy_line 0x20"
  unfolding ready_def
proof
  fix s :: io
  have "odd (clock s + (if odd (clock s) then 0 else 1))" by simp
  then have "lazy_line AUX_MU_LSR_REG (s\<lparr>clock := clock s + (if odd (clock s) then 0 else 1)\<rparr>) AND 0x20 \<noteq> 0"
    by (simp add: lazy_line_def del: odd_add)
  then show "\<exists>k. lazy_line AUX_MU_LSR_REG (s\<lparr>clock := clock s + k\<rparr>) AND 0x20 \<noteq> 0" by blast
qed

lemma example_format_cstr: "cstr example_format 0x1000 [37, 53, 117, 124, 37, 115]" "cstr example_format 0x2000 [97, 98]"
  by (simp_all add: example_format_def)

theorem uart_puts_correct_witness:
  "\<exists>s'. uart_puts lazy_line example_format 0x2000 \<lparr>clock = 0, writes = []\<rparr> = Some s' \<and>
     writes s' = [(0xC1215040, 97), (0xC1215040, 98)]"
  using uart_puts_correct [OF ready_lazy_line example_format_cstr(2), of "\<lparr>clock = 0, writes = []\<rparr>"]
  by (simp add: sent_def AUX_MU_IO_REG_def)

theorem printk_correct_witness:
  "\<exists>m' s'. printk lazy_line no_fp 0 0x3000 0x1000 [Word 42, Word 0x2000] (example_format, \<lparr>clock = 0, writes = []\<rparr>) = Some (8, m', s') \<and>
     map snd (writes s') = [32, 32, 32, 52, 50, 124, 97, 98]"
proof -
  have a: "apart 0x3000 128 0x1000 (length [37 :: u8, 53, 117, 124, 37, 115])" "apart 0x3000 128 0x2000 (length [97 :: u8, 98])"
    by (simp_all add: apart_Suc) (simp_all add: apart_def outside_def)
  have strs: "strs_ok 0 0x3000 128 example_strs example_format"
    unfolding strs_ok_def example_strs_def using example_format_cstr(2) a(2) by (auto split: if_splits)
  from printk_correct [OF ready_lazy_line example_format_cstr(1) a(1) strs example_text, of "\<lparr>clock = 0, writes = []\<rparr>"] show ?thesis
    by (auto simp: sent_def)
qed

end
