(* ===== verification/Tcb.thy ===== *)
theory Tcb
  imports LinkedList Paging Memset
begin

text \<open>
  The threads of \<^verbatim>\<open>kernel/task.c\<close> (from \<^verbatim>\<open>schedule\<close> on): a linked list of thread control
  blocks, a queue of waiting threads per thread, and the system calls on them. Blocks and
  queue nodes live in heaps of their own; the memory that stacks are pushed to is that of
  \<^verbatim>\<open>Memory\<close>; \<^verbatim>\<open>kmalloc\<close> and \<^verbatim>\<open>kfree\<close> are arguments. The call of \<^verbatim>\<open>switch_to\<close> is commented
  out in the code, so no operation gives the processor to another thread.
\<close>

section \<open>State\<close>

record tcb =
  t_kstack :: u32
  t_tid :: u32
  t_state :: u32
  t_timeslice :: u32
  t_code_exit :: u32
  t_wq_exit :: u32
  t_next :: u32
  t_signature :: u32

record wait_queue =
  w_tsk :: u32
  w_next :: u32

record 'h threads =
  tcbs :: "u32 \<Rightarrow> tcb"
  wqs :: "u32 \<Rightarrow> wait_queue"
  g_resched :: bool
  g_task_head :: u32
  g_task_running :: u32
  task0 :: u32
  g_task_own_fpu :: u32
  next_tid :: u32
  th_mem :: mem
  th_alloc :: 'h

definition TASK_STATE_WAITING :: u32 where "TASK_STATE_WAITING = - 1"
definition TASK_STATE_READY :: u32 where "TASK_STATE_READY = 1"
definition TASK_STATE_ZOMBIE :: u32 where "TASK_STATE_ZOMBIE = 2"
definition TASK_TIMESLICE_DEFAULT :: u32 where "TASK_TIMESLICE_DEFAULT = 4"
definition TASK_SIGNATURE :: u32 where "TASK_SIGNATURE = 0x20160201"

definition get_t_next :: "(u32 \<Rightarrow> tcb) \<Rightarrow> u32 \<Rightarrow> u32" where
  "get_t_next h a = t_next (h a)"

definition set_t_next :: "u32 \<Rightarrow> u32 \<Rightarrow> (u32 \<Rightarrow> tcb) \<Rightarrow> (u32 \<Rightarrow> tcb)" where
  "set_t_next a b h = h(a := (h a)\<lparr>t_next := b\<rparr>)"

definition get_w_next :: "(u32 \<Rightarrow> wait_queue) \<Rightarrow> u32 \<Rightarrow> u32" where
  "get_w_next h a = w_next (h a)"

definition set_w_next :: "u32 \<Rightarrow> u32 \<Rightarrow> (u32 \<Rightarrow> wait_queue) \<Rightarrow> (u32 \<Rightarrow> wait_queue)" where
  "set_w_next a b h = h(a := (h a)\<lparr>w_next := b\<rparr>)"

interpretation tcb: next_field get_t_next set_t_next
  by unfold_locales (simp add: get_t_next_def set_t_next_def)

interpretation wq: next_field get_w_next set_w_next
  by unfold_locales (simp add: get_w_next_def set_w_next_def)

definition set_t_state :: "u32 \<Rightarrow> u32 \<Rightarrow> 'h threads \<Rightarrow> 'h threads" where
  "set_t_state t v s = s\<lparr>tcbs := (tcbs s)(t := (tcbs s t)\<lparr>t_state := v\<rparr>)\<rparr>"

section \<open>The scheduler\<close>

text \<open>The thread \<open>schedule\<close> would switch to; \<open>None\<close> when its search does not end.\<close>

partial_function (option) select_loop :: "'h threads \<Rightarrow> u32 \<Rightarrow> u32 option" where
  "select_loop s sel =
     (let sel = get_t_next (tcbs s) sel;
          sel = (if sel = NULL then g_task_head s else sel)
      in if sel = g_task_running s then Some sel
         else if t_tid (tcbs s sel) \<noteq> 0 \<and> t_state (tcbs s sel) = TASK_STATE_READY then Some sel
         else select_loop s sel)"

definition schedule :: "'h threads \<Rightarrow> (u32 \<times> 'h threads) option" where
  "schedule s =
     (case select_loop s (g_task_running s) of
        None \<Rightarrow> None
      | Some sel \<Rightarrow>
          if sel = g_task_running s then
            if t_state (tcbs s sel) = TASK_STATE_READY then Some (sel, s)
            else Some (task0 s, s\<lparr>g_resched := False\<rparr>)
          else Some (sel, s\<lparr>g_resched := False\<rparr>))"

section \<open>Waiting\<close>

text \<open>
  \<open>sleep_on(&t->wq_exit)\<close>: every queue of the program is the field of a thread. \<open>w\<close> is the
  address of the local variable \<^verbatim>\<open>wait\<close>; the last loop takes it out of the queue again.
\<close>

definition set_wq_exit :: "u32 \<Rightarrow> u32 \<Rightarrow> 'h threads \<Rightarrow> 'h threads" where
  "set_wq_exit t q s = s\<lparr>tcbs := (tcbs s)(t := (tcbs s t)\<lparr>t_wq_exit := q\<rparr>)\<rparr>"

partial_function (option) unwait_loop :: "u32 \<Rightarrow> u32 \<Rightarrow> 'h threads \<Rightarrow> 'h threads option" where
  "unwait_loop w p s =
     (let q = p; p = get_w_next (wqs s) p
      in if p = w then Some (s\<lparr>wqs := set_w_next q (get_w_next (wqs s) p) (wqs s)\<rparr>)
         else if p \<noteq> NULL then unwait_loop w p s else Some s)"

definition sleep_on :: "u32 \<Rightarrow> u32 \<Rightarrow> 'h threads \<Rightarrow> 'h threads option" where
  "sleep_on w t s =
     (let s = s\<lparr>wqs := (wqs s)(w := \<lparr>w_tsk = g_task_running s, w_next = t_wq_exit (tcbs s t)\<rparr>)\<rparr>;
          s = set_wq_exit t w s;
          s = set_t_state (g_task_running s) TASK_STATE_WAITING s
      in case schedule s of
           None \<Rightarrow> None
         | Some (sel, s) \<Rightarrow>
             if t_wq_exit (tcbs s t) = w then Some (set_wq_exit t (get_w_next (wqs s) w) s)
             else unwait_loop w (t_wq_exit (tcbs s t)) s)"

partial_function (option) wake_up_loop :: "u32 \<Rightarrow> u32 \<Rightarrow> 'h threads \<Rightarrow> 'h threads option" where
  "wake_up_loop p n s =
     (if p \<noteq> NULL \<and> n \<noteq> 0
      then wake_up_loop (get_w_next (wqs s) p) (n - 1) (set_t_state (w_tsk (wqs s p)) TASK_STATE_READY s)
      else Some s)"

definition wake_up :: "u32 \<Rightarrow> u32 \<Rightarrow> 'h threads \<Rightarrow> 'h threads option" where
  "wake_up t n s = wake_up_loop (t_wq_exit (tcbs s t)) n s"

section \<open>The list of threads\<close>

partial_function (option) last_task :: "(u32 \<Rightarrow> tcb) \<Rightarrow> u32 \<Rightarrow> u32 option" where
  "last_task h p = (let q = p; p = get_t_next h p in if p \<noteq> NULL then last_task h p else Some q)"

definition add_task :: "u32 \<Rightarrow> 'h threads \<Rightarrow> 'h threads option" where
  "add_task tsk s =
     (if g_task_head s = NULL then Some (s\<lparr>g_task_head := tsk\<rparr>)
      else case last_task (tcbs s) (g_task_head s) of
             None \<Rightarrow> None
           | Some q \<Rightarrow> Some (s\<lparr>tcbs := set_t_next q tsk (tcbs s)\<rparr>))"

text \<open>The search of \<open>remove_task\<close> for the predecessor: the pair \<open>(p, q)\<close> it leaves the loop with.\<close>

partial_function (option) remove_loop :: "(u32 \<Rightarrow> tcb) \<Rightarrow> u32 \<Rightarrow> u32 \<Rightarrow> (u32 \<times> u32) option" where
  "remove_loop h tsk p =
     (let q = p; p = get_t_next h p
      in if p = tsk then Some (p, q) else if p \<noteq> NULL then remove_loop h tsk p else Some (p, q))"

definition remove_task :: "u32 \<Rightarrow> 'h threads \<Rightarrow> 'h threads option" where
  "remove_task tsk s =
     (if g_task_head s \<noteq> NULL then
        if tsk = g_task_head s then Some (s\<lparr>g_task_head := get_t_next (tcbs s) (g_task_head s)\<rparr>)
        else case remove_loop (tcbs s) tsk (g_task_head s) of
               None \<Rightarrow> None
             | Some (p, q) \<Rightarrow>
                 if p = tsk then Some (s\<lparr>tcbs := set_t_next q (get_t_next (tcbs s) p) (tcbs s)\<rparr>) else Some s
      else Some s)"

partial_function (option) get_task_loop :: "(u32 \<Rightarrow> tcb) \<Rightarrow> u32 \<Rightarrow> u32 \<Rightarrow> u32 option" where
  "get_task_loop h tid tsk =
     (if tsk \<noteq> NULL then if t_tid (h tsk) = tid then Some tsk else get_task_loop h tid (get_t_next h tsk)
      else Some tsk)"

definition get_task :: "u32 \<Rightarrow> 'h threads \<Rightarrow> u32 option" where
  "get_task tid s = get_task_loop (tcbs s) tid (g_task_head s)"

section \<open>System calls\<close>

text \<open>\<open>STACK_PUSH\<close>, on a stack pointer and the memory.\<close>

definition STACK_PUSH :: "u32 \<Rightarrow> u32 \<times> mem \<Rightarrow> u32 \<times> mem" where
  "STACK_PUSH v st = (case st of (sp, m) \<Rightarrow> (sp - 4, store32 (sp - 4) v m))"

definition sys_task_create ::
    "(u32 \<Rightarrow> 'h \<Rightarrow> u32 \<times> 'h) \<Rightarrow> u32 \<Rightarrow> u32 \<Rightarrow> 'h threads \<Rightarrow> (u32 \<times> 'h threads) option" where
  "sys_task_create km tos pv s =
     (if tos AND 3 \<noteq> 0 then Some (NULL, s)
      else
        let (p, al) = km PAGE_SIZE (th_alloc s); s = s\<lparr>th_alloc := al\<rparr>
        in if p = NULL then Some (NULL, s)
           else
             let (usp, m) = (if tos \<noteq> 0 then STACK_PUSH 0 (STACK_PUSH pv (tos, th_mem s)) else (tos, th_mem s));
                 (ksp, m) = (if tos \<noteq> 0 then (p + PAGE_SIZE, m) else STACK_PUSH 0 (STACK_PUSH pv (p + PAGE_SIZE, m)));
                 s = s\<lparr>tcbs := (tcbs s)(p := \<lparr>t_kstack = ksp, t_tid = next_tid s, t_state = TASK_STATE_READY,
                         t_timeslice = TASK_TIMESLICE_DEFAULT, t_code_exit = 0, t_wq_exit = NULL,
                         t_next = NULL, t_signature = TASK_SIGNATURE\<rparr>),
                       next_tid := next_tid s + 1, th_mem := m\<rparr>
             in map_option (\<lambda>s. (p, s)) (add_task p s))"

definition sys_task_exit :: "u32 \<Rightarrow> 'h threads \<Rightarrow> 'h threads option" where
  "sys_task_exit code_exit s =
     (let run = g_task_running s in
      case wake_up run (- 1) s of
        None \<Rightarrow> None
      | Some s \<Rightarrow>
          let s = s\<lparr>tcbs := (tcbs s)(run := (tcbs s run)\<lparr>t_code_exit := code_exit\<rparr>)\<rparr>;
              s = set_t_state run TASK_STATE_ZOMBIE s;
              s = (if g_task_own_fpu s = run then s\<lparr>g_task_own_fpu := NULL\<rparr> else s)
          in map_option snd (schedule s))"

definition sys_task_wait ::
    "(u32 \<Rightarrow> 'h \<Rightarrow> 'h) \<Rightarrow> u32 \<Rightarrow> u32 \<Rightarrow> u32 \<Rightarrow> 'h threads \<Rightarrow> (int \<times> 'h threads) option" where
  "sys_task_wait kf w tid pcode_exit s =
     (if g_task_running s = NULL then Some (-1, s)
      else case get_task tid s of
        None \<Rightarrow> None
      | Some tsk \<Rightarrow>
          if tsk = NULL then Some (-1, s)
          else case (if t_state (tcbs s tsk) \<noteq> TASK_STATE_ZOMBIE then sleep_on w tsk s else Some s) of
            None \<Rightarrow> None
          | Some s \<Rightarrow>
              let s = (if pcode_exit \<noteq> NULL then s\<lparr>th_mem := store32 pcode_exit (t_code_exit (tcbs s tsk)) (th_mem s)\<rparr> else s)
              in if t_wq_exit (tcbs s tsk) = NULL then
                   map_option (\<lambda>s. (0, s\<lparr>th_alloc := kf tsk (th_alloc s)\<rparr>)) (remove_task tsk s)
                 else Some (0, s))"

definition sys_task_getid :: "'h threads \<Rightarrow> u32" where
  "sys_task_getid s = (if g_task_running s = NULL then - 1 else t_tid (tcbs s (g_task_running s)))"

definition sys_task_yield :: "'h threads \<Rightarrow> 'h threads option" where
  "sys_task_yield s = map_option snd (schedule s)"

definition init_task :: "(u32 \<Rightarrow> 'h \<Rightarrow> u32 \<times> 'h) \<Rightarrow> 'h threads \<Rightarrow> 'h threads option" where
  "init_task km s =
     (let s = s\<lparr>g_resched := False, g_task_running := NULL, g_task_head := NULL, g_task_own_fpu := NULL\<rparr>
      in map_option (\<lambda>(t, s). s\<lparr>task0 := t\<rparr>) (sys_task_create km 0 0 s))"

section \<open>The choice of the scheduler\<close>

definition eligible :: "'h threads \<Rightarrow> u32 \<Rightarrow> bool" where
  "eligible s t \<longleftrightarrow> t_tid (tcbs s t) \<noteq> 0 \<and> t_state (tcbs s t) = TASK_STATE_READY"

definition task_list :: "'h threads \<Rightarrow> u32 list \<Rightarrow> bool" where
  "task_list s ts \<longleftrightarrow> linked_list (get_t_next (tcbs s)) (g_task_head s) ts"

lemma select_to_run:
  assumes "run = g_task_running s" "run \<noteq> NULL"
  shows "path (get_t_next (tcbs s)) (get_t_next (tcbs s) sel) ds run \<Longrightarrow> run \<notin> set ds \<Longrightarrow>
    select_loop s sel = Some (case find (eligible s) ds of Some t \<Rightarrow> t | None \<Rightarrow> run)"
proof (induction ds arbitrary: sel)
  case Nil
  then show ?case using assms by (subst select_loop.simps) (simp add: Let_def)
next
  case (Cons d ds)
  then have d: "get_t_next (tcbs s) sel = d" "d \<noteq> NULL" "d \<noteq> run" "path (get_t_next (tcbs s)) (get_t_next (tcbs s) d) ds run"
    by auto
  have "select_loop s sel = (if eligible s d then Some d else select_loop s d)"
    using d(1-3) assms(1) by (subst select_loop.simps) (simp add: Let_def eligible_def)
  then show ?case using Cons.IH [OF d(4)] Cons.prems(2) by simp
qed

lemma select_to_end:
  assumes "run = g_task_running s" "run \<noteq> NULL" "path (get_t_next (tcbs s)) (g_task_head s) bs run" "run \<notin> set bs"
  shows "linked_list (get_t_next (tcbs s)) (get_t_next (tcbs s) sel) cs \<Longrightarrow> run \<notin> set cs \<Longrightarrow>
    select_loop s sel = Some (case find (eligible s) (cs @ bs) of Some t \<Rightarrow> t | None \<Rightarrow> run)"
proof (induction cs arbitrary: sel)
  case Nil
  then have n: "get_t_next (tcbs s) sel = NULL" by simp
  show ?case
  proof (cases bs)
    case Nil
    then show ?thesis using n assms by (subst select_loop.simps) (simp add: Let_def)
  next
    case (Cons b bs')
    then have b: "g_task_head s = b" "b \<noteq> run" "path (get_t_next (tcbs s)) (get_t_next (tcbs s) b) bs' run" "run \<notin> set bs'"
      using assms(3,4) by auto
    have "select_loop s sel = (if eligible s b then Some b else select_loop s b)"
      using n b(1,2) assms(1) by (subst select_loop.simps) (simp add: Let_def eligible_def)
    then show ?thesis using select_to_run [OF assms(1,2) b(3,4)] Cons by simp
  qed
next
  case (Cons c cs)
  then have c: "get_t_next (tcbs s) sel = c" "c \<noteq> NULL" "c \<noteq> run" "linked_list (get_t_next (tcbs s)) (get_t_next (tcbs s) c) cs"
    by auto
  have "select_loop s sel = (if eligible s c then Some c else select_loop s c)"
    using c(1-3) assms(1) by (subst select_loop.simps) (simp add: Let_def eligible_def)
  then show ?case using Cons.IH [OF c(4)] Cons.prems(2) by simp
qed

lemma select_loop_result:
  assumes "task_list s (bs @ g_task_running s # cs)"
  shows "select_loop s (g_task_running s) = Some (case find (eligible s) (cs @ bs) of Some t \<Rightarrow> t | None \<Rightarrow> g_task_running s)"
proof -
  let ?run = "g_task_running s"
  have l: "linked_list (get_t_next (tcbs s)) (g_task_head s) (bs @ ?run # cs)" using assms by (simp add: task_list_def)
  then have "distinct (bs @ ?run # cs)" by (rule linked_list_distinct)
  then have d: "?run \<notin> set bs" "?run \<notin> set cs" by auto
  from l have "path (get_t_next (tcbs s)) (g_task_head s) bs ?run" "?run \<noteq> NULL"
      "linked_list (get_t_next (tcbs s)) (get_t_next (tcbs s) ?run) cs"
    by (auto simp: linked_list_append)
  then show ?thesis using select_to_end [of ?run s bs ?run cs] d by simp
qed

text \<open>What the scheduler chooses, from the list of threads.\<close>

definition chosen :: "'h threads \<Rightarrow> u32 list \<Rightarrow> u32 list \<Rightarrow> u32" where
  "chosen s bs cs = (case find (eligible s) (cs @ bs) of
       Some t \<Rightarrow> t
     | None \<Rightarrow> if t_state (tcbs s (g_task_running s)) = TASK_STATE_READY then g_task_running s else task0 s)"

lemma schedule_choice:
  assumes "task_list s (bs @ g_task_running s # cs)"
  shows "\<exists>r. schedule s = Some (chosen s bs cs, s\<lparr>g_resched := r\<rparr>)"
proof -
  let ?run = "g_task_running s"
  have "?run \<notin> set (cs @ bs)"
    using assms linked_list_distinct by (fastforce simp: task_list_def)
  then have nr: "find (eligible s) (cs @ bs) \<noteq> Some ?run"
    by (metis find_Some_iff nth_mem)
  have same: "s = s\<lparr>g_resched := g_resched s\<rparr>" by simp
  show ?thesis
    using select_loop_result [OF assms] nr same
    by (cases "find (eligible s) (cs @ bs)") (auto simp: schedule_def chosen_def intro: exI [of _ "g_resched s"])
qed

text \<open>
  C31. \<open>schedule\<close> returns, and chooses the first ready thread other than the idle one in the
  list behind the current thread, then from its head on; without one it stays with the
  current thread if that is ready, and else takes the idle thread. Only the flag
  \<open>g_resched\<close> changes: the choice is not acted upon.
\<close>

theorem schedule_correct:
  assumes "task_list s (bs @ g_task_running s # cs)"
  shows "\<exists>r. schedule s = Some (chosen s bs cs, s\<lparr>g_resched := r\<rparr>)"
  using assms by (rule schedule_choice)

section \<open>The list of threads\<close>

lemma last_task_list:
  "linked_list (get_t_next h) p (as @ [a]) \<Longrightarrow> last_task h p = Some a"
proof (induction as arbitrary: p)
  case Nil
  then show ?case by (subst last_task.simps) (simp add: Let_def)
next
  case (Cons b as)
  then have b: "p = b" "linked_list (get_t_next h) (get_t_next h b) (as @ [a])" by auto
  then have "get_t_next h b \<noteq> NULL" by (cases as) auto
  with b Cons.IH [OF b(2)] show ?case by (subst last_task.simps) (simp add: Let_def)
qed

lemma add_task_list:
  assumes "task_list s ts" "x \<noteq> NULL" "x \<notin> set ts" "get_t_next (tcbs s) x = NULL"
  shows "\<exists>h p. add_task x s = Some (s\<lparr>tcbs := h, g_task_head := p\<rparr>) \<and> task_list (s\<lparr>tcbs := h, g_task_head := p\<rparr>) (ts @ [x]) \<and>
    (\<forall>a. \<exists>b. h a = (tcbs s a)\<lparr>t_next := b\<rparr>)"
proof (cases ts rule: rev_cases)
  case Nil
  then have "g_task_head s = NULL" using assms(1) by (simp add: task_list_def)
  then have "add_task x s = Some (s\<lparr>tcbs := tcbs s, g_task_head := x\<rparr>)" by (simp add: add_task_def)
  moreover have "\<exists>b. tcbs s a = (tcbs s a)\<lparr>t_next := b\<rparr>" for a by (rule exI [of _ "t_next (tcbs s a)"]) simp
  ultimately show ?thesis using Nil assms(2,4) by (intro exI [of _ "tcbs s"] exI [of _ x]) (simp add: task_list_def)
next
  case (snoc as a)
  then have l: "linked_list (get_t_next (tcbs s)) (g_task_head s) (as @ [a])" using assms(1) by (simp add: task_list_def)
  then have "g_task_head s \<noteq> NULL" by (cases as) auto
  then have "add_task x s = Some (s\<lparr>tcbs := set_t_next a x (tcbs s), g_task_head := g_task_head s\<rparr>)"
    using last_task_list [OF l] by (simp add: add_task_def)
  moreover have "linked_list (get_t_next (set_t_next a x (tcbs s))) (g_task_head s) (as @ [a, x])"
    using tcb.append_last [OF l assms(2) _ assms(4)] assms(3) snoc by simp
  moreover have "\<exists>b. set_t_next a x (tcbs s) c = (tcbs s c)\<lparr>t_next := b\<rparr>" for c
  proof (cases "c = a")
    case False
    then show ?thesis by (intro exI [of _ "t_next (tcbs s c)"]) (simp add: set_t_next_def)
  qed (auto simp: set_t_next_def)
  ultimately show ?thesis
    using snoc by (intro exI [of _ "set_t_next a x (tcbs s)"] exI [of _ "g_task_head s"]) (simp add: task_list_def)
qed

lemma remove_loop_list:
  "linked_list (get_t_next h) p (a # as) \<Longrightarrow> tsk \<notin> {a, NULL} \<Longrightarrow>
   (tsk \<notin> set as \<and> (\<exists>q. remove_loop h tsk p = Some (NULL, q))) \<or>
   (\<exists>us q vs. a # as = us @ q # tsk # vs \<and> remove_loop h tsk p = Some (tsk, q))"
proof (induction as arbitrary: a p)
  case Nil
  then show ?case by (subst remove_loop.simps) (simp add: Let_def)
next
  case (Cons b as)
  then have b: "p = a" "get_t_next h a = b" "b \<noteq> NULL" "linked_list (get_t_next h) b (b # as)" by auto
  show ?case
  proof (cases "b = tsk")
    case True
    then have "remove_loop h tsk p = Some (tsk, a)" using b by (subst remove_loop.simps) (simp add: Let_def)
    with True show ?thesis by (intro disjI2 exI [of _ "[]"] exI [of _ a] exI [of _ as]) simp
  next
    case False
    then have eq: "remove_loop h tsk p = remove_loop h tsk b"
      using b by (subst remove_loop.simps) (simp add: Let_def)
    from Cons.IH [OF b(4)] Cons.prems(2) False show ?thesis
      unfolding eq by (metis append_Cons insert_iff list.set(2) singletonD empty_iff)
  qed
qed

lemma remove_task_list:
  assumes "task_list s ts" "x \<noteq> NULL"
  shows "\<exists>h p. remove_task x s = Some (s\<lparr>tcbs := h, g_task_head := p\<rparr>) \<and> task_list (s\<lparr>tcbs := h, g_task_head := p\<rparr>) (remove1 x ts) \<and>
    (\<forall>a. \<exists>b. h a = (tcbs s a)\<lparr>t_next := b\<rparr>)"
proof -
  have keep: "\<exists>b. tcbs s a = (tcbs s a)\<lparr>t_next := b\<rparr>" for a by (rule exI [of _ "t_next (tcbs s a)"]) simp
  have l: "linked_list (get_t_next (tcbs s)) (g_task_head s) ts" using assms(1) by (simp add: task_list_def)
  show ?thesis
  proof (cases ts)
    case Nil
    then have "remove_task x s = Some (s\<lparr>tcbs := tcbs s, g_task_head := g_task_head s\<rparr>)"
      using l by (simp add: remove_task_def)
    with Nil l keep show ?thesis by (intro exI [of _ "tcbs s"] exI [of _ "g_task_head s"]) (simp add: task_list_def)
  next
    case (Cons a as)
    then have a: "g_task_head s = a" "a \<noteq> NULL" using l by auto
    show ?thesis
    proof (cases "x = a")
      case True
      then have "remove_task x s = Some (s\<lparr>tcbs := tcbs s, g_task_head := get_t_next (tcbs s) a\<rparr>)"
        using a by (simp add: remove_task_def)
      with True Cons l keep show ?thesis
        by (intro exI [of _ "tcbs s"] exI [of _ "get_t_next (tcbs s) a"]) (simp add: task_list_def)
    next
      case False
      have l2: "linked_list (get_t_next (tcbs s)) (g_task_head s) (a # as)" using l Cons by simp
      have "x \<notin> {a, NULL}" using False assms(2) by simp
      from remove_loop_list [OF l2 this] show ?thesis
      proof (elim disjE exE conjE)
        fix q
        assume "x \<notin> set as" "remove_loop (tcbs s) x (g_task_head s) = Some (NULL, q)"
        then have "remove_task x s = Some (s\<lparr>tcbs := tcbs s, g_task_head := g_task_head s\<rparr>)"
          using a False assms(2) by (simp add: remove_task_def)
        moreover have "remove1 x ts = ts" using \<open>x \<notin> set as\<close> False Cons by (simp add: remove1_idem)
        ultimately show ?thesis
          using l keep by (intro exI [of _ "tcbs s"] exI [of _ "g_task_head s"]) (simp add: task_list_def)
      next
        fix us q vs
        assume sp: "a # as = us @ q # x # vs" "remove_loop (tcbs s) x (g_task_head s) = Some (x, q)"
        let ?h = "set_t_next q (get_t_next (tcbs s) x) (tcbs s)"
        have "remove_task x s = Some (s\<lparr>tcbs := ?h, g_task_head := g_task_head s\<rparr>)"
          using a False sp(2) by (simp add: remove_task_def)
        moreover have "x \<notin> set (us @ [q])" using linked_list_distinct [OF l] sp(1) Cons by auto
        then have "remove1 x ts = us @ q # vs" using sp(1) Cons by (simp add: remove1_append)
        moreover have "linked_list (get_t_next ?h) (g_task_head s) (us @ q # vs)"
          using tcb.unlink_after [of "tcbs s" "g_task_head s" us q x vs] l sp(1) Cons by simp
        moreover have "\<exists>b. ?h c = (tcbs s c)\<lparr>t_next := b\<rparr>" for c
          using keep by (cases "c = q") (auto simp: set_t_next_def)
        ultimately show ?thesis
          by (intro exI [of _ ?h] exI [of _ "g_task_head s"]) (simp add: task_list_def)
      qed
    qed
  qed
qed

section \<open>The invariant of the thread list\<close>

text \<open>Thread ids are distinct and below the next one to be given out.\<close>

definition threads_ok :: "'h threads \<Rightarrow> u32 list \<Rightarrow> bool" where
  "threads_ok s ts \<longleftrightarrow> task_list s ts \<and> distinct (map (\<lambda>t. t_tid (tcbs s t)) ts) \<and>
     (\<forall>t\<in>set ts. t_tid (tcbs s t) < next_tid s)"

definition same_but_next :: "tcb \<Rightarrow> tcb \<Rightarrow> bool" where
  "same_but_next t u \<longleftrightarrow> (\<exists>b. t = u\<lparr>t_next := b\<rparr>)"

lemma same_but_next_fields:
  "same_but_next t u \<Longrightarrow> t_tid t = t_tid u \<and> t_state t = t_state u \<and> t_code_exit t = t_code_exit u \<and>
     t_wq_exit t = t_wq_exit u \<and> t_kstack t = t_kstack u \<and> t_timeslice t = t_timeslice u \<and> t_signature t = t_signature u"
  by (auto simp: same_but_next_def)

lemma get_task_list:
  assumes "threads_ok s ts"
  shows "t \<in> set ts \<Longrightarrow> get_task (t_tid (tcbs s t)) s = Some t"
    "\<forall>t\<in>set ts. t_tid (tcbs s t) \<noteq> tid \<Longrightarrow> get_task tid s = Some NULL"
proof -
  have loop: "linked_list (get_t_next h) p as \<Longrightarrow>
      get_task_loop h tid p = Some (case find (\<lambda>t. t_tid (h t) = tid) as of Some t \<Rightarrow> t | None \<Rightarrow> NULL)" for h p as tid
  proof (induction as arbitrary: p)
    case Nil
    then show ?case by (subst get_task_loop.simps) simp
  next
    case (Cons a as)
    then show ?case by (subst get_task_loop.simps) auto
  qed
  have l: "linked_list (get_t_next (tcbs s)) (g_task_head s) ts" "distinct (map (\<lambda>t. t_tid (tcbs s t)) ts)"
    using assms by (simp_all add: threads_ok_def task_list_def)
  show "get_task tid s = Some NULL" if "\<forall>t\<in>set ts. t_tid (tcbs s t) \<noteq> tid"
    using that loop [OF l(1), of tid] find_None_iff [of "\<lambda>t. t_tid (tcbs s t) = tid" ts]
    by (auto simp: get_task_def)
  show "get_task (t_tid (tcbs s t)) s = Some t" if t: "t \<in> set ts"
  proof -
    let ?P = "\<lambda>u. t_tid (tcbs s u) = t_tid (tcbs s t)"
    have "find ?P ts = Some t"
    proof (cases "find ?P ts")
      case None
      then show ?thesis using t by (auto simp: find_None_iff)
    next
      case (Some u)
      then have "u \<in> set ts" "t_tid (tcbs s u) = t_tid (tcbs s t)" by (auto simp: find_Some_iff)
      then have "u = t" using l(2) t by (auto simp: distinct_map dest: inj_onD)
      with Some show ?thesis by simp
    qed
    then show ?thesis using loop [OF l(1)] by (simp add: get_task_def)
  qed
qed

lemma task_list_cong:
  assumes "task_list s ts" "g_task_head s' = g_task_head s" "\<And>a. t_next (tcbs s' a) = t_next (tcbs s a)"
  shows "task_list s' ts"
  using assms linked_list_cong [of ts "get_t_next (tcbs s')" "get_t_next (tcbs s)"]
  by (simp add: task_list_def get_t_next_def)

section \<open>Creation\<close>

lemma threads_ok_append:
  assumes "threads_ok s ts" "next_tid s < SIZE_MAX" "task_list s' (ts @ [p])" "next_tid s' = next_tid s + 1"
    "t_tid (tcbs s' p) = next_tid s" "\<And>t. t \<in> set ts \<Longrightarrow> t_tid (tcbs s' t) = t_tid (tcbs s t)"
  shows "threads_ok s' (ts @ [p])"
proof -
  have tids: "map (\<lambda>t. t_tid (tcbs s' t)) ts = map (\<lambda>t. t_tid (tcbs s t)) ts" using assms(6) by simp
  have next': "next_tid s < next_tid s + 1"
    using assms(2) unat_plus_one_less [of "next_tid s" SIZE_MAX] by (simp add: word_less_nat_alt)
  have below: "\<forall>t\<in>set ts. t_tid (tcbs s t) < next_tid s" using assms(1) by (simp add: threads_ok_def)
  then have "\<forall>t\<in>set ts. t_tid (tcbs s t) < next_tid s + 1" using next' less_trans by blast
  moreover have "next_tid s \<notin> (\<lambda>t. t_tid (tcbs s t)) ` set ts" using below by force
  moreover have "distinct (map (\<lambda>t. t_tid (tcbs s' t)) ts)" using assms(1) unfolding threads_ok_def tids by blast
  ultimately show ?thesis using assms(3-6) next' by (simp add: threads_ok_def)
qed

text \<open>
  C32. \<open>sys_task_create\<close> with an aligned stack and a block from \<^verbatim>\<open>kmalloc\<close> appends a ready
  thread with the next id to the list, keeps the others and the invariant, and leaves the
  argument below the top of the stack the thread starts on.
\<close>

theorem sys_task_create_correct:
  assumes "threads_ok s ts" "tos AND 3 = 0" "km PAGE_SIZE (th_alloc s) = (p, al)" "p \<noteq> NULL" "p \<notin> set ts" "next_tid s < SIZE_MAX"
  shows "\<exists>s'. sys_task_create km tos pv s = Some (p, s') \<and> threads_ok s' (ts @ [p]) \<and> th_alloc s' = al \<and>
    t_tid (tcbs s' p) = next_tid s \<and> t_state (tcbs s' p) = TASK_STATE_READY \<and> t_wq_exit (tcbs s' p) = NULL \<and>
    (\<forall>t\<in>set ts. same_but_next (tcbs s' t) (tcbs s t)) \<and>
    (if tos = 0 then t_kstack (tcbs s' p) = p + PAGE_SIZE - 8 \<and> load32 (th_mem s') (p + PAGE_SIZE - 4) = pv
     else t_kstack (tcbs s' p) = p + PAGE_SIZE \<and> load32 (th_mem s') (tos - 4) = pv)"
proof -
  define ksp where "ksp = (if tos = 0 then p + PAGE_SIZE - 8 else p + PAGE_SIZE)"
  define top where "top = (if tos = 0 then p + PAGE_SIZE else tos)"
  define m where "m = store32 (top - 8) 0 (store32 (top - 4) pv (th_mem s))"
  define new where "new = \<lparr>t_kstack = ksp, t_tid = next_tid s, t_state = TASK_STATE_READY,
      t_timeslice = TASK_TIMESLICE_DEFAULT, t_code_exit = 0, t_wq_exit = NULL, t_next = NULL, t_signature = TASK_SIGNATURE\<rparr>"
  define s1 where "s1 = s\<lparr>th_alloc := al, tcbs := (tcbs s)(p := new), next_tid := next_tid s + 1, th_mem := m\<rparr>"
  have "sys_task_create km tos pv s = map_option (\<lambda>s. (p, s)) (add_task p s1)"
    using assms(2-4) by (simp add: sys_task_create_def s1_def new_def ksp_def top_def m_def STACK_PUSH_def Let_def)
  moreover have l: "task_list s ts" using assms(1) by (simp add: threads_ok_def)
  have "linked_list (get_t_next (tcbs s1)) (g_task_head s) ts \<longleftrightarrow> linked_list (get_t_next (tcbs s)) (g_task_head s) ts"
    using assms(5) by (intro linked_list_cong) (auto simp: s1_def get_t_next_def)
  then have "task_list s1 ts" using l by (simp add: task_list_def s1_def)
  from add_task_list [OF this assms(4,5)] obtain h q where
    add: "add_task p s1 = Some (s1\<lparr>tcbs := h, g_task_head := q\<rparr>)" "task_list (s1\<lparr>tcbs := h, g_task_head := q\<rparr>) (ts @ [p])"
      "\<And>a. same_but_next (h a) (tcbs s1 a)"
    by (auto simp: s1_def get_t_next_def new_def same_but_next_def)
  ultimately have run: "sys_task_create km tos pv s = Some (p, s1\<lparr>tcbs := h, g_task_head := q\<rparr>)" by simp
  have old: "same_but_next (h t) (tcbs s t)" if "t \<in> set ts" for t
  proof -
    have "t \<noteq> p" using that assms(5) by blast
    then show ?thesis using add(3) [of t] by (simp add: s1_def)
  qed
  have p: "same_but_next (h p) new" using add(3) [of p] by (simp add: s1_def)
  have "threads_ok (s1\<lparr>tcbs := h, g_task_head := q\<rparr>) (ts @ [p])"
    by (rule threads_ok_append [OF assms(1,6) add(2)])
      (use same_but_next_fields [OF p] same_but_next_fields [OF old] in \<open>simp_all add: s1_def new_def\<close>)
  moreover have "load32 m (top - 4) = pv"
  proof -
    have "word_at (top - 8) \<inter> word_at (top - 8 + 4) = {}" by (rule word_at_next_disjoint)
    then have "word_at (top - 8) \<inter> word_at (top - 4) = {}" by simp
    then show ?thesis by (simp add: m_def load32_store32_disjoint)
  qed
  ultimately show ?thesis
    using run p same_but_next_fields [OF p] old
    by (intro exI [of _ "s1\<lparr>tcbs := h, g_task_head := q\<rparr>"]) (auto simp: s1_def new_def ksp_def top_def)
qed

section \<open>Waiting\<close>

lemma set_t_state_wqs [simp]: "wqs (set_t_state t v s) = wqs s"
  by (simp add: set_t_state_def)

lemma wake_up_loop_list:
  "linked_list (get_w_next (wqs s)) p ws \<Longrightarrow>
   wake_up_loop p n s = Some (fold (\<lambda>w. set_t_state (w_tsk (wqs s w)) TASK_STATE_READY) (take (unat n) ws) s)"
proof (induction ws arbitrary: p n s)
  case Nil
  then show ?case by (subst wake_up_loop.simps) simp
next
  case (Cons w ws)
  show ?case
  proof (cases "n = 0")
    case True
    then show ?thesis by (subst wake_up_loop.simps) simp
  next
    case False
    let ?s = "set_t_state (w_tsk (wqs s w)) TASK_STATE_READY s"
    have w: "p = w" "w \<noteq> NULL" "linked_list (get_w_next (wqs ?s)) (get_w_next (wqs s) w) ws" using Cons.prems by auto
    have "wake_up_loop p n s = wake_up_loop (get_w_next (wqs s) w) (n - 1) ?s"
      using False w(1,2) by (subst wake_up_loop.simps) simp
    then show ?thesis using Cons.IH [OF w(3), of "n - 1"] unat_Suc_pred [OF False] by simp
  qed
qed

lemma fold_set_t_state:
  "t_state (tcbs (fold (\<lambda>w. set_t_state (f w) v) ws s) x) = (if x \<in> f ` set ws then v else t_state (tcbs s x))"
  "tcbs (fold (\<lambda>w. set_t_state (f w) v) ws s) x = (tcbs s x)\<lparr>t_state := t_state (tcbs (fold (\<lambda>w. set_t_state (f w) v) ws s) x)\<rparr>"
  by (induction ws arbitrary: s) (auto simp: set_t_state_def)

lemma fold_set_t_state_only: "\<exists>h. fold (\<lambda>w. set_t_state (f w) v) ws s = s\<lparr>tcbs := h\<rparr>"
proof (induction ws arbitrary: s)
  case Nil
  have "s = s\<lparr>tcbs := tcbs s\<rparr>" by simp
  then show ?case by (metis fold_simps(1))
next
  case (Cons w ws)
  then obtain h where "fold (\<lambda>w. set_t_state (f w) v) ws (set_t_state (f w) v s) = (set_t_state (f w) v s)\<lparr>tcbs := h\<rparr>" by blast
  moreover have "(set_t_state (f w) v s)\<lparr>tcbs := h\<rparr> = s\<lparr>tcbs := h\<rparr>" by (simp add: set_t_state_def)
  ultimately have "fold (\<lambda>w. set_t_state (f w) v) (w # ws) s = s\<lparr>tcbs := h\<rparr>" by simp
  then show ?case by blast
qed

definition wait_list :: "'h threads \<Rightarrow> u32 \<Rightarrow> u32 list \<Rightarrow> bool" where
  "wait_list s t ws \<longleftrightarrow> linked_list (get_w_next (wqs s)) (t_wq_exit (tcbs s t)) ws"

lemma wait_list_length: "wait_list s t ws \<Longrightarrow> length ws \<le> 4294967295"
proof -
  assume "wait_list s t ws"
  then have "distinct ws" "NULL \<notin> set ws"
    by (auto simp: wait_list_def dest: linked_list_distinct linked_list_not_NULL)
  then have "Suc (length ws) = card (insert NULL (set ws))" by (simp add: distinct_card)
  also have "\<dots> \<le> card (UNIV :: u32 set)" by (rule card_mono) simp_all
  also have "\<dots> = 4294967296" by (simp add: card_word)
  finally show ?thesis by simp
qed

lemma wait_list_take_all: "wait_list s t ws \<Longrightarrow> take (unat (- 1 :: u32)) ws = ws"
proof -
  assume "wait_list s t ws"
  moreover have "unat (- 1 :: u32) = 4294967295"
    by (simp only: unsigned_minus_1_eq_mask) (simp add: mask_eq_exp_minus_1)
  ultimately show ?thesis using wait_list_length by simp
qed

lemma wake_up_result:
  assumes "wait_list s t ws"
  shows "\<exists>h. wake_up t n s = Some (s\<lparr>tcbs := h\<rparr>) \<and>
    (\<forall>x. h x = (tcbs s x)\<lparr>t_state := (if x \<in> (\<lambda>w. w_tsk (wqs s w)) ` set (take (unat n) ws) then TASK_STATE_READY else t_state (tcbs s x))\<rparr>)"
proof -
  let ?f = "fold (\<lambda>w. set_t_state (w_tsk (wqs s w)) TASK_STATE_READY) (take (unat n) ws) s"
  have "wake_up t n s = Some ?f"
    using assms wake_up_loop_list by (simp add: wake_up_def wait_list_def)
  moreover obtain h where "?f = s\<lparr>tcbs := h\<rparr>" 
    using fold_set_t_state_only [of "\<lambda>w. w_tsk (wqs s w)" TASK_STATE_READY "take (unat n) ws" s] by blast
  then have "?f = s\<lparr>tcbs := tcbs ?f\<rparr>" by simp
  moreover have "tcbs ?f x = (tcbs s x)\<lparr>t_state := (if x \<in> (\<lambda>w. w_tsk (wqs s w)) ` set (take (unat n) ws) then TASK_STATE_READY else t_state (tcbs s x))\<rparr>" for x
    using fold_set_t_state(2) [of "\<lambda>w. w_tsk (wqs s w)" TASK_STATE_READY "take (unat n) ws" s x]
    unfolding fold_set_t_state(1) .
  ultimately show ?thesis by (intro exI [of _ "tcbs ?f"]) simp
qed

text \<open>
  \<open>wake_up\<close> makes the threads of the first \<open>n\<close> entries of a queue ready, of all entries
  for a negative \<open>n\<close>, and changes nothing else.
\<close>

lemma wake_up_correct:
  assumes "wait_list s t ws"
  shows "\<exists>h. wake_up t n s = Some (s\<lparr>tcbs := h\<rparr>) \<and>
    (\<forall>x. h x = (tcbs s x)\<lparr>t_state := (if x \<in> (\<lambda>w. w_tsk (wqs s w)) ` set (if n = - 1 then ws else take (unat n) ws)
      then TASK_STATE_READY else t_state (tcbs s x))\<rparr>)"
proof (cases "n = - 1")
  case True
  with wake_up_result [OF assms, of n] wait_list_take_all [OF assms] show ?thesis by simp
qed (use wake_up_result [OF assms, of n] in simp)

lemma sleep_on_result:
  assumes "task_list s ts" "g_task_running s \<in> set ts"
  shows "\<exists>r. sleep_on w t s = Some (s\<lparr>
      tcbs := (tcbs s)(g_task_running s := (tcbs s (g_task_running s))\<lparr>t_state := TASK_STATE_WAITING\<rparr>),
      wqs := (wqs s)(w := \<lparr>w_tsk = g_task_running s, w_next = t_wq_exit (tcbs s t)\<rparr>), g_resched := r\<rparr>)"
proof -
  let ?run = "g_task_running s" let ?wq = "(wqs s)(w := \<lparr>w_tsk = ?run, w_next = t_wq_exit (tcbs s t)\<rparr>)"
  define s1 where "s1 = set_t_state ?run TASK_STATE_WAITING (set_wq_exit t w (s\<lparr>wqs := ?wq\<rparr>))"
  have s1: "g_task_running s1 = ?run" "g_task_head s1 = g_task_head s" "wqs s1 = ?wq"
      "\<And>a. t_next (tcbs s1 a) = t_next (tcbs s a)" "t_wq_exit (tcbs s1 t) = w"
    by (simp_all add: s1_def set_t_state_def set_wq_exit_def)
  have "task_list s1 ts" by (rule task_list_cong [OF assms(1)]) (simp_all add: s1)
  moreover obtain bs cs where "ts = bs @ ?run # cs" using assms(2) by (meson split_list)
  ultimately obtain r where r: "schedule s1 = Some (chosen s1 bs cs, s1\<lparr>g_resched := r\<rparr>)"
    using schedule_choice [of s1 bs cs] s1(1) by auto
  have "sleep_on w t s = Some (set_wq_exit t (t_wq_exit (tcbs s t)) (s1\<lparr>g_resched := r\<rparr>))"
  proof -
    have "sleep_on w t s = (case schedule s1 of None \<Rightarrow> None | Some (sel, s') \<Rightarrow>
        if t_wq_exit (tcbs s' t) = w then Some (set_wq_exit t (get_w_next (wqs s') w) s')
        else unwait_loop w (t_wq_exit (tcbs s' t)) s')"
      by (simp add: sleep_on_def Let_def s1_def set_wq_exit_def)
    then show ?thesis using r s1(3,5) by (simp add: get_w_next_def)
  qed
  moreover have "set_wq_exit t (t_wq_exit (tcbs s t)) (s1\<lparr>g_resched := r\<rparr>) = s\<lparr>
      tcbs := (tcbs s)(?run := (tcbs s ?run)\<lparr>t_state := TASK_STATE_WAITING\<rparr>), wqs := ?wq, g_resched := r\<rparr>"
  proof -
    have "tcbs (set_wq_exit t (t_wq_exit (tcbs s t)) s1) = (tcbs s)(?run := (tcbs s ?run)\<lparr>t_state := TASK_STATE_WAITING\<rparr>)"
      by (rule ext) (simp add: s1_def set_wq_exit_def set_t_state_def)
    then have "set_wq_exit t (t_wq_exit (tcbs s t)) s1 = s1\<lparr>tcbs := (tcbs s)(?run := (tcbs s ?run)\<lparr>t_state := TASK_STATE_WAITING\<rparr>)\<rparr>"
      by (simp add: set_wq_exit_def)
    moreover have "s1\<lparr>tcbs := h, g_resched := r\<rparr> = s\<lparr>tcbs := h, wqs := ?wq, g_resched := r\<rparr>" for h
      by (simp add: s1_def set_wq_exit_def set_t_state_def)
    moreover have "set_wq_exit t a (s1\<lparr>g_resched := r\<rparr>) = (set_wq_exit t a s1)\<lparr>g_resched := r\<rparr>" for a
      by (simp add: set_wq_exit_def)
    ultimately show ?thesis by simp
  qed
  ultimately show ?thesis by auto
qed

text \<open>
  \<open>sleep_on\<close> does not suspend the thread: as the processor is not switched, it returns at
  once, with the thread taken out of the queue again and the queue as before; but the
  thread, although it is still the running one, is left marked as waiting, and is in no
  queue that a \<open>wake_up\<close> could find it in.
\<close>

lemma sleep_on_returns_at_once:
  assumes "task_list s ts" "g_task_running s \<in> set ts"
  shows "\<exists>s'. sleep_on w t s = Some s' \<and> g_task_running s' = g_task_running s \<and>
    t_state (tcbs s' (g_task_running s)) = TASK_STATE_WAITING \<and>
    (\<forall>x. t_wq_exit (tcbs s' x) = t_wq_exit (tcbs s x)) \<and> (\<forall>a. a \<noteq> w \<longrightarrow> wqs s' a = wqs s a)"
  using sleep_on_result [OF assms, of w t] by auto

section \<open>Exit and wait\<close>

text \<open>
  C33. \<open>sys_task_exit\<close> makes the running thread a zombie with its exit code and every thread
  that waits for it ready, and changes no other state; it returns, to the thread that
  has exited.
\<close>

theorem sys_task_exit_correct:
  assumes "task_list s ts" "g_task_running s \<in> set ts" "wait_list s (g_task_running s) ws"
  shows "\<exists>s'. sys_task_exit code s = Some s' \<and> task_list s' ts \<and> g_task_running s' = g_task_running s \<and>
    t_code_exit (tcbs s' (g_task_running s)) = code \<and>
    (\<forall>x. t_state (tcbs s' x) = (if x = g_task_running s then TASK_STATE_ZOMBIE
       else if x \<in> (\<lambda>w. w_tsk (wqs s w)) ` set ws then TASK_STATE_READY else t_state (tcbs s x))) \<and>
    g_task_own_fpu s' = (if g_task_own_fpu s = g_task_running s then NULL else g_task_own_fpu s)"
proof -
  let ?run = "g_task_running s"
  note all = wait_list_take_all [OF assms(3)]
  obtain h where h: "wake_up ?run (- 1) s = Some (s\<lparr>tcbs := h\<rparr>)"
    "\<And>x. h x = (tcbs s x)\<lparr>t_state := (if x \<in> (\<lambda>w. w_tsk (wqs s w)) ` set ws then TASK_STATE_READY else t_state (tcbs s x))\<rparr>"
    using wake_up_result [OF assms(3), of "- 1"] unfolding all by blast
  define s1 where "s1 = (let s = set_t_state ?run TASK_STATE_ZOMBIE (s\<lparr>tcbs := h(?run := (h ?run)\<lparr>t_code_exit := code\<rparr>)\<rparr>)
    in if g_task_own_fpu s = ?run then s\<lparr>g_task_own_fpu := NULL\<rparr> else s)"
  have s1: "g_task_running s1 = ?run" "g_task_head s1 = g_task_head s" "\<And>a. t_next (tcbs s1 a) = t_next (tcbs s a)"
    "tcbs s1 = h(?run := (h ?run)\<lparr>t_code_exit := code, t_state := TASK_STATE_ZOMBIE\<rparr>)"
    "g_task_own_fpu s1 = (if g_task_own_fpu s = ?run then NULL else g_task_own_fpu s)"
    by (simp_all add: s1_def Let_def set_t_state_def h(2))
  have l: "task_list s1 ts" by (rule task_list_cong [OF assms(1)]) (simp_all add: s1(1-3))
  obtain bs cs where "ts = bs @ ?run # cs" using assms(2) by (meson split_list)
  with l obtain r where r: "schedule s1 = Some (chosen s1 bs cs, s1\<lparr>g_resched := r\<rparr>)"
    using schedule_choice [of s1 bs cs] s1(1) by auto
  have "sys_task_exit code s = Some (s1\<lparr>g_resched := r\<rparr>)"
  proof -
    have "sys_task_exit code s = map_option snd (schedule s1)"
      unfolding sys_task_exit_def Let_def h(1) option.case s1_def by simp
    then show ?thesis using r by simp
  qed
  moreover have "task_list (s1\<lparr>g_resched := r\<rparr>) ts" using l by (simp add: task_list_def)
  ultimately show ?thesis using s1 h(2) by simp
qed

lemma sys_task_wait_removes:
  assumes "task_list s1 ts" "tsk \<in> set ts" "t_wq_exit (tcbs s1 tsk) = NULL"
  shows "\<exists>s'. (let s = (if pc \<noteq> NULL then s1\<lparr>th_mem := store32 pc (t_code_exit (tcbs s1 tsk)) (th_mem s1)\<rparr> else s1)
      in if t_wq_exit (tcbs s tsk) = NULL then
           map_option (\<lambda>s. (0::int, s\<lparr>th_alloc := kf tsk (th_alloc s)\<rparr>)) (remove_task tsk s)
         else Some (0, s)) = Some (0, s') \<and> task_list s' (remove1 tsk ts) \<and> th_alloc s' = kf tsk (th_alloc s1) \<and>
    t_state (tcbs s' tsk) = t_state (tcbs s1 tsk) \<and>
    (pc \<noteq> NULL \<longrightarrow> load32 (th_mem s') pc = t_code_exit (tcbs s1 tsk))"
proof -
  let ?s = "if pc \<noteq> NULL then s1\<lparr>th_mem := store32 pc (t_code_exit (tcbs s1 tsk)) (th_mem s1)\<rparr> else s1"
  have l: "task_list ?s ts" using assms(1) by (simp add: task_list_def)
  have "tsk \<noteq> NULL" using assms(1,2) linked_list_not_NULL by (auto simp: task_list_def)
  from remove_task_list [OF l this] obtain h q where
    r: "remove_task tsk ?s = Some (?s\<lparr>tcbs := h, g_task_head := q\<rparr>)" "task_list (?s\<lparr>tcbs := h, g_task_head := q\<rparr>) (remove1 tsk ts)"
      "\<exists>b. h tsk = (tcbs ?s tsk)\<lparr>t_next := b\<rparr>" by blast
  from r(3) have "t_state (h tsk) = t_state (tcbs s1 tsk)" by auto
  then show ?thesis using r(1,2) assms(3)
    by (intro exI [of _ "?s\<lparr>tcbs := h, g_task_head := q, th_alloc := kf tsk (th_alloc s1)\<rparr>"])
      (auto simp: Let_def task_list_def)
qed

text \<open>
  \<open>sys_task_wait\<close> for a zombie that nobody else waits for stores its exit code, takes it
  out of the list and frees its block; for an unknown id it returns \<open>-1\<close> and changes nothing.
\<close>

theorem sys_task_wait_reaps:
  assumes "threads_ok s ts" "g_task_running s \<noteq> NULL"
  shows "(\<forall>tsk\<in>set ts. t_state (tcbs s tsk) = TASK_STATE_ZOMBIE \<and> t_wq_exit (tcbs s tsk) = NULL \<longrightarrow>
      (\<exists>s'. sys_task_wait kf w (t_tid (tcbs s tsk)) pc s = Some (0, s') \<and> task_list s' (remove1 tsk ts) \<and>
         th_alloc s' = kf tsk (th_alloc s) \<and> (pc \<noteq> NULL \<longrightarrow> load32 (th_mem s') pc = t_code_exit (tcbs s tsk)))) \<and>
    (\<forall>tid. (\<forall>t\<in>set ts. t_tid (tcbs s t) \<noteq> tid) \<longrightarrow> sys_task_wait kf w tid pc s = Some (-1, s))"
proof (intro conjI ballI allI impI)
  fix tsk
  assume t: "tsk \<in> set ts" "t_state (tcbs s tsk) = TASK_STATE_ZOMBIE \<and> t_wq_exit (tcbs s tsk) = NULL"
  have l: "task_list s ts" using assms(1) by (simp add: threads_ok_def)
  then have "tsk \<noteq> NULL" using t(1) linked_list_not_NULL by (auto simp: task_list_def)
  then show "\<exists>s'. sys_task_wait kf w (t_tid (tcbs s tsk)) pc s = Some (0, s') \<and> task_list s' (remove1 tsk ts) \<and>
         th_alloc s' = kf tsk (th_alloc s) \<and> (pc \<noteq> NULL \<longrightarrow> load32 (th_mem s') pc = t_code_exit (tcbs s tsk))"
    using sys_task_wait_removes [OF l t(1), of pc kf] t get_task_list(1) [OF assms(1) t(1)] assms(2)
    by (auto simp: sys_task_wait_def)
next
  fix tid
  assume "\<forall>t\<in>set ts. t_tid (tcbs s t) \<noteq> tid"
  then show "sys_task_wait kf w tid pc s = Some (-1, s)"
    using get_task_list(2) [OF assms(1)] assms(2) by (simp add: sys_task_wait_def)
qed

text \<open>
  \<open>sys_task_wait\<close> for a thread that has not exited does not wait: it takes the thread out of
  the list and frees its block although the thread is no zombie, and reports success.
\<close>

theorem sys_task_wait_frees_live_thread:
  assumes "threads_ok s ts" "g_task_running s \<in> set ts" "tsk \<in> set ts"
    "t_state (tcbs s tsk) \<noteq> TASK_STATE_ZOMBIE" "t_wq_exit (tcbs s tsk) = NULL"
  shows "\<exists>s'. sys_task_wait kf w (t_tid (tcbs s tsk)) pc s = Some (0, s') \<and> task_list s' (remove1 tsk ts) \<and>
    th_alloc s' = kf tsk (th_alloc s) \<and> t_state (tcbs s' tsk) \<noteq> TASK_STATE_ZOMBIE"
proof -
  have l: "task_list s ts" using assms(1) by (simp add: threads_ok_def)
  then have nn: "NULL \<notin> set ts" using linked_list_not_NULL by (auto simp: task_list_def)
  then have "tsk \<noteq> NULL" "g_task_running s \<noteq> NULL" using assms(2,3) by auto
  obtain s1 where s1: "sleep_on w tsk s = Some s1" "task_list s1 ts" "t_wq_exit (tcbs s1 tsk) = NULL"
    "th_alloc s1 = th_alloc s" "t_state (tcbs s1 tsk) \<noteq> TASK_STATE_ZOMBIE"
  proof -
    obtain r where r: "sleep_on w tsk s = Some (s\<lparr>
      tcbs := (tcbs s)(g_task_running s := (tcbs s (g_task_running s))\<lparr>t_state := TASK_STATE_WAITING\<rparr>),
      wqs := (wqs s)(w := \<lparr>w_tsk = g_task_running s, w_next = t_wq_exit (tcbs s tsk)\<rparr>), g_resched := r\<rparr>)" (is "_ = Some ?s")
      using sleep_on_result [OF l assms(2)] by blast
    moreover have "task_list ?s ts" using l by (rule task_list_cong) simp_all
    moreover have "t_state (tcbs ?s tsk) \<noteq> TASK_STATE_ZOMBIE" "t_wq_exit (tcbs ?s tsk) = NULL"
      using assms(4,5) by (auto simp: TASK_STATE_WAITING_def TASK_STATE_ZOMBIE_def)
    ultimately show thesis using that [of ?s] by simp
  qed
  then show ?thesis
    using sys_task_wait_removes [OF s1(2) assms(3) s1(3), of pc kf] assms(4) get_task_list(1) [OF assms(1,3)]
      \<open>tsk \<noteq> NULL\<close> \<open>g_task_running s \<noteq> NULL\<close>
    by (auto simp: sys_task_wait_def)
qed

section \<open>Concrete states\<close>

text \<open>
  The idle thread at \<open>0x1000\<close>, the running thread at \<open>0x2000\<close>, and a thread at
  \<open>0x3000\<close> in a given state. The queue node at \<open>0x9000\<close> is that of the third thread.
\<close>

definition example_tcb :: "u32 \<Rightarrow> u32 \<Rightarrow> u32 \<Rightarrow> u32 \<Rightarrow> tcb" where
  "example_tcb tid st wq nx = \<lparr>t_kstack = 0, t_tid = tid, t_state = st, t_timeslice = 4, t_code_exit = 7,
     t_wq_exit = wq, t_next = nx, t_signature = TASK_SIGNATURE\<rparr>"

definition example_threads :: "u32 \<Rightarrow> u32 \<Rightarrow> unit threads" where
  "example_threads st wq =
     \<lparr>tcbs = (\<lambda>a. if a = 0x1000 then example_tcb 0 TASK_STATE_READY NULL 0x2000
                 else if a = 0x2000 then example_tcb 1 TASK_STATE_READY wq 0x3000
                 else example_tcb 2 st NULL NULL),
      wqs = (\<lambda>a. \<lparr>w_tsk = 0x3000, w_next = NULL\<rparr>),
      g_resched = True, g_task_head = 0x1000, g_task_running = 0x2000, task0 = 0x1000,
      g_task_own_fpu = 0x2000, next_tid = 3, th_mem = (\<lambda>a. 0), th_alloc = ()\<rparr>"

lemma example_task_list: "task_list (example_threads st wq) [0x1000, 0x2000, 0x3000]"
  by (simp add: task_list_def example_threads_def example_tcb_def get_t_next_def NULL_def)

lemma example_threads_ok: "threads_ok (example_threads st wq) [0x1000, 0x2000, 0x3000]"
  unfolding threads_ok_def by (simp add: example_task_list) (simp add: example_threads_def example_tcb_def)

lemma schedule_correct_witness:
  "\<exists>r. schedule (example_threads TASK_STATE_READY NULL) = Some (0x3000, (example_threads TASK_STATE_READY NULL)\<lparr>g_resched := r\<rparr>)"
  using schedule_correct [of "example_threads TASK_STATE_READY NULL" "[0x1000]" "[0x3000]"]
    example_task_list [of TASK_STATE_READY NULL]
  by (simp add: chosen_def eligible_def example_threads_def example_tcb_def)

lemma sys_task_create_correct_witness:
  "\<exists>s'. sys_task_create (\<lambda>n h. (0x5000, h)) 0 0x77 (example_threads TASK_STATE_READY NULL) = Some (0x5000, s') \<and>
     threads_ok s' [0x1000, 0x2000, 0x3000, 0x5000] \<and> t_tid (tcbs s' 0x5000) = 3"
  using sys_task_create_correct [OF example_threads_ok [of TASK_STATE_READY NULL],
      of 0 "\<lambda>n h. (0x5000, h)" "0x5000" "()" "0x77"]
  by (auto simp: example_threads_def NULL_def SIZE_MAX_def)

lemma sys_task_exit_correct_witness:
  "\<exists>s'. sys_task_exit 5 (example_threads TASK_STATE_WAITING 0x9000) = Some s' \<and>
     t_state (tcbs s' 0x2000) = TASK_STATE_ZOMBIE \<and> t_state (tcbs s' 0x3000) = TASK_STATE_READY"
proof -
  let ?s = "example_threads TASK_STATE_WAITING 0x9000"
  have "wait_list ?s (g_task_running ?s) [0x9000]"
    by (simp add: wait_list_def example_threads_def example_tcb_def get_w_next_def NULL_def)
  from sys_task_exit_correct [OF example_task_list _ this, of 5]
  show ?thesis by (auto simp: example_threads_def)
qed

lemma sys_task_wait_reaps_witness:
  "\<exists>s'. sys_task_wait (\<lambda>p h. h) 0x9000 2 0x800 (example_threads TASK_STATE_ZOMBIE NULL) = Some (0, s') \<and>
     task_list s' [0x1000, 0x2000] \<and> load32 (th_mem s') 0x800 = 7"
proof -
  let ?s = "example_threads TASK_STATE_ZOMBIE NULL"
  have "t_state (tcbs ?s 0x3000) = TASK_STATE_ZOMBIE" "t_wq_exit (tcbs ?s 0x3000) = NULL" "g_task_running ?s \<noteq> NULL"
    by (simp_all add: example_threads_def example_tcb_def NULL_def)
  moreover have "t_tid (tcbs ?s 0x3000) = 2" "t_code_exit (tcbs ?s 0x3000) = 7"
    by (simp_all add: example_threads_def example_tcb_def)
  ultimately show ?thesis
    using conjunct1 [OF sys_task_wait_reaps [OF example_threads_ok [of TASK_STATE_ZOMBIE NULL], where kf = "\<lambda>p h. h" and w = "0x9000" and pc = "0x800"],
        THEN bspec, of "0x3000"]
    by (auto simp: NULL_def)
qed

lemma sys_task_wait_frees_live_thread_witness:
  "\<exists>s'. sys_task_wait (\<lambda>p h. h) 0x9000 2 0 (example_threads TASK_STATE_READY NULL) = Some (0, s') \<and>
     task_list s' [0x1000, 0x2000] \<and> t_state (tcbs s' 0x3000) \<noteq> TASK_STATE_ZOMBIE"
proof -
  let ?s = "example_threads TASK_STATE_READY NULL"
  have e: "g_task_running ?s \<in> set [0x1000, 0x2000, 0x3000]" "t_state (tcbs ?s 0x3000) \<noteq> TASK_STATE_ZOMBIE"
    "t_wq_exit (tcbs ?s 0x3000) = NULL" "t_tid (tcbs ?s 0x3000) = 2"
    by (simp_all add: example_threads_def example_tcb_def TASK_STATE_READY_def TASK_STATE_ZOMBIE_def)
  from sys_task_wait_frees_live_thread [OF example_threads_ok e(1) _ e(2,3), where kf = "\<lambda>p h. h" and w = "0x9000" and pc = "0"]
  show ?thesis by (auto simp: e(4))
qed

end
