(* ===== verification/Timer.thy ===== *)
theory Timer
  imports Uart Tcb
begin

text \<open>
  \<^verbatim>\<open>kernel/timer.c\<close>: busy waiting for the free-running counter, the ARM timer, and the sleep
  calls that count timer ticks. The counter and \<open>g_timer_ticks\<close> are volatile; what they are at
  each time is a parameter of the model. No code of the repository writes \<open>g_timer_ticks\<close>: the
  interrupt handler that does is commented out.
\<close>

section \<open>The free-running counter\<close>

definition TIMER_CL0 :: u32 where "TIMER_CL0 = 0xC1003004"

partial_function (option) sleep_loop :: "device \<Rightarrow> u32 \<Rightarrow> u32 \<Rightarrow> io \<Rightarrow> io option" where
  "sleep_loop dev current_time us s =
     (let (t, s) = mmio_read dev TIMER_CL0 s
      in if t - current_time < us then sleep_loop dev current_time us s else Some s)"

definition sleep :: "device \<Rightarrow> u32 \<Rightarrow> io \<Rightarrow> (int \<times> io) option" where
  "sleep dev ms s =
     (if sint ms < 0 then Some (-1, s)
      else
        let us = ms * 1000;
            (current_time, s) = mmio_read dev TIMER_CL0 s
        in map_option (Pair 0) (sleep_loop dev current_time us s))"

section \<open>The ARM timer\<close>

definition ARMTIMER_BASE :: u32 where "ARMTIMER_BASE = 0xC100B400"
definition INTERRUPT_CONTROLLER_BASE :: u32 where "INTERRUPT_CONTROLLER_BASE = 0xC100B200"
definition BASIC_ARM_TIMER_IRQ :: u32 where "BASIC_ARM_TIMER_IRQ = 1"
definition ARMTIMER_CTRL_23BIT :: u32 where "ARMTIMER_CTRL_23BIT = push_bit 1 1"
definition ARMTIMER_CTRL_PRESCALE_1 :: u32 where "ARMTIMER_CTRL_PRESCALE_1 = push_bit 2 0"
definition ARMTIMER_CTRL_INT_ENABLE :: u32 where "ARMTIMER_CTRL_INT_ENABLE = push_bit 5 1"
definition ARMTIMER_CTRL_ENABLE :: u32 where "ARMTIMER_CTRL_ENABLE = push_bit 7 1"

text \<open>The offsets of the fields of \<^verbatim>\<open>arm_timer_t\<close> and \<^verbatim>\<open>irq_controller_t\<close>.\<close>

definition timer_Load :: u32 where "timer_Load = ARMTIMER_BASE"
definition timer_Control :: u32 where "timer_Control = ARMTIMER_BASE + 0x8"
definition timer_IRQClear :: u32 where "timer_IRQClear = ARMTIMER_BASE + 0xC"
definition timer_Reload :: u32 where "timer_Reload = ARMTIMER_BASE + 0x18"
definition timer_PreDivider :: u32 where "timer_PreDivider = ARMTIMER_BASE + 0x1C"
definition Enable_Basic_IRQs :: u32 where "Enable_Basic_IRQs = INTERRUPT_CONTROLLER_BASE + 0x18"

definition init_arm_timer :: "u32 \<Rightarrow> io \<Rightarrow> io" where
  "init_arm_timer load s =
     (let s = mmio_write Enable_Basic_IRQs BASIC_ARM_TIMER_IRQ s;
          s = mmio_write timer_Load load s;
          s = mmio_write timer_Reload load s;
          s = mmio_write timer_PreDivider 0xF9 s
      in mmio_write timer_Control
           (ARMTIMER_CTRL_23BIT OR ARMTIMER_CTRL_PRESCALE_1 OR ARMTIMER_CTRL_INT_ENABLE OR ARMTIMER_CTRL_ENABLE) s)"

section \<open>Ticks\<close>

text \<open>
  \<open>ticks n\<close> is \<open>g_timer_ticks\<close> at time \<open>n\<close>; a look at it and an iteration of \<open>busy_wait\<close> take a
  unit of time each.
\<close>

definition HZ :: u32 where "HZ = 100"
definition LPS_PREC :: nat where "LPS_PREC = 8"

function busy_wait :: "u32 \<Rightarrow> nat \<Rightarrow> nat" where
  "busy_wait loops n = (if loops > 0 then busy_wait (loops - 1) (n + 1) else n + 1)"
  by pat_completeness auto
termination
  by (relation "measure (\<lambda>(loops, n). unat loops)") (auto simp: word_neq_0_conv [symmetric] intro!: unat_pred_less simp del: word_neq_0_conv)

declare busy_wait.simps [simp del]

text \<open>\<open>while (tmp == g_timer_ticks);\<close>\<close>

partial_function (option) await_tick :: "(nat \<Rightarrow> u32) \<Rightarrow> u32 \<Rightarrow> nat \<Rightarrow> nat option" where
  "await_tick ticks tmp n = (if tmp = ticks n then await_tick ticks tmp (n + 1) else Some (n + 1))"

text \<open>The ticks during a \<open>busy_wait\<close> that starts with a tick: the code that \<open>calibrate_delay\<close> has twice.\<close>

definition timed_wait :: "(nat \<Rightarrow> u32) \<Rightarrow> u32 \<Rightarrow> nat \<Rightarrow> (u32 \<times> nat) option" where
  "timed_wait ticks loops n =
     (case await_tick ticks (ticks n) (n + 1) of
        None \<Rightarrow> None
      | Some n \<Rightarrow>
          let tmp = ticks n;
              n = busy_wait loops (n + 1)
          in Some (ticks n - tmp, n + 1))"

partial_function (option) calibrate_double :: "(nat \<Rightarrow> u32) \<Rightarrow> u32 \<Rightarrow> nat \<Rightarrow> (u32 \<times> nat) option" where
  "calibrate_double ticks lpt n =
     (let lpt = push_bit 1 lpt
      in if lpt \<noteq> 0 then
           case timed_wait ticks lpt n of
             None \<Rightarrow> None
           | Some (tmp, n) \<Rightarrow> if tmp \<noteq> 0 then Some (lpt, n) else calibrate_double ticks lpt n
         else Some (lpt, n))"

fun calibrate_refine :: "(nat \<Rightarrow> u32) \<Rightarrow> nat \<Rightarrow> u32 \<Rightarrow> u32 \<Rightarrow> nat \<Rightarrow> (u32 \<times> nat) option" where
  "calibrate_refine ticks 0 lpt loopbit n = Some (lpt, n)"
| "calibrate_refine ticks (Suc lps_precision) lpt loopbit n =
     (let loopbit = drop_bit 1 loopbit
      in if loopbit \<noteq> 0 then
           let lpt = lpt OR loopbit
           in case timed_wait ticks lpt n of
                None \<Rightarrow> None
              | Some (tmp, n) \<Rightarrow> calibrate_refine ticks lps_precision (if tmp \<noteq> 0 then lpt AND NOT loopbit else lpt) loopbit n
         else Some (lpt, n))"

text \<open>\<open>calibrate_delay\<close> up to its report: the value it leaves in \<open>loops_per_tick\<close>.\<close>

definition loops_per_tick :: "(nat \<Rightarrow> u32) \<Rightarrow> nat \<Rightarrow> (u32 \<times> nat) option" where
  "loops_per_tick ticks n =
     (case calibrate_double ticks (push_bit 12 1) n of
        None \<Rightarrow> None
      | Some (lpt, n) \<Rightarrow>
          let lpt = drop_bit 1 lpt
          in calibrate_refine ticks LPS_PREC lpt lpt n)"

text \<open>The messages of \<open>calibrate_delay\<close> are printed before and after it; \<open>fmt1\<close> and \<open>fmt2\<close> are their formats.\<close>

definition calibrate_delay ::
    "(nat \<Rightarrow> u32) \<Rightarrow> device \<Rightarrow> (64 word \<Rightarrow> fpval) \<Rightarrow> u32 \<Rightarrow> u32 \<Rightarrow> u32 \<Rightarrow> u32 \<Rightarrow> nat \<Rightarrow> mem \<times> io \<Rightarrow> (u32 \<times> nat \<times> mem \<times> io) option" where
  "calibrate_delay ticks dev fp nulls buf fmt1 fmt2 n st =
     (case printk dev fp nulls buf fmt1 [] st of
        None \<Rightarrow> None
      | Some (_, st) \<Rightarrow>
          case loops_per_tick ticks n of
            None \<Rightarrow> None
          | Some (lpt, n) \<Rightarrow>
              map_option (\<lambda>(_, st). (lpt, n, st))
                (printk dev fp nulls buf fmt2 [Word (lpt * HZ), Word (lpt div (500000 div HZ)), Word (lpt div (5000 div HZ) mod 100)] st))"

partial_function (option) sleep_ticks :: "(nat \<Rightarrow> u32) \<Rightarrow> u32 \<Rightarrow> u32 \<Rightarrow> nat \<Rightarrow> 'h threads \<Rightarrow> (nat \<times> 'h threads) option" where
  "sleep_ticks ticks start want n s =
     (if ticks n - start < want then
        case sys_task_yield s of None \<Rightarrow> None | Some s \<Rightarrow> sleep_ticks ticks start want (n + 1) s
      else Some (n + 1, s))"

text \<open>The function \<^verbatim>\<open>_sleep\<close>.\<close>

definition sleep_yielding :: "(nat \<Rightarrow> u32) \<Rightarrow> u32 \<Rightarrow> nat \<Rightarrow> 'h threads \<Rightarrow> (nat \<times> 'h threads) option" where
  "sleep_yielding ticks want n s = sleep_ticks ticks (ticks n) want (n + 1) s"

text \<open>\<^verbatim>\<open>_delay\<close> does nothing, its body being commented out, and so is the division by \<open>denom\<close>.\<close>

definition do_sleep :: "(nat \<Rightarrow> u32) \<Rightarrow> u32 \<Rightarrow> u32 \<Rightarrow> nat \<Rightarrow> 'h threads \<Rightarrow> (nat \<times> 'h threads) option" where
  "do_sleep ticks num denom n s =
     (let want = num * HZ
      in if want > 0 then sleep_yielding ticks want n s else Some (n, s))"

definition sys_sleep :: "(nat \<Rightarrow> u32) \<Rightarrow> u32 \<Rightarrow> nat \<Rightarrow> 'h threads \<Rightarrow> (u32 \<times> nat \<times> 'h threads) option" where
  "sys_sleep ticks seconds n s = map_option (Pair 0) (do_sleep ticks seconds 1 n s)"

definition sys_nanosleep :: "(nat \<Rightarrow> u32) \<Rightarrow> u32 \<Rightarrow> u32 \<Rightarrow> nat \<Rightarrow> 'h threads \<Rightarrow> (int \<times> nat \<times> 'h threads) option" where
  "sys_nanosleep ticks tv_sec tv_nsec n s =
     (case (if sint tv_sec > 0 then do_sleep ticks tv_sec 1 n s else Some (n, s)) of
        None \<Rightarrow> None
      | Some (n, s) \<Rightarrow>
          map_option (Pair 0) (if sint tv_nsec > 0 then do_sleep ticks tv_nsec 1000000000 n s else Some (n, s)))"

section \<open>Waiting for the counter\<close>

text \<open>The counter at the \<open>n\<close>-th look: it never goes back, gains at most \<open>d\<close> and passes every value.\<close>

definition counts :: "device \<Rightarrow> (nat \<Rightarrow> nat) \<Rightarrow> nat \<Rightarrow> bool" where
  "counts dev f d \<longleftrightarrow> (\<forall>s. dev TIMER_CL0 s = of_nat (f (clock s))) \<and> (\<forall>n. f n \<le> f (Suc n) \<and> f (Suc n) \<le> f n + d) \<and> (\<forall>k. \<exists>n. k \<le> f n)"

lemma counts_mono: "counts dev f d \<Longrightarrow> i \<le> j \<Longrightarrow> f i \<le> f j"
  by (rule lift_Suc_mono_le [of f]) (simp_all add: counts_def)

text \<open>The difference of two values of the counter, while it is less than the range of a word.\<close>

lemma unat_counter_diff:
  assumes "a \<le> b" "b - a < 4294967296"
  shows "unat (of_nat b - of_nat a :: u32) = b - a"
proof -
  have "of_nat b - of_nat a = (of_nat (b - a) :: u32)" using assms(1) by (simp add: of_nat_diff)
  then show ?thesis by (simp only: u32_of_nat_unat [OF assms(2)])
qed

lemma sleep_loop_returns:
  assumes "counts dev f d" "unat us + d < 4294967296" "f n0 + unat us \<le> f n"
  shows "clock s \<le> n \<Longrightarrow> n0 < clock s \<Longrightarrow> f (clock s - 1) \<le> f n0 + unat us \<Longrightarrow>
    \<exists>k. sleep_loop dev (of_nat (f n0)) us s = Some (s\<lparr>clock := Suc k\<rparr>) \<and> clock s \<le> k \<and>
      f n0 + unat us \<le> f k \<and> f k \<le> f n0 + unat us + d"
proof (induction "n - clock s" arbitrary: s rule: less_induct)
  case less
  let ?c = "clock s"
  have c: "f n0 \<le> f ?c" using counts_mono [OF assms(1), of n0 ?c] less.prems(2) by simp
  have "f (Suc (?c - 1)) \<le> f (?c - 1) + d" using assms(1) unfolding counts_def by blast
  then have up: "f ?c \<le> f n0 + unat us + d" using less.prems(2,3) by simp
  then have diff: "unat (of_nat (f ?c) - of_nat (f n0) :: u32) = f ?c - f n0"
    using c assms(2) by (intro unat_counter_diff) simp_all
  have look: "sleep_loop dev (of_nat (f n0)) us s =
      (if f ?c - f n0 < unat us then sleep_loop dev (of_nat (f n0)) us (s\<lparr>clock := Suc ?c\<rparr>) else Some (s\<lparr>clock := Suc ?c\<rparr>))"
    using assms(1) diff by (subst sleep_loop.simps) (simp add: mmio_read_def counts_def word_less_nat_alt)
  show ?case
  proof (cases "f ?c - f n0 < unat us")
    case True
    have "?c \<noteq> n" using True assms(3) by auto
    then have "n - Suc ?c < n - ?c" "Suc ?c \<le> n" using less.prems(1) by simp_all
    moreover have "f ?c \<le> f n0 + unat us" using True c by simp
    ultimately obtain k where "sleep_loop dev (of_nat (f n0)) us (s\<lparr>clock := Suc ?c\<rparr>) = Some (s\<lparr>clock := Suc k\<rparr>)" "Suc ?c \<le> k"
      "f n0 + unat us \<le> f k" "f k \<le> f n0 + unat us + d"
      using less.hyps [of "s\<lparr>clock := Suc ?c\<rparr>"] less.prems(2) by auto
    then show ?thesis using look True by (intro exI [of _ k]) simp
  next
    case False
    then show ?thesis using look c up by (intro exI [of _ ?c]) simp
  qed
qed

lemma sleep_waits:
  assumes "counts dev f d" "unat ms * 1000 + d < 4294967296" "0 \<le> sint ms"
  shows "\<exists>k. sleep dev ms s = Some (0, s\<lparr>clock := Suc k\<rparr>) \<and> clock s < k \<and>
    f (clock s) + unat ms * 1000 \<le> f k \<and> f k \<le> f (clock s) + unat ms * 1000 + d"
proof -
  have us: "unat (ms * 1000) = unat ms * 1000" using assms(2) by (simp add: unat_word_ariths)
  obtain n where n: "f (clock s) + unat ms * 1000 \<le> f n" using assms(1) unfolding counts_def by blast
  then have "f (clock s) + unat ms * 1000 \<le> f (max n (Suc (clock s)))"
    using counts_mono [OF assms(1), of n "max n (Suc (clock s))"] by simp
  then obtain k where "sleep_loop dev (of_nat (f (clock s))) (ms * 1000) (s\<lparr>clock := Suc (clock s)\<rparr>) = Some (s\<lparr>clock := Suc k\<rparr>)"
    "Suc (clock s) \<le> k" "f (clock s) + unat ms * 1000 \<le> f k" "f k \<le> f (clock s) + unat ms * 1000 + d"
    using sleep_loop_returns [OF assms(1), of "ms * 1000" "clock s" "max n (Suc (clock s))" "s\<lparr>clock := Suc (clock s)\<rparr>"] assms(2)
    unfolding us by auto
  then show ?thesis using assms(1,3) by (intro exI [of _ k]) (simp add: sleep_def mmio_read_def counts_def)
qed

text \<open>
  C40. \<open>sleep\<close> returns: it reads the counter until it has advanced by 1000 times its argument,
  and by no more than the counter gains between two looks beyond that. A negative argument
  is refused. The product must fit into 32 bits with that gain, that is, the argument must be
  below about 4294967; for a greater one it wraps and \<open>sleep\<close> returns too early.
\<close>

theorem sleep_returns:
  assumes "counts dev f d" "unat ms * 1000 + d < 4294967296" "0 \<le> sint ms"
  shows "\<exists>k. sleep dev ms s = Some (0, s\<lparr>clock := Suc k\<rparr>) \<and> clock s < k \<and>
    f (clock s) + unat ms * 1000 \<le> f k \<and> f k \<le> f (clock s) + unat ms * 1000 + d"
  by (rule sleep_waits [OF assms])

text \<open>A counter that gains 7 at each look.\<close>

definition counter_7 :: device where
  "counter_7 r s = (if r = TIMER_CL0 then of_nat (7 * clock s) else 0)"

lemma counts_7: "counts counter_7 (\<lambda>n. 7 * n) 7"
proof -
  have "\<exists>n. k \<le> 7 * n" for k :: nat by (rule exI [of _ k]) simp
  then show ?thesis unfolding counts_def counter_7_def by auto
qed

theorem sleep_returns_witness:
  "\<exists>k. sleep counter_7 500 \<lparr>clock = 3, writes = []\<rparr> = Some (0, \<lparr>clock = Suc k, writes = []\<rparr>) \<and> 500021 \<le> 7 * k \<and> 7 * k \<le> 500028"
  using sleep_returns [OF counts_7, of 500 "\<lparr>clock = 3, writes = []\<rparr>"] by auto

section \<open>Calibration\<close>

lemma busy_wait_time: "busy_wait loops n = n + unat loops + 1"
proof (induction loops n rule: busy_wait.induct)
  case (1 loops n)
  show ?case
  proof (cases "loops > 0")
    case True
    then have "loops \<noteq> 0" by simp
    then show ?thesis using 1 True unat_Suc_pred [of loops] by (subst busy_wait.simps) simp
  next
    case False
    then have "loops = 0" using word_gt_0 [of loops] by blast
    then show ?thesis by (simp add: busy_wait.simps)
  qed
qed

text \<open>A tick at every multiple of \<open>T\<close>.\<close>

definition periodic :: "nat \<Rightarrow> nat \<Rightarrow> u32" where
  "periodic T n = of_nat (n div T)"

lemma of_nat_Suc_neq: "(of_nat (Suc q) :: u32) \<noteq> of_nat q"
  by simp

lemma await_tick_next:
  assumes "0 < T" "q * T \<le> n" "n \<le> Suc q * T"
  shows "await_tick (periodic T) (of_nat q) n = Some (Suc q * T + 1)"
  using assms(2,3)
proof (induction "Suc q * T - n" arbitrary: n)
  case 0
  then have "n = Suc q * T" by simp
  then have "n div T = Suc q" using assms(1) by (simp only: nonzero_mult_div_cancel_right)
  then show ?case using \<open>n = Suc q * T\<close> by (subst await_tick.simps) (simp add: periodic_def)
next
  case (Suc j)
  then have lt: "n < Suc q * T" by simp
  then have "n div T = q" using Suc.prems(1) by (intro div_nat_eqI) (simp_all add: mult.commute)
  moreover have "await_tick (periodic T) (of_nat q) (n + 1) = Some (Suc q * T + 1)" using Suc.hyps lt Suc.prems(1) by (intro Suc.hyps(1)) simp_all
  ultimately show ?case by (subst await_tick.simps) (simp add: periodic_def)
qed

text \<open>Waiting is seen to take a tick or longer exactly if \<open>T \<le> loops + 3\<close>.\<close>

lemma timed_wait_periodic:
  assumes "1 < T"
  obtains n' where "timed_wait (periodic T) loops n = Some (of_nat ((unat loops + 3) div T), n')"
proof -
  let ?q = "n div T"
  have n: "?q * T \<le> n" "n < Suc ?q * T" using assms dividend_less_div_times [of T n] div_times_less_eq_dividend [of n T] by simp_all
  have a: "await_tick (periodic T) (periodic T n) (n + 1) = Some (Suc ?q * T + 1)"
    unfolding periodic_def [of T n] by (rule await_tick_next) (use assms n in linarith)+
  have t1: "(Suc ?q * T + 1) div T = Suc ?q" using assms by (intro div_nat_eqI) simp_all
  have e: "Suc ?q * T + 1 + 1 + unat loops + 1 = (unat loops + 3) + Suc ?q * T" by simp
  have "T \<noteq> 0" using assms by simp
  then have t2: "(Suc ?q * T + 1 + 1 + unat loops + 1) div T = Suc ?q + (unat loops + 3) div T" unfolding e by (rule div_mult_self1)
  have "timed_wait (periodic T) loops n =
      Some (of_nat (Suc ?q + (unat loops + 3) div T) - of_nat (Suc ?q), Suc ?q * T + 1 + 1 + unat loops + 1 + 1)"
    unfolding timed_wait_def a option.case Let_def busy_wait_time unfolding periodic_def t1 t2 ..
  then show thesis using that by simp
qed

lemma tick_seen:
  assumes "3 < T"
  shows "(of_nat ((unat (loops :: u32) + 3) div T) :: u32) \<noteq> 0 \<longleftrightarrow> T \<le> unat loops + 3"
proof -
  have "(unat loops + 3) div T \<le> (unat loops + 3) div 4" using assms by (intro div_le_mono2) simp_all
  also have "\<dots> < 4294967296" using u32_unat_bound [of loops] by simp
  finally have "(of_nat ((unat loops + 3) div T) :: u32) \<noteq> 0 \<longleftrightarrow> (unat loops + 3) div T \<noteq> 0"
    using u32_of_nat_unat [of "(unat loops + 3) div T"] unat_gt_0 [of "of_nat ((unat loops + 3) div T) :: u32"] by linarith
  also have "\<dots> \<longleftrightarrow> T \<le> unat loops + 3" using assms by (auto simp: div_eq_0_iff)
  finally show ?thesis .
qed

text \<open>The powers of two that the code shifts.\<close>

definition power_word :: "nat \<Rightarrow> u32" where
  "power_word i = push_bit i 1"

lemma power_word:
  "i < 32 \<Longrightarrow> unat (power_word i) = 2 ^ i" "i < 32 \<Longrightarrow> power_word i \<noteq> 0" "push_bit 1 (power_word i) = power_word (Suc i)"
  "i < 31 \<Longrightarrow> drop_bit 1 (power_word (Suc i)) = power_word i" "bit (power_word i) j \<longleftrightarrow> j = i \<and> i < 32"
proof -
  show u: "unat (power_word i) = 2 ^ i" if "i < 32" for i using that unfolding power_word_def by (rule unat_push_bit_1)
  show "power_word i \<noteq> 0" if "i < 32" using u [OF that] unat_gt_0 [of "power_word i"] by simp
  show "push_bit 1 (power_word i) = power_word (Suc i)" by (simp add: power_word_def push_bit_push_bit del: push_bit_of_1)
  show b: "bit (power_word i) j \<longleftrightarrow> j = i \<and> i < 32" for i j
    unfolding power_word_def bit_push_bit_iff by (auto simp: bit_1_iff)
  show "drop_bit 1 (power_word (Suc i)) = power_word i" if "i < 31"
    using that by (intro bit_word_eqI) (auto simp: bit_drop_bit_eq b)
qed

lemma calibrate_double_periodic:
  assumes "3 < T" "T \<le> 2 ^ 31" "k < 31" "2 ^ k + 3 < T"
  shows "\<exists>j n'. calibrate_double (periodic T) (power_word k) n = Some (power_word (Suc j), n') \<and> k \<le> j \<and> j < 31 \<and>
    2 ^ j + 3 < T \<and> T \<le> 2 ^ Suc j + 3"
  using assms(3,4)
proof (induction "31 - k" arbitrary: k n)
  case (Suc i)
  have u: "unat (power_word (Suc k)) = 2 ^ Suc k" and nz: "power_word (Suc k) \<noteq> 0"
    using Suc.prems(1) by (simp_all only: power_word Suc_less_eq2 less_Suc_eq_le numeral_nat) simp_all
  obtain n1 where w: "timed_wait (periodic T) (power_word (Suc k)) n = Some (of_nat ((2 ^ Suc k + 3) div T), n1)"
    using timed_wait_periodic [of T "power_word (Suc k)" n] assms(1) unfolding u by auto
  have step: "calibrate_double (periodic T) (power_word k) n =
      (if T \<le> 2 ^ Suc k + 3 then Some (power_word (Suc k), n1) else calibrate_double (periodic T) (power_word (Suc k)) n1)"
    unfolding calibrate_double.simps [of _ "power_word k"] Let_def power_word(3) w
    using nz tick_seen [OF assms(1), of "power_word (Suc k)"] unfolding u by (simp only: if_True option.case prod.case simp_thms)
  show ?case
  proof (cases "T \<le> 2 ^ Suc k + 3")
    case True
    then show ?thesis using step Suc.prems by (intro exI [of _ k] exI [of _ n1]) simp
  next
    case False
    have "Suc k < 31"
    proof (rule ccontr)
      assume "\<not> Suc k < 31"
      then have "Suc k = 31" using Suc.prems(1) by simp
      then show False using False assms(2) by simp
    qed
    moreover have "i = 31 - Suc k" "2 ^ Suc k + 3 < T" using Suc.hyps(2) False by simp_all
    ultimately obtain j n' where "calibrate_double (periodic T) (power_word (Suc k)) n1 = Some (power_word (Suc j), n')" "Suc k \<le> j" "j < 31"
      "2 ^ j + 3 < T" "T \<le> 2 ^ Suc j + 3"
      using Suc.hyps(1) by blast
    then show ?thesis unfolding step using False by (intro exI [of _ j] exI [of _ n']) simp
  qed
qed simp

text \<open>One bit of the approximation: it is kept exactly when waiting stays below a tick.\<close>

lemma refine_bits:
  assumes "2 ^ Suc i dvd unat lpt" "i < 31" "unat lpt + 2 ^ Suc i \<le> 4294967296"
  shows "unat (lpt OR power_word i) = unat lpt + 2 ^ i" "(lpt OR power_word i) AND NOT (power_word i) = lpt"
proof -
  have i: "i < 32" using assms(2) by simp
  have b: "\<not> bit lpt i"
  proof -
    have "even (unat lpt div 2 ^ i)" using assms(1) by (auto simp: dvd_def)
    then show ?thesis by (simp add: bit_of_unat)
  qed
  have "lpt AND power_word i = 0" using b by (intro bit_word_eqI) (auto simp: bit_and_iff power_word(5))
  then have "lpt OR power_word i = lpt + power_word i" by (simp add: disjunctive_add_eq_or)
  moreover have "(0::nat) < 2 ^ i" by simp
  then have "unat lpt + 2 ^ i < 4294967296" using assms(3) unfolding power_Suc by linarith
  then have "unat (lpt + power_word i) = unat lpt + 2 ^ i" using power_word(1) [OF i] by (simp add: unat_add_no_wrap)
  ultimately show "unat (lpt OR power_word i) = unat lpt + 2 ^ i" by simp
  show "(lpt OR power_word i) AND NOT (power_word i) = lpt"
    using b by (intro bit_word_eqI) (auto simp: bit_and_iff bit_or_iff bit_not_iff power_word(5))
qed

lemma calibrate_refine_periodic:
  assumes "3 < T"
  shows "p \<le> i \<Longrightarrow> i < 31 \<Longrightarrow> 2 ^ i dvd unat lpt \<Longrightarrow> unat lpt + 2 ^ i \<le> 4294967296 \<Longrightarrow> unat lpt + 3 < T \<Longrightarrow> T \<le> unat lpt + 2 ^ i + 3 \<Longrightarrow>
    \<exists>r n'. calibrate_refine (periodic T) p lpt (power_word i) n = Some (r, n') \<and> unat r + 3 < T \<and> T \<le> unat r + 2 ^ (i - p) + 3"
proof (induction p arbitrary: i lpt n)
  case (Suc p)
  then obtain k where i: "i = Suc k" by (cases i) auto
  have k: "k < 31" "k < 32" "p \<le> k" using Suc.prems(1,2) i by simp_all
  note bits = refine_bits [OF Suc.prems(3) [unfolded i] k(1) Suc.prems(4) [unfolded i]]
  define l2 where "l2 = lpt OR power_word k"
  have u: "unat l2 = unat lpt + 2 ^ k" unfolding l2_def by (rule bits(1))
  obtain n1 where w: "timed_wait (periodic T) l2 n = Some (of_nat ((unat l2 + 3) div T), n1)"
    using timed_wait_periodic [of T l2 n] assms by auto
  have d: "2 ^ k dvd unat lpt" using Suc.prems(3) dvd_trans [OF le_imp_power_dvd [of k "Suc k" 2]] i by auto
  have step: "calibrate_refine (periodic T) (Suc p) lpt (power_word i) n =
      calibrate_refine (periodic T) p (if T \<le> unat l2 + 3 then lpt else l2) (power_word k) n1"
    unfolding calibrate_refine.simps(2) Let_def i power_word(4) [OF k(1)] l2_def [symmetric] w option.case prod.case
    using power_word(2) [OF k(2)] tick_seen [OF assms, of l2] bits(2) [folded l2_def] by (simp only: if_True simp_thms)
  have s: "(2::nat) ^ Suc k = 2 ^ k + 2 ^ k" by simp
  have "\<exists>r n'. calibrate_refine (periodic T) p (if T \<le> unat l2 + 3 then lpt else l2) (power_word k) n1 = Some (r, n') \<and> unat r + 3 < T \<and>
      T \<le> unat r + 2 ^ (k - p) + 3"
  proof (rule Suc.IH [OF k(3,1)])
    show "2 ^ k dvd unat (if T \<le> unat l2 + 3 then lpt else l2)" using d u by simp
    show "unat (if T \<le> unat l2 + 3 then lpt else l2) + 2 ^ k \<le> 4294967296"
      "unat (if T \<le> unat l2 + 3 then lpt else l2) + 3 < T" "T \<le> unat (if T \<le> unat l2 + 3 then lpt else l2) + 2 ^ k + 3"
      using Suc.prems(4-6) unfolding i s by (auto simp: u)
  qed
  then show ?case unfolding step using i by simp
qed simp

text \<open>
  C38. With ticks at regular times, \<open>calibrate_delay\<close> returns the number of iterations of
  \<open>busy_wait\<close> for which waiting is just shorter than a tick, to 8 bits: what is missing is at most
  a 256th of the greatest power of two for which it is shorter. A tick must be between \<open>2^12\<close>
  and \<open>2^31\<close> iterations long.
\<close>

theorem calibration_correct:
  assumes "2 ^ 12 + 3 < T" "T \<le> 2 ^ 31"
  shows "\<exists>r n' j. loops_per_tick (periodic T) n = Some (r, n') \<and> unat r + 3 < T \<and> T \<le> unat r + 2 ^ (j - 8) + 3 \<and>
    12 \<le> j \<and> 2 ^ j + 3 < T \<and> T \<le> 2 ^ Suc j + 3"
proof -
  have T: "3 < T" using assms(1) by simp
  obtain j n1 where j: "calibrate_double (periodic T) (power_word 12) n = Some (power_word (Suc j), n1)" "12 \<le> j" "j < 31"
    "2 ^ j + 3 < T" "T \<le> 2 ^ Suc j + 3"
    using calibrate_double_periodic [OF T assms(2), of 12 n] assms(1) by auto
  have u: "unat (power_word j) = 2 ^ j" using j(3) by (simp add: power_word)
  have b: "(2::nat) ^ Suc j \<le> 2 ^ 32" using j(3) by (intro power_increasing) simp_all
  obtain r n2 where r: "calibrate_refine (periodic T) 8 (power_word j) (power_word j) n1 = Some (r, n2)" "unat r + 3 < T" "T \<le> unat r + 2 ^ (j - 8) + 3"
    using calibrate_refine_periodic [OF T, of 8 j "power_word j" n1] j b unfolding u by auto
  have "loops_per_tick (periodic T) n = Some (r, n2)"
    unfolding loops_per_tick_def power_word_def [symmetric] j(1) option.case prod.case Let_def power_word(4) [OF j(3)] LPS_PREC_def by (rule r(1))
  then show ?thesis using r j by blast
qed

theorem calibration_correct_witness:
  "\<exists>r n'. loops_per_tick (periodic 100000) 0 = Some (r, n') \<and> unat r < 99997 \<and> 99741 \<le> unat r"
proof -
  obtain r n' j where r: "loops_per_tick (periodic 100000) 0 = Some (r, n')" "unat r + 3 < 100000" "100000 \<le> unat r + 2 ^ (j - 8) + 3"
    "2 ^ j + 3 < (100000::nat)"
    using calibration_correct [of 100000 0] by auto
  have "j < 17"
  proof (rule ccontr)
    assume "\<not> j < 17"
    then have "(2::nat) ^ 17 \<le> 2 ^ j" by (intro power_increasing) simp_all
    then show False using r(4) by simp
  qed
  then have "(2::nat) ^ (j - 8) \<le> 2 ^ 8" by (intro power_increasing) simp_all
  then show ?thesis using r by auto
qed

section \<open>Sleeping threads\<close>

text \<open>When the loop ends, enough ticks had passed at some look.\<close>

lemma sleep_ticks_passed:
  "sleep_ticks ticks start want n s = Some r \<Longrightarrow> \<exists>k. \<not> ticks k - start < want"
proof (rule sleep_ticks.raw_induct [where P = "\<lambda>ticks start want n s r. \<exists>k. \<not> ticks k - start < want"])
  fix f ticks start want n and s :: "'a threads" and r
  assume ih: "\<And>ticks start want n s r. f ticks start want n s = Some r \<Longrightarrow> \<exists>k. \<not> ticks k - start < want"
    and eq: "(if ticks n - start < want then case sys_task_yield s of None \<Rightarrow> None | Some s \<Rightarrow> f ticks start want (n + 1) s
      else Some (n + 1, s)) = Some r"
  show "\<exists>k. \<not> ticks k - start < want"
  proof (cases "ticks n - start < want")
    case True
    then obtain s' where "f ticks start want (n + 1) s' = Some r" using eq by (auto split: option.splits)
    then show ?thesis by (rule ih)
  qed blast
qed

text \<open>
  As long as \<open>g_timer_ticks\<close> does not change, and no code of the kernel changes it,
  \<open>sys_sleep\<close> of any number of seconds, not a multiple of \<open>2^30\<close>, never returns.
\<close>

theorem sys_sleep_never_returns:
  assumes "\<And>k. ticks k = c" "seconds * 100 \<noteq> 0"
  shows "sys_sleep ticks seconds n s = None"
proof (cases "sleep_ticks ticks c (seconds * 100) (n + 1) s")
  case None
  then show ?thesis using assms by (simp add: sys_sleep_def do_sleep_def sleep_yielding_def HZ_def Let_def word_neq_0_conv)
next
  case (Some r)
  then show ?thesis using sleep_ticks_passed [OF Some] assms word_gt_0 [of "seconds * 100"] by simp
qed

text \<open>The ticks seen by looks that each see at most \<open>d\<close> new ones.\<close>

definition advances :: "(nat \<Rightarrow> u32) \<Rightarrow> (nat \<Rightarrow> nat) \<Rightarrow> nat \<Rightarrow> bool" where
  "advances ticks g d \<longleftrightarrow> (\<forall>n. ticks n = of_nat (g n)) \<and> (\<forall>n. g n \<le> g (Suc n) \<and> g (Suc n) \<le> g n + d) \<and> (\<forall>k. \<exists>n. k \<le> g n)"

lemma advances_mono: "advances ticks g d \<Longrightarrow> i \<le> j \<Longrightarrow> g i \<le> g j"
  by (rule lift_Suc_mono_le [of g]) (simp_all add: advances_def)

lemma yield_keeps_list:
  assumes "task_list s (bs @ g_task_running s # cs)"
  obtains r where "sys_task_yield s = Some (s\<lparr>g_resched := r\<rparr>)"
  using schedule_choice [OF assms] by (auto simp: sys_task_yield_def)

lemma sleep_ticks_returns:
  assumes "advances ticks g d" "unat want + d < 4294967296" "g n0 + unat want \<le> g N"
  shows "n \<le> N \<Longrightarrow> n0 < n \<Longrightarrow> g (n - 1) \<le> g n0 + unat want \<Longrightarrow> task_list s (bs @ g_task_running s # cs) \<Longrightarrow>
    \<exists>k r. sleep_ticks ticks (of_nat (g n0)) want n s = Some (Suc k, s\<lparr>g_resched := r\<rparr>) \<and> n \<le> k \<and>
      g n0 + unat want \<le> g k \<and> g k \<le> g n0 + unat want + d"
proof (induction "N - n" arbitrary: n s rule: less_induct)
  case less
  have c: "g n0 \<le> g n" using advances_mono [OF assms(1), of n0 n] less.prems(2) by simp
  have "g (Suc (n - 1)) \<le> g (n - 1) + d" using assms(1) unfolding advances_def by blast
  then have up: "g n \<le> g n0 + unat want + d" using less.prems(2,3) by simp
  then have diff: "unat (of_nat (g n) - of_nat (g n0) :: u32) = g n - g n0"
    using c assms(2) by (intro unat_counter_diff) simp_all
  obtain r where y: "sys_task_yield s = Some (s\<lparr>g_resched := r\<rparr>)" by (rule yield_keeps_list [OF less.prems(4)])
  have look: "sleep_ticks ticks (of_nat (g n0)) want n s =
      (if g n - g n0 < unat want then sleep_ticks ticks (of_nat (g n0)) want (Suc n) (s\<lparr>g_resched := r\<rparr>) else Some (Suc n, s))"
    using assms(1) diff y by (subst sleep_ticks.simps) (simp add: advances_def word_less_nat_alt)
  show ?case
  proof (cases "g n - g n0 < unat want")
    case True
    have "n \<noteq> N" using True assms(3) by auto
    then have "N - Suc n < N - n" "Suc n \<le> N" using less.prems(1) by simp_all
    moreover have "g n \<le> g n0 + unat want" using True c by simp
    moreover have "task_list (s\<lparr>g_resched := r\<rparr>) (bs @ g_task_running (s\<lparr>g_resched := r\<rparr>) # cs)"
      using less.prems(4) by (simp add: task_list_def)
    ultimately obtain k r' where "sleep_ticks ticks (of_nat (g n0)) want (Suc n) (s\<lparr>g_resched := r\<rparr>) = Some (Suc k, s\<lparr>g_resched := r'\<rparr>)"
      "Suc n \<le> k" "g n0 + unat want \<le> g k" "g k \<le> g n0 + unat want + d"
      using less.hyps [of "Suc n" "s\<lparr>g_resched := r\<rparr>"] less.prems(2) by auto
    then show ?thesis using look True by (intro exI [of _ k] exI [of _ r']) simp
  next
    case False
    then show ?thesis using look c up by (intro exI [of _ n] exI [of _ "g_resched s"]) simp
  qed
qed

text \<open>
  With advancing ticks \<open>sys_sleep\<close> returns after 100 ticks for each second, and not later
  than at the next look; it yields meanwhile, and changes no thread.
\<close>

theorem sys_sleep_returns:
  assumes "advances ticks g d" "unat seconds * 100 + d < 4294967296" "seconds \<noteq> 0" "task_list s (bs @ g_task_running s # cs)"
  shows "\<exists>k r. sys_sleep ticks seconds n s = Some (0, Suc k, s\<lparr>g_resched := r\<rparr>) \<and> n < k \<and>
    g n + unat seconds * 100 \<le> g k \<and> g k \<le> g n + unat seconds * 100 + d"
proof -
  have u: "unat (seconds * 100) = unat seconds * 100" using assms(2) by (simp add: unat_word_ariths)
  have "0 < unat seconds" using assms(3) by (simp add: unat_gt_0)
  then have pos: "0 < seconds * 100" by (simp add: word_less_nat_alt u)
  obtain N where "g n + unat seconds * 100 \<le> g N" using assms(1) unfolding advances_def by blast
  then have "g n + unat (seconds * 100) \<le> g (max N (Suc n))"
    using advances_mono [OF assms(1), of N "max N (Suc n)"] by (simp add: u)
  from sleep_ticks_returns [OF assms(1) _ this, of "Suc n" s bs cs] assms(2,4)
  obtain k r where "sleep_ticks ticks (of_nat (g n)) (seconds * 100) (Suc n) s = Some (Suc k, s\<lparr>g_resched := r\<rparr>)" "Suc n \<le> k"
    "g n + unat seconds * 100 \<le> g k" "g k \<le> g n + unat seconds * 100 + d"
    unfolding u by auto
  then show ?thesis using assms(1) pos
    by (intro exI [of _ k] exI [of _ r]) (simp add: sys_sleep_def do_sleep_def sleep_yielding_def HZ_def Let_def advances_def)
qed

theorem sys_sleep_returns_witness:
  "\<exists>k r. sys_sleep of_nat 2 5 (example_threads TASK_STATE_READY NULL) =
     Some (0, Suc k, (example_threads TASK_STATE_READY NULL)\<lparr>g_resched := r\<rparr>) \<and> 205 \<le> k \<and> k \<le> 206"
proof -
  have "advances of_nat (\<lambda>n. n) 1" by (auto simp: advances_def)
  moreover have "task_list (example_threads TASK_STATE_READY NULL) ([0x1000] @ g_task_running (example_threads TASK_STATE_READY NULL) # [0x3000])"
    using example_task_list [of TASK_STATE_READY NULL] by (simp add: example_threads_def)
  ultimately show ?thesis using sys_sleep_returns [of of_nat "\<lambda>n. n" 1 2 "example_threads TASK_STATE_READY NULL" "[0x1000]" "[0x3000]" 5] by auto
qed

theorem sys_sleep_never_returns_witness: "sys_sleep (\<lambda>_. 7) 1 0 (example_threads TASK_STATE_READY NULL) = None"
  by (rule sys_sleep_never_returns) simp_all

text \<open>
  \<open>sys_nanosleep\<close> takes nanoseconds for seconds: the division by the denominator is
  commented out in \<open>do_sleep\<close>.
\<close>

theorem nanoseconds_as_seconds:
  assumes "0 < sint ns"
  shows "map_option snd (sys_nanosleep ticks 0 ns n s) = map_option snd (sys_sleep ticks ns n s)"
  using assms by (simp add: sys_nanosleep_def sys_sleep_def do_sleep_def option.map_comp comp_def)

theorem nanoseconds_as_seconds_witness:
  "sys_nanosleep (\<lambda>_. 7) 0 1 0 (example_threads TASK_STATE_READY NULL) = None"
proof -
  have "sleep_ticks (\<lambda>_. 7) 7 100 1 (example_threads TASK_STATE_READY NULL) = None"
    using sleep_ticks_passed [of "\<lambda>_. 7" 7 100 1] by (cases "sleep_ticks (\<lambda>_. 7) 7 100 1 (example_threads TASK_STATE_READY NULL)") auto
  then have "sys_sleep (\<lambda>_. 7) 1 0 (example_threads TASK_STATE_READY NULL) = None"
    by (simp add: sys_sleep_def do_sleep_def sleep_yielding_def HZ_def)
  then show ?thesis using nanoseconds_as_seconds [of 1 "\<lambda>_. 7" 0 "example_threads TASK_STATE_READY NULL"] by simp
qed

end
