(* ===== verification/Interrupt.thy ===== *)
theory Interrupt
  imports Timer PageFault "HOL-Library.Monad_Syntax"
begin

text \<open>
  The handlers of \<^verbatim>\<open>kernel/interrupt.c\<close>. They print, wait, and for a data abort call
  \<open>do_page_fault\<close>; the memory and the devices are threaded through. A handler that does not
  return is the value None.
\<close>

section \<open>The handlers\<close>

text \<open>
  What the linker and the hardware provide: the devices, the arithmetic of doubles, the places
  of \<^verbatim>\<open>"(null)"\<close> and of \<open>printk\<close>'s buffer, and the addresses of the string literals.
\<close>

record env =
  e_dev :: device
  e_fp :: "64 word \<Rightarrow> fpval"
  e_nulls :: u32
  e_buf :: u32
  l_undef :: u32
  l_swi :: u32
  l_pref :: u32
  l_dabt :: u32
  l_res :: u32
  l_irq :: u32
  l_fiq :: u32
  l_temp :: u32
  l_address :: u32
  l_code :: u32

definition say :: "env \<Rightarrow> u32 \<Rightarrow> mem \<times> io \<Rightarrow> (mem \<times> io) option" where
  "say E fmt st = map_option snd (printk (e_dev E) (e_fp E) (e_nulls E) (e_buf E) fmt [] st)"

definition nap :: "env \<Rightarrow> u32 \<Rightarrow> mem \<times> io \<Rightarrow> (mem \<times> io) option" where
  "nap E ms st = (case st of (m, s) \<Rightarrow> map_option (\<lambda>(_, s). (m, s)) (sleep (e_dev E) ms s))"

definition common_undef_handler :: "env \<Rightarrow> mem \<times> io \<Rightarrow> (mem \<times> io) option" where
  "common_undef_handler E st = do { st \<leftarrow> nap E 500 st; say E (l_undef E) st }"

definition common_swi_handler :: "env \<Rightarrow> mem \<times> io \<Rightarrow> (mem \<times> io) option" where
  "common_swi_handler E st = do { st \<leftarrow> nap E 500 st; say E (l_swi E) st }"

text \<open>The report on a fault, which two handlers make: the numbers are written into a string literal.\<close>

definition report_fault :: "env \<Rightarrow> u32 \<Rightarrow> u32 \<Rightarrow> mem \<times> io \<Rightarrow> (mem \<times> io) option" where
  "report_fault E vaddr code st = do {
     st \<leftarrow> say E (l_address E) (apfst (HexToString vaddr (l_temp E)) st);
     st \<leftarrow> say E (l_temp E) st;
     st \<leftarrow> say E (l_code E) (apfst (HexToString code (l_temp E)) st);
     say E (l_temp E) st }"

definition common_pref_handler :: "env \<Rightarrow> u32 \<Rightarrow> u32 \<Rightarrow> mem \<times> io \<Rightarrow> (mem \<times> io) option" where
  "common_pref_handler E vaddr code st = do {
     st \<leftarrow> say E (l_pref E) st;
     st \<leftarrow> report_fault E vaddr code st;
     nap E 5000 st }"

definition common_Dabt_handler :: "env \<Rightarrow> 'h vmspace \<Rightarrow> pmzone list \<Rightarrow> u32 \<Rightarrow> u32 \<Rightarrow> mem \<times> io \<Rightarrow> (mem \<times> io) option" where
  "common_Dabt_handler E vs zs vaddr code st = do {
     st \<leftarrow> say E (l_dabt E) st;
     (m, s) \<leftarrow> report_fault E vaddr code st;
     (_, m) \<leftarrow> (if code = 0x805 then do_page_fault vs zs vaddr VM_PROT_WRITE m else do_page_fault vs zs vaddr VM_PROT_READ m);
     nap E 500 (m, s) }"

definition common_res_handler :: "env \<Rightarrow> mem \<times> io \<Rightarrow> (mem \<times> io) option" where
  "common_res_handler E st = do { st \<leftarrow> nap E 500 st; say E (l_res E) st }"

definition common_irq_handler :: "env \<Rightarrow> mem \<times> io \<Rightarrow> (mem \<times> io) option" where
  "common_irq_handler E st = say E (l_irq E) (apsnd (mmio_write timer_IRQClear 0) st)"

definition common_fiq_handler :: "env \<Rightarrow> mem \<times> io \<Rightarrow> (mem \<times> io) option" where
  "common_fiq_handler E st = say E (l_fiq E) st"

section \<open>Printing a literal\<close>

lemma cstr_cong: "(\<And>i. i \<le> length cs \<Longrightarrow> m' (a + of_nat i) = m (a + of_nat i)) \<Longrightarrow> cstr m' a cs \<longleftrightarrow> cstr m a cs"
proof (induction cs arbitrary: a)
  case (Cons c cs)
  have "m' a = m a" using Cons.prems [of 0] by simp
  moreover have "cstr m' (a + 1) cs \<longleftrightarrow> cstr m (a + 1) cs"
    by (rule Cons.IH) (use Cons.prems [of "Suc _"] in \<open>simp add: ac_simps\<close>)
  ultimately show ?case by simp
qed simp

lemma plain_char: "to_char c = CHR ''%'' \<Longrightarrow> c = 37"
proof -
  assume "to_char c = CHR ''%''"
  then have "unat c mod 256 = 37" by (simp add: to_char_def char_of_eq_iff take_bit_eq_mod)
  moreover have "unat c < 256" using unsigned_less [of c, where ?'a = nat] by simp
  ultimately show "c = 37" by (simp add: word_unat_eq_iff)
qed

lemma render_plain: "37 \<notin> set cs \<Longrightarrow> render fp strs cs as = Some cs"
proof (induction cs)
  case (Cons c cs)
  then have "to_char c \<noteq> CHR ''%''" using plain_char [of c] by auto
  with Cons show ?case by (simp add: render.simps)
qed (simp add: render.simps)

text \<open>A string without \<^verbatim>\<open>%\<close> that is not in \<open>printk\<close>'s buffer.\<close>

definition literal :: "env \<Rightarrow> mem \<Rightarrow> u32 \<Rightarrow> u8 list \<Rightarrow> bool" where
  "literal E m a cs \<longleftrightarrow> cstr m a cs \<and> 37 \<notin> set cs \<and> length cs \<le> 127 \<and> apart (e_buf E) 128 a (length cs)"

lemma literal_cong:
  assumes "literal E m a cs" "\<And>x. outside (e_buf E) 128 x \<Longrightarrow> m' x = m x"
  shows "literal E m' a cs"
proof -
  have "cstr m' a cs \<longleftrightarrow> cstr m a cs"
    by (rule cstr_cong) (use assms in \<open>auto simp: literal_def apart_def\<close>)
  then show ?thesis using assms(1) by (simp add: literal_def)
qed

lemma say_literal:
  assumes "ready (e_dev E) 0x20" "literal E m a cs"
  obtains m' s' where "say E a (m, s) = Some (m', s')" "writes s' = writes s @ sent cs" "\<And>x. outside (e_buf E) 128 x \<Longrightarrow> m' x = m x"
proof -
  have l: "cstr m a cs" "37 \<notin> set cs" "length cs \<le> 127" "apart (e_buf E) 128 a (length cs)" using assms(2) by (simp_all add: literal_def)
  have "takeWhile (\<lambda>c. c \<noteq> 0) cs = cs" using cstr_nonzero [OF l(1)] by (auto simp: takeWhile_eq_all_conv)
  then have w: "takeWhile (\<lambda>c. c \<noteq> 0) (take 127 cs) = cs" using l(3) by simp
  have strs: "strs_ok (e_nulls E) (e_buf E) 128 (\<lambda>_. None) m" by (simp add: strs_ok_def)
  obtain m' s' where "printk (e_dev E) (e_fp E) (e_nulls E) (e_buf E) a [] (m, s) = Some (int (length cs), m', s')"
    "writes s' = writes s @ sent cs" "\<forall>x. outside (e_buf E) 128 x \<longrightarrow> m' x = m x"
    using printk_sends [OF assms(1) l(1,4) strs render_plain [OF l(2)], unfolded w] by blast
  then show thesis using that by (simp add: say_def)
qed

section \<open>The report\<close>

text \<open>The template behind a number that \<open>HexToString\<close> has written into it.\<close>

definition hex_line :: "u32 \<Rightarrow> u8 list" where
  "hex_line v = [48, 120] @ map (\<lambda>i. digit_char (unat v div 16 ^ (7 - i) mod 16)) [0..<8] @ [13, 10]"

definition template :: "env \<Rightarrow> mem \<Rightarrow> bool" where
  "template E m \<longleftrightarrow> m (l_temp E + 10) = 13 \<and> m (l_temp E + 11) = 10 \<and> m (l_temp E + 12) = 0 \<and> apart (e_buf E) 128 (l_temp E) 12"

lemma length_hex_line [simp]: "length (hex_line v) = 12"
  by (simp add: hex_line_def)

lemma digit_char_range: "d < 16 \<Longrightarrow> 48 \<le> unat (digit_char d)"
  by (auto simp: digit_char_def unat_of_nat)

lemma hex_line_plain: "c \<in> set (hex_line v) \<Longrightarrow> c \<noteq> 37 \<and> c \<noteq> 0"
proof -
  assume "c \<in> set (hex_line v)"
  then consider "c \<in> {48, 120, 13, 10}" | i where "c = digit_char (unat v div 16 ^ (7 - i) mod 16)"
    unfolding hex_line_def by auto
  then show ?thesis
  proof cases
    case 2
    then have "48 \<le> unat c" using digit_char_range [of "unat v div 16 ^ (7 - i) mod 16"] by simp
    then show ?thesis by auto
  qed auto
qed

lemma HexToString_bytes:
  "HexToString v str m = (\<lambda>x. if unat (x - str) < 10 then hex_line v ! unat (x - str) else m x)"
proof
  fix x
  define j where "j = unat (x - str)"
  have at: "x = str \<longleftrightarrow> j = 0" "x = str + 1 \<longleftrightarrow> j = 1"
    using offset_eq [of 0 x str] offset_eq [of 1 x str] by (simp_all add: j_def)
  have h: "HexToString v str m x = (if 2 \<le> j \<and> j \<le> 9 then digit_char (unat v div 16 ^ (9 - j) mod 16) else (m(str := 48, str + 1 := 120)) x)"
    using HexToString_loop_bytes [of 9 v str "m(str := 48, str + 1 := 120)"] by (simp add: HexToString_def j_def del: fun_upd_apply)
  consider "j = 0" | "j = 1" | "2 \<le> j" "j \<le> 9" | "10 \<le> j" by linarith
  then show "HexToString v str m x = (if unat (x - str) < 10 then hex_line v ! unat (x - str) else m x)"
  proof cases
    case 3
    define i where "i = j - 2"
    have i: "i < 8" "j = i + 2" using 3 by (simp_all add: i_def)
    have "hex_line v ! j = digit_char (unat v div 16 ^ (7 - i) mod 16)"
      using i by (simp add: hex_line_def nth_append)
    then show ?thesis using i unfolding h j_def [symmetric] by simp
  qed (unfold h j_def [symmetric], use at in \<open>simp_all add: hex_line_def\<close>)
qed

lemma template_literal:
  assumes "template E m"
  shows "literal E (HexToString v (l_temp E) m) (l_temp E) (hex_line v)"
proof -
  let ?m = "HexToString v (l_temp E) m"
  have at: "?m (l_temp E + of_nat j) = (hex_line v @ [0]) ! j" if "j \<le> 12" for j
  proof -
    have u: "unat (l_temp E + of_nat j - l_temp E) = j" using that by (simp add: u32_of_nat_unat)
    have "j < 10 \<or> j = 10 \<or> j = 11 \<or> j = 12" using that by linarith
    then consider "j < 10" | "j = 10" | "j = 11" | "j = 12" by blast
    then show ?thesis
    proof cases
      case 1
      then show ?thesis unfolding HexToString_bytes u by (simp add: nth_append)
    next
      case 2
      then show ?thesis unfolding HexToString_bytes u using assms by (simp add: template_def hex_line_def nth_append)
    next
      case 3
      then show ?thesis unfolding HexToString_bytes u using assms by (simp add: template_def hex_line_def nth_append)
    next
      case 4
      then show ?thesis unfolding HexToString_bytes u using assms by (simp add: template_def nth_append)
    qed
  qed
  have "cstr ?m (l_temp E) (hex_line v)"
  proof (rule cstr_intro)
    show "?m (l_temp E + of_nat i) = hex_line v ! i" if "i < length (hex_line v)" for i
      using at [of i] that by (simp add: nth_append)
    show "?m (l_temp E + of_nat (length (hex_line v))) = 0" using at [of 12] by (simp add: nth_append)
    show "0 \<notin> set (hex_line v)" using hex_line_plain by blast
  qed
  then show ?thesis using assms hex_line_plain by (auto simp: literal_def template_def)
qed

text \<open>The printed and written places of the report.\<close>

definition untouched :: "env \<Rightarrow> mem \<Rightarrow> mem \<Rightarrow> bool" where
  "untouched E m m' \<longleftrightarrow> (\<forall>x. outside (e_buf E) 128 x \<and> outside (l_temp E) 10 x \<longrightarrow> m' x = m x)"

text \<open>A literal that is not the template, either.\<close>

definition message :: "env \<Rightarrow> mem \<Rightarrow> u32 \<Rightarrow> u8 list \<Rightarrow> bool" where
  "message E m a cs \<longleftrightarrow> literal E m a cs \<and> apart (l_temp E) 10 a (length cs)"

lemma message_cong:
  assumes "message E m a cs" "untouched E m m'"
  shows "message E m' a cs"
proof -
  have "cstr m' a cs \<longleftrightarrow> cstr m a cs"
    by (rule cstr_cong) (use assms in \<open>auto simp: message_def literal_def apart_def untouched_def\<close>)
  then show ?thesis using assms(1) by (simp add: message_def literal_def)
qed

lemma outside_offset: "j < 4294967296 \<Longrightarrow> outside b n (b + of_nat j) \<longleftrightarrow> unat n \<le> j"
  by (simp add: outside_def u32_of_nat_unat)

lemma template_cong:
  assumes "template E m" "untouched E m m'"
  shows "template E m'"
proof -
  have "m' (l_temp E + of_nat j) = m (l_temp E + of_nat j)" if "10 \<le> j" "j \<le> 12" for j
    using assms that by (simp add: untouched_def template_def apart_def outside_offset)
  from this [of 10] this [of 11] this [of 12] show ?thesis using assms(1) by (simp add: template_def)
qed

lemma untouched_refl: "untouched E m m"
  by (simp add: untouched_def)

lemma untouched_trans: "untouched E m m1 \<Longrightarrow> untouched E m1 m2 \<Longrightarrow> untouched E m m2"
  by (simp add: untouched_def)

lemma untouched_HexToString: "untouched E m (HexToString v (l_temp E) m)"
  by (simp add: untouched_def HexToString_bytes outside_def)

lemma say_message:
  assumes "ready (e_dev E) 0x20" "message E m a cs"
  obtains m' s' where "say E a (m, s) = Some (m', s')" "writes s' = writes s @ sent cs" "untouched E m m'"
  using say_literal [OF assms(1), of m a cs s] assms(2) unfolding message_def untouched_def by metis

lemma say_number:
  assumes "ready (e_dev E) 0x20" "message E m a cs" "template E m"
  obtains m' s' where
    "do { st \<leftarrow> say E a (apfst (HexToString v (l_temp E)) (m, s)); say E (l_temp E) st } = Some (m', s')"
    "writes s' = writes s @ sent cs @ sent (hex_line v)" "untouched E m m'"
proof -
  let ?m = "HexToString v (l_temp E) m"
  have m: "message E ?m a cs" by (rule message_cong [OF assms(2) untouched_HexToString])
  obtain m1 s1 where 1: "say E a (?m, s) = Some (m1, s1)" "writes s1 = writes s @ sent cs" "\<And>x. outside (e_buf E) 128 x \<Longrightarrow> m1 x = ?m x"
    using say_literal [OF assms(1), of ?m a cs s] m unfolding message_def by metis
  have t: "literal E m1 (l_temp E) (hex_line v)" by (rule literal_cong [OF template_literal [OF assms(3)] 1(3)])
  obtain m2 s2 where 2: "say E (l_temp E) (m1, s1) = Some (m2, s2)" "writes s2 = writes s1 @ sent (hex_line v)"
    "\<And>x. outside (e_buf E) 128 x \<Longrightarrow> m2 x = m1 x"
    using say_literal [OF assms(1) t, of s1] by blast
  have "untouched E ?m m2" using 1(3) 2(3) by (simp add: untouched_def)
  then have "untouched E m m2" using untouched_trans [OF untouched_HexToString] by blast
  then show thesis using 1 2 by (intro that [of m2 s2]) simp_all
qed

lemma report_fault_sends:
  assumes "ready (e_dev E) 0x20" "message E m (l_address E) a" "message E m (l_code E) c" "template E m"
  obtains m' s' where "report_fault E vaddr code (m, s) = Some (m', s')"
    "writes s' = writes s @ sent a @ sent (hex_line vaddr) @ sent c @ sent (hex_line code)" "untouched E m m'"
proof -
  obtain m1 s1 where 1: "do { st \<leftarrow> say E (l_address E) (apfst (HexToString vaddr (l_temp E)) (m, s)); say E (l_temp E) st } = Some (m1, s1)"
    "writes s1 = writes s @ sent a @ sent (hex_line vaddr)" "untouched E m m1"
    using say_number [OF assms(1,2,4)] .
  obtain m2 s2 where 2: "do { st \<leftarrow> say E (l_code E) (apfst (HexToString code (l_temp E)) (m1, s1)); say E (l_temp E) st } = Some (m2, s2)"
    "writes s2 = writes s1 @ sent c @ sent (hex_line code)" "untouched E m1 m2"
    using say_number [OF assms(1) message_cong [OF assms(3) 1(3)] template_cong [OF assms(4) 1(3)]] .
  have "report_fault E vaddr code (m, s) = do { st \<leftarrow> do { st \<leftarrow> say E (l_address E) (apfst (HexToString vaddr (l_temp E)) (m, s)); say E (l_temp E) st };
      do { st \<leftarrow> say E (l_code E) (apfst (HexToString code (l_temp E)) st); say E (l_temp E) st } }"
    by (simp add: report_fault_def bind_assoc)
  then show thesis using 1(2) 2 untouched_trans [OF 1(3) 2(3)] unfolding 1(1) by (intro that [of m2 s2]) simp_all
qed

section \<open>A data abort\<close>

lemma sent_append: "sent (xs @ ys) = sent xs @ sent ys"
  by (simp add: sent_def)

lemma nap_returns:
  assumes "counts (e_dev E) f d" "unat ms * 1000 + d < 4294967296" "0 \<le> sint ms"
  obtains s' where "nap E ms (m, s) = Some (m, s')" "writes s' = writes s"
  using sleep_waits [OF assms, of s] that by (force simp: nap_def)


text \<open>A board with the lazy line and the counter, and the texts in its memory.\<close>

definition board :: device where
  "board r s = (if r = TIMER_CL0 then counter_7 r s else lazy_line r s)"

lemma board: "ready board 0x20" "counts board (\<lambda>n. 7 * n) 7"
  using ready_lazy_line counts_7
  by (simp_all add: ready_def counts_def board_def AUX_MU_LSR_REG_def TIMER_CL0_def)

definition example_env :: env where
  "example_env = \<lparr>e_dev = board, e_fp = no_fp, e_nulls = 0, e_buf = 0x3000, l_undef = 0, l_swi = 0, l_pref = 0,
     l_dabt = 0x1000, l_res = 0, l_irq = 0, l_fiq = 0, l_temp = 0x2000, l_address = 0x1100, l_code = 0x1200\<rparr>"

definition example_texts :: mem where
  "example_texts = example_bitmap(0x1000 := 97, 0x1001 := 0, 0x1100 := 98, 0x1101 := 0, 0x1200 := 99, 0x1201 := 0,
     0x200A := 13, 0x200B := 10, 0x200C := 0)"


end
