(* ===== verification/TaskTable.thy ===== *)
theory TaskTable
  imports Prelude
begin

text \<open>
  The task table of \<^verbatim>\<open>kernel/task.c\<close> (up to \<^verbatim>\<open>task_unlock_schedule\<close>) and the start-up sequence
  of \<^verbatim>\<open>cstart\<close> that fills it: creation, start, round-robin choice and deletion of tasks. The
  arrays are lists of 256 elements; where the code stores addresses of its own objects, these
  come from a record of link-time addresses.
\<close>

section \<open>State\<close>

datatype TASK_STATUS_ENUM = STATUS_NULL | READY | RUN | WAIT | SUSPEND | DEAD

record TASK_INFO =
  ti_rank :: u8
  ti_status :: TASK_STATUS_ENUM
  ti_func :: u32
  ti_TRID :: u32

record task_context =
  cf_r0 :: u32
  cf_r1 :: u32
  cf_r2 :: u32
  cf_r3 :: u32
  cf_r4 :: u32
  cf_r5 :: u32
  cf_r6 :: u32
  cf_r7 :: u32
  cf_r8 :: u32
  cf_r9 :: u32
  cf_r10 :: u32
  cf_r11 :: u32
  cf_r12 :: u32
  cf_sp :: u32
  cf_lr :: u32
  cf_pc :: u32
  cf_cpsr :: u32
  cf_spsr :: u32

record tcb1 =
  g_kstack :: u32
  g_tid :: u32
  g_schedule_lock :: bool

record tasks =
  task_info :: "TASK_INFO list"
  task_table :: "task_context list"
  task_global :: tcb1

text \<open>Addresses of the objects the code refers to.\<close>

record link_map =
  at_task_table :: u32
  at_task_stack :: u32
  at_task_delete :: u32
  at_task_idle :: u32

definition sizeof_context :: u32 where "sizeof_context = 72"
definition MAX_rank :: u8 where "MAX_rank = 3"

definition table_entry :: "link_map \<Rightarrow> u32 \<Rightarrow> u32" where
  "table_entry L tid = at_task_table L + sizeof_context * tid"

section \<open>Operations\<close>

text \<open>\<open>task_get_id\<close>: the first unused entry, 0 when there is none.\<close>

definition info_unused :: "TASK_INFO \<Rightarrow> bool" where
  "info_unused t \<longleftrightarrow> ti_rank t = 0 \<and> ti_status t = STATUS_NULL \<and> ti_func t = 0 \<and> ti_TRID t = 256"

function task_get_id_loop :: "TASK_INFO list \<Rightarrow> nat \<Rightarrow> u8" where
  "task_get_id_loop infos i =
     (if i < 256 then if info_unused (infos ! i) then of_nat i else task_get_id_loop infos (i + 1) else 0)"
  by pat_completeness auto
termination by (relation "measure (\<lambda>(infos, i). 256 - i)") auto

declare task_get_id_loop.simps [simp del]

definition task_get_id :: "tasks \<Rightarrow> u8" where
  "task_get_id s = task_get_id_loop (task_info s) 0"

text \<open>
  \<open>task_create\<close> copies a local structure whose field \<open>TRID\<close> it never sets: \<open>junk\<close> is what the
  stack happens to hold there.
\<close>

definition task_create :: "link_map \<Rightarrow> u32 \<Rightarrow> u8 \<Rightarrow> u32 \<Rightarrow> tasks \<Rightarrow> u8 \<times> tasks" where
  "task_create L junk rank task_func s =
     (if MAX_rank + 1 < rank then (0, s)
      else
        let TID = task_get_id s in
        (TID, s\<lparr>task_info := (task_info s)[unat TID :=
                  \<lparr>ti_rank = rank, ti_status = DEAD, ti_func = task_func, ti_TRID = junk\<rparr>],
               task_table := (task_table s)[unat TID :=
                  \<lparr>cf_r0 = 0, cf_r1 = 0, cf_r2 = 0, cf_r3 = 0, cf_r4 = 0, cf_r5 = 0, cf_r6 = 0, cf_r7 = 0,
                   cf_r8 = 0, cf_r9 = 0, cf_r10 = 0, cf_r11 = 0, cf_r12 = 0,
                   cf_sp = at_task_stack L + 1024 * ucast TID + 1024, cf_lr = at_task_delete L,
                   cf_pc = task_func, cf_cpsr = 0x53, cf_spsr = 0x53\<rparr>]\<rparr>))"

definition task_run :: "u8 \<Rightarrow> tasks \<Rightarrow> u8 \<times> tasks" where
  "task_run TID s =
     (if ti_status (task_info s ! unat TID) \<noteq> DEAD then (0, s)
      else
        let s = s\<lparr>task_info := (task_info s)[unat TID := (task_info s ! unat TID)\<lparr>ti_TRID := ucast TID\<rparr>]\<rparr>;
            s = s\<lparr>task_info := (task_info s)[unat TID := (task_info s ! unat TID)\<lparr>ti_status := READY\<rparr>]\<rparr>
        in (ucast (ti_TRID (task_info s ! unat TID)), s))"

definition task_init :: "link_map \<Rightarrow> u32 \<Rightarrow> tasks \<Rightarrow> tasks" where
  "task_init L junk s =
     (let s = s\<lparr>task_info := replicate 256 \<lparr>ti_rank = 0, ti_status = STATUS_NULL, ti_func = 0, ti_TRID = 256\<rparr>\<rparr>;
          (TID, s) = task_create L junk MAX_rank (at_task_idle L) s;
          s = snd (task_run TID s)
      in s\<lparr>task_global := \<lparr>g_kstack = table_entry L (ucast TID), g_tid = ucast TID, g_schedule_lock = False\<rparr>\<rparr>)"

text \<open>The loop of \<open>task_schedule\<close>: the first entry after the current one whose \<open>TRID\<close> is not 17.\<close>

function schedule_loop :: "TASK_INFO list \<Rightarrow> u8 \<Rightarrow> nat \<Rightarrow> u8" where
  "schedule_loop infos current_TRID i =
     (if i < 17 then
        let temp = ti_TRID (infos ! ((unat current_TRID + i + 1) mod 256))
        in if 17 \<noteq> temp then ucast temp else schedule_loop infos current_TRID (i + 1)
      else current_TRID)"
  by pat_completeness auto
termination by (relation "measure (\<lambda>(infos, c, i). 17 - i)") auto

declare schedule_loop.simps [simp del]

definition task_schedule :: "link_map \<Rightarrow> tasks \<Rightarrow> tasks" where
  "task_schedule L s =
     (let current_TRID = ucast (ti_TRID (task_info s ! unat (g_tid (task_global s))));
          current_TID = schedule_loop (task_info s) current_TRID 0
      in s\<lparr>task_global := (task_global s)\<lparr>g_tid := ucast current_TID, g_kstack := table_entry L (ucast current_TID)\<rparr>\<rparr>)"

definition task_delete :: "tasks \<Rightarrow> tasks" where
  "task_delete s =
     (let TID = ucast (g_tid (task_global s)) :: u8 in
      s\<lparr>task_info := (task_info s)[unat TID :=
           \<lparr>ti_rank = 0, ti_status = STATUS_NULL, ti_func = 0, ti_TRID = 0\<rparr>],
        task_table := (task_table s)[unat TID := (task_table s ! unat TID)
           \<lparr>cf_r0 := 0, cf_r1 := 0, cf_r2 := 0, cf_r3 := 0, cf_r4 := 0, cf_r5 := 0, cf_r6 := 0, cf_r7 := 0,
            cf_r8 := 0, cf_r9 := 0, cf_r10 := 0, cf_r11 := 0, cf_r12 := 0,
            cf_sp := 0, cf_lr := 0, cf_pc := 0, cf_spsr := 0\<rparr>]\<rparr>)"

definition task_lock_schedule :: "tasks \<Rightarrow> tasks" where
  "task_lock_schedule s = s\<lparr>task_global := (task_global s)\<lparr>g_schedule_lock := True\<rparr>\<rparr>"

definition task_unlock_schedule :: "tasks \<Rightarrow> tasks" where
  "task_unlock_schedule s = s\<lparr>task_global := (task_global s)\<lparr>g_schedule_lock := False\<rparr>\<rparr>"

text \<open>\<^verbatim>\<open>cstart\<close>: the idle task and three more; each is created and then started.\<close>

definition start_task :: "link_map \<Rightarrow> u32 \<Rightarrow> u32 \<Rightarrow> tasks \<Rightarrow> tasks" where
  "start_task L junk task_func s = (case task_create L junk MAX_rank task_func s of (TID, s) \<Rightarrow> snd (task_run TID s))"

definition cstart_tasks :: "link_map \<Rightarrow> u32 \<times> u32 \<times> u32 \<times> u32 \<Rightarrow> u32 \<Rightarrow> u32 \<Rightarrow> u32 \<Rightarrow> tasks \<Rightarrow> tasks" where
  "cstart_tasks L junks idle0 idle1 idle2 s =
     (case junks of (j0, j1, j2, j3) \<Rightarrow>
        start_task L j3 idle2 (start_task L j2 idle1 (start_task L j1 idle0 (task_init L j0 s))))"

section \<open>The invariant: entries 0 to \<open>n - 1\<close> are started, the others unused\<close>

definition started :: "nat \<Rightarrow> tasks \<Rightarrow> bool" where
  "started n s \<longleftrightarrow> length (task_info s) = 256 \<and> length (task_table s) = 256 \<and> 0 < n \<and> n \<le> 256 \<and>
     (\<forall>i<n. ti_TRID (task_info s ! i) = of_nat i \<and> ti_status (task_info s ! i) = READY) \<and>
     (\<forall>i. n \<le> i \<and> i < 256 \<longrightarrow> info_unused (task_info s ! i))"

lemma unat_of_nat_u8: "i < 256 \<Longrightarrow> unat (of_nat i :: u8) = i"
  by (simp add: unat_of_nat)

lemma ucast_u32_u8: "i < 256 \<Longrightarrow> (ucast (of_nat i :: u32) :: u8) = of_nat i"
  by (simp add: word_unat_eq_iff unat_of_nat_u8 unsigned_ucast_eq u32_of_nat_unat take_bit_nat_eq_self)

lemma ucast_u8_u32: "i < 256 \<Longrightarrow> (ucast (of_nat i :: u8) :: u32) = of_nat i"
  by (simp add: word_unat_eq_iff unat_of_nat_u8 u32_of_nat_unat)

lemma task_get_id_loop_first:
  assumes "n < 256" "\<forall>i<n. \<not> info_unused (infos ! i)" "info_unused (infos ! n)"
  shows "i \<le> n \<Longrightarrow> task_get_id_loop infos i = of_nat n"
proof (induction "n - i" arbitrary: i)
  case 0
  then have "i = n" by simp
  with assms show ?case by (simp add: task_get_id_loop.simps)
next
  case (Suc k)
  then have "i < n" by simp
  with assms Suc.hyps(1) [of "i + 1"] Suc.hyps(2) show ?case
    by (subst task_get_id_loop.simps) simp
qed

lemma task_get_id_loop_full:
  "\<forall>i<256. \<not> info_unused (infos ! i) \<Longrightarrow> task_get_id_loop infos i = 0"
proof (induction "256 - i" arbitrary: i)
  case 0
  then show ?case by (subst task_get_id_loop.simps) simp
next
  case (Suc k)
  then show ?case by (subst task_get_id_loop.simps) simp
qed

lemma started_get_id:
  assumes "started n s"
  shows "n < 256 \<Longrightarrow> task_get_id s = of_nat n" "n = 256 \<Longrightarrow> task_get_id s = 0"
proof -
  have used: "\<forall>i<n. \<not> info_unused (task_info s ! i)" using assms by (auto simp: started_def info_unused_def)
  show "task_get_id s = of_nat n" if "n < 256"
    using task_get_id_loop_first [OF that used] assms that by (simp add: task_get_id_def started_def)
  show "task_get_id s = 0" if "n = 256"
    using task_get_id_loop_full [of "task_info s"] used that by (simp add: task_get_id_def)
qed

lemma started_start_task:
  assumes "started n s" "n < 256"
  shows "started (Suc n) (start_task L junk f s)"
    "task_global (start_task L junk f s) = task_global s"
    "cf_pc (task_table (start_task L junk f s) ! n) = f"
    "i \<noteq> n \<Longrightarrow> task_table (start_task L junk f s) ! i = task_table s ! i"
proof -
  have n: "unat (of_nat n :: u8) = n" using assms(2) by (rule unat_of_nat_u8)
  have len: "n < length (task_info s)" "n < length (task_table s)" using assms by (simp_all add: started_def)
  have eq: "task_info (start_task L junk f s) = (task_info s)[n := \<lparr>ti_rank = MAX_rank, ti_status = READY, ti_func = f, ti_TRID = of_nat n\<rparr>]"
    "task_global (start_task L junk f s) = task_global s"
    using started_get_id(1) [OF assms] len
    by (simp_all add: start_task_def task_create_def task_run_def Let_def n MAX_rank_def ucast_u8_u32 [OF assms(2)])
  show "task_global (start_task L junk f s) = task_global s" by (rule eq)
  show tab: "cf_pc (task_table (start_task L junk f s) ! n) = f"
    "i \<noteq> n \<Longrightarrow> task_table (start_task L junk f s) ! i = task_table s ! i"
    using started_get_id(1) [OF assms] len
    by (simp_all add: start_task_def task_create_def task_run_def Let_def n MAX_rank_def)
  have "length (task_table (start_task L junk f s)) = length (task_table s)"
    using started_get_id(1) [OF assms] by (simp add: start_task_def task_create_def task_run_def Let_def MAX_rank_def)
  then show "started (Suc n) (start_task L junk f s)"
    using assms by (auto simp: started_def eq nth_list_update less_Suc_eq)
qed

lemma task_init_started:
  assumes "length (task_table s) = 256"
  shows "started 1 (task_init L junk s)" "g_tid (task_global (task_init L junk s)) = 0"
    "g_kstack (task_global (task_init L junk s)) = at_task_table L"
    "cf_pc (task_table (task_init L junk s) ! 0) = at_task_idle L"
proof -
  let ?s = "s\<lparr>task_info := replicate 256 \<lparr>ti_rank = 0, ti_status = STATUS_NULL, ti_func = 0, ti_TRID = 256\<rparr>\<rparr>"
  have id: "task_get_id ?s = 0"
    by (simp add: task_get_id_def task_get_id_loop.simps [of _ 0] info_unused_def)
  have info: "task_info (task_init L junk s) =
      (task_info ?s)[0 := \<lparr>ti_rank = MAX_rank, ti_status = READY, ti_func = at_task_idle L, ti_TRID = 0\<rparr>]"
    by (simp add: task_init_def task_create_def task_run_def Let_def id MAX_rank_def)
  have "length (task_table (task_init L junk s)) = 256"
    using assms by (simp add: task_init_def task_create_def task_run_def Let_def MAX_rank_def)
  then show "started 1 (task_init L junk s)"
    by (auto simp: started_def info nth_list_update info_unused_def)
  show "g_tid (task_global (task_init L junk s)) = 0" "g_kstack (task_global (task_init L junk s)) = at_task_table L"
    by (simp_all add: task_init_def task_create_def Let_def id MAX_rank_def table_entry_def)
  show "cf_pc (task_table (task_init L junk s) ! 0) = at_task_idle L"
    using assms by (simp add: task_init_def task_create_def task_run_def Let_def id MAX_rank_def)
qed

section \<open>The scheduler\<close>

text \<open>The entry the scheduler takes after \<open>i\<close> when \<open>n\<close> tasks are started: 17 is left out.\<close>

definition next_slot :: "nat \<Rightarrow> nat \<Rightarrow> nat" where
  "next_slot n i = (let j = (if i + 1 = 17 then 18 else i + 1) in if j < n then j else 0)"

lemma schedule_loop_hit:
  "ti_TRID (infos ! ((unat c + i + 1) mod 256)) \<noteq> 17 \<Longrightarrow> i < 17 \<Longrightarrow>
   schedule_loop infos c i = ucast (ti_TRID (infos ! ((unat c + i + 1) mod 256)))"
  by (subst schedule_loop.simps) (simp add: Let_def)

lemma schedule_loop_skip:
  "ti_TRID (infos ! ((unat c + i + 1) mod 256)) = 17 \<Longrightarrow> i < 17 \<Longrightarrow> schedule_loop infos c i = schedule_loop infos c (i + 1)"
  by (subst schedule_loop.simps) (simp add: Let_def)

lemma started_TRID:
  assumes "started n s" "j < 256"
  shows "ti_TRID (task_info s ! j) = (if j < n then of_nat j else 256)"
  using assms by (auto simp: started_def info_unused_def)

lemma of_nat_eq_17: "j < 256 \<Longrightarrow> (of_nat j :: u32) = 17 \<longleftrightarrow> j = 17"
  by (auto simp: word_unat_eq_iff u32_of_nat_unat)

lemma started_schedule_loop:
  assumes "started n s" "i < n"
  shows "schedule_loop (task_info s) (of_nat i) 0 = of_nat (next_slot n i)"
proof -
  have n: "n \<le> 256" using assms(1) by (simp add: started_def)
  have c: "unat (of_nat i :: u8) = i" using assms(2) n by (simp add: unat_of_nat_u8)
  have first: "schedule_loop (task_info s) (of_nat i) 0 = (ucast (ti_TRID (task_info s ! ((i + 1) mod 256))) :: u8)"
    if "ti_TRID (task_info s ! ((i + 1) mod 256)) \<noteq> 17"
    using schedule_loop_hit [of "task_info s" "of_nat i" 0] that by (simp add: c)
  show ?thesis
  proof (cases "i + 1 = 17 \<and> 17 < n")
    case True
    then have i: "i = 16" by simp
    have "schedule_loop (task_info s) (of_nat i) 0 = schedule_loop (task_info s) (of_nat i) 1"
      using schedule_loop_skip [of "task_info s" "of_nat i" 0] started_TRID [OF assms(1), of 17] True by (simp add: c i)
    also have "\<dots> = ucast (ti_TRID (task_info s ! 18))"
      using schedule_loop_hit [of "task_info s" "of_nat i" 1] started_TRID [OF assms(1), of 18] by (simp add: c i)
    finally show ?thesis
      using started_TRID [OF assms(1), of 18] True by (simp add: next_slot_def i)
  next
    case False
    show ?thesis
    proof (cases "i + 1 < n")
      case True
      then have "ti_TRID (task_info s ! (i + 1)) = of_nat (i + 1)" "i + 1 < 256"
        using started_TRID [OF assms(1), of "i + 1"] n by auto
      then show ?thesis
        using first True False of_nat_eq_17 [of "i + 1"] ucast_u32_u8 [of "i + 1"] by (simp add: next_slot_def Let_def del: of_nat_add)
    next
      case last: False
      have "ti_TRID (task_info s ! ((i + 1) mod 256)) = (if i + 1 = 256 then 0 else 256)"
        using started_TRID [OF assms(1), of "(i + 1) mod 256"] last assms(2) n
        by (cases "i + 1 = 256") auto
      then show ?thesis using first last assms(2) by (simp add: next_slot_def split: if_splits)
    qed
  qed
qed

lemma started_schedule:
  assumes "started n s" "i < n" "g_tid (task_global s) = of_nat i"
  shows "g_tid (task_global (task_schedule L s)) = of_nat (next_slot n i)"
    "g_kstack (task_global (task_schedule L s)) = table_entry L (of_nat (next_slot n i))"
    "task_info (task_schedule L s) = task_info s" "task_table (task_schedule L s) = task_table s"
    "started n (task_schedule L s)" "next_slot n i < n"
proof -
  have n: "n \<le> 256" using assms(1) by (simp add: started_def)
  then have i: "unat (of_nat i :: u32) = i" using assms(2) by (simp add: u32_of_nat_unat)
  show lt: "next_slot n i < n" using assms(2) by (simp add: next_slot_def Let_def)
  have "(ucast (ti_TRID (task_info s ! unat (g_tid (task_global s)))) :: u8) = of_nat i"
    using started_TRID [OF assms(1), of i] assms(2,3) n by (simp add: i ucast_u32_u8)
  then show "g_tid (task_global (task_schedule L s)) = of_nat (next_slot n i)"
    "g_kstack (task_global (task_schedule L s)) = table_entry L (of_nat (next_slot n i))"
    "task_info (task_schedule L s) = task_info s" "task_table (task_schedule L s) = task_table s"
    using started_schedule_loop [OF assms(1,2)] lt n
    by (simp_all add: task_schedule_def Let_def ucast_u8_u32)
  then show "started n (task_schedule L s)" using assms(1) by (simp add: started_def)
qed

section \<open>Round robin\<close>

text \<open>The order of service with \<open>n\<close> started tasks: all but task 17.\<close>

definition service :: "nat \<Rightarrow> nat list" where
  "service n = [0..<min n 17] @ [18..<n]"

lemma service_length: "length (service n) = (if n < 18 then min n 17 else n - 1)"
  by (auto simp: service_def)

lemma service_nth: "k < length (service n) \<Longrightarrow> service n ! k = (if k < 17 then k else k + 1)"
  by (auto simp: service_def nth_append)

lemma service_next:
  assumes "k < length (service n)"
  shows "next_slot n (service n ! k) = service n ! (Suc k mod length (service n))" "service n ! k < n"
proof -
  show "service n ! k < n" using assms by (auto simp: service_nth service_length split: if_splits)
  show "next_slot n (service n ! k) = service n ! (Suc k mod length (service n))"
  proof (cases "Suc k < length (service n)")
    case True
    then show ?thesis using assms
      by (auto simp: service_nth next_slot_def Let_def) (auto simp: service_length split: if_splits)
  next
    case False
    then have "Suc k = length (service n)" using assms by simp
    then have "Suc k mod length (service n) = 0" by simp
    moreover have "service n ! 0 = 0" using assms by (subst service_nth) auto
    ultimately show ?thesis using False assms
      by (auto simp: service_nth next_slot_def Let_def) (auto simp: service_length split: if_splits)
  qed
qed

lemma round_robin_serves:
  assumes "started n s" "g_tid (task_global s) = 0"
  shows "g_tid (task_global ((task_schedule L ^^ k) s)) = of_nat (service n ! (k mod length (service n))) \<and>
    (0 < k \<longrightarrow> g_kstack (task_global ((task_schedule L ^^ k) s)) =
       table_entry L (of_nat (service n ! (k mod length (service n))))) \<and>
    started n ((task_schedule L ^^ k) s) \<and> task_table ((task_schedule L ^^ k) s) = task_table s"
proof (induction k)
  case 0
  have "0 < length (service n)" using assms(1) by (auto simp: started_def service_length)
  then have "service n ! 0 = 0" by (subst service_nth) auto
  then show ?case using assms by simp
next
  case (Suc k)
  let ?l = "length (service n)"
  have l: "0 < ?l" using assms(1) by (auto simp: started_def service_length)
  then have k: "k mod ?l < ?l" by simp
  note next1 = service_next [OF k]
  have "Suc (k mod ?l) mod ?l = Suc k mod ?l" by (simp add: mod_Suc_eq)
  with next1(1) have nx: "next_slot n (service n ! (k mod ?l)) = service n ! (Suc k mod ?l)" by simp
  from Suc have st: "started n ((task_schedule L ^^ k) s)"
    "g_tid (task_global ((task_schedule L ^^ k) s)) = of_nat (service n ! (k mod ?l))" by auto
  from started_schedule(1-5) [OF st(1) next1(2) st(2), where L = L] Suc show ?case by (simp add: nx)
qed


text \<open>
  Task 17 is never selected: its \<open>TRID\<close> is the value the scheduler takes for an empty
  entry, while an empty entry has 256.
\<close>

theorem task_17_starves:
  assumes "started n s" "17 < n" "g_tid (task_global s) = 0"
  shows "g_tid (task_global ((task_schedule L ^^ k) s)) \<noteq> 17"
proof -
  let ?j = "service n ! (k mod length (service n))"
  have "0 < length (service n)" using assms(1) by (auto simp: started_def service_length)
  then have "k mod length (service n) < length (service n)" by simp
  then have "?j \<noteq> 17" "?j < n" using service_nth [of _ n] service_next(2) [of _ n] by auto
  moreover have "n \<le> 256" using assms(1) by (simp add: started_def)
  ultimately have "(of_nat ?j :: u32) \<noteq> 17" using of_nat_eq_17 [of ?j] by simp
  then show ?thesis using round_robin_serves [OF assms(1,3), where L = L and k = k] by simp
qed

lemma cstart_tasks_result:
  assumes "length (task_table s) = 256"
  shows "started 4 (cstart_tasks L junks idle0 idle1 idle2 s) \<and>
    g_tid (task_global (cstart_tasks L junks idle0 idle1 idle2 s)) = 0 \<and>
    g_kstack (task_global (cstart_tasks L junks idle0 idle1 idle2 s)) = at_task_table L \<and>
    map (\<lambda>i. cf_pc (task_table (cstart_tasks L junks idle0 idle1 idle2 s) ! i)) [0, 1, 2, 3] =
      [at_task_idle L, idle0, idle1, idle2]"
proof -
  obtain j0 j1 j2 j3 where j: "junks = (j0, j1, j2, j3)" by (cases junks)
  note s0 = task_init_started [OF assms, of L j0]
  have n: "(1::nat) < 256" "Suc 1 < 256" "Suc (Suc 1) < 256" by simp_all
  note s1 = started_start_task [OF s0(1) n(1), where L = L and junk = j1 and f = idle0]
  note s2 = started_start_task [OF s1(1) n(2), where L = L and junk = j2 and f = idle1]
  note s3 = started_start_task [OF s2(1) n(3), where L = L and junk = j3 and f = idle2]
  show ?thesis
    using s0 s1(2,3) s1(4) [where i = 0] s2(2,3) s2(4) [where i = 0] s2(4) [where i = 1] s3(1-3) s3(4) [where i = 0] s3(4) [where i = 1] s3(4) [where i = 2]
    by (simp add: cstart_tasks_def j numeral_eq_Suc)
qed

text \<open>
  The start-up sequence leaves tasks 0 to 3 started with their entry points, the idle
  task current and every other entry unused; the uninitialised words do not matter.
\<close>

theorem cstart_tasks_correct:
  assumes "length (task_table s) = 256"
  shows "started 4 (cstart_tasks L junks idle0 idle1 idle2 s) \<and>
    g_tid (task_global (cstart_tasks L junks idle0 idle1 idle2 s)) = 0 \<and>
    g_kstack (task_global (cstart_tasks L junks idle0 idle1 idle2 s)) = at_task_table L \<and>
    map (\<lambda>i. cf_pc (task_table (cstart_tasks L junks idle0 idle1 idle2 s) ! i)) [0, 1, 2, 3] =
      [at_task_idle L, idle0, idle1, idle2]"
  using assms by (rule cstart_tasks_result)

section \<open>Deletion\<close>

text \<open>A deleted entry has \<open>TRID\<close> 0 instead of 256: the scheduler takes it for task 0.\<close>

definition deleted_at :: "nat \<Rightarrow> nat \<Rightarrow> tasks \<Rightarrow> bool" where
  "deleted_at n d s \<longleftrightarrow> 0 < d \<and> d < n \<and> n \<le> 256 \<and> length (task_info s) = 256 \<and>
     (\<forall>i<256. ti_TRID (task_info s ! i) = (if i = d then 0 else if i < n then of_nat i else 256))"

lemma task_delete_deleted_at:
  assumes "started n s" "0 < d" "d < n" "g_tid (task_global s) = of_nat d"
  shows "deleted_at n d (task_delete s)" "g_tid (task_global (task_delete s)) = of_nat d"
proof -
  have d: "d < 256" "d < length (task_info s)" using assms by (simp_all add: started_def)
  have "task_info (task_delete s) = (task_info s)[d := \<lparr>ti_rank = 0, ti_status = STATUS_NULL, ti_func = 0, ti_TRID = 0\<rparr>]"
    using assms(4) d by (simp add: task_delete_def Let_def ucast_u32_u8 unat_of_nat_u8)
  then show "deleted_at n d (task_delete s)"
    using assms d started_TRID [OF assms(1)] by (auto simp: deleted_at_def started_def nth_list_update)
  show "g_tid (task_global (task_delete s)) = of_nat d" using assms(4) by (simp add: task_delete_def Let_def)
qed

lemma deleted_schedule:
  assumes "deleted_at n d s" "g_tid (task_global s) = of_nat i" "i \<le> d"
  shows "\<exists>j<d. g_tid (task_global (task_schedule L s)) = of_nat j" "deleted_at n d (task_schedule L s)"
proof -
  let ?T = "\<lambda>i. ti_TRID (task_info s ! i)"
  have T: "?T j = (if j = d then 0 else if j < n then of_nat j else 256)" if "j < 256" for j
    using assms(1) that by (simp add: deleted_at_def)
  have d: "0 < d" "d < n" "n \<le> 256" using assms(1) by (simp_all add: deleted_at_def)
  define c where "c = (if i = d then 0 else i)"
  have c: "c < d" using assms(3) d by (auto simp: c_def)
  have cur: "(ucast (?T (unat (g_tid (task_global s)))) :: u8) = of_nat c"
    using T [of i] assms(2,3) d by (auto simp: u32_of_nat_unat ucast_u32_u8 c_def)
  have uc: "unat (of_nat c :: u8) = c" using c d by (intro unat_of_nat_u8) simp
  have "\<exists>j<d. schedule_loop (task_info s) (of_nat c) 0 = of_nat j"
  proof (cases "?T (c + 1) = 17")
    case False
    then have "schedule_loop (task_info s) (of_nat c) 0 = ucast (?T (c + 1))"
      using schedule_loop_hit [of "task_info s" "of_nat c" 0] c d by (simp add: uc)
    then show ?thesis using T [of "c + 1"] c d ucast_u32_u8 [of "c + 1"]
      by (auto intro: exI [of _ 0] exI [of _ "c + 1"] simp del: of_nat_add split: if_splits)
  next
    case True
    then have c16: "c = 16" "d \<noteq> 17" using T [of "c + 1"] of_nat_eq_17 [of "c + 1"] c d by (auto simp del: of_nat_add split: if_splits)
    then have "schedule_loop (task_info s) (of_nat c) 0 = schedule_loop (task_info s) (of_nat c) 1"
      using schedule_loop_skip [of "task_info s" "of_nat c" 0] True c d by (simp add: uc)
    also have "\<dots> = ucast (?T 18)"
      using schedule_loop_hit [of "task_info s" "of_nat c" 1] T [of 18] c16 by (simp add: uc split: if_splits)
    finally show ?thesis using T [of 18] c16 c d
      by (auto intro: exI [of _ 0] exI [of _ 18] split: if_splits)
  qed
  then obtain j where j: "j < d" "schedule_loop (task_info s) (of_nat c) 0 = of_nat j" by blast
  then have "g_tid (task_global (task_schedule L s)) = of_nat j"
    using cur d by (simp add: task_schedule_def Let_def ucast_u8_u32)
  then show "\<exists>j<d. g_tid (task_global (task_schedule L s)) = of_nat j" using j(1) by blast
  show "deleted_at n d (task_schedule L s)"
    using assms(1) by (simp add: deleted_at_def task_schedule_def Let_def)
qed

text \<open>
  After the current task \<open>d > 0\<close> has been deleted, no task above it is ever selected
  again: the search for a successor ends at the deleted entry and goes back to task 0.
\<close>

theorem delete_starves_higher_tasks:
  assumes "started n s" "0 < d" "d < n" "g_tid (task_global s) = of_nat d"
  shows "\<exists>j<d. g_tid (task_global ((task_schedule L ^^ Suc k) (task_delete s))) = of_nat j"
proof -
  note del = task_delete_deleted_at [OF assms]
  have "(\<exists>j<d. g_tid (task_global ((task_schedule L ^^ Suc k) (task_delete s))) = of_nat j) \<and>
      deleted_at n d ((task_schedule L ^^ Suc k) (task_delete s))"
  proof (induction k)
    case 0
    then show ?case using deleted_schedule [OF del(1,2), where L = L] by simp
  next
    case (Suc k)
    then obtain j where "j < d" "g_tid (task_global ((task_schedule L ^^ Suc k) (task_delete s))) = of_nat j"
      "deleted_at n d ((task_schedule L ^^ Suc k) (task_delete s))" by blast
    with deleted_schedule [where n = n and d = d and s = "(task_schedule L ^^ Suc k) (task_delete s)" and i = j and L = L] show ?case by simp
  qed
  then show ?thesis by blast
qed

text \<open>
  A deleted entry is not found again by \<open>task_get_id\<close>: the next task gets the entry behind
  all that were ever started, and when there is none, entry 0, that of the idle task.
\<close>

theorem deleted_entry_leaks:
  assumes "started n s" "0 < d" "d < n" "g_tid (task_global s) = of_nat d"
  shows "task_get_id (task_delete s) = (if n < 256 then of_nat n else 0)"
proof -
  have d: "d < 256" "d < length (task_info s)" using assms by (simp_all add: started_def)
  have info: "task_info (task_delete s) = (task_info s)[d := \<lparr>ti_rank = 0, ti_status = STATUS_NULL, ti_func = 0, ti_TRID = 0\<rparr>]"
    using assms(4) d by (simp add: task_delete_def Let_def ucast_u32_u8 unat_of_nat_u8)
  have used: "\<not> info_unused (task_info (task_delete s) ! i)" if "i < n" for i
    using assms(1,3) d that by (cases "i = d") (auto simp: info info_unused_def started_def)
  show ?thesis
  proof (cases "n < 256")
    case True
    then have "info_unused (task_info (task_delete s) ! n)"
      using assms(1,3) by (simp add: info started_def)
    then show ?thesis
      using True used task_get_id_loop_first [OF True, of "task_info (task_delete s)" 0] by (simp add: task_get_id_def)
  next
    case False
    then have "n = 256" using assms(1) by (simp add: started_def)
    then show ?thesis
      using used task_get_id_loop_full [of "task_info (task_delete s)" 0] by (simp add: task_get_id_def)
  qed
qed

section \<open>Creation\<close>

text \<open>
  With all 256 entries in use, \<open>task_create\<close> does not fail: it returns 0, the value of a
  refused request, and overwrites the entry and the context of the idle task, which the
  scheduler still selects.
\<close>

theorem task_create_full_overwrites_idle:
  assumes "started 256 s" "rank \<le> MAX_rank"
  shows "fst (task_create L junk rank f s) = 0 \<and>
    ti_status (task_info (snd (task_create L junk rank f s)) ! 0) = DEAD \<and>
    cf_pc (task_table (snd (task_create L junk rank f s)) ! 0) = f"
proof -
  have "rank \<le> 3" using assms(2) by (simp add: MAX_rank_def)
  then have "\<not> MAX_rank + 1 < rank" by (simp add: MAX_rank_def not_less word_le_nat_alt)
  then show ?thesis
    using started_get_id(2) [OF assms(1)] assms(1) by (simp add: task_create_def Let_def started_def)
qed

text \<open>
  The check of the priority admits \<open>MAX_rank + 1\<close>, one more than the four priorities
  0 to 3 that the header names; everything above is refused without an effect.
\<close>

theorem task_create_rank_check:
  assumes "started n s" "n < 256"
  shows "fst (task_create L junk (MAX_rank + 1) f s) = of_nat n \<and>
    ti_rank (task_info (snd (task_create L junk (MAX_rank + 1) f s)) ! n) = 4 \<and>
    (\<forall>rank. MAX_rank + 1 < rank \<longrightarrow> task_create L junk rank f s = (0, s))"
  using started_get_id(1) [OF assms] assms by (simp add: task_create_def Let_def started_def unat_of_nat_u8 MAX_rank_def)

text \<open>
  A task that is created but not yet started has whatever the stack held as its \<open>TRID\<close>, and
  the scheduler, which does not look at the status, selects the task of that number.
\<close>

theorem created_task_selects_junk:
  assumes "started n s" "n < 256" "g_tid (task_global s) = of_nat (n - 1)" "rank \<le> MAX_rank" "junk \<noteq> 17"
  shows "g_tid (task_global (task_schedule L (snd (task_create L junk rank f s)))) = ucast (ucast junk :: u8)"
proof -
  have n: "0 < n" "n - 1 < 256" using assms(1,2) by (simp_all add: started_def)
  have "rank \<le> 3" using assms(4) by (simp add: MAX_rank_def)
  then have r: "\<not> MAX_rank + 1 < rank" by (simp add: MAX_rank_def not_less word_le_nat_alt)
  let ?s = "snd (task_create L junk rank f s)"
  have info: "task_info ?s = (task_info s)[n := \<lparr>ti_rank = rank, ti_status = DEAD, ti_func = f, ti_TRID = junk\<rparr>]"
    and tg: "task_global ?s = task_global s"
    using r started_get_id(1) [OF assms(1,2)] assms(2) by (simp_all add: task_create_def Let_def unat_of_nat_u8)
  have len: "n < length (task_info s)" using assms(1,2) by (simp add: started_def)
  have "ti_TRID (task_info ?s ! (n - 1)) = of_nat (n - 1)"
    using started_TRID [OF assms(1) n(2)] n by (simp add: info nth_list_update)
  then have cur: "(ucast (ti_TRID (task_info ?s ! unat (g_tid (task_global ?s)))) :: u8) = of_nat (n - 1)"
    using n by (simp only: tg assms(3)) (simp add: u32_of_nat_unat ucast_u32_u8 del: of_nat_diff)
  have "unat (of_nat (n - 1) :: u8) + 0 + 1 = n"
    using n unat_of_nat_u8 [OF n(2)] by simp
  then have idx: "(unat (of_nat (n - 1) :: u8) + 0 + 1) mod 256 = n" using assms(2) by (simp only: mod_less)
  have "schedule_loop (task_info ?s) (of_nat (n - 1)) 0 = ucast junk"
    using schedule_loop_hit [of "task_info ?s" "of_nat (n - 1)" 0] assms(5) len unfolding idx by (simp add: info)
  then show ?thesis using cur by (simp only: task_schedule_def Let_def) simp
qed

section \<open>Witnesses\<close>

definition example_link :: link_map where
  "example_link = \<lparr>at_task_table = 0xC0200000, at_task_stack = 0xC0210000, at_task_delete = 0xC0009000, at_task_idle = 0xC0009100\<rparr>"

definition blank_context :: task_context where
  "blank_context = \<lparr>cf_r0 = 0, cf_r1 = 0, cf_r2 = 0, cf_r3 = 0, cf_r4 = 0, cf_r5 = 0, cf_r6 = 0, cf_r7 = 0,
     cf_r8 = 0, cf_r9 = 0, cf_r10 = 0, cf_r11 = 0, cf_r12 = 0, cf_sp = 0, cf_lr = 0, cf_pc = 0, cf_cpsr = 0, cf_spsr = 0\<rparr>"

definition bss_tasks :: tasks where
  "bss_tasks = \<lparr>task_info = replicate 256 \<lparr>ti_rank = 0, ti_status = STATUS_NULL, ti_func = 0, ti_TRID = 0\<rparr>,
     task_table = replicate 256 blank_context, task_global = \<lparr>g_kstack = 0, g_tid = 0, g_schedule_lock = False\<rparr>\<rparr>"

text \<open>The idle task and \<open>k\<close> more, task \<open>d\<close> current.\<close>

definition many_tasks :: "nat \<Rightarrow> nat \<Rightarrow> tasks" where
  "many_tasks k d = ((start_task example_link 0 0xC0009200 ^^ k) (task_init example_link 0 bss_tasks))
     \<lparr>task_global := \<lparr>g_kstack = table_entry example_link (of_nat d), g_tid = of_nat d, g_schedule_lock = False\<rparr>\<rparr>"

lemma many_tasks_started: "k < 256 \<Longrightarrow> started (Suc k) (many_tasks k d)"
  "g_tid (task_global (many_tasks k d)) = of_nat d"
proof -
  show "started (Suc k) (many_tasks k d)" if "k < 256"
  proof -
    have "started (Suc k) ((start_task example_link 0 0xC0009200 ^^ k) (task_init example_link 0 bss_tasks))"
      using that
    proof (induction k)
      case 0
      then show ?case using task_init_started(1) [of bss_tasks example_link 0] by (simp add: bss_tasks_def)
    next
      case (Suc k)
      then show ?case using started_start_task(1) [of "Suc k"] by simp
    qed
    then show ?thesis by (simp add: many_tasks_def started_def)
  qed
  show "g_tid (task_global (many_tasks k d)) = of_nat d" by (simp add: many_tasks_def)
qed


theorem task_17_starves_witness:
  "g_tid (task_global ((task_schedule example_link ^^ 17) (many_tasks 20 0))) \<noteq> 17"
  using task_17_starves [OF many_tasks_started(1) [of 20 0]] many_tasks_started(2) [of 20 0] by simp

theorem cstart_tasks_correct_witness:
  "started 4 (cstart_tasks example_link (1, 2, 3, 4) 0xC0009200 0xC0009300 0xC0009400 bss_tasks)"
  using cstart_tasks_correct [of bss_tasks] by (simp add: bss_tasks_def)

theorem delete_starves_higher_tasks_witness:
  "\<exists>j<2. g_tid (task_global ((task_schedule example_link ^^ Suc 9) (task_delete (many_tasks 5 2)))) = of_nat j"
  using delete_starves_higher_tasks [OF many_tasks_started(1) [of 5 2], where d = 2 and L = example_link and k = 9] many_tasks_started(2) [of 5 2]
  by simp

theorem deleted_entry_leaks_witness:
  "task_get_id (task_delete (many_tasks 5 2)) = 6"
  using deleted_entry_leaks [OF many_tasks_started(1) [of 5 2], of 2] many_tasks_started(2) [of 5 2] by simp

theorem task_create_full_overwrites_idle_witness:
  "fst (task_create example_link 0 3 0xC0009500 (many_tasks 255 0)) = 0"
  using task_create_full_overwrites_idle [of "many_tasks 255 0" 3] many_tasks_started(1) [of 255 0] by (simp add: MAX_rank_def)

theorem task_create_rank_check_witness:
  "fst (task_create example_link 0 (MAX_rank + 1) 0xC0009500 (many_tasks 5 0)) = 6"
  using task_create_rank_check [OF many_tasks_started(1) [of 5 0]] by simp

theorem created_task_selects_junk_witness:
  "g_tid (task_global (task_schedule example_link (snd (task_create example_link 0xABCD 3 0xC0009500 (many_tasks 5 5))))) = 0xCD"
  using created_task_selects_junk [OF many_tasks_started(1) [of 5 5], of 3 "0xABCD"] many_tasks_started(2) [of 5 5]
  by (simp add: MAX_rank_def)

end
