(* ===== verification/Machdep.thy ===== *)
theory Machdep
  imports InitPaging Interrupt TaskTable
begin

text \<open>
  Start-up on the board: \<open>cstart\<close> of \<^verbatim>\<open>kernel/machdep.c\<close> puts the page tables, the serial line, the
  task table and the timer together; \<open>mi_startup\<close> of \<^verbatim>\<open>kernel/startup.c\<close> is never reached.
\<close>

section \<open>Start-up\<close>

text \<open>The memory as it is seen through the MMU; an access to an unmapped address faults.\<close>

definition seen :: "mem \<Rightarrow> u32 \<Rightarrow> mem" where
  "seen m ttbr = (\<lambda>va. case mmu_walk m ttbr va of Some pa \<Rightarrow> m pa | None \<Rightarrow> 0)"

definition Kernel_1Hz :: u32 where "Kernel_1Hz = 1000000"

definition say_args :: "env \<Rightarrow> u32 \<Rightarrow> va list \<Rightarrow> mem \<times> io \<Rightarrow> (mem \<times> io) option" where
  "say_args E fmt args st = map_option snd (printk (e_dev E) (e_fp E) (e_nulls E) (e_buf E) fmt args st)"

text \<open>The messages of \<open>cstart\<close>; \<open>fmts\<close> are the addresses of the formats.\<close>

definition banner :: "env \<Rightarrow> u32 \<times> u32 \<times> u32 \<times> u32 \<times> u32 \<Rightarrow> mem \<times> io \<Rightarrow> (mem \<times> io) option" where
  "banner E fmts st = (case fmts of (f1, f2, f3, f4, f5) \<Rightarrow> do {
     let vaddr = 800;
     let code = 5;
     st \<leftarrow> say_args E f1 [] st;
     st \<leftarrow> say_args E f2 [Word vaddr, Word code] st;
     st \<leftarrow> say_args E f3 [] st;
     st \<leftarrow> say_args E f4 [] st;
     say_args E f5 [] st })"

text \<open>
  \<open>cstart\<close> up to its \<open>while(1)\<close>: the physical zones, the memory as it is then seen, the tasks, and
  the devices. \<open>mi_startup\<close> is behind the endless loop. \<open>kernel_end\<close> is the address of the symbol \<^verbatim>\<open>_end\<close> of
  the linker; the task table and the stacks of the tasks are the state of its own that \<open>tasks\<close> is.
\<close>

definition cstart ::
    "env \<Rightarrow> link_map \<Rightarrow> u32 \<times> u32 \<times> u32 \<times> u32 \<Rightarrow> u32 \<times> u32 \<times> u32 \<Rightarrow> u32 \<times> u32 \<times> u32 \<times> u32 \<times> u32 \<Rightarrow> u32 \<Rightarrow> u32 \<Rightarrow>
     u32 list \<times> mem \<times> tasks \<times> io \<Rightarrow> (u32 list \<times> mem \<times> tasks \<times> io) option" where
  "cstart E L junks idles fmts kernel_end mbi st =
     (case st of (zone, m, ts, s) \<Rightarrow>
        let top_addr = (kernel_end + (0x4000 - 1)) AND NOT (0x4000 - 1);
            (zone, ttbr, m) = md_startup mbi (top_addr - KERNBASE) zone m;
            s = uart_init (e_dev E) s
        in case banner E fmts (seen m ttbr, s) of
             None \<Rightarrow> None
           | Some (m, s) \<Rightarrow>
               let (idle0, idle1, idle2) = idles;
                   ts = cstart_tasks L junks idle0 idle1 idle2 ts
               in Some (zone, m, ts, init_arm_timer Kernel_1Hz s))"

text \<open>What is compiled of \<open>mi_startup\<close>: three messages.\<close>

definition mi_startup :: "env \<Rightarrow> u32 \<times> u32 \<times> u32 \<Rightarrow> mem \<times> io \<Rightarrow> (mem \<times> io) option" where
  "mi_startup E fmts st = (case fmts of (f1, f2, f3) \<Rightarrow> do {
     st \<leftarrow> say E f1 st;
     st \<leftarrow> say E f2 st;
     say E f3 st })"

definition ascii :: "string \<Rightarrow> u8 list" where
  "ascii s = map of_char s"

definition crlf :: string where "crlf = [CHR 0x0D, CHR 0x0A]"

text \<open>What the banner says; the second format prints decimal digits behind its \<^verbatim>\<open>0x\<close>.\<close>

definition banner_formats :: "string list" where
  "banner_formats = [''Welcome to ARM-EPOS'' @ crlf, ''PF:0x%d(0x%d)'',
     ''Copyright (C) 2005-2015 MingJian Hong<hongmingjian@gmail.com>'' @ crlf, ''Author: fengzhimin '' @ crlf,
     ''All rights reserved.'' @ crlf @ crlf]"

definition banner_text :: string where
  "banner_text = ''Welcome to ARM-EPOS'' @ crlf @ ''PF:0x800(0x5)'' @
     ''Copyright (C) 2005-2015 MingJian Hong<hongmingjian@gmail.com>'' @ crlf @ ''Author: fengzhimin '' @ crlf @
     ''All rights reserved.'' @ crlf @ crlf"

lemma pf_text: "render fp strs (ascii ''PF:0x%d(0x%d)'') [Word 800, Word 5] = Some (ascii ''PF:0x800(0x5)'')"
proof -
  note char = to_char_def char_of_eq_iff Let_def
  have num: "numeral_of False 10 800 = [56, 48, 48]" "numeral_of False 10 5 = [53]"
    by (simp_all add: numeral_of.simps [of False 10 800] numeral_of.simps [of False 10 80] numeral_of.simps [of False 10 8]
        numeral_of.simps [of False 10 5] hex_digit_def)
  have d: "p_directive (100 # cs) as = Some (0, 0, - 1, 100 # cs, as)" for cs as
    by (simp add: char p_directive_def flag_bit_def p_arg_def p_prec_def p_mod_def is_mod_def isdigit_def)
  have c: "conv_text fp strs 100 cs 0 0 (- 1) (Word 800 # as) = Some ([56, 48, 48], as, cs)"
    "conv_text fp strs 100 cs 0 0 (- 1) (Word 5 # as) = Some ([53], as, cs)" for cs as
    by (simp_all add: char conv_text_def conv_base_def int_text_def has_def DP_F_UNSIGNED_def DP_F_UP_def DP_F_ZERO_def
      DP_F_MINUS_def num sign_text_def sign_char_def spaces_def max_def)
  show ?thesis by (simp add: ascii_def render.simps char d c)
qed

lemma say_args_sends:
  assumes "ready (e_dev E) 0x20" "cstr m a cs" "apart (e_buf E) 128 a (length cs)" "render (e_fp E) (\<lambda>_. None) cs args = Some t"
    "0 \<notin> set t" "length t \<le> 127"
  obtains m' s' where "say_args E a args (m, s) = Some (m', s')" "writes s' = writes s @ sent t" "\<And>x. outside (e_buf E) 128 x \<Longrightarrow> m' x = m x"
proof -
  have "takeWhile (\<lambda>c. c \<noteq> 0) t = t" using assms(5) by (auto simp: takeWhile_eq_all_conv)
  then have w: "takeWhile (\<lambda>c. c \<noteq> 0) (take 127 t) = t" using assms(6) by simp
  have strs: "strs_ok (e_nulls E) (e_buf E) 128 (\<lambda>_. None) m" by (simp add: strs_ok_def)
  obtain m' s' where "printk (e_dev E) (e_fp E) (e_nulls E) (e_buf E) a args (m, s) = Some (int (length t), m', s')"
    "writes s' = writes s @ sent t" "\<forall>x. outside (e_buf E) 128 x \<longrightarrow> m' x = m x"
    using printk_sends [OF assms(1-3) strs assms(4), unfolded w] by blast
  then show thesis using that by (simp add: say_args_def)
qed

text \<open>Strings at addresses outside of \<open>printk\<close>'s buffer.\<close>

definition strings_at :: "env \<Rightarrow> mem \<Rightarrow> (u32 \<times> string) list \<Rightarrow> bool" where
  "strings_at E m fs \<longleftrightarrow> (\<forall>(a, f) \<in> set fs. cstr m a (ascii f) \<and> apart (e_buf E) 128 a (length f))"

lemma strings_at_cong:
  assumes "strings_at E m fs" "\<And>x. outside (e_buf E) 128 x \<Longrightarrow> m' x = m x"
  shows "strings_at E m' fs"
proof -
  have "cstr m' a (ascii f)" if "(a, f) \<in> set fs" for a f
  proof -
    have "cstr m a (ascii f)" "apart (e_buf E) 128 a (length f)" using assms(1) that by (auto simp: strings_at_def)
    moreover have "cstr m' a (ascii f) \<longleftrightarrow> cstr m a (ascii f)"
      by (rule cstr_cong) (use \<open>apart (e_buf E) 128 a (length f)\<close> assms(2) in \<open>auto simp: apart_def ascii_def\<close>)
    ultimately show ?thesis by simp
  qed
  then show ?thesis using assms(1) by (auto simp: strings_at_def)
qed

lemma say_args_string:
  assumes "ready (e_dev E) 0x20" "strings_at E m fs" "(a, f) \<in> set fs" "render (e_fp E) (\<lambda>_. None) (ascii f) args = Some (ascii t)"
    "0 \<notin> set (ascii t)" "length t \<le> 127"
  obtains m' s' where "say_args E a args (m, s) = Some (m', s')" "writes s' = writes s @ sent (ascii t)" "strings_at E m' fs"
proof -
  have "cstr m a (ascii f)" "apart (e_buf E) 128 a (length (ascii f))" using assms(2,3) by (auto simp: strings_at_def ascii_def)
  from say_args_sends [OF assms(1) this assms(4,5), of s] obtain m' s' where
    "say_args E a args (m, s) = Some (m', s')" "writes s' = writes s @ sent (ascii t)" "\<And>x. outside (e_buf E) 128 x \<Longrightarrow> m' x = m x"
    using assms(6) by (auto simp: ascii_def)
  then show thesis using that strings_at_cong [OF assms(2)] by blast
qed

definition plain_text :: "string \<Rightarrow> bool" where
  "plain_text f \<longleftrightarrow> 37 \<notin> set (ascii f) \<and> 0 \<notin> set (ascii f) \<and> length f \<le> 127"

lemma say_plain:
  assumes "ready (e_dev E) 0x20" "strings_at E m fs" "(a, f) \<in> set fs" "plain_text f"
  obtains m' s' where "say_args E a [] (m, s) = Some (m', s')" "writes s' = writes s @ sent (ascii f)" "strings_at E m' fs"
proof -
  have p: "37 \<notin> set (ascii f)" "0 \<notin> set (ascii f)" "length f \<le> 127" using assms(4) by (simp_all add: plain_text_def)
  have "render (e_fp E) (\<lambda>_. None) (ascii f) [] = Some (ascii f)" by (rule render_plain [OF p(1)])
  from say_args_string [OF assms(1-3) this p(2,3), of s] show thesis using that by blast
qed

lemma banner_plain: "i < 5 \<Longrightarrow> i \<noteq> 1 \<Longrightarrow> plain_text (banner_formats ! i)"
proof -
  assume "i < 5" "i \<noteq> 1"
  then have "i = 0 \<or> i = 2 \<or> i = 3 \<or> i = 4" by linarith
  then show "plain_text (banner_formats ! i)" by (auto simp: plain_text_def banner_formats_def ascii_def crlf_def)
qed

lemma banner_parts:
  "banner_text = banner_formats ! 0 @ ''PF:0x800(0x5)'' @ banner_formats ! 2 @ banner_formats ! 3 @ banner_formats ! 4"
  by (simp add: banner_text_def banner_formats_def)

lemma banner_sends:
  assumes "ready (e_dev E) 0x20" "strings_at E m (zip [f1, f2, f3, f4, f5] banner_formats)"
  obtains m' s' where "banner E (f1, f2, f3, f4, f5) (m, s) = Some (m', s')" "writes s' = writes s @ sent (ascii banner_text)"
proof -
  let ?fs = "zip [f1, f2, f3, f4, f5] banner_formats"
  let ?t = "\<lambda>i. sent (ascii (banner_formats ! i))"
  have len: "length banner_formats = 5" by (simp add: banner_formats_def)
  have at: "(f1, banner_formats ! 0) \<in> set ?fs" "(f2, ''PF:0x%d(0x%d)'') \<in> set ?fs" "(f3, banner_formats ! 2) \<in> set ?fs"
    "(f4, banner_formats ! 3) \<in> set ?fs" "(f5, banner_formats ! 4) \<in> set ?fs"
    by (simp_all add: banner_formats_def)
  have plain: "plain_text (banner_formats ! 0)" "plain_text (banner_formats ! 2)" "plain_text (banner_formats ! 3)" "plain_text (banner_formats ! 4)"
    by (simp_all add: banner_plain)
  have pf_plain: "0 \<notin> set (ascii ''PF:0x800(0x5)'')" "length ''PF:0x800(0x5)'' \<le> 127" by (simp_all add: ascii_def)
  obtain m1 s1 where 1: "say_args E f1 [] (m, s) = Some (m1, s1)" "writes s1 = writes s @ ?t 0" "strings_at E m1 ?fs"
    using say_plain [OF assms at(1) plain(1), of s] by blast
  obtain m2 s2 where 2: "say_args E f2 [Word 800, Word 5] (m1, s1) = Some (m2, s2)"
    "writes s2 = writes s1 @ sent (ascii ''PF:0x800(0x5)'')" "strings_at E m2 ?fs"
    using say_args_string [OF assms(1) 1(3) at(2) pf_text pf_plain, of s1] by blast
  obtain m3 s3 where 3: "say_args E f3 [] (m2, s2) = Some (m3, s3)" "writes s3 = writes s2 @ ?t 2" "strings_at E m3 ?fs"
    using say_plain [OF assms(1) 2(3) at(3) plain(2), of s2] by blast
  obtain m4 s4 where 4: "say_args E f4 [] (m3, s3) = Some (m4, s4)" "writes s4 = writes s3 @ ?t 3" "strings_at E m4 ?fs"
    using say_plain [OF assms(1) 3(3) at(4) plain(3), of s3] by blast
  obtain m5 s5 where 5: "say_args E f5 [] (m4, s4) = Some (m5, s5)" "writes s5 = writes s4 @ ?t 4"
    using say_plain [OF assms(1) 4(3) at(5) plain(4), of s4] by blast
  have "banner E (f1, f2, f3, f4, f5) (m, s) = Some (m5, s5)"
    by (simp add: banner_def Let_def 1(1) 2(1) 3(1) 4(1) 5(1))
  moreover have "writes s5 = writes s @ sent (ascii banner_text)"
    unfolding 5(2) 4(2) 3(2) 2(2) 1(2) banner_parts by (simp only: ascii_def map_append sent_append append_assoc)
  ultimately show thesis using that by blast
qed

text \<open>The formats in the kernel image, that is, below \<open>B\<close> in physical memory.\<close>

definition low :: "u32 \<Rightarrow> u32" where
  "low x = (if KERNBASE \<le> x then x - KERNBASE else x)"

definition image_strings :: "env \<Rightarrow> u32 \<Rightarrow> mem \<Rightarrow> (u32 \<times> string) list \<Rightarrow> bool" where
  "image_strings E B m fs \<longleftrightarrow> strings_at E (\<lambda>x. m (low x)) fs \<and>
     (\<forall>(a, f) \<in> set fs. \<forall>i\<le>length f. low (a + of_nat i) < B)"

lemma seen_image:
  assumes "unat B mod 16384 = 0" "unat B + 0xC000 \<le> 0x1000000" "init_paging B m = (p, ttbr, m')"
    "low x < B"
  shows "seen m' ttbr x = m (low x)"
proof -
  define y where "y = low x"
  have y: "unat y < unat B" using assms(4) by (simp add: y_def word_less_nat_alt)
  obtain m1 where 1: "init_paging B m = (B + 0x9000, B, m1)" "\<And>va. mmu_walk m1 B va = kernel_map (unat B + 0xC000) va"
    "\<And>x. 0x9000 \<le> unat (x - B) \<Longrightarrow> x \<notin> word_at (B + 0x93C0) \<Longrightarrow> m1 x = m x"
    using init_paging_result [OF assms(1,2), of m] by metis
  have "unat (y - B) = unat y + 4294967296 - unat B" using y unat_sub_if_size [of y B] by (simp add: word_size)
  then have far: "0x9000 \<le> unat (y - B)" "unat (y - B) div 4 \<noteq> 0x24F0" using assms(2) by simp_all
  have "y \<notin> word_at (slot B 0x24F0)" using far(2) slot_word_at [of "0x24F0" y B] by simp
  then have "m1 y = m y" using 1(3) far(1) by (simp add: slot_def)
  moreover have "kernel_map (unat B + 0xC000) x = Some y"
  proof (cases "KERNBASE \<le> x")
    case True
    then have "unat y = unat x - 0xC0000000" "0xC0000000 \<le> unat x" by (simp_all add: y_def low_def paging_consts unat_sub word_le_nat_alt)
    moreover from this have "unat x < 0xC0000000 + unat B" using y by linarith
    ultimately show ?thesis using True assms(2) by (simp add: kernel_map_def Let_def y_def low_def)
  next
    case False
    then show ?thesis using y by (simp add: kernel_map_def Let_def y_def low_def)
  qed
  ultimately show ?thesis using 1(1,2) assms(3) by (simp add: seen_def y_def)
qed

lemma seen_strings:
  assumes "unat B mod 16384 = 0" "unat B + 0xC000 \<le> 0x1000000" "init_paging B m = (p, ttbr, m')" "image_strings E B m fs"
  shows "strings_at E (seen m' ttbr) fs"
proof -
  have "cstr (seen m' ttbr) a (ascii f)" if "(a, f) \<in> set fs" for a f
  proof -
    have "cstr (\<lambda>x. m (low x)) a (ascii f)" using assms(4) that by (auto simp: image_strings_def strings_at_def)
    moreover have "cstr (seen m' ttbr) a (ascii f) \<longleftrightarrow> cstr (\<lambda>x. m (low x)) a (ascii f)"
    proof (rule cstr_cong, rule seen_image [OF assms(1-3)])
      show "low (a + of_nat i) < B" if "i \<le> length (ascii f)" for i
        using assms(4) \<open>(a, f) \<in> set fs\<close> that unfolding image_strings_def ascii_def by fastforce
    qed
    ultimately show ?thesis by simp
  qed
  then show ?thesis using assms(4) by (auto simp: image_strings_def strings_at_def)
qed

lemma round_end:
  assumes "KERNBASE \<le> kernel_end" "unat kernel_end + 0x10000 \<le> 0xC1000000"
  defines "B \<equiv> ((kernel_end + (0x4000 - 1)) AND NOT (0x4000 - 1)) - KERNBASE"
  shows "unat B = (unat kernel_end - 0xC0000000 + 0x3FFF) div 0x4000 * 0x4000" "unat B mod 16384 = 0" "unat B + 0xC000 \<le> 0x1000000"
proof -
  have "0xC0000000 \<le> unat kernel_end" using assms(1) by (simp add: paging_consts word_le_nat_alt)
  then obtain k where k: "unat kernel_end = 0xC0000000 + k" by (metis le_Suc_ex)
  let ?top = "(kernel_end + (0x4000 - 1)) AND NOT (0x4000 - 1)"
  have "unat (kernel_end + 0x3FFF) = unat kernel_end + 0x3FFF" using assms(2) by (simp add: unat_add_no_wrap)
  moreover have "NOT (0x4000 - 1) = (0xffffc000 :: u32)" "kernel_end + (0x4000 - 1) = kernel_end + 0x3FFF" by simp_all
  ultimately have "unat ?top = (unat kernel_end + 0x3FFF) div 16384 * 16384" using unat_clear_low14 [of "kernel_end + 0x3FFF"] by (simp only:)
  also have "\<dots> = 0xC0000000 + (k + 0x3FFF) div 16384 * 16384"
  proof -
    have "unat kernel_end + 0x3FFF = 0x30000 * 16384 + (k + 0x3FFF)" using k by simp
    then show ?thesis by (simp only: div_mult_self3) simp
  qed
  finally have top: "unat ?top = 0xC0000000 + (k + 0x3FFF) div 16384 * 16384" .
  then have "KERNBASE \<le> ?top" by (simp only: paging_consts word_le_nat_alt) simp
  then have "unat B = unat ?top - 0xC0000000" unfolding B_def by (simp only: unat_sub) (simp add: paging_consts)
  then show u: "unat B = (unat kernel_end - 0xC0000000 + 0x3FFF) div 0x4000 * 0x4000" using top k by simp
  show "unat B mod 16384 = 0" unfolding u by simp
  show "unat B + 0xC000 \<le> 0x1000000" unfolding u using assms(2) k by linarith
qed

text \<open>
  C11. \<open>cstart\<close> on a kernel image that ends below 16 MiB, with a serial line that becomes ready
  again and again: it comes to its final loop. It has sent the banner behind the set-up of the
  line and has then started the timer; the frame allocator is given the memory from 36 KiB
  behind the image to 512 MiB, and the idle task and three tasks are ready.
\<close>

theorem cstart_correct:
  assumes "ready (e_dev E) 0x20" "KERNBASE \<le> kernel_end" "unat kernel_end + 0x10000 \<le> 0xC1000000" "length (task_table ts) = 256"
  defines "B \<equiv> ((kernel_end + (0x4000 - 1)) AND NOT (0x4000 - 1)) - KERNBASE"
  assumes "image_strings E B m (zip [f1, f2, f3, f4, f5] banner_formats)"
  shows "\<exists>vm ts' s'. cstart E L junks idles (f1, f2, f3, f4, f5) kernel_end mbi (zone, m, ts, s) =
      Some (zone[0 := B + 0x9000, 1 := 0x1FFFFFFF, 2 := 0, 3 := 0], vm, ts', s') \<and> started 4 ts' \<and>
    writes s' = writes (uart_init (e_dev E) s) @ sent (ascii banner_text) @
      [(Enable_Basic_IRQs, 1), (timer_Load, 1000000), (timer_Reload, 1000000), (timer_PreDivider, 0xF9), (timer_Control, 0xA2)]"
proof -
  note b = round_end [OF assms(2,3), folded B_def]
  obtain m1 where p: "init_paging B m = (B + 0x9000, B, m1)" using init_paging_result [OF b(2,3), of m] by metis
  have vm: "strings_at E (seen m1 B) (zip [f1, f2, f3, f4, f5] banner_formats)" by (rule seen_strings [OF b(2,3) p assms(6)])
  obtain m2 s2 where 2: "banner E (f1, f2, f3, f4, f5) (seen m1 B, uart_init (e_dev E) s) = Some (m2, s2)"
    "writes s2 = writes (uart_init (e_dev E) s) @ sent (ascii banner_text)"
    using banner_sends [OF assms(1) vm] by blast
  obtain i0 i1 i2 where i: "idles = (i0, i1, i2)" by (cases idles)
  have "cstart E L junks idles (f1, f2, f3, f4, f5) kernel_end mbi (zone, m, ts, s) =
      Some (zone[0 := B + 0x9000, 1 := 0x1FFFFFFF, 2 := 0, 3 := 0], m2, cstart_tasks L junks i0 i1 i2 ts, init_arm_timer Kernel_1Hz s2)"
    by (simp only: cstart_def prod.case Let_def B_def [symmetric] md_startup_def p 2(1) option.case i init_ram_def)
  moreover have "started 4 (cstart_tasks L junks i0 i1 i2 ts)" using cstart_tasks_result [OF assms(4)] by blast
  moreover have "writes (init_arm_timer Kernel_1Hz s2) = writes s2 @
      [(Enable_Basic_IRQs, 1), (timer_Load, 1000000), (timer_Reload, 1000000), (timer_PreDivider, 0xF9), (timer_Control, 0xA2)]"
    by (simp add: init_arm_timer_def mmio_write_def Kernel_1Hz_def BASIC_ARM_TIMER_IRQ_def ARMTIMER_CTRL_23BIT_def
        ARMTIMER_CTRL_PRESCALE_1_def ARMTIMER_CTRL_INT_ENABLE_def ARMTIMER_CTRL_ENABLE_def Let_def)
  ultimately show ?thesis using 2(2) by auto
qed

text \<open>The formats behind one another, 256 bytes each, from 0x8000 on.\<close>

definition example_image :: mem where
  "example_image x =
     (let k = unat x - 0x8000; f = banner_formats ! (k div 256)
      in if 0x8000 \<le> unat x \<and> k div 256 < 5 \<and> k mod 256 < length f then of_char (f ! (k mod 256)) else 0)"

lemma banner_formats_small: "f \<in> set banner_formats \<Longrightarrow> length f \<le> 127 \<and> 0 \<notin> set (ascii f)"
  by (auto simp: banner_formats_def ascii_def crlf_def)

lemma example_image_string:
  assumes "i < 5"
  shows "cstr (\<lambda>x. example_image (low x)) (0xC0008000 + of_nat (256 * i)) (ascii (banner_formats ! i))"
    "j \<le> length (banner_formats ! i) \<Longrightarrow> low (0xC0008000 + of_nat (256 * i) + of_nat j) < 0x10000"
    "apart 0x3000 128 (0xC0008000 + of_nat (256 * i)) (length (banner_formats ! i))"
proof -
  let ?f = "banner_formats ! i"
  have "?f \<in> set banner_formats" by (rule nth_mem) (use assms in \<open>simp add: banner_formats_def\<close>)
  then have f: "length ?f \<le> 127" "0 \<notin> set (ascii ?f)" using banner_formats_small by blast+
  have u: "unat (0xC0008000 + of_nat (256 * i) + of_nat j :: u32) = 0xC0008000 + 256 * i + j" if "j \<le> length ?f" for j
  proof -
    have "0xC0008000 + of_nat (256 * i) + of_nat j = (of_nat (0xC0008000 + 256 * i + j) :: u32)" by simp
    moreover have "0xC0008000 + 256 * i + j < 4294967296" using f(1) assms that by simp
    ultimately show ?thesis by (simp only: u32_of_nat_unat)
  qed
  have l: "unat (low (0xC0008000 + of_nat (256 * i) + of_nat j)) = 0x8000 + 256 * i + j" if "j \<le> length ?f" for j
  proof -
    have "KERNBASE \<le> 0xC0008000 + of_nat (256 * i) + of_nat j" using u [OF that] by (simp only: paging_consts word_le_nat_alt) simp
    then show ?thesis using u [OF that] by (simp only: low_def if_True unat_sub) (simp add: paging_consts)
  qed
  have at: "example_image (low (0xC0008000 + of_nat (256 * i) + of_nat j)) = (if j < length ?f then of_char (?f ! j) else 0)" if "j \<le> length ?f" for j
    using l [OF that] f(1) that assms by (simp add: example_image_def Let_def)
  show "cstr (\<lambda>x. example_image (low x)) (0xC0008000 + of_nat (256 * i)) (ascii ?f)"
    by (rule cstr_intro) (use at f(2) in \<open>simp_all add: ascii_def del: of_nat_mult\<close>)
  show "low (0xC0008000 + of_nat (256 * i) + of_nat j) < 0x10000" if "j \<le> length ?f" for j
    using l [OF that] f(1) that assms by (simp add: word_less_nat_alt del: of_nat_mult)
  show "apart 0x3000 128 (0xC0008000 + of_nat (256 * i)) (length ?f)"
    unfolding apart_def outside_def
  proof (intro allI impI)
    fix j assume j: "j \<le> length ?f"
    have "(0x3000 :: u32) \<le> 0xC0008000 + of_nat (256 * i) + of_nat j" using u [OF j] by (simp only: word_le_nat_alt) simp
    then have "unat (0xC0008000 + of_nat (256 * i) + of_nat j - 0x3000 :: u32) = 0xC0008000 + 256 * i + j - 0x3000"
      using u [OF j] by (simp only: unat_sub) simp
    then show "unat (128 :: u32) \<le> unat (0xC0008000 + of_nat (256 * i) + of_nat j - 0x3000 :: u32)" by (simp del: of_nat_mult)
  qed
qed

theorem cstart_correct_witness:
  "\<exists>vm ts' s'. cstart example_env example_link (1, 2, 3, 4) (0xC0009200, 0xC0009300, 0xC0009400)
       (0xC0008000, 0xC0008100, 0xC0008200, 0xC0008300, 0xC0008400) 0xC000FFF0 0 (replicate 16 0, example_image, bss_tasks, \<lparr>clock = 0, writes = []\<rparr>) =
     Some ([0x19000, 0x1FFFFFFF] @ replicate 14 0, vm, ts', s') \<and> started 4 ts'"
proof -
  let ?fs = "zip [0xC0008000 :: u32, 0xC0008100, 0xC0008200, 0xC0008300, 0xC0008400] banner_formats"
  have set: "set ?fs = (\<lambda>i. (0xC0008000 + of_nat (256 * i), banner_formats ! i)) ` {..<5}"
  proof -
    have "{..<5 :: nat} = {0, 1, 2, 3, 4}" by auto
    then show ?thesis by (simp add: banner_formats_def)
  qed
  have im: "image_strings example_env 0x10000 example_image ?fs"
    unfolding image_strings_def strings_at_def set using example_image_string by (auto simp: example_env_def simp del: of_nat_mult)
  have r: "ready (e_dev example_env) 0x20" using board by (simp add: example_env_def)
  have B: "((0xC000FFF0 + (0x4000 - 1)) AND NOT (0x4000 - 1)) - KERNBASE = 0x10000" by (simp add: paging_consts)
  have z: "(replicate 16 0 :: u32 list)[0 := 0x10000 + 0x9000, 1 := 0x1FFFFFFF, 2 := 0, 3 := 0] = [0x19000, 0x1FFFFFFF] @ replicate 14 0"
    by (simp add: numeral_eq_Suc)
  have k: "KERNBASE \<le> 0xC000FFF0" "unat (0xC000FFF0 :: u32) + 0x10000 \<le> 0xC1000000" "length (task_table bss_tasks) = 256"
    by (simp_all add: paging_consts bss_tasks_def)
  from cstart_correct [where zone = "replicate 16 0", OF r k, unfolded B z, OF im] show ?thesis by blast
qed

end
