(* ===== verification/Vectors.thy ===== *)
theory Vectors
  imports Memory
begin

text \<open>
  The other assembler of \<^verbatim>\<open>kernel/entry.S\<close>: the reset vector with the copy of the vectors and the stacks
  of the modes, the vectors that call the handlers of \<^verbatim>\<open>interrupt.c\<close>, and the masking of the
  interrupt. The processor has a bank of \<^verbatim>\<open>r13\<close>, \<^verbatim>\<open>r14\<close> and \<^verbatim>\<open>spsr\<close> for each mode and, in the fast
  interrupt mode, of \<^verbatim>\<open>r8\<close> to \<^verbatim>\<open>r12\<close>. How it takes an exception is \<open>take_exception\<close>; a handler is
  compiled C code, an argument of the vector that keeps to the procedure call standard (\<open>calls\<close>).
\<close>

section \<open>The processor\<close>

record cpu =
  rx :: "nat \<Rightarrow> u32"
  rx_fiq :: "nat \<Rightarrow> u32"
  r13 :: "u32 \<Rightarrow> u32"
  r14 :: "u32 \<Rightarrow> u32"
  spsr :: "u32 \<Rightarrow> u32"
  cpsr :: u32
  pc :: u32
  ram :: mem

definition CPSR_MODE_USER :: u32 where "CPSR_MODE_USER = 0x10"
definition CPSR_MODE_FIQ :: u32 where "CPSR_MODE_FIQ = 0x11"
definition CPSR_MODE_IRQ :: u32 where "CPSR_MODE_IRQ = 0x12"
definition CPSR_MODE_SVR :: u32 where "CPSR_MODE_SVR = 0x13"
definition CPSR_MODE_ABORT :: u32 where "CPSR_MODE_ABORT = 0x17"
definition CPSR_MODE_UNDEFINED :: u32 where "CPSR_MODE_UNDEFINED = 0x1B"
definition CPSR_MODE_SYSTEM :: u32 where "CPSR_MODE_SYSTEM = 0x1F"
definition CPSR_IRQ_INHIBIT :: u32 where "CPSR_IRQ_INHIBIT = 0x80"
definition CPSR_FIQ_INHIBIT :: u32 where "CPSR_FIQ_INHIBIT = 0x40"

lemmas cpsr_consts = CPSR_MODE_USER_def CPSR_MODE_FIQ_def CPSR_MODE_IRQ_def CPSR_MODE_SVR_def CPSR_MODE_ABORT_def
  CPSR_MODE_UNDEFINED_def CPSR_MODE_SYSTEM_def CPSR_IRQ_INHIBIT_def CPSR_FIQ_INHIBIT_def

text \<open>User and system mode share their registers.\<close>

definition bank :: "u32 \<Rightarrow> u32" where
  "bank status = (let m = status AND 0x1F in if m = CPSR_MODE_USER then CPSR_MODE_SYSTEM else m)"

definition mode :: "cpu \<Rightarrow> u32" where
  "mode s = bank (cpsr s)"

definition sp :: "cpu \<Rightarrow> u32" where "sp s = r13 s (mode s)"
definition lr :: "cpu \<Rightarrow> u32" where "lr s = r14 s (mode s)"
definition set_sp :: "u32 \<Rightarrow> cpu \<Rightarrow> cpu" where "set_sp v s = s\<lparr>r13 := (r13 s)(mode s := v)\<rparr>"
definition set_lr :: "u32 \<Rightarrow> cpu \<Rightarrow> cpu" where "set_lr v s = s\<lparr>r14 := (r14 s)(mode s := v)\<rparr>"

definition fiq_banked :: "cpu \<Rightarrow> nat \<Rightarrow> bool" where
  "fiq_banked s i \<longleftrightarrow> mode s = CPSR_MODE_FIQ \<and> 8 \<le> i \<and> i \<le> 12"

definition reg :: "cpu \<Rightarrow> nat \<Rightarrow> u32" where
  "reg s i = (if fiq_banked s i then rx_fiq s i else rx s i)"

definition set_reg :: "nat \<Rightarrow> u32 \<Rightarrow> cpu \<Rightarrow> cpu" where
  "set_reg i v s = (if fiq_banked s i then s\<lparr>rx_fiq := (rx_fiq s)(i := v)\<rparr> else s\<lparr>rx := (rx s)(i := v)\<rparr>)"

text \<open>\<open>msr cpsr_c\<close> writes the low byte of the status register.\<close>

definition msr_cpsr_c :: "u32 \<Rightarrow> cpu \<Rightarrow> cpu" where
  "msr_cpsr_c v s = s\<lparr>cpsr := (cpsr s AND 0xFFFFFF00) OR (v AND 0xFF)\<rparr>"

section \<open>Blocks of words\<close>

primrec store_words :: "u32 \<Rightarrow> u32 list \<Rightarrow> mem \<Rightarrow> mem" where
  "store_words a [] m = m"
| "store_words a (v # vs) m = store_words (a + 4) vs (store32 a v m)"

definition load_words :: "u32 \<Rightarrow> nat \<Rightarrow> mem \<Rightarrow> u32 list" where
  "load_words a n m = map (\<lambda>i. load32 m (a + 4 * of_nat i)) [0..<n]"

text \<open>\<open>stmfd r13!\<close>, and \<open>ldmfd r13!\<close> of \<^verbatim>\<open>r0\<close> to \<^verbatim>\<open>r3\<close> and the program counter with \<open>^\<close>, which takes the status back.\<close>

definition stmfd :: "u32 list \<Rightarrow> cpu \<Rightarrow> cpu" where
  "stmfd vs s = (let a = sp s - 4 * of_nat (length vs) in set_sp a (s\<lparr>ram := store_words a vs (ram s)\<rparr>))"

definition ldmfd_return :: "cpu \<Rightarrow> cpu" where
  "ldmfd_return s =
     (let a = sp s; m = ram s;
          s = set_sp (a + 20) (s\<lparr>rx := (rx s)(0 := load32 m a, 1 := load32 m (a + 4), 2 := load32 m (a + 8), 3 := load32 m (a + 12))\<rparr>)
      in s\<lparr>pc := load32 m (a + 16), cpsr := spsr s (mode s)\<rparr>)"

section \<open>Exceptions\<close>

datatype exception = Undefined | Swi | Prefetch_abort | Data_abort | Reserved | Fiq

fun exception_mode :: "exception \<Rightarrow> u32" where
  "exception_mode Undefined = CPSR_MODE_UNDEFINED"
| "exception_mode Swi = CPSR_MODE_SVR"
| "exception_mode Prefetch_abort = CPSR_MODE_ABORT"
| "exception_mode Data_abort = CPSR_MODE_ABORT"
| "exception_mode Reserved = CPSR_MODE_SVR"
| "exception_mode Fiq = CPSR_MODE_FIQ"

text \<open>
  The architecture: for the instruction at address \<open>A\<close> (the one that faults or calls; for an
  interrupt the one that would be next) the link register becomes \<open>A + 8\<close> for a data abort and
  \<open>A + 4\<close> for the others; the reserved vector is never taken.
\<close>

definition take_exception :: "exception \<Rightarrow> u32 \<Rightarrow> cpu \<Rightarrow> cpu" where
  "take_exception k A s =
     (let b = exception_mode k;
          f = (if k = Fiq then CPSR_FIQ_INHIBIT else 0)
      in s\<lparr>r14 := (r14 s)(b := A + (if k = Data_abort then 8 else 4)), spsr := (spsr s)(b := cpsr s),
           cpsr := (cpsr s AND 0xFFFFFFE0) OR b OR CPSR_IRQ_INHIBIT OR f\<rparr>)"

section \<open>The vectors\<close>

text \<open>\<open>bl\<close>: the handler runs with the return address in the link register. \<open>a\<close> is the address of the vector.\<close>

definition bl :: "(cpu \<Rightarrow> cpu option) \<Rightarrow> u32 \<Rightarrow> cpu \<Rightarrow> cpu option" where
  "bl h ret s = h (set_lr ret s)"

definition saved_regs :: "cpu \<Rightarrow> u32 list" where
  "saved_regs s = [reg s 0, reg s 1, reg s 2, reg s 3]"

text \<open>\<open>sub r14, r14, #4; stmfd r13!, {r0-r3, r14}\<close>\<close>

definition save_return :: "cpu \<Rightarrow> cpu" where
  "save_return s = (let s = set_lr (lr s - 4) s in stmfd (saved_regs s @ [lr s]) s)"

text \<open>This vector stores \<^verbatim>\<open>r15\<close>, which reads as the address of the store and 8.\<close>

definition vector_undefined :: "(cpu \<Rightarrow> cpu option) \<Rightarrow> u32 \<Rightarrow> cpu \<Rightarrow> cpu option" where
  "vector_undefined h a s =
     (let s = set_lr (lr s - 4) s; s = stmfd (saved_regs s @ [a + 4 + 8]) s
      in map_option ldmfd_return (bl h (a + 12) s))"

definition vector_swi :: "(cpu \<Rightarrow> cpu option) \<Rightarrow> u32 \<Rightarrow> cpu \<Rightarrow> cpu option" where
  "vector_swi h a s = map_option ldmfd_return (bl h (a + 12) (save_return s))"

text \<open>\<^verbatim>\<open>fault_address\<close> and \<^verbatim>\<open>fault_status\<close> are read from the system coprocessor into \<^verbatim>\<open>r0\<close> and \<^verbatim>\<open>r1\<close>.\<close>

definition vector_prefetch_abort :: "u32 \<Rightarrow> u32 \<Rightarrow> (cpu \<Rightarrow> cpu option) \<Rightarrow> u32 \<Rightarrow> cpu \<Rightarrow> cpu option" where
  "vector_prefetch_abort ifar ifsr h a s =
     map_option ldmfd_return (bl h (a + 20) (set_reg 1 ifsr (set_reg 0 ifar (save_return s))))"

definition vector_data_abort :: "u32 \<Rightarrow> u32 \<Rightarrow> (cpu \<Rightarrow> cpu option) \<Rightarrow> u32 \<Rightarrow> cpu \<Rightarrow> cpu option" where
  "vector_data_abort dfar dfsr h a s =
     map_option ldmfd_return (bl h (a + 20) (set_reg 1 dfsr (set_reg 0 dfar (save_return s))))"

definition vector_reserved :: "(cpu \<Rightarrow> cpu option) \<Rightarrow> u32 \<Rightarrow> cpu \<Rightarrow> cpu option" where
  "vector_reserved h a s = map_option ldmfd_return (bl h (a + 12) (save_return s))"

definition vector_fiq :: "(cpu \<Rightarrow> cpu option) \<Rightarrow> u32 \<Rightarrow> cpu \<Rightarrow> cpu option" where
  "vector_fiq h a s = map_option ldmfd_return (bl h (a + 12) (save_return s))"

text \<open>What the processor runs for an exception: the table of vectors branches to the vector.\<close>

fun vector :: "exception \<Rightarrow> u32 \<Rightarrow> u32 \<Rightarrow> (cpu \<Rightarrow> cpu option) \<Rightarrow> u32 \<Rightarrow> cpu \<Rightarrow> cpu option" where
  "vector Undefined far fsr h a s = vector_undefined h a s"
| "vector Swi far fsr h a s = vector_swi h a s"
| "vector Prefetch_abort far fsr h a s = vector_prefetch_abort far fsr h a s"
| "vector Data_abort far fsr h a s = vector_data_abort far fsr h a s"
| "vector Reserved far fsr h a s = vector_reserved h a s"
| "vector Fiq far fsr h a s = vector_fiq h a s"

section \<open>Interrupt masking\<close>

definition cli :: "cpu \<Rightarrow> cpu" where
  "cli s = (let s = set_reg 0 (cpsr s) s; s = set_reg 0 (reg s 0 AND NOT 0x80) s; s = msr_cpsr_c (reg s 0) s
            in s\<lparr>pc := lr s\<rparr>)"

definition sti :: "cpu \<Rightarrow> cpu" where
  "sti s = (let s = set_reg 0 (cpsr s) s; s = set_reg 0 (reg s 0 OR 0x80) s; s = msr_cpsr_c (reg s 0) s
            in s\<lparr>pc := lr s\<rparr>)"

section \<open>Reset\<close>

primrec set_regs :: "nat \<Rightarrow> u32 list \<Rightarrow> cpu \<Rightarrow> cpu" where
  "set_regs i [] s = s"
| "set_regs i (v # vs) s = set_regs (i + 1) vs (set_reg i v s)"

text \<open>\<open>ldmia r0!, {r2-r9}; stmia r1!, {r2-r9}\<close>\<close>

definition copy_8 :: "cpu \<Rightarrow> cpu" where
  "copy_8 s =
     (let vs = load_words (reg s 0) 8 (ram s);
          s = set_regs 2 vs s;
          s = set_reg 0 (reg s 0 + 32) s;
          s = s\<lparr>ram := store_words (reg s 1) vs (ram s)\<rparr>
      in set_reg 1 (reg s 1 + 32) s)"

text \<open>\<open>mov r0, #(mode | inhibit); msr cpsr_c, r0; mov sp, #v\<close>\<close>

definition set_stack :: "u32 \<Rightarrow> u32 \<Rightarrow> cpu \<Rightarrow> cpu" where
  "set_stack m v s =
     (let s = set_reg 0 (m OR CPSR_IRQ_INHIBIT OR CPSR_FIQ_INHIBIT) s
      in set_sp v (msr_cpsr_c (reg s 0) s))"

text \<open>Up to the call of \<^verbatim>\<open>cstart\<close>; \<^verbatim>\<open>halt\<close> behind it is an endless loop.\<close>

definition vector_reset :: "cpu \<Rightarrow> cpu" where
  "vector_reset s =
     (let s = set_reg 1 0 (set_reg 0 0x8000 s);
          s = copy_8 (copy_8 s);
          s = set_stack CPSR_MODE_IRQ 0x8000 s;
          s = set_stack CPSR_MODE_ABORT 0x7000 s;
          s = set_stack CPSR_MODE_SYSTEM 0x6000 s;
          s = set_stack CPSR_MODE_UNDEFINED 0x5000 s;
          s = set_stack CPSR_MODE_SVR 0x4000 s
      in set_sp (sp s - 4) s)"

section \<open>Words behind each other\<close>

lemma store_words_outside:
  "4 * length vs \<le> unat (x - a) \<Longrightarrow> store_words a vs m x = m x"
proof (induction vs arbitrary: a m)
  case (Cons v vs)
  have four: "4 \<le> unat (x - a)" using Cons.prems by simp
  then have "(4::u32) \<le> x - a" by (simp add: word_le_nat_alt)
  then have "unat (x - a - 4) = unat (x - a) - 4" by (simp add: unat_sub)
  then have "4 * length vs \<le> unat (x - (a + 4))" using Cons.prems by (simp add: algebra_simps)
  moreover have "x \<notin> word_at a" using four by (auto simp: word_at_def)
  ultimately show ?case using Cons.IH [of "a + 4"] by (simp add: store32_outside)
qed simp

lemma word_at_offset: "x \<in> word_at a \<longleftrightarrow> unat (x - a) < 4"
proof
  assume "unat (x - a) < 4"
  then have "unat (x - a) = 0 \<or> unat (x - a) = 1 \<or> unat (x - a) = 2 \<or> unat (x - a) = 3" by linarith
  then have "x - a = 0 \<or> x - a = 1 \<or> x - a = 2 \<or> x - a = 3"
    by (auto simp: word_unat_eq_iff)
  then show "x \<in> word_at a" by (auto simp: word_at_def algebra_simps eq_diff_eq)
qed (auto simp: word_at_def)

lemma load_store_words:
  "i < length vs \<Longrightarrow> 4 * length vs < 4294967296 \<Longrightarrow> load32 (store_words a vs m) (a + 4 * of_nat i) = vs ! i"
proof (induction vs arbitrary: a m i)
  case (Cons v vs)
  show ?case
  proof (cases i)
    case 0
    have "store_words (a + 4) vs (store32 a v m) x = store32 a v m x" if "x \<in> word_at a" for x
    proof (rule store_words_outside)
      from that have "unat (x - (a + 4)) \<ge> 4294967292"
        by (auto simp: word_at_def unsigned_minus_1_eq_mask mask_eq_exp_minus_1)
      then show "4 * length vs \<le> unat (x - (a + 4))" using Cons.prems by simp
    qed
    then have "load32 (store_words (a + 4) vs (store32 a v m)) a = load32 (store32 a v m) a" by (rule load32_cong)
    then show ?thesis by (simp add: 0)
  next
    case (Suc j)
    then show ?thesis using Cons.IH [of j "a + 4"] Cons.prems by (simp add: algebra_simps)
  qed
qed simp

lemma load_words_cong:
  assumes "\<And>x. unat (x - a) < 4 * n \<Longrightarrow> m x = m' x" "4 * n < 4294967296"
  shows "load_words a n m = load_words a n m'"
  unfolding load_words_def
proof (rule map_cong [OF refl], rule load32_cong)
  fix i x
  assume i: "i \<in> set [0..<n]" and x: "x \<in> word_at (a + 4 * of_nat i)"
  define d where "d = x - (a + 4 * of_nat i)"
  have "unat d < 4" using x by (simp add: d_def word_at_offset)
  moreover have "unat (4 * of_nat i :: u32) = 4 * i"
    using i assms(2) by (simp add: unat_word_ariths u32_of_nat_unat)
  moreover have "x - a = 4 * of_nat i + d" by (simp add: d_def)
  ultimately have "unat (x - a) \<le> 4 * i + unat d" "unat d < 4" by (simp_all add: unat_word_ariths)
  then show "m x = m' x" using i by (intro assms(1)) simp
qed

lemma load_words_store_words:
  "4 * length vs < 4294967296 \<Longrightarrow> load_words a (length vs) (store_words a vs m) = vs"
  by (rule nth_equalityI) (simp_all add: load_words_def load_store_words)

lemma load_words_5: "load_words a 5 m = [load32 m a, load32 m (a + 4), load32 m (a + 8), load32 m (a + 12), load32 m (a + 16)]"
  by (simp add: load_words_def upt_rec)

section \<open>Registers\<close>

named_theorems cpu_simps

lemma register_access [cpu_simps]:
  "mode (set_sp v s) = mode s" "mode (set_lr v s) = mode s" "mode (set_reg i v s) = mode s" "mode (s\<lparr>ram := m\<rparr>) = mode s"
  "mode (stmfd vs s) = mode s"
  "sp (set_sp v s) = v" "sp (set_lr v s) = sp s" "sp (set_reg i v s) = sp s" "sp (s\<lparr>ram := m\<rparr>) = sp s"
  "lr (set_lr v s) = v" "lr (set_sp v s) = lr s" "lr (set_reg i v s) = lr s" "lr (s\<lparr>ram := m\<rparr>) = lr s"
  "reg (set_sp v s) i = reg s i" "reg (set_lr v s) i = reg s i" "reg (s\<lparr>ram := m\<rparr>) i = reg s i"
  "reg (set_reg i v s) j = (if j = i then v else reg s j)"
  by (simp_all add: mode_def set_sp_def set_lr_def set_reg_def sp_def lr_def reg_def fiq_banked_def stmfd_def Let_def)

lemma register_fields [cpu_simps]:
  "ram (set_sp v s) = ram s" "ram (set_lr v s) = ram s" "ram (set_reg i v s) = ram s"
  "spsr (set_sp v s) = spsr s" "spsr (set_lr v s) = spsr s" "spsr (set_reg i v s) = spsr s"
  "cpsr (set_sp v s) = cpsr s" "cpsr (set_lr v s) = cpsr s" "cpsr (set_reg i v s) = cpsr s"
  "r13 (set_sp v s) = (r13 s)(mode s := v)" "r13 (set_lr v s) = r13 s" "r13 (set_reg i v s) = r13 s"
  "r14 (set_sp v s) = r14 s" "r14 (set_lr v s) = (r14 s)(mode s := v)" "r14 (set_reg i v s) = r14 s"
  "rx_fiq (set_sp v s) = rx_fiq s" "rx_fiq (set_lr v s) = rx_fiq s" "rx (set_sp v s) = rx s" "rx (set_lr v s) = rx s"
  by (simp_all add: set_sp_def set_lr_def set_reg_def)

section \<open>Returning from a vector\<close>

text \<open>
  What the procedure call standard says of a function between entry and return: it goes back to
  the link register, keeps the stack pointer, \<^verbatim>\<open>r4\<close> to \<^verbatim>\<open>r11\<close> and the caller's frame (here the 20 bytes
  that were pushed), and stays in its mode, whose other banks it does not see. It may change
  \<^verbatim>\<open>r0\<close> to \<^verbatim>\<open>r3\<close>, \<^verbatim>\<open>r12\<close> and \<^verbatim>\<open>r14\<close>.
\<close>

definition aapcs :: "cpu \<Rightarrow> cpu \<Rightarrow> bool" where
  "aapcs s s' \<longleftrightarrow> pc s' = lr s \<and> cpsr s' = cpsr s \<and> spsr s' = spsr s \<and> r13 s' = r13 s
     \<and> (\<forall>m. m \<noteq> mode s \<longrightarrow> r14 s' m = r14 s m)
     \<and> (\<forall>i. 4 \<le> i \<and> i \<le> 11 \<longrightarrow> reg s' i = reg s i)
     \<and> (if mode s = CPSR_MODE_FIQ then \<forall>i. 8 \<le> i \<and> i \<le> 12 \<longrightarrow> rx s' i = rx s i else rx_fiq s' = rx_fiq s)
     \<and> (\<forall>x. unat (x - sp s) < 20 \<longrightarrow> ram s' x = ram s x)"

definition calls :: "(cpu \<Rightarrow> cpu option) \<Rightarrow> bool" where
  "calls h \<longleftrightarrow> (\<forall>s. \<exists>s'. h s = Some s' \<and> aapcs s s')"

text \<open>The state when the handler has returned, for a frame pushed in state \<open>s\<close> with the word \<open>w\<close>.\<close>

lemma handler_frame:
  assumes "aapcs s2 s3" "sp s2 = sp s - 20" "ram s2 = store_words (sp s - 20) [v0, v1, v2, v3, w] (ram s)"
  shows "load_words (sp s - 20) 5 (ram s3) = [v0, v1, v2, v3, w]"
proof -
  have five: "5 = length [v0, v1, v2, v3, w]" by simp
  have "load_words (sp s - 20) 5 (ram s3) = load_words (sp s - 20) 5 (ram s2)"
    using assms(1,2) by (intro load_words_cong) (auto simp: aapcs_def)
  also have "\<dots> = [v0, v1, v2, v3, w]"
    unfolding assms(3) five by (rule load_words_store_words) simp
  finally show ?thesis .
qed

text \<open>A state in which a vector calls its handler, when it was entered in state \<open>e\<close> and pushed the word \<open>w\<close>.\<close>

definition pushed :: "cpu \<Rightarrow> u32 \<Rightarrow> cpu \<Rightarrow> bool" where
  "pushed e w s \<longleftrightarrow> mode s = mode e \<and> r13 s = (r13 e)(mode e := sp e - 20) \<and> spsr s = spsr e
     \<and> ram s = store_words (sp e - 20) (saved_regs e @ [w]) (ram e)
     \<and> (\<forall>m. m \<noteq> mode e \<longrightarrow> r14 s m = r14 e m) \<and> (\<forall>i. 2 \<le> i \<longrightarrow> rx s i = rx e i) \<and> rx_fiq s = rx_fiq e"

lemma saved_regs_rx: "saved_regs s = [rx s 0, rx s 1, rx s 2, rx s 3]"
  by (simp add: saved_regs_def reg_def fiq_banked_def)

lemma pushed_frame: "pushed e w (stmfd (saved_regs e @ [w]) (set_lr v e))"
  by (simp add: pushed_def stmfd_def Let_def saved_regs_rx cpu_simps)

lemma pushed_call:
  "pushed e w s \<Longrightarrow> pushed e w (set_lr v s)"
  "pushed e w s \<Longrightarrow> i < 2 \<Longrightarrow> pushed e w (set_reg i v s)"
  by (auto simp: pushed_def cpu_simps) (auto simp: set_reg_def fiq_banked_def)

lemma save_return_pushed: "pushed e (lr e - 4) (save_return e)"
  using pushed_frame [of e "lr e - 4" "lr e - 4"] by (simp add: save_return_def Let_def saved_regs_def cpu_simps)

lemma return_pushed:
  assumes "pushed e w s2" "aapcs s2 s3"
  shows "pc (ldmfd_return s3) = w" "cpsr (ldmfd_return s3) = spsr e (mode e)" "r13 (ldmfd_return s3) = r13 e"
    "m \<noteq> mode e \<Longrightarrow> r14 (ldmfd_return s3) m = r14 e m"
    "i \<le> 11 \<Longrightarrow> rx (ldmfd_return s3) i = rx e i"
    "mode e = CPSR_MODE_FIQ \<Longrightarrow> rx (ldmfd_return s3) 12 = rx e 12"
    "mode e \<noteq> CPSR_MODE_FIQ \<Longrightarrow> rx_fiq (ldmfd_return s3) = rx_fiq e"
proof -
  have s3: "mode s3 = mode e" "sp s3 = sp e - 20" "spsr s3 = spsr e" "r13 s3 = (r13 e)(mode e := sp e - 20)"
    using assms by (simp_all add: pushed_def aapcs_def mode_def sp_def)
  have sp2: "sp s2 = sp e - 20" using assms(1) by (simp add: pushed_def sp_def)
  have "load_words (sp e - 20) 5 (ram s3) = [rx e 0, rx e 1, rx e 2, rx e 3, w]"
    using assms(1) by (intro handler_frame [OF assms(2) sp2]) (simp add: pushed_def saved_regs_rx)
  then have w: "load32 (ram s3) (sp e - 20) = rx e 0" "load32 (ram s3) (sp e - 16) = rx e 1" "load32 (ram s3) (sp e - 12) = rx e 2"
    "load32 (ram s3) (sp e - 8) = rx e 3" "load32 (ram s3) (sp e - 4) = w"
    by (simp_all add: load_words_5)
  have ret: "pc (ldmfd_return s3) = w" "cpsr (ldmfd_return s3) = spsr e (mode e)" "r13 (ldmfd_return s3) = r13 e"
    "r14 (ldmfd_return s3) = r14 s3" "rx_fiq (ldmfd_return s3) = rx_fiq s3"
    "rx (ldmfd_return s3) = (rx s3)(0 := rx e 0, 1 := rx e 1, 2 := rx e 2, 3 := rx e 3)"
    using s3 w by (simp_all add: ldmfd_return_def Let_def cpu_simps sp_def) (auto simp: set_sp_def mode_def fun_eq_iff)
  then show "pc (ldmfd_return s3) = w" "cpsr (ldmfd_return s3) = spsr e (mode e)" "r13 (ldmfd_return s3) = r13 e" by simp_all
  show "m \<noteq> mode e \<Longrightarrow> r14 (ldmfd_return s3) m = r14 e m" using assms ret by (simp add: pushed_def aapcs_def)
  have callee: "\<forall>i. 4 \<le> i \<and> i \<le> 11 \<longrightarrow> reg s3 i = reg s2 i"
    "if mode e = CPSR_MODE_FIQ then \<forall>i. 8 \<le> i \<and> i \<le> 12 \<longrightarrow> rx s3 i = rx s2 i else rx_fiq s3 = rx_fiq s2"
    using assms by (auto simp: pushed_def aapcs_def)
  have e: "mode s2 = mode e" "\<And>i. 2 \<le> i \<Longrightarrow> rx s2 i = rx e i" "rx_fiq s2 = rx_fiq e"
    using assms(1) by (auto simp: pushed_def)
  show "mode e \<noteq> CPSR_MODE_FIQ \<Longrightarrow> rx_fiq (ldmfd_return s3) = rx_fiq e" using ret(5) callee(2) e(3) by simp
  show "mode e = CPSR_MODE_FIQ \<Longrightarrow> rx (ldmfd_return s3) 12 = rx e 12" using ret(6) callee(2) e(2) by simp
  show "rx (ldmfd_return s3) i = rx e i" if "i \<le> 11"
  proof (cases "i < 4")
    case True
    then have "i = 0 \<or> i = 1 \<or> i = 2 \<or> i = 3" by linarith
    then show ?thesis using ret(6) by auto
  next
    case False
    have "rx s3 i = rx s2 i"
    proof (cases "mode e = CPSR_MODE_FIQ \<and> 8 \<le> i")
      case True
      then show ?thesis using callee(2) that by simp
    next
      case False
      then show ?thesis using callee(1) [rule_format, of i] that \<open>\<not> i < 4\<close> s3(1) e(1) by (auto simp: reg_def fiq_banked_def)
    qed
    then show ?thesis using False ret(6) e(2) by simp
  qed
qed

section \<open>Exceptions and their vectors\<close>

lemma take_exception_fields:
  "mode (take_exception k A s) = exception_mode k"
  "r13 (take_exception k A s) = r13 s" "rx (take_exception k A s) = rx s" "rx_fiq (take_exception k A s) = rx_fiq s"
  "r14 (take_exception k A s) = (r14 s)(exception_mode k := A + (if k = Data_abort then 8 else 4))"
  "spsr (take_exception k A s) = (spsr s)(exception_mode k := cpsr s)"
  "lr (take_exception k A s) = A + (if k = Data_abort then 8 else 4)"
proof -
  have status: "(c AND 0xFFFFFFE0 OR w) AND 0x1F = w AND 0x1F" for c w :: u32
    by (simp add: bit.conj_disj_distrib2 and.assoc)
  show m: "mode (take_exception k A s) = exception_mode k"
    by (cases k) (simp_all add: mode_def bank_def take_exception_def Let_def cpsr_consts status)
  show "lr (take_exception k A s) = A + (if k = Data_abort then 8 else 4)"
    by (simp add: lr_def m) (simp add: take_exception_def Let_def)
qed (simp_all add: take_exception_def Let_def)

text \<open>The vectors push the corrected link register, or the address of their last instruction.\<close>

lemma vector_calls:
  assumes "calls h"
  obtains s2 s3 where "vector k far fsr h a e = Some (ldmfd_return s3)" "aapcs s2 s3"
    "pushed e (if k = Undefined then a + 12 else lr e - 4) s2"
proof -
  have body: thesis
    if "vector k far fsr h a e = map_option ldmfd_return (h s2)" "pushed e (if k = Undefined then a + 12 else lr e - 4) s2" for s2
    using assms that \<open>\<And>s3 s2. \<lbrakk>vector k far fsr h a e = Some (ldmfd_return s3); aapcs s2 s3;
      pushed e (if k = Undefined then a + 12 else lr e - 4) s2\<rbrakk> \<Longrightarrow> thesis\<close>
    unfolding calls_def by (metis option.simps(9))
  note p = pushed_call(1) [OF save_return_pushed] pushed_call(1) [OF pushed_call(2) [OF pushed_call(2) [OF save_return_pushed]]]
  show thesis
  proof (cases k)
    case Undefined
    have "pushed e (a + 12) (set_lr (a + 12) (stmfd (saved_regs (set_lr (lr e - 4) e) @ [a + 4 + 8]) (set_lr (lr e - 4) e)))"
      using pushed_call(1) [OF pushed_frame [of e "a + 12" "lr e - 4"]] by (simp add: saved_regs_def cpu_simps add.assoc)
    then show thesis using Undefined by (intro body) (simp_all add: vector_undefined_def bl_def Let_def)
  qed (rule body, simp add: vector_swi_def vector_prefetch_abort_def vector_data_abort_def vector_reserved_def vector_fiq_def bl_def,
      use p in simp)+
qed


text \<open>
  The vector of an undefined instruction has stored its own program counter: with the status
  of the interrupted code it runs its last instruction again, on the stack of that mode.
\<close>

theorem undefined_returns_to_vector:
  assumes "calls h"
  shows "\<exists>s'. vector_undefined h a (take_exception Undefined A s) = Some s' \<and> pc s' = a + 12 \<and> cpsr s' = cpsr s"
proof -
  obtain s2 s3 where v: "vector Undefined 0 0 h a (take_exception Undefined A s) = Some (ldmfd_return s3)" "aapcs s2 s3"
    and p: "pushed (take_exception Undefined A s) (if Undefined = Undefined then a + 12 else lr (take_exception Undefined A s) - 4) s2"
    using vector_calls [OF assms, of Undefined 0 0 a "take_exception Undefined A s"] .
  show ?thesis using v(1) return_pushed(1,2) [OF p v(2)] take_exception_fields(1,6) [of Undefined A s] by simp
qed

text \<open>\<open>cli\<close> clears the bit that masks the interrupt, and so lets it through; \<open>sti\<close> masks it.\<close>

theorem cli_enables: "bit (cpsr (cli s)) 7 = False" "bit (cpsr (sti s)) 7 = True"
  by (simp_all add: cli_def sti_def msr_cpsr_c_def Let_def cpu_simps bit_simps)

section \<open>Reset\<close>

lemma copied_byte:
  assumes "j < 4 * n" "4 * n < 4294967296"
  shows "store_words d (load_words a n m) m' (d + of_nat j) = m (a + of_nat j)"
proof -
  let ?M = "store_words d (load_words a n m) m'"
  define q r where "q = j div 4" and "r = j mod 4"
  have q: "q < n" "r < 4" "j = 4 * q + r" using assms(1) by (auto simp: q_def r_def)
  have "load32 ?M (d + 4 * of_nat q) = load32 m (a + 4 * of_nat q)"
    using load_store_words [of q "load_words a n m" d m'] q(1) assms(2) by (simp add: load_words_def)
  then have "?M (d + 4 * of_nat q + of_nat r) = m (a + 4 * of_nat q + of_nat r)"
    using byte_of_load32 [OF q(2)] by metis
  then show ?thesis by (simp add: q(3) add.assoc)
qed

lemma set_regs_fields:
  "ram (set_regs i vs s) = ram s" "r13 (set_regs i vs s) = r13 s" "cpsr (set_regs i vs s) = cpsr s"
  "j < i \<Longrightarrow> reg (set_regs i vs s) j = reg s j"
  by (induction vs arbitrary: i s) (simp_all add: cpu_simps)

lemma copy_8_result:
  "ram (copy_8 s) = store_words (reg s 1) (load_words (reg s 0) 8 (ram s)) (ram s)" "r13 (copy_8 s) = r13 s"
  "cpsr (copy_8 s) = cpsr s" "reg (copy_8 s) 0 = reg s 0 + 32" "reg (copy_8 s) 1 = reg s 1 + 32"
  by (simp_all add: copy_8_def Let_def cpu_simps set_regs_fields del: One_nat_def)

lemma set_stack_result:
  assumes "m \<in> {CPSR_MODE_IRQ, CPSR_MODE_ABORT, CPSR_MODE_SYSTEM, CPSR_MODE_UNDEFINED, CPSR_MODE_SVR}"
  shows "ram (set_stack m v s) = ram s" "r13 (set_stack m v s) = (r13 s)(m := v)" "mode (set_stack m v s) = m"
    "cpsr (set_stack m v s) = cpsr s AND 0xFFFFFF00 OR m OR 0xC0"
proof -
  have c: "cpsr (set_stack m v s) = cpsr s AND 0xFFFFFF00 OR m OR 0xC0"
    using assms by (auto simp: set_stack_def Let_def cpu_simps msr_cpsr_c_def cpsr_consts)
  have "(c AND 0xFFFFFF00 OR w) AND 0x1F = w AND 0x1F" for c w :: u32
    by (simp add: bit.conj_disj_distrib2 and.assoc)
  then have "bank (cpsr (set_stack m v s)) = m"
    unfolding c using assms by (auto simp: bank_def cpsr_consts or.assoc)
  then show "mode (set_stack m v s) = m" by (simp add: mode_def)
  then show "r13 (set_stack m v s) = (r13 s)(m := v)"
    by (simp add: set_stack_def Let_def cpu_simps msr_cpsr_c_def)
  show "ram (set_stack m v s) = ram s" by (simp add: set_stack_def Let_def cpu_simps msr_cpsr_c_def)
  show "cpsr (set_stack m v s) = cpsr s AND 0xFFFFFF00 OR m OR 0xC0" by (rule c)
qed

text \<open>
  Reset: \<^verbatim>\<open>cstart\<close> is called in supervisor mode with both interrupts masked. The 64 bytes
  at the load address, the vectors and the words they load their targets from, stand at
  address 0. Interrupts, aborts, undefined instructions, system and supervisor mode have
  stacks of their own, one page below each other; the stack of the fast interrupt is not set.
\<close>

theorem vector_reset_correct:
  "(\<forall>j<64. ram (vector_reset s) (of_nat j) = ram s (0x8000 + of_nat j)) \<and>
   r13 (vector_reset s) = (r13 s)(CPSR_MODE_IRQ := 0x8000, CPSR_MODE_ABORT := 0x7000, CPSR_MODE_SYSTEM := 0x6000,
     CPSR_MODE_UNDEFINED := 0x5000, CPSR_MODE_SVR := 0x3FFC) \<and>
   mode (vector_reset s) = CPSR_MODE_SVR \<and> bit (cpsr (vector_reset s)) 7 \<and> bit (cpsr (vector_reset s)) 6 \<and>
   r13 (vector_reset s) CPSR_MODE_FIQ = r13 s CPSR_MODE_FIQ"
proof -
  define s0 where "s0 = set_reg 1 0 (set_reg 0 0x8000 s)"
  define s2 where "s2 = copy_8 (copy_8 s0)"
  have s0: "reg s0 0 = 0x8000" "reg s0 1 = 0" "ram s0 = ram s" "r13 s0 = r13 s" by (simp_all add: s0_def cpu_simps del: One_nat_def)
  let ?m1 = "store_words 0 (load_words 0x8000 8 (ram s)) (ram s)"
  have far: "unat (x - 0x8020) < 32 \<Longrightarrow> 32 \<le> unat x" for x :: u32
  proof -
    assume a: "unat (x - 0x8020) < 32"
    have "x = (x - 0x8020) + 0x8020" by simp
    then have "unat x = unat (x - 0x8020) + 0x8020"
      using a unat_add_no_wrap [of "x - 0x8020" "0x8020"] by simp
    then show ?thesis by simp
  qed
  have "load_words 0x8020 8 ?m1 = load_words 0x8020 8 (ram s)"
    by (rule load_words_cong) (use far in \<open>auto intro!: store_words_outside simp: load_words_def\<close>)
  then have m2: "ram s2 = store_words 32 (load_words 0x8020 8 (ram s)) ?m1"
    by (simp add: s2_def copy_8_result s0 del: One_nat_def)
  have bytes: "ram s2 (of_nat j) = ram s (0x8000 + of_nat j)" if "j < 64" for j
  proof (cases "j < 32")
    case True
    have "32 \<le> unat (of_nat j - 32 :: u32)"
    proof -
      have "unat (of_nat j - 32 :: u32) = 4294967296 + j - 32"
        using True by (simp add: unat_sub_if_size word_size u32_of_nat_unat)
      then show ?thesis by simp
    qed
    then have "ram s2 (of_nat j) = ?m1 (of_nat j)" unfolding m2 by (intro store_words_outside) (simp add: load_words_def)
    then show ?thesis using copied_byte [of j 8 0 "0x8000" "ram s" "ram s"] True by simp
  next
    case False
    define i where "i = j - 32"
    have "i < 32" "j = 32 + i" using that False by (simp_all add: i_def)
    then show ?thesis using copied_byte [of i 8 32 "0x8020" "ram s" ?m1] by (simp add: m2)
  qed
  let ?k = "set_stack CPSR_MODE_UNDEFINED 0x5000 (set_stack CPSR_MODE_SYSTEM 0x6000 (set_stack CPSR_MODE_ABORT 0x7000 (set_stack CPSR_MODE_IRQ 0x8000 s2)))"
  have v: "vector_reset s = set_sp (0x4000 - 4) (set_stack CPSR_MODE_SVR 0x4000 ?k)"
    by (simp add: vector_reset_def Let_def s2_def s0_def sp_def set_stack_result)
  have r: "r13 (vector_reset s) = (r13 s)(CPSR_MODE_IRQ := 0x8000, CPSR_MODE_ABORT := 0x7000, CPSR_MODE_SYSTEM := 0x6000,
     CPSR_MODE_UNDEFINED := 0x5000, CPSR_MODE_SVR := 0x3FFC)"
    by (simp add: v cpu_simps set_stack_result) (simp add: s2_def copy_8_result s0)
  have "ram (vector_reset s) = ram s2" "mode (vector_reset s) = CPSR_MODE_SVR"
    "bit (cpsr (vector_reset s)) 7" "bit (cpsr (vector_reset s)) 6"
    by (simp_all add: v cpu_simps set_stack_result bit_simps)
  with bytes r show ?thesis by (simp add: cpsr_consts)
qed

section \<open>Witnesses\<close>

text \<open>A handler that leaves something else in the registers that it may change.\<close>

definition trash :: "cpu \<Rightarrow> cpu option" where
  "trash s = Some (set_lr 0 (set_reg 12 0 (set_reg 3 9 (set_reg 0 7 (s\<lparr>pc := lr s\<rparr>)))))"

lemma trash_calls: "calls trash"
proof -
  have pc: "pc (set_lr v s) = pc s" "pc (set_reg i v s) = pc s" "mode (s\<lparr>pc := v\<rparr>) = mode s" "reg (s\<lparr>pc := v\<rparr>) i = reg s i" for s i v
    by (simp_all add: set_lr_def set_reg_def mode_def reg_def fiq_banked_def)
  show ?thesis
    unfolding calls_def trash_def aapcs_def
    by (auto simp: pc cpu_simps) (auto simp: set_reg_def fiq_banked_def mode_def)
qed

definition example_cpu :: cpu where
  "example_cpu = \<lparr>rx = (\<lambda>i. of_nat i + 100), rx_fiq = (\<lambda>_. 0), r13 = (\<lambda>m. m * 0x100), r14 = (\<lambda>_. 0x1234), spsr = (\<lambda>_. 0),
     cpsr = 0x13, pc = 0, ram = (\<lambda>_. 0)\<rparr>"


text \<open>\<^verbatim>\<open>r12\<close> is not saved: the interrupted code may find another value there.\<close>

theorem r12_not_saved:
  "map_option (\<lambda>s'. reg s' 12) (vector Data_abort 0xAB 5 trash 0x8080 (take_exception Data_abort 0x100 example_cpu)) = Some 0"
  "reg example_cpu 12 = 112"
  by (simp_all add: vector_data_abort_def trash_def bl_def)
    (simp_all add: reg_def fiq_banked_def mode_def bank_def ldmfd_return_def Let_def set_sp_def set_lr_def set_reg_def
      save_return_def stmfd_def take_exception_def example_cpu_def cpsr_consts)

end
