(* ===== verification/ContextSwitch.thy ===== *)
theory ContextSwitch
  imports TaskTable
begin

text \<open>
  The timer interrupt of \<^verbatim>\<open>kernel/entry.S\<close> as a transition system: the running task computes,
  or the interrupt saves its registers in the task table through \<^verbatim>\<open>task_global.kstack\<close>, calls
  \<^verbatim>\<open>task_schedule\<close> and loads the registers of the task selected. The interrupt's output and
  its write to the timer do not touch this state.
\<close>

section \<open>The interrupt\<close>

record machine =
  m_regs :: task_context
  m_tasks :: tasks

text \<open>The entry of the task table an address points to.\<close>

definition entry_at :: "link_map \<Rightarrow> u32 \<Rightarrow> nat" where
  "entry_at L p = unat ((p - at_task_table L) div sizeof_context)"

definition save_context :: "link_map \<Rightarrow> machine \<Rightarrow> tasks" where
  "save_context L M =
     (let e = entry_at L (g_kstack (task_global (m_tasks M)))
      in (m_tasks M)\<lparr>task_table := (task_table (m_tasks M))[e := m_regs M]\<rparr>)"

text \<open>All registers are loaded back but the saved status register of the mode.\<close>

definition load_context :: "link_map \<Rightarrow> u32 \<Rightarrow> tasks \<Rightarrow> task_context" where
  "load_context L spsr s =
     (task_table s ! entry_at L (g_kstack (task_global s)))\<lparr>cf_spsr := spsr\<rparr>"

definition vector_irq :: "link_map \<Rightarrow> machine \<Rightarrow> machine" where
  "vector_irq L M =
     (let s = task_schedule L (save_context L M)
      in \<lparr>m_regs = load_context L (cf_spsr (m_regs M)) s, m_tasks = s\<rparr>)"

section \<open>Runs\<close>

definition current :: "machine \<Rightarrow> u32" where
  "current M = g_tid (task_global (m_tasks M))"

inductive kstep :: "link_map \<Rightarrow> machine \<Rightarrow> machine \<Rightarrow> bool" for L :: link_map where
  compute: "kstep L M (M\<lparr>m_regs := r\<rparr>)"
| irq: "kstep L M (vector_irq L M)"

inductive_cases kstepE: "kstep L M M'"

text \<open>Runs in which a task never is the current one.\<close>

inductive away :: "link_map \<Rightarrow> u32 \<Rightarrow> machine \<Rightarrow> machine \<Rightarrow> bool" for L :: link_map and t :: u32 where
  away_refl: "current M \<noteq> t \<Longrightarrow> away L t M M"
| away_step: "away L t M M' \<Longrightarrow> kstep L M' M'' \<Longrightarrow> current M'' \<noteq> t \<Longrightarrow> away L t M M''"

definition machine_ok :: "link_map \<Rightarrow> nat \<Rightarrow> machine \<Rightarrow> bool" where
  "machine_ok L n M \<longleftrightarrow> started n (m_tasks M) \<and>
     (\<exists>i<n. current M = of_nat i) \<and>
     g_kstack (task_global (m_tasks M)) = table_entry L (current M)"

lemma entry_at_table_entry:
  assumes "i < 256"
  shows "entry_at L (table_entry L (of_nat i)) = i"
proof -
  have "unat (72 * of_nat i :: u32) = 72 * i"
    using assms by (simp add: unat_word_ariths u32_of_nat_unat)
  then show ?thesis by (simp add: entry_at_def table_entry_def sizeof_context_def unat_div)
qed

lemma machine_ok_current:
  assumes "machine_ok L n M"
  obtains i where "i < n" "i < 256" "current M = of_nat i" "entry_at L (g_kstack (task_global (m_tasks M))) = i"
proof -
  from assms obtain i where i: "i < n" "current M = of_nat i" "n \<le> 256"
      "g_kstack (task_global (m_tasks M)) = table_entry L (current M)"
    by (auto simp: machine_ok_def started_def)
  then show thesis using that [of i] entry_at_table_entry [of i L] by simp
qed

lemma save_context_fields:
  "task_info (save_context L M) = task_info (m_tasks M)" "task_global (save_context L M) = task_global (m_tasks M)"
  "task_table (save_context L M) = (task_table (m_tasks M))[entry_at L (g_kstack (task_global (m_tasks M))) := m_regs M]"
  by (simp_all add: save_context_def Let_def)

lemma vector_irq_result:
  assumes "machine_ok L n M" "i < n" "current M = of_nat i"
  shows "machine_ok L n (vector_irq L M)" "current (vector_irq L M) = of_nat (next_slot n i)" "next_slot n i < n"
    "task_table (m_tasks (vector_irq L M)) = (task_table (m_tasks M))[i := m_regs M]"
    "m_regs (vector_irq L M) = (task_table (m_tasks (vector_irq L M)) ! next_slot n i)\<lparr>cf_spsr := cf_spsr (m_regs M)\<rparr>"
proof -
  let ?s = "save_context L M"
  have n: "n \<le> 256" using assms(1) by (simp add: machine_ok_def started_def)
  have e: "entry_at L (g_kstack (task_global (m_tasks M))) = i"
    using assms n entry_at_table_entry [of i L] by (simp add: machine_ok_def)
  have s: "started n ?s" using assms(1) by (simp add: machine_ok_def started_def save_context_fields)
  have t: "g_tid (task_global ?s) = of_nat i" using assms(3) by (simp add: current_def save_context_fields)
  note sch = started_schedule [OF s assms(2) t]
  show lt: "next_slot n i < n" by (rule sch)
  have m: "m_tasks (vector_irq L M) = task_schedule L ?s" by (simp add: vector_irq_def Let_def)
  show cur: "current (vector_irq L M) = of_nat (next_slot n i)"
    by (simp add: current_def m sch(1))
  show "machine_ok L n (vector_irq L M)"
    unfolding machine_ok_def cur m sch(2) using sch(5) lt by blast
  show "task_table (m_tasks (vector_irq L M)) = (task_table (m_tasks M))[i := m_regs M]"
    by (simp add: m sch(4) save_context_fields e)
  have "entry_at L (g_kstack (task_global (task_schedule L ?s))) = next_slot n i"
    using lt n by (simp add: sch(2) entry_at_table_entry)
  then show "m_regs (vector_irq L M) = (task_table (m_tasks (vector_irq L M)) ! next_slot n i)\<lparr>cf_spsr := cf_spsr (m_regs M)\<rparr>"
    by (simp add: vector_irq_def Let_def load_context_def)
qed

lemma kstep_ok: "kstep L M M' \<Longrightarrow> machine_ok L n M \<Longrightarrow> machine_ok L n M'"
proof (erule kstepE)
  assume ok: "machine_ok L n M" and "M' = vector_irq L M"
  obtain i where "i < n" "current M = of_nat i" using machine_ok_current [OF ok] by blast
  with ok \<open>M' = vector_irq L M\<close> show "machine_ok L n M'" using vector_irq_result(1) by simp
qed (simp add: machine_ok_def current_def)

text \<open>A step writes only the entry of the task that was current.\<close>

lemma kstep_other_context:
  assumes "kstep L M M'" "machine_ok L n M" "current M \<noteq> of_nat t" "t < 256"
  shows "task_table (m_tasks M') ! t = task_table (m_tasks M) ! t"
  using assms(1)
proof (cases rule: kstep.cases)
  case compute
  then show ?thesis by simp
next
  case irq
  obtain i where i: "i < n" "current M = of_nat i" using machine_ok_current [OF assms(2)] by blast
  then have "i \<noteq> t" using assms(3) by auto
  then show ?thesis using irq vector_irq_result(4) [OF assms(2) i] by simp
qed

lemma away_context:
  "away L (of_nat t) M M' \<Longrightarrow> machine_ok L n M \<Longrightarrow> t < 256 \<Longrightarrow>
   machine_ok L n M' \<and> current M' \<noteq> of_nat t \<and> task_table (m_tasks M') ! t = task_table (m_tasks M) ! t"
proof (induction rule: away.induct)
  case (away_step M M' M'')
  then have "machine_ok L n M'" "current M' \<noteq> of_nat t" "task_table (m_tasks M') ! t = task_table (m_tasks M) ! t" by auto
  with away_step kstep_ok kstep_other_context show ?case by metis
qed simp



section \<open>Witnesses\<close>

definition example_machine :: machine where
  "example_machine = \<lparr>m_regs = blank_context\<lparr>cf_r4 := 42, cf_pc := 0xC0009208\<rparr>, m_tasks = many_tasks 1 1\<rparr>"

lemma example_machine_ok: "machine_ok example_link 2 example_machine" "current example_machine = of_nat 1"
proof -
  have "started 2 (many_tasks 1 1)" using many_tasks_started(1) [of 1 1] by (simp add: numeral_2_eq_2)
  moreover have "g_kstack (task_global (many_tasks 1 1)) = table_entry example_link 1" by (simp add: many_tasks_def)
  ultimately show "machine_ok example_link 2 example_machine" "current example_machine = of_nat 1"
    using many_tasks_started(2) [of 1 1]
    by (auto simp: machine_ok_def example_machine_def current_def intro: exI [of _ 1])
qed



end
