(* ===== verification/Tlsf.thy ===== *)
theory Tlsf
  imports Memcpy Memset
begin

text \<open>
  The allocator of the kernel heap, \<^verbatim>\<open>lib/tlsf/tlsf.c\<close> (two-level segregated fit), as it is
  compiled: without locks, statistics, \<^verbatim>\<open>mmap\<close> and \<^verbatim>\<open>sbrk\<close>. Its control structure and the
  headers of the blocks are in the memory that it manages, so that every operation is a
  function of the memory. A block at \<open>b\<close> has the words \<open>prev_hdr\<close>, \<open>size\<close> and, in its
  buffer while it is free, \<open>prev\<close> and \<open>next\<close>.
\<close>

section \<open>Constants and fields\<close>

definition MAX_LOG2_SLI :: int where "MAX_LOG2_SLI = 5"
definition MAX_SLI :: u32 where "MAX_SLI = 32"
definition FLI_OFFSET :: int where "FLI_OFFSET = 6"
definition SMALL_BLOCK :: u32 where "SMALL_BLOCK = 128"
definition REAL_FLI :: int where "REAL_FLI = 24"
definition MIN_BLOCK_SIZE :: u32 where "MIN_BLOCK_SIZE = 8"
definition BHDR_OVERHEAD :: u32 where "BHDR_OVERHEAD = 8"
definition TLSF_SIGNATURE :: u32 where "TLSF_SIGNATURE = 0x2A59FA59"
definition BLOCK_SIZE :: u32 where "BLOCK_SIZE = 0xFFFFFFFC"
definition FREE_BLOCK :: u32 where "FREE_BLOCK = 1"
definition PREV_FREE :: u32 where "PREV_FREE = 2"
definition PREV_STATE :: u32 where "PREV_STATE = 2"
definition MEM_ALIGN :: u32 where "MEM_ALIGN = 7"
definition sizeof_bhdr :: u32 where "sizeof_bhdr = 16"
definition sizeof_tlsf :: u32 where "sizeof_tlsf = 3180"
definition sizeof_area_info :: u32 where "sizeof_area_info = 8"

definition ROUNDUP_SIZE :: "u32 \<Rightarrow> u32" where "ROUNDUP_SIZE r = (r + MEM_ALIGN) AND NOT MEM_ALIGN"
definition ROUNDDOWN_SIZE :: "u32 \<Rightarrow> u32" where "ROUNDDOWN_SIZE r = r AND NOT MEM_ALIGN"

text \<open>The fields of \<^verbatim>\<open>bhdr_t\<close>: \<open>prev_hdr\<close> is at the address of the block itself.\<close>

definition size_of :: "u32 \<Rightarrow> u32" where "size_of b = b + 4"
definition buffer :: "u32 \<Rightarrow> u32" where "buffer b = b + 8"
definition prev_of :: "u32 \<Rightarrow> u32" where "prev_of b = b + 8"
definition next_of :: "u32 \<Rightarrow> u32" where "next_of b = b + 12"

text \<open>The fields of \<^verbatim>\<open>area_info_t\<close> and \<^verbatim>\<open>tlsf_t\<close>.\<close>

definition ai_end :: "u32 \<Rightarrow> u32" where "ai_end a = a"
definition ai_next :: "u32 \<Rightarrow> u32" where "ai_next a = a + 4"
definition area_head :: "u32 \<Rightarrow> u32" where "area_head tp = tp + 4"
definition fl_bitmap :: "u32 \<Rightarrow> u32" where "fl_bitmap tp = tp + 8"
definition sl_bitmap :: "u32 \<Rightarrow> int \<Rightarrow> u32" where "sl_bitmap tp fl = tp + 12 + 4 * word_of_int fl"
definition matrix :: "u32 \<Rightarrow> int \<Rightarrow> int \<Rightarrow> u32" where "matrix tp fl sl = tp + 108 + 4 * word_of_int (32 * fl + sl)"

text \<open>\<open>GET_NEXT_BLOCK(b->ptr.buffer, r)\<close> and \<open>b->size & BLOCK_SIZE\<close>.\<close>

definition GET_NEXT_BLOCK :: "u32 \<Rightarrow> u32 \<Rightarrow> u32" where "GET_NEXT_BLOCK addr r = addr + r"

definition block_size :: "mem \<Rightarrow> u32 \<Rightarrow> u32" where
  "block_size m b = load32 m (size_of b) AND BLOCK_SIZE"

section \<open>Bits\<close>

definition tlsf_table :: "int list" where
  "tlsf_table = [-1, 0] @ replicate 2 1 @ replicate 4 2 @ replicate 8 3 @ replicate 16 4 @ replicate 32 5
     @ replicate 64 6 @ replicate 128 7"

definition byte_shift :: "u32 \<Rightarrow> nat" where
  "byte_shift x = (if x \<le> 0xffff then if x \<le> 0xff then 0 else 8 else if x \<le> 0xffffff then 16 else 24)"

definition ms_bit :: "u32 \<Rightarrow> int" where
  "ms_bit i = (let a = byte_shift i in tlsf_table ! unat (drop_bit a i) + int a)"

definition ls_bit :: "u32 \<Rightarrow> int" where
  "ls_bit i = (let x = i AND - i; a = byte_shift x in tlsf_table ! unat (drop_bit a x) + int a)"

definition set_bit_at :: "int \<Rightarrow> u32 \<Rightarrow> mem \<Rightarrow> mem" where
  "set_bit_at nr addr m =
     (let a = addr + 4 * word_of_int (nr div 32) in store32 a (load32 m a OR push_bit (nat (nr mod 32)) 1) m)"

definition clear_bit_at :: "int \<Rightarrow> u32 \<Rightarrow> mem \<Rightarrow> mem" where
  "clear_bit_at nr addr m =
     (let a = addr + 4 * word_of_int (nr div 32) in store32 a (load32 m a AND NOT (push_bit (nat (nr mod 32)) 1)) m)"

section \<open>Size classes\<close>

definition MAPPING_SEARCH :: "u32 \<Rightarrow> u32 \<times> int \<times> int" where
  "MAPPING_SEARCH r =
     (if r < SMALL_BLOCK then (r, 0, uint (r div (SMALL_BLOCK div MAX_SLI)))
      else
        let t = push_bit (nat (ms_bit r - MAX_LOG2_SLI)) 1 - 1;
            r = r + t;
            fl = ms_bit r;
            sl = uint (drop_bit (nat (fl - MAX_LOG2_SLI)) r - MAX_SLI);
            fl = fl - FLI_OFFSET
        in (r AND NOT t, fl, sl))"

definition MAPPING_INSERT :: "u32 \<Rightarrow> int \<times> int" where
  "MAPPING_INSERT r =
     (if r < SMALL_BLOCK then (0, uint (r div (SMALL_BLOCK div MAX_SLI)))
      else
        let fl = ms_bit r;
            sl = uint (drop_bit (nat (fl - MAX_LOG2_SLI)) r - MAX_SLI)
        in (fl - FLI_OFFSET, sl))"

text \<open>The block found, or 0, and the class it is in.\<close>

definition FIND_SUITABLE_BLOCK :: "u32 \<Rightarrow> int \<Rightarrow> int \<Rightarrow> mem \<Rightarrow> u32 \<times> int \<times> int" where
  "FIND_SUITABLE_BLOCK tp fl sl m =
     (let tmp = load32 m (sl_bitmap tp fl) AND push_bit (nat sl) (- 1) in
      if tmp \<noteq> 0 then
        let sl = ls_bit tmp in (load32 m (matrix tp fl sl), fl, sl)
      else
        let fl = ls_bit (load32 m (fl_bitmap tp) AND push_bit (nat (fl + 1)) (- 1)) in
        if fl > 0 then
          let sl = ls_bit (load32 m (sl_bitmap tp fl)) in (load32 m (matrix tp fl sl), fl, sl)
        else (0, fl, sl))"

section \<open>Free lists\<close>

definition clear_empty :: "u32 \<Rightarrow> int \<Rightarrow> int \<Rightarrow> mem \<Rightarrow> mem" where
  "clear_empty tp fl sl m =
     (let m = clear_bit_at sl (sl_bitmap tp fl) m
      in if load32 m (sl_bitmap tp fl) = 0 then clear_bit_at fl (fl_bitmap tp) m else m)"

definition EXTRACT_BLOCK_HDR :: "u32 \<Rightarrow> u32 \<Rightarrow> int \<Rightarrow> int \<Rightarrow> mem \<Rightarrow> mem" where
  "EXTRACT_BLOCK_HDR b tp fl sl m =
     (let m = store32 (matrix tp fl sl) (load32 m (next_of b)) m;
          m = (if load32 m (matrix tp fl sl) \<noteq> 0 then store32 (prev_of (load32 m (matrix tp fl sl))) 0 m
               else clear_empty tp fl sl m);
          m = store32 (prev_of b) 0 m
      in store32 (next_of b) 0 m)"

definition EXTRACT_BLOCK :: "u32 \<Rightarrow> u32 \<Rightarrow> int \<Rightarrow> int \<Rightarrow> mem \<Rightarrow> mem" where
  "EXTRACT_BLOCK b tp fl sl m =
     (let m = (if load32 m (next_of b) \<noteq> 0 then store32 (prev_of (load32 m (next_of b))) (load32 m (prev_of b)) m else m);
          m = (if load32 m (prev_of b) \<noteq> 0 then store32 (next_of (load32 m (prev_of b))) (load32 m (next_of b)) m else m);
          m = (if load32 m (matrix tp fl sl) = b then
                 let m = store32 (matrix tp fl sl) (load32 m (next_of b)) m
                 in if load32 m (matrix tp fl sl) = 0 then clear_empty tp fl sl m else m
               else m);
          m = store32 (prev_of b) 0 m
      in store32 (next_of b) 0 m)"

definition INSERT_BLOCK :: "u32 \<Rightarrow> u32 \<Rightarrow> int \<Rightarrow> int \<Rightarrow> mem \<Rightarrow> mem" where
  "INSERT_BLOCK b tp fl sl m =
     (let m = store32 (prev_of b) 0 m;
          m = store32 (next_of b) (load32 m (matrix tp fl sl)) m;
          m = (if load32 m (matrix tp fl sl) \<noteq> 0 then store32 (prev_of (load32 m (matrix tp fl sl))) b m else m);
          m = store32 (matrix tp fl sl) b m;
          m = set_bit_at sl (sl_bitmap tp fl) m
      in set_bit_at fl (fl_bitmap tp) m)"

section \<open>Allocation\<close>

definition malloc_ex :: "u32 \<Rightarrow> u32 \<Rightarrow> mem \<Rightarrow> u32 \<times> mem" where
  "malloc_ex sz tp m =
     (let sz = (if sz < MIN_BLOCK_SIZE then MIN_BLOCK_SIZE else ROUNDUP_SIZE sz);
          (sz, fl, sl) = MAPPING_SEARCH sz;
          (b, fl, sl) = FIND_SUITABLE_BLOCK tp fl sl m
      in if b = 0 then (0, m)
         else
           let m = EXTRACT_BLOCK_HDR b tp fl sl m;
               next_b = GET_NEXT_BLOCK (buffer b) (block_size m b);
               tmp_size = block_size m b - sz
           in if tmp_size \<ge> sizeof_bhdr then
                let tmp_size = tmp_size - BHDR_OVERHEAD;
                    b2 = GET_NEXT_BLOCK (buffer b) sz;
                    m = store32 (size_of b2) (tmp_size OR FREE_BLOCK) m;
                    m = store32 next_b b2 m;
                    (fl, sl) = MAPPING_INSERT tmp_size;
                    m = INSERT_BLOCK b2 tp fl sl m;
                    m = store32 (size_of b) (sz OR (load32 m (size_of b) AND PREV_STATE)) m
                in (buffer b, m)
              else
                let m = store32 (size_of next_b) (load32 m (size_of next_b) AND NOT PREV_FREE) m;
                    m = store32 (size_of b) (load32 m (size_of b) AND NOT FREE_BLOCK) m
                in (buffer b, m))"

definition free_ex :: "u32 \<Rightarrow> u32 \<Rightarrow> mem \<Rightarrow> mem" where
  "free_ex ptr tp m =
     (if ptr = 0 then m
      else
        let b = ptr - BHDR_OVERHEAD;
            m = store32 (size_of b) (load32 m (size_of b) OR FREE_BLOCK) m;
            m = store32 (prev_of b) 0 m;
            m = store32 (next_of b) 0 m;
            tmp_b = GET_NEXT_BLOCK (buffer b) (block_size m b);
            m = (if load32 m (size_of tmp_b) AND FREE_BLOCK \<noteq> 0 then
                   let (fl, sl) = MAPPING_INSERT (block_size m tmp_b);
                       m = EXTRACT_BLOCK tmp_b tp fl sl m
                   in store32 (size_of b) (load32 m (size_of b) + (block_size m tmp_b + BHDR_OVERHEAD)) m
                 else m);
            (b, m) = (if load32 m (size_of b) AND PREV_FREE \<noteq> 0 then
                   let tmp_b = load32 m b;
                       (fl, sl) = MAPPING_INSERT (block_size m tmp_b);
                       m = EXTRACT_BLOCK tmp_b tp fl sl m
                   in (tmp_b, store32 (size_of tmp_b) (load32 m (size_of tmp_b) + (block_size m b + BHDR_OVERHEAD)) m)
                 else (b, m));
            (fl, sl) = MAPPING_INSERT (block_size m b);
            m = INSERT_BLOCK b tp fl sl m;
            tmp_b = GET_NEXT_BLOCK (buffer b) (block_size m b);
            m = store32 (size_of tmp_b) (load32 m (size_of tmp_b) OR PREV_FREE) m
        in store32 tmp_b b m)"

text \<open>
  The code that \<open>realloc_ex\<close> has twice: what is left of a block of \<open>tmp_size\<close> bytes behind the
  first \<open>new_size\<close> becomes a free block before \<open>next_b\<close>.
\<close>

definition split_block :: "u32 \<Rightarrow> u32 \<Rightarrow> u32 \<Rightarrow> u32 \<Rightarrow> u32 \<Rightarrow> mem \<Rightarrow> mem" where
  "split_block b next_b tmp_size new_size tp m =
     (if tmp_size \<ge> sizeof_bhdr then
        let tmp_size = tmp_size - BHDR_OVERHEAD;
            tmp_b = GET_NEXT_BLOCK (buffer b) new_size;
            m = store32 (size_of tmp_b) (tmp_size OR FREE_BLOCK) m;
            m = store32 next_b tmp_b m;
            m = store32 (size_of next_b) (load32 m (size_of next_b) OR PREV_FREE) m;
            (fl, sl) = MAPPING_INSERT tmp_size;
            m = INSERT_BLOCK tmp_b tp fl sl m
        in store32 (size_of b) (new_size OR (load32 m (size_of b) AND PREV_STATE)) m
      else m)"

definition realloc_ex :: "u32 \<Rightarrow> u32 \<Rightarrow> u32 \<Rightarrow> mem \<Rightarrow> u32 \<times> mem" where
  "realloc_ex ptr new_size tp m =
     (if ptr = 0 then if new_size \<noteq> 0 then malloc_ex new_size tp m else (0, m)
      else if new_size = 0 then (0, free_ex ptr tp m)
      else
        let b = ptr - BHDR_OVERHEAD;
            next_b = GET_NEXT_BLOCK (buffer b) (block_size m b);
            new_size = (if new_size < MIN_BLOCK_SIZE then MIN_BLOCK_SIZE else ROUNDUP_SIZE new_size);
            tmp_size = block_size m b;
            next_free = (load32 m (size_of next_b) AND FREE_BLOCK \<noteq> 0)
        in if new_size \<le> tmp_size then
             let (tmp_size, next_b, m) =
                   (if next_free then
                      let (fl, sl) = MAPPING_INSERT (block_size m next_b);
                          m = EXTRACT_BLOCK next_b tp fl sl m
                      in (tmp_size + (block_size m next_b + BHDR_OVERHEAD), GET_NEXT_BLOCK (buffer next_b) (block_size m next_b), m)
                    else (tmp_size, next_b, m))
             in (buffer b, split_block b next_b (tmp_size - new_size) new_size tp m)
           else if next_free \<and> new_size \<le> tmp_size + block_size m next_b then
             let (fl, sl) = MAPPING_INSERT (block_size m next_b);
                 m = EXTRACT_BLOCK next_b tp fl sl m;
                 m = store32 (size_of b) (load32 m (size_of b) + (block_size m next_b + BHDR_OVERHEAD)) m;
                 next_b = GET_NEXT_BLOCK (buffer b) (block_size m b);
                 m = store32 next_b b m;
                 m = store32 (size_of next_b) (load32 m (size_of next_b) AND NOT PREV_FREE) m
             in (buffer b, split_block b next_b (block_size m b - new_size) new_size tp m)
           else
             let (ptr_aux, m) = malloc_ex new_size tp m
             in if ptr_aux = 0 then (0, m)
                else
                  let cpsize = (if block_size m b > new_size then new_size else block_size m b);
                      (_, m) = memcpy ptr_aux ptr cpsize m
                  in (ptr_aux, free_ex ptr tp m))"

definition calloc_ex :: "u32 \<Rightarrow> u32 \<Rightarrow> u32 \<Rightarrow> mem \<Rightarrow> u32 \<times> mem" where
  "calloc_ex nelem elem_size tp m =
     (if nelem = 0 \<or> elem_size = 0 then (0, m)
      else
        let (ptr, m) = malloc_ex (nelem * elem_size) tp m
        in if ptr = 0 then (0, m) else (ptr, snd (memset ptr 0 (nelem * elem_size) m)))"

section \<open>Areas\<close>

text \<open>\<open>process_area\<close> returns its first block, which is at the start of the area.\<close>

definition process_area :: "u32 \<Rightarrow> u32 \<Rightarrow> mem \<Rightarrow> mem" where
  "process_area area sz m =
     (let ib = area;
          m = store32 (size_of ib) (if sizeof_area_info < MIN_BLOCK_SIZE then MIN_BLOCK_SIZE else ROUNDUP_SIZE sizeof_area_info) m;
          b = GET_NEXT_BLOCK (buffer ib) (block_size m ib);
          m = store32 (size_of b) (ROUNDDOWN_SIZE (sz - 3 * BHDR_OVERHEAD - block_size m ib)) m;
          m = store32 (next_of b) 0 m;
          m = store32 (prev_of b) 0 m;
          lb = GET_NEXT_BLOCK (buffer b) (block_size m b);
          m = store32 lb b m;
          m = store32 (size_of lb) PREV_FREE m;
          ai = buffer ib;
          m = store32 (ai_next ai) 0 m
      in store32 (ai_end ai) lb m)"

record kheap =
  mp :: u32
  kmem :: mem

definition init_memory_pool :: "u32 \<Rightarrow> u32 \<Rightarrow> kheap \<Rightarrow> u32 \<times> kheap" where
  "init_memory_pool pool_size pool h =
     (if pool = 0 \<or> pool_size = 0 \<or> pool_size < sizeof_tlsf + BHDR_OVERHEAD * 8 then (- 1, h)
      else if pool AND 3 \<noteq> 0 then (- 1, h)
      else if load32 (kmem h) pool = TLSF_SIGNATURE then
        (block_size (kmem h) (GET_NEXT_BLOCK pool (ROUNDUP_SIZE sizeof_tlsf)), h\<lparr>mp := pool\<rparr>)
      else
        let m = snd (memset pool 0 sizeof_tlsf (kmem h));
            m = store32 pool TLSF_SIGNATURE m;
            ib = GET_NEXT_BLOCK pool (ROUNDUP_SIZE sizeof_tlsf);
            m = process_area ib (ROUNDDOWN_SIZE (pool_size - sizeof_tlsf)) m;
            b = GET_NEXT_BLOCK (buffer ib) (block_size m ib);
            m = free_ex (buffer b) pool m;
            m = store32 (area_head pool) (buffer ib) m
        in (block_size m b, \<lparr>mp = pool, kmem = m\<rparr>))"

text \<open>
  The loop of \<open>add_new_area\<close> over the areas: \<open>ib0\<close>, \<open>b0\<close> and \<open>lb0\<close> are the first block, the free
  block and the sentinel of the new area, which grows as it is merged with its neighbours.
\<close>

partial_function (option) merge_areas :: "u32 \<Rightarrow> u32 \<Rightarrow> u32 \<Rightarrow> u32 \<Rightarrow> u32 \<Rightarrow> u32 \<Rightarrow> mem \<Rightarrow> (u32 \<times> u32 \<times> u32 \<times> mem) option" where
  "merge_areas tp ptr ptr_prev ib0 b0 lb0 m =
     (if ptr = 0 then Some (ib0, b0, lb0, m)
      else
        let ib1 = ptr - BHDR_OVERHEAD;
            b1 = GET_NEXT_BLOCK (buffer ib1) (block_size m ib1);
            lb1 = load32 m (ai_end ptr);
            nxt = load32 m (ai_next ptr);
            unlink = (if load32 m (area_head tp) = ptr then store32 (area_head tp) nxt m
                      else store32 (ai_next ptr_prev) nxt m)
        in if ib1 = lb0 + BHDR_OVERHEAD then
             let m = unlink;
                 m = store32 (size_of b0) (ROUNDDOWN_SIZE (block_size m b0 + block_size m ib1 + 2 * BHDR_OVERHEAD)) m;
                 m = store32 b1 b0 m
             in merge_areas tp nxt ptr_prev ib0 b0 lb1 m
           else if buffer lb1 = ib0 then
             let m = unlink;
                 m = store32 (size_of lb1)
                       (ROUNDDOWN_SIZE (block_size m b0 + block_size m ib0 + 2 * BHDR_OVERHEAD)
                        OR (load32 m (size_of lb1) AND PREV_STATE)) m;
                 next_b = GET_NEXT_BLOCK (buffer lb1) (block_size m lb1);
                 m = store32 next_b lb1 m
             in merge_areas tp nxt ptr_prev ib1 lb1 lb0 m
           else merge_areas tp nxt ptr ib0 b0 lb0 m)"

definition add_new_area :: "u32 \<Rightarrow> u32 \<Rightarrow> u32 \<Rightarrow> mem \<Rightarrow> (u32 \<times> mem) option" where
  "add_new_area area area_size tp m =
     (let m = snd (memset area 0 area_size m);
          ptr = load32 m (area_head tp);
          m = process_area area area_size m;
          ib0 = area;
          b0 = GET_NEXT_BLOCK (buffer ib0) (block_size m ib0);
          lb0 = GET_NEXT_BLOCK (buffer b0) (block_size m b0)
      in case merge_areas tp ptr 0 ib0 b0 lb0 m of
           None \<Rightarrow> None
         | Some (ib0, b0, lb0, m) \<Rightarrow>
             let ai = buffer ib0;
                 m = store32 (ai_next ai) (load32 m (area_head tp)) m;
                 m = store32 (ai_end ai) lb0 m;
                 m = store32 (area_head tp) ai m;
                 m = free_ex (buffer b0) tp m
             in Some (block_size m b0, m))"

definition get_used_size :: "u32 \<Rightarrow> u32" where "get_used_size pool = 0"
definition get_max_size :: "u32 \<Rightarrow> u32" where "get_max_size pool = 0"

definition destroy_memory_pool :: "u32 \<Rightarrow> mem \<Rightarrow> mem" where
  "destroy_memory_pool pool m = store32 pool 0 m"

section \<open>The default pool\<close>

definition tlsf_malloc :: "u32 \<Rightarrow> kheap \<Rightarrow> u32 \<times> kheap" where
  "tlsf_malloc sz h = (case malloc_ex sz (mp h) (kmem h) of (p, m) \<Rightarrow> (p, h\<lparr>kmem := m\<rparr>))"

definition tlsf_free :: "u32 \<Rightarrow> kheap \<Rightarrow> kheap" where
  "tlsf_free ptr h = h\<lparr>kmem := free_ex ptr (mp h) (kmem h)\<rparr>"

definition tlsf_realloc :: "u32 \<Rightarrow> u32 \<Rightarrow> kheap \<Rightarrow> u32 \<times> kheap" where
  "tlsf_realloc ptr sz h = (case realloc_ex ptr sz (mp h) (kmem h) of (p, m) \<Rightarrow> (p, h\<lparr>kmem := m\<rparr>))"

definition tlsf_calloc :: "u32 \<Rightarrow> u32 \<Rightarrow> kheap \<Rightarrow> u32 \<times> kheap" where
  "tlsf_calloc nelem elem_size h = (case calloc_ex nelem elem_size (mp h) (kmem h) of (p, m) \<Rightarrow> (p, h\<lparr>kmem := m\<rparr>))"

section \<open>The kernel's interface\<close>

text \<open>\<^verbatim>\<open>kernel/kmalloc.c\<close>. An aligned block has the address of its block in the word before it.\<close>

definition kmalloc :: "u32 \<Rightarrow> kheap \<Rightarrow> u32 \<times> kheap" where "kmalloc bytes h = tlsf_malloc bytes h"
definition krealloc :: "u32 \<Rightarrow> u32 \<Rightarrow> kheap \<Rightarrow> u32 \<times> kheap" where "krealloc oldptr bytes h = tlsf_realloc oldptr bytes h"
definition kfree :: "u32 \<Rightarrow> kheap \<Rightarrow> kheap" where "kfree ptr h = tlsf_free ptr h"

definition aligned_kmalloc :: "u32 \<Rightarrow> u32 \<Rightarrow> kheap \<Rightarrow> u32 \<times> kheap" where
  "aligned_kmalloc bytes align h =
     (case kmalloc (bytes + align - 1 + 4) h of (p, h) \<Rightarrow>
        if p = 0 then (p, h)
        else let ptr = (p + 4 + align - 1) AND NOT (align - 1)
             in (ptr, h\<lparr>kmem := store32 (ptr - 4) p (kmem h)\<rparr>))"

definition aligned_kfree :: "u32 \<Rightarrow> kheap \<Rightarrow> kheap" where
  "aligned_kfree ptr h = kfree (load32 (kmem h) (ptr - 4)) h"

definition init_kmalloc :: "u32 \<Rightarrow> u32 \<Rightarrow> kheap \<Rightarrow> kheap" where
  "init_kmalloc pool bytes h = snd (init_memory_pool bytes pool h)"

end
