(* ===== verification/TlsfClass.thy ===== *)
theory TlsfClass
  imports Tlsf
begin

text \<open>
  The bit searches and the size classes of the allocator: \<open>ms_bit\<close> and \<open>ls_bit\<close> are the
  greatest and the least set bit, \<open>MAPPING_INSERT\<close> finds the class that a block of a size
  belongs to, and \<open>MAPPING_SEARCH\<close> the first class all blocks of which are large enough.
\<close>

section \<open>Bit searches\<close>

lemma tlsf_table_log:
  assumes "0 < n" "n < 256"
  shows "\<exists>k<8. tlsf_table ! n = int k \<and> 2 ^ k \<le> n \<and> n < 2 ^ Suc k"
proof -
  consider "n = 1" | "2 \<le> n" "n < 4" | "4 \<le> n" "n < 8" | "8 \<le> n" "n < 16" | "16 \<le> n" "n < 32" | "32 \<le> n" "n < 64"
    | "64 \<le> n" "n < 128" | "128 \<le> n" "n < 256"
    using assms by linarith
  then show ?thesis
  proof cases
    case 1 then show ?thesis by (intro exI [of _ 0]) (simp add: tlsf_table_def)
  next case 2 then show ?thesis by (intro exI [of _ 1]) (simp add: tlsf_table_def nth_append nth_Cons', presburger?)
  next case 3 then show ?thesis by (intro exI [of _ 2]) (simp add: tlsf_table_def nth_append nth_Cons', presburger?)
  next case 4 then show ?thesis by (intro exI [of _ 3]) (simp add: tlsf_table_def nth_append nth_Cons', presburger?)
  next case 5 then show ?thesis by (intro exI [of _ 4]) (simp add: tlsf_table_def nth_append nth_Cons', presburger?)
  next case 6 then show ?thesis by (intro exI [of _ 5]) (simp add: tlsf_table_def nth_append nth_Cons', presburger?)
  next case 7 then show ?thesis by (intro exI [of _ 6]) (simp add: tlsf_table_def nth_append nth_Cons', presburger?)
  next case 8 then show ?thesis by (intro exI [of _ 7]) (simp add: tlsf_table_def nth_append nth_Cons', presburger?)
  qed
qed

lemma byte_shift_bounds:
  "byte_shift x \<le> 24" "x \<noteq> 0 \<Longrightarrow> 0 < unat x div 2 ^ byte_shift x" "unat x div 2 ^ byte_shift x < 256"
proof -
  have "unat x < 4294967296" by (rule u32_unat_bound)
  moreover have "0 < unat x" if "x \<noteq> 0" using that by (simp add: unat_gt_0)
  ultimately show "byte_shift x \<le> 24" "x \<noteq> 0 \<Longrightarrow> 0 < unat x div 2 ^ byte_shift x" "unat x div 2 ^ byte_shift x < 256"
    by (simp_all add: byte_shift_def word_le_nat_alt div_greater_zero_iff less_mult_imp_div_less)
qed

lemma unat_drop_bit: "unat (drop_bit n (x :: u32)) = unat x div 2 ^ n"
  unfolding unsigned_drop_bit_eq using u32_unat_bound [of x] by (simp add: take_bit_nat_eq_self drop_bit_eq_div)

lemma ms_bit_log:
  assumes "x \<noteq> 0"
  shows "\<exists>k<32. ms_bit x = int k \<and> 2 ^ k \<le> unat x \<and> unat x < 2 ^ Suc k"
proof -
  let ?a = "byte_shift x" let ?n = "unat x div 2 ^ ?a"
  obtain k where k: "k < 8" "tlsf_table ! ?n = int k" "2 ^ k \<le> ?n" "?n < 2 ^ Suc k"
    using tlsf_table_log [OF byte_shift_bounds(2) [OF assms] byte_shift_bounds(3)] by blast
  have "2 ^ (k + ?a) \<le> unat x"
    using k(3) by (simp add: power_add less_eq_div_iff_mult_less_eq)
  moreover have "unat x < 2 ^ Suc (k + ?a)"
    using k(4) by (simp add: power_add div_less_iff_less_mult ac_simps)
  moreover have "ms_bit x = int (k + ?a)" using k(2) by (simp add: ms_bit_def Let_def unat_drop_bit)
  moreover have "k + ?a < 32" using k(1) byte_shift_bounds(1) [of x] by simp
  ultimately show ?thesis by blast
qed

lemma log_unique: "2 ^ j \<le> (n::nat) \<Longrightarrow> n < 2 ^ Suc j \<Longrightarrow> 2 ^ k \<le> n \<Longrightarrow> n < 2 ^ Suc k \<Longrightarrow> j = k"
proof -
  assume "2 ^ j \<le> n" "n < 2 ^ Suc j" "2 ^ k \<le> n" "n < 2 ^ Suc k"
  then have "(2::nat) ^ j < 2 ^ Suc k" "(2::nat) ^ k < 2 ^ Suc j" by linarith+
  then have "j < Suc k" "k < Suc j"
    using power_less_imp_less_exp [of "2::nat" j "Suc k"] power_less_imp_less_exp [of "2::nat" k "Suc j"] by simp_all
  then show ?thesis by simp
qed

lemma ms_bit_eq: "2 ^ k \<le> unat x \<Longrightarrow> unat x < 2 ^ Suc k \<Longrightarrow> ms_bit x = int k"
proof -
  assume k: "2 ^ k \<le> unat x" "unat x < 2 ^ Suc k"
  then have "x \<noteq> 0" by auto
  from ms_bit_log [OF this] obtain j where "ms_bit x = int j" "2 ^ j \<le> unat x" "unat x < 2 ^ Suc j" by blast
  with log_unique [OF this(2,3) k] show ?thesis by simp
qed

text \<open>The least set bit of a word, isolated.\<close>

lemma odd_and_uminus: "odd (y :: u32) \<Longrightarrow> y AND - y = 1"
proof (rule bit_word_eqI)
  fix n :: nat
  assume "odd y" "n < LENGTH(32)"
  have "even (NOT y)" using \<open>odd y\<close> by simp
  then have "NOT y AND 1 = 0" by (simp only: and_one_eq even_iff_mod_2_eq_zero)
  then have "- y = NOT y OR 1" by (simp add: minus_eq_not_plus_1 disjunctive_add_eq_or)
  then have "y AND - y = y AND (NOT y OR 1)" by (simp only:)
  also have "bit \<dots> n = bit (1 :: u32) n"
    using \<open>odd y\<close> by (cases n) (auto simp: bit_and_iff bit_or_iff bit_not_iff bit_0 bit_1_iff even_and_iff even_or_iff)
  finally show "bit (y AND - y) n = bit (1 :: u32) n" .
qed

lemma least_bit:
  assumes "x \<noteq> (0 :: u32)"
  shows "\<exists>k<32. bit x k \<and> (\<forall>j<k. \<not> bit x j) \<and> x AND - x = push_bit k 1"
proof -
  have "\<exists>n. bit x n"
  proof (rule ccontr)
    assume "\<nexists>n. bit x n"
    then have "x = 0" by (intro bit_word_eqI) simp
    with assms show False by simp
  qed
  then obtain n where "bit x n" ..
  define k where "k = (LEAST n. bit x n)"
  have k: "bit x k" "\<forall>j<k. \<not> bit x j"
    unfolding k_def by (rule LeastI [of "bit x", OF \<open>bit x n\<close>]) (blast dest: not_less_Least)
  then have "k < 32" by (auto dest: bit_imp_le_length)
  define y where "y = drop_bit k x"
  have x: "x = push_bit k y"
  proof (rule bit_word_eqI)
    show "bit x n = bit (push_bit k y) n" if "n < LENGTH(32)" for n
      using k(2) that by (cases "k \<le> n") (auto simp: y_def bit_push_bit_iff bit_drop_bit_eq not_le)
  qed
  have "odd y" using k(1) by (simp add: y_def bit_iff_odd drop_bit_eq_div flip: drop_bit_eq_div)
  have "- push_bit k y = push_bit k (- y)" by (simp add: push_bit_eq_mult)
  then have "x AND - x = push_bit k (y AND - y)" unfolding x by (simp only: push_bit_and)
  then show ?thesis using k \<open>k < 32\<close> odd_and_uminus [OF \<open>odd y\<close>] by auto
qed

lemma ls_bit_least:
  assumes "x \<noteq> 0"
  shows "\<exists>k<32. ls_bit x = int k \<and> bit x k \<and> (\<forall>j<k. \<not> bit x j)"
proof -
  obtain k where k: "k < 32" "bit x k" "\<forall>j<k. \<not> bit x j" "x AND - x = push_bit k 1"
    using least_bit [OF assms] by blast
  have "ls_bit x = ms_bit (x AND - x)" by (simp add: ls_bit_def ms_bit_def)
  moreover have "unat (push_bit k (1 :: u32)) = 2 ^ k" using k(1) by (rule unat_push_bit_1)
  ultimately have "ls_bit x = int k" using ms_bit_eq [of k "push_bit k 1"] by (simp add: k(4))
  with k show ?thesis by blast
qed

lemma ls_bit_0 [simp]: "ls_bit 0 = - 1" "ms_bit 0 = - 1"
  by (simp_all add: ls_bit_def ms_bit_def byte_shift_def tlsf_table_def)

section \<open>Classes\<close>

text \<open>The least size of a class; a class ends where the next one begins.\<close>

definition class_low :: "nat \<Rightarrow> nat \<Rightarrow> nat" where
  "class_low fl sl = (if fl = 0 then 4 * sl else (32 + sl) * 2 ^ Suc fl)"

lemma class_low_next: "class_low fl 32 = class_low (Suc fl) 0"
  by (simp add: class_low_def)

lemma class_low_mono_sl: "sl \<le> sl' \<Longrightarrow> class_low fl sl \<le> class_low fl sl'"
  by (simp add: class_low_def)

lemma class_low_mono_fl: "fl < fl' \<Longrightarrow> sl \<le> 32 \<Longrightarrow> class_low fl sl \<le> class_low fl' sl'"
proof -
  assume "fl < fl'" "sl \<le> 32"
  from \<open>fl < fl'\<close> have "class_low (Suc fl) 0 \<le> class_low fl' 0"
  proof -
    have "(2::nat) ^ Suc (Suc fl) \<le> 2 ^ Suc fl'" using \<open>fl < fl'\<close> by (intro power_increasing) simp_all
    then show ?thesis using \<open>fl < fl'\<close> by (simp add: class_low_def)
  qed
  moreover have "class_low fl sl \<le> class_low (Suc fl) 0"
    using class_low_mono_sl [OF \<open>sl \<le> 32\<close>] by (simp add: class_low_next)
  moreover have "class_low fl' 0 \<le> class_low fl' sl'" by (rule class_low_mono_sl) simp
  ultimately show ?thesis by linarith
qed

lemma small_iff: "r < SMALL_BLOCK \<longleftrightarrow> unat r < 128"
  by (simp add: SMALL_BLOCK_def word_less_nat_alt)

lemma small_class: "r < SMALL_BLOCK \<Longrightarrow> uint (r div (SMALL_BLOCK div MAX_SLI)) = int (unat r div 4)"
proof -
  have "SMALL_BLOCK div MAX_SLI = 4" by (simp add: SMALL_BLOCK_def MAX_SLI_def)
  moreover have "uint (r div 4) = int (unat (r div 4))" by simp
  ultimately show ?thesis by (simp only: unat_div) simp
qed

lemma large_log:
  assumes "\<not> r < SMALL_BLOCK"
  obtains k where "7 \<le> k" "k < 32" "ms_bit r = int k" "2 ^ k \<le> unat r" "unat r < 2 ^ Suc k"
proof -
  have r: "128 \<le> unat r" using assms by (simp add: small_iff)
  then have "r \<noteq> 0" by auto
  then obtain k where k: "k < 32" "ms_bit r = int k" "2 ^ k \<le> unat r" "unat r < 2 ^ Suc k" using ms_bit_log by blast
  have "(2::nat) ^ 7 < 2 ^ Suc k" using r k(4) by simp
  then have "7 < Suc k" by (rule power_less_imp_less_exp [rotated]) simp
  with k that show thesis by simp
qed

text \<open>The second index of a large size, from its greatest bit.\<close>

lemma second_index:
  assumes "5 \<le> k" "2 ^ k \<le> unat r" "unat r < 2 ^ Suc k"
  shows "uint (drop_bit (k - 5) r - MAX_SLI) = int (unat r div 2 ^ (k - 5) - 32)"
    "32 \<le> unat r div 2 ^ (k - 5)" "unat r div 2 ^ (k - 5) < 64"
proof -
  have p: "(2::nat) ^ k = 32 * 2 ^ (k - 5)" "(2::nat) ^ Suc k = 64 * 2 ^ (k - 5)"
  proof -
    have "(2::nat) ^ (5 + (k - 5)) = 32 * 2 ^ (k - 5)" unfolding power_add by simp
    then show "(2::nat) ^ k = 32 * 2 ^ (k - 5)" using assms(1) by simp
    then show "(2::nat) ^ Suc k = 64 * 2 ^ (k - 5)" by simp
  qed
  show b: "32 \<le> unat r div 2 ^ (k - 5)"
    using div_le_mono [OF assms(2), of "2 ^ (k - 5)"] by (simp add: p(1))
  show "unat r div 2 ^ (k - 5) < 64" using assms(3) unfolding p(2) by (rule less_mult_imp_div_less)
  have "MAX_SLI \<le> drop_bit (k - 5) r" using b by (simp add: word_le_nat_alt unat_drop_bit MAX_SLI_def)
  then have "unat (drop_bit (k - 5) r - MAX_SLI) = unat r div 2 ^ (k - 5) - 32"
    by (simp add: unat_sub_no_wrap unat_drop_bit) (simp add: MAX_SLI_def)
  then show "uint (drop_bit (k - 5) r - MAX_SLI) = int (unat r div 2 ^ (k - 5) - 32)"
    by (metis uint_nat)
qed

lemma MAPPING_INSERT_class:
  obtains fl sl where "MAPPING_INSERT r = (int fl, int sl)" "fl < 26" "sl < 32"
    "class_low fl sl \<le> unat r" "unat r < class_low fl (Suc sl)"
proof (cases "r < SMALL_BLOCK")
  case True
  then have "MAPPING_INSERT r = (int 0, int (unat r div 4))" by (simp add: MAPPING_INSERT_def small_class)
  moreover have "unat r div 4 < 32" using True by (simp add: small_iff less_mult_imp_div_less)
  ultimately show thesis using that [of 0 "unat r div 4"] by (simp add: class_low_def)
next
  case False
  from large_log [OF this] obtain k where k: "7 \<le> k" "k < 32" "ms_bit r = int k" "2 ^ k \<le> unat r" "unat r < 2 ^ Suc k" by blast
  let ?q = "unat r div 2 ^ (k - 5)"
  have i: "uint (drop_bit (k - 5) r - MAX_SLI) = int (?q - 32)" "32 \<le> ?q" "?q < 64"
    using second_index [OF _ k(4,5)] k(1) by simp_all
  have nat5: "nat (int k - MAX_LOG2_SLI) = k - 5" "int k - FLI_OFFSET = int (k - 6)"
    using k(1) by (simp_all add: MAX_LOG2_SLI_def FLI_OFFSET_def)
  have "MAPPING_INSERT r = (int (k - 6), int (?q - 32))"
    using False by (simp add: MAPPING_INSERT_def k(3) nat5 i(1) Let_def)
  moreover have e: "Suc (k - 6) = k - 5" using k(1) by simp
  have "class_low (k - 6) sl = (32 + sl) * 2 ^ (k - 5)" for sl
    unfolding class_low_def e using k(1) by simp
  then have "class_low (k - 6) (?q - 32) \<le> unat r" "unat r < class_low (k - 6) (Suc (?q - 32))"
    using i(2) div_times_less_eq_dividend [of "unat r" "2 ^ (k - 5)"] dividend_less_div_times [of "2 ^ (k - 5)" "unat r"]
    by simp_all
  ultimately show thesis using that [of "k - 6" "?q - 32"] k(2) i(3) by simp
qed

lemma and_not_mask: "unat (x AND NOT (push_bit n 1 - 1) :: u32) = unat x div 2 ^ n * 2 ^ n" if "n < 32"
proof -
  have m: "push_bit n 1 - 1 = (mask n :: u32)" by (simp add: mask_eq_exp_minus_1 push_bit_eq_mult)
  have "x AND mask n = take_bit n x" by (simp add: take_bit_eq_mask)
  then have u: "unat (x AND mask n) = unat x mod 2 ^ n"
    by (simp only: unsigned_take_bit_eq take_bit_eq_mod [where ?'a = nat])
  have "unat (x AND NOT (mask n)) = unat x - unat (x AND mask n)"
    unfolding and_not_mask_sub using u by (intro unat_sub_no_wrap) (simp add: word_le_nat_alt)
  then show ?thesis unfolding m by (simp add: u minus_mod_eq_div_mult)
qed

text \<open>
  The search class for a size: its least size is the size rounded up to a multiple of a
  thirty-second of its leading power of two. Above \<open>0xFC000000\<close> the sum wraps.
\<close>

lemma MAPPING_SEARCH_class:
  assumes "4 dvd unat r" "unat r \<le> 0xFC000000"
  obtains r' fl sl where "MAPPING_SEARCH r = (r', int fl, int sl)" "fl < 26" "sl < 32" "class_low fl sl = unat r'"
    "unat r \<le> unat r'" "32 * (unat r' - unat r) \<le> unat r" "8 dvd unat r \<Longrightarrow> 8 dvd unat r'"
proof (cases "r < SMALL_BLOCK")
  case True
  then have "MAPPING_SEARCH r = (r, int 0, int (unat r div 4))" by (simp add: MAPPING_SEARCH_def small_class)
  moreover have "unat r div 4 < 32" using True by (simp add: small_iff less_mult_imp_div_less)
  ultimately show thesis using that [of r 0 "unat r div 4"] assms(1) by (simp add: class_low_def)
next
  case False
  from large_log [OF this] obtain k where k: "7 \<le> k" "k < 32" "ms_bit r = int k" "2 ^ k \<le> unat r" "unat r < 2 ^ Suc k" by blast
  let ?n = "k - 5" let ?p = "(2::nat) ^ ?n"
  define t where "t = (push_bit ?n 1 - 1 :: u32)"
  have p: "(2::nat) ^ k = 32 * ?p" "0 < ?p"
  proof -
    have "(2::nat) ^ (5 + ?n) = 32 * ?p" unfolding power_add by simp
    then show "(2::nat) ^ k = 32 * ?p" using k(1) by simp
  qed simp
  have t: "unat t = ?p - 1"
  proof -
    have "unat (push_bit ?n 1 :: u32) = ?p" using k(2) by (intro unat_push_bit_1) simp
    then show ?thesis using p(2) by (simp only: t_def) (simp add: unat_minus_one unat_eq_zero [symmetric])
  qed
  have room: "unat r + (?p - 1) < 4294967296"
  proof (cases "k = 31")
    case True
    then have "?p = 67108864" by simp
    then show ?thesis using assms(2) by simp
  next
    case False
    then have "Suc k \<le> 31" using k(2) by simp
    then have "(2::nat) ^ Suc k \<le> 2 ^ 31" by (intro power_increasing) simp_all
    then have "(2::nat) ^ Suc k \<le> 2147483648" by simp
    moreover have "?p \<le> 2 ^ Suc k" unfolding power_Suc p(1) by linarith
    ultimately show ?thesis using k(5) by linarith
  qed
  define r2 where "r2 = r + t"
  have r2: "unat r2 = unat r + (?p - 1)" using room t by (simp add: r2_def unat_add_no_wrap)
  define r' where "r' = r2 AND NOT t"
  have r': "unat r' = unat r2 div ?p * ?p" unfolding r'_def t_def using k(2) by (intro and_not_mask) simp
  have up: "unat r \<le> unat r'" "unat r' < unat r + ?p"
    using r2 r' p(2) div_mult_mod_eq [of "unat r2" ?p] mod_less_divisor [of ?p "unat r2"] by linarith+
  have dvd8: "8 dvd unat r'" if "8 dvd unat r"
  proof (cases "k = 7")
    case True
    then have "?p = 4" by simp
    moreover from that obtain c where c: "unat r = 8 * c" by (auto simp: dvd_def)
    have "(8 * c + 3) div 4 * 4 = 8 * c" by presburger
    ultimately show ?thesis using r' r2 c by simp
  next
    case False
    then have "3 \<le> ?n" using k(1) by simp
    then have "(2::nat) ^ 3 dvd ?p" by (rule le_imp_power_dvd)
    then show ?thesis unfolding r' by simp
  qed
  have nat5: "nat (int j - MAX_LOG2_SLI) = j - 5" "7 \<le> j \<Longrightarrow> int j - FLI_OFFSET = int (j - 6)" for j
    by (simp_all add: MAX_LOG2_SLI_def FLI_OFFSET_def)
  obtain j where j: "j = k \<or> j = Suc k" "2 ^ j \<le> unat r2" "unat r2 < 2 ^ Suc j" "unat r2 div 2 ^ (j - 5) * 2 ^ (j - 5) = unat r'"
  proof (cases "unat r2 < 2 ^ Suc k")
    case True
    moreover have "2 ^ k \<le> unat r2" using k(4) r2 by linarith
    ultimately show thesis using that [of k] r' by metis
  next
    case False
    then have b: "2 ^ Suc k \<le> unat r2" "unat r2 < 2 ^ Suc k + ?p" using r2 k(5) p(2) by simp_all
    have two: "(2::nat) ^ Suc k = 64 * ?p" "(2::nat) ^ (Suc k - 5) = 2 * ?p" "(2::nat) ^ Suc (Suc k) = 128 * ?p"
    proof -
      have "Suc k - 5 = Suc (k - 5)" using k(1) by simp
      then show "(2::nat) ^ (Suc k - 5) = 2 * ?p" by (simp only: power_Suc)
      show "(2::nat) ^ Suc k = 64 * ?p" unfolding power_Suc p(1) by simp
      show "(2::nat) ^ Suc (Suc k) = 128 * ?p" unfolding power_Suc p(1) by simp
    qed
    have "unat r2 div ?p = 64" using b unfolding two(1)
      by (intro div_nat_eqI) (simp_all add: mult.commute)
    moreover have "unat r2 div (2 * ?p) = 32" using b unfolding two(1)
      by (intro div_nat_eqI) (simp_all add: mult.commute)
    ultimately show thesis using that [of "Suc k"] b r' unfolding two by simp
  qed
  have j7: "7 \<le> j" "j < 33" using j(1) k(1,2) by auto
  let ?q = "unat r2 div 2 ^ (j - 5)"
  have "j < 32"
  proof -
    have "(2::nat) ^ j < 2 ^ 32" using j(2) u32_unat_bound [of r2] by simp
    then show ?thesis by (rule power_less_imp_less_exp [rotated]) simp
  qed
  have i: "uint (drop_bit (j - 5) r2 - MAX_SLI) = int (?q - 32)" "32 \<le> ?q" "?q < 64"
    using second_index [OF _ j(2,3)] j7(1) by simp_all
  have "MAPPING_SEARCH r = (r', int (j - 6), int (?q - 32))"
  proof -
    have "MAPPING_SEARCH r = (r', ms_bit r2 - FLI_OFFSET, uint (drop_bit (nat (ms_bit r2 - MAX_LOG2_SLI)) r2 - MAX_SLI))"
      using False by (simp only: MAPPING_SEARCH_def k(3) nat5(1) Let_def if_False t_def r2_def r'_def)
    then show ?thesis using ms_bit_eq [OF j(2,3)] j7(1) by (simp add: nat5 i(1))
  qed
  moreover have e: "Suc (j - 6) = j - 5" using j7(1) by simp
  have "class_low (j - 6) (?q - 32) = unat r'"
    unfolding class_low_def e using j7(1) i(2) j(4) by simp
  moreover have "32 * (unat r' - unat r) \<le> unat r" using up k(4) p(1) by linarith
  ultimately show thesis using that [of r' "j - 6" "?q - 32"] \<open>j < 32\<close> i(3) up(1) dvd8 by simp
qed

section \<open>The bit searches and the classes against their references\<close>

lemma bit_of_log:
  assumes "2 ^ k \<le> unat (x :: u32)" "unat x < 2 ^ Suc k"
  shows "bit x k" "bit x j \<Longrightarrow> j \<le> k"
proof -
  have "unat x div 2 ^ k = 1" using assms by (intro div_nat_eqI) simp_all
  then show "bit x k" by (simp add: bit_of_unat)
  assume j: "bit x j"
  show "j \<le> k"
  proof (rule ccontr)
    assume "\<not> j \<le> k"
    then have "(2::nat) ^ Suc k \<le> 2 ^ j" by (intro power_increasing) simp_all
    then have "unat x div 2 ^ j = 0" using assms(2) by simp
    with j show False by (simp add: bit_of_unat)
  qed
qed

lemma finite_bits: "finite {k. bit (x :: u32) k}"
  by (rule finite_subset [of _ "{..<32}"]) (auto dest: bit_imp_le_length)

text \<open>
  The table-driven bit searches compute what they stand for: \<open>ms_bit\<close> is the position
  of the greatest set bit of a word, \<open>ls_bit\<close> that of the least one, and both are -1 for 0.
\<close>

theorem bit_searches_correct:
  "ms_bit x = (if x = 0 then - 1 else int (Max {k. bit x k})) \<and>
   ls_bit x = (if x = 0 then - 1 else int (Min {k. bit x k}))"
proof (cases "x = 0")
  case False
  obtain k where k: "ms_bit x = int k" "2 ^ k \<le> unat x" "unat x < 2 ^ Suc k" using ms_bit_log [OF False] by blast
  then have "Max {k. bit x k} = k" using bit_of_log [OF k(2,3)] by (intro Max_eqI finite_bits) auto
  moreover obtain l where l: "ls_bit x = int l" "bit x l" "\<forall>j<l. \<not> bit x j" using ls_bit_least [OF False] by blast
  then have "Min {k. bit x k} = l" by (intro Min_eqI finite_bits) (auto simp: not_less [symmetric])
  ultimately show ?thesis using False k(1) l(1) by simp
qed simp

text \<open>The search class of a request against the class of a block, by the sizes.\<close>

lemma search_insert_order:
  assumes "4 dvd unat r" "r \<le> 0xFC000000"
    "MAPPING_SEARCH r = (r', fl, sl)" "MAPPING_INSERT s = (fl', sl')"
  shows "r \<le> r' \<and> 32 * (unat r' - unat r) \<le> unat r \<and> (r' \<le> s \<longleftrightarrow> fl < fl' \<or> fl = fl' \<and> sl \<le> sl')"
proof -
  from assms(2) have "unat r \<le> 0xFC000000" by (simp add: word_le_nat_alt)
  from MAPPING_SEARCH_class [OF assms(1) this] obtain r2 f1 s1 where
    1: "MAPPING_SEARCH r = (r2, int f1, int s1)" "s1 < 32" "class_low f1 s1 = unat r2"
    "unat r \<le> unat r2" "32 * (unat r2 - unat r) \<le> unat r" by metis
  obtain f2 s2 where 2: "MAPPING_INSERT s = (int f2, int s2)" "s2 < 32"
    "class_low f2 s2 \<le> unat s" "unat s < class_low f2 (Suc s2)" using MAPPING_INSERT_class [of s] by metis
  have eqs: "r' = r2" "fl = int f1" "sl = int s1" "fl' = int f2" "sl' = int s2"
    using assms(3,4) 1(1) 2(1) by simp_all
  have up: "class_low f1 s1 \<le> class_low f2 s2" if "f1 < f2 \<or> f1 = f2 \<and> s1 \<le> s2"
    using that class_low_mono_fl [of f1 f2 s1 s2] class_low_mono_sl [of s1 s2 f1] 1(2) by auto
  have down: "class_low f2 (Suc s2) \<le> class_low f1 s1" if "\<not> (f1 < f2 \<or> f1 = f2 \<and> s1 \<le> s2)"
    using that class_low_mono_fl [of f2 f1 "Suc s2" s1] class_low_mono_sl [of "Suc s2" s1 f2] 2(2)
    by (cases "f1 = f2") auto
  have "r' \<le> s \<longleftrightarrow> class_low f1 s1 \<le> unat s" using 1(3) by (simp add: eqs word_le_nat_alt)
  also have "\<dots> \<longleftrightarrow> f1 < f2 \<or> f1 = f2 \<and> s1 \<le> s2"
    using up down 2(3,4) by (meson leD le_trans order_less_le_trans)
  finally show ?thesis using 1(4,5) by (simp add: eqs word_le_nat_alt)
qed

text \<open>
  C39. Good fit: the class that \<open>MAPPING_SEARCH\<close> finds for a request \<open>r\<close> is the first one,
  in the order of the lists, all blocks of which have at least the rounded size \<open>r'\<close>;
  a block of \<open>s\<close> bytes is in this class or a later one exactly if \<open>r' \<le> s\<close>, and rounding
  costs at most a thirty-second of the request. Requests above \<open>0xFC000000\<close> are excluded,
  since the rounding wraps for them.
\<close>

theorem mapping_good_fit:
  assumes "4 dvd unat r" "r \<le> 0xFC000000"
    "MAPPING_SEARCH r = (r', fl, sl)" "MAPPING_INSERT s = (fl', sl')"
  shows "r \<le> r' \<and> 32 * (unat r' - unat r) \<le> unat r \<and> (r' \<le> s \<longleftrightarrow> fl < fl' \<or> fl = fl' \<and> sl \<le> sl')"
  by (rule search_insert_order [OF assms])

theorem mapping_good_fit_witness:
  "MAPPING_SEARCH 1000 = (1008, 3, 31) \<and> MAPPING_INSERT 1024 = (4, 0) \<and> (1008::u32) \<le> 1024"
proof -
  have s: "MAPPING_SEARCH 1000 = (1008, 3, 31)"
    by (simp add: MAPPING_SEARCH_def SMALL_BLOCK_def ms_bit_eq [of 9] MAX_LOG2_SLI_def FLI_OFFSET_def MAX_SLI_def drop_bit_eq_div Let_def)
  moreover have i: "MAPPING_INSERT 1024 = (4, 0)"
    by (simp add: MAPPING_INSERT_def SMALL_BLOCK_def ms_bit_eq [of 10] MAX_LOG2_SLI_def FLI_OFFSET_def MAX_SLI_def drop_bit_eq_div Let_def)
  ultimately show ?thesis using mapping_good_fit [OF _ _ s i] by (simp add: dvd_def)
qed

end
