(* ===== verification/TlsfWords.thy ===== *)
theory TlsfWords
  imports TlsfClass
begin

text \<open>
  The memory of the allocator as an array of 32-bit words. Every access of the allocator is
  to an aligned word, so that a store to memory is an update of this array, and the address
  arithmetic of the fields is addition of natural numbers.
\<close>

section \<open>Word arrays\<close>

definition at_word :: "nat \<Rightarrow> bool" where
  "at_word q \<longleftrightarrow> 4 dvd q \<and> q < 4294967296"

definition words :: "mem \<Rightarrow> nat \<Rightarrow> u32" where
  "words m q = (if at_word q then load32 m (of_nat q) else 0)"

lemma load32_words: "at_word q \<Longrightarrow> load32 m (of_nat q) = words m q"
  by (simp add: words_def)

lemma of_nat_u32_inj: "p < 4294967296 \<Longrightarrow> q < 4294967296 \<Longrightarrow> (of_nat p :: u32) = of_nat q \<longleftrightarrow> p = q"
  by (metis u32_of_nat_unat)

lemma of_nat_u32_0: "q < 4294967296 \<Longrightarrow> (of_nat q :: u32) = 0 \<longleftrightarrow> q = 0"
  using of_nat_u32_inj [of q 0] by simp

lemma words_store32: "at_word q \<Longrightarrow> words (store32 (of_nat q) v m) = (words m)(q := v)"
proof
  fix x
  assume q: "at_word q"
  have al: "aligned4 (of_nat y)" if "at_word y" for y
    using that by (auto simp: at_word_def aligned4_def u32_of_nat_unat)
  show "words (store32 (of_nat q) v m) x = ((words m)(q := v)) x"
    using q al by (auto simp: words_def load32_store32_aligned at_word_def of_nat_u32_inj)
qed

text \<open>Bytes that no store touches.\<close>

lemma store32_other_byte:
  assumes "at_word q" "unat x < q \<or> q + 4 \<le> unat x"
  shows "store32 (of_nat q) v m x = m x"
proof (rule store32_outside, rule notI)
  assume "x \<in> word_at (of_nat q)"
  moreover have "unat (of_nat q :: u32) + 4 \<le> 4294967296"
    using assms(1) by (auto simp: at_word_def u32_of_nat_unat dvd_def)
  ultimately show False using word_at_bounds [of x "of_nat q"] assms by (simp add: at_word_def u32_of_nat_unat)
qed

section \<open>Fields\<close>

lemma of_nat_fields:
  "size_of (of_nat q) = of_nat (q + 4)" "buffer (of_nat q) = of_nat (q + 8)"
  "prev_of (of_nat q) = of_nat (q + 8)" "next_of (of_nat q) = of_nat (q + 12)"
  "fl_bitmap (of_nat t) = of_nat (t + 8)" "area_head (of_nat t) = of_nat (t + 4)"
  "sl_bitmap (of_nat t) (int fl) = of_nat (t + 12 + 4 * fl)"
  "matrix (of_nat t) (int fl) (int sl) = of_nat (t + 108 + 4 * (32 * fl + sl))"
  "GET_NEXT_BLOCK (of_nat q) (of_nat n) = of_nat (q + n)"
  by (simp_all add: size_of_def buffer_def prev_of_def next_of_def fl_bitmap_def area_head_def sl_bitmap_def
      matrix_def GET_NEXT_BLOCK_def)

text \<open>Addresses of blocks behind the control structure of a pool at \<open>t\<close>.\<close>

definition node :: "nat \<Rightarrow> nat \<Rightarrow> bool" where
  "node t b \<longleftrightarrow> 4 dvd t \<and> t + 3184 \<le> b \<and> b + 16 \<le> 4294967296 \<and> b mod 8 = t mod 8"

lemma dvd4_add: "4 dvd (q::nat) \<Longrightarrow> 4 dvd q + 4" "4 dvd q \<Longrightarrow> 4 dvd q + 8" "4 dvd q \<Longrightarrow> 4 dvd q + 12"
  "4 dvd q \<Longrightarrow> 4 dvd q + 12 + 4 * i" "4 dvd q \<Longrightarrow> 4 dvd q + 108 + 4 * i"
  by (intro dvd_add; simp)+

lemma node_dvd: "node t b \<Longrightarrow> 4 dvd b"
proof -
  assume "node t b"
  then have "t mod 4 = 0" "b mod 8 = t mod 8" by (simp_all add: node_def dvd_eq_mod_eq_0)
  moreover have "x mod 4 = x mod 8 mod 4" for x :: nat by (rule mod_mod_cancel [symmetric]) simp
  ultimately show "4 dvd b" unfolding dvd_eq_mod_eq_0 by metis
qed

lemma node_words:
  assumes "node t b"
  shows "at_word b" "at_word (b + 4)" "at_word (b + 8)" "at_word (b + 12)"
proof -
  have d: "4 dvd b" using assms by (rule node_dvd)
  have "b < 4294967296" "b + 4 < 4294967296" "b + 8 < 4294967296" "b + 12 < 4294967296"
    using assms by (simp_all add: node_def)
  with d dvd4_add(1-3) [OF d] show "at_word b" "at_word (b + 4)" "at_word (b + 8)" "at_word (b + 12)"
    unfolding at_word_def by blast+
qed

lemma node_fields_distinct:
  assumes "node t b" "node t c"
  shows "b + 8 \<noteq> c + 12" "b + 12 \<noteq> c + 8" "b + 4 \<noteq> c" "b \<noteq> c + 4" "b + 4 \<noteq> c + 8" "b + 8 \<noteq> c + 4" "b \<noteq> c + 12" "b + 12 \<noteq> c"
proof -
  have off: "x + 4 \<noteq> y" "x + 12 \<noteq> y" if "x mod 8 = y mod 8" for x y :: nat
  proof -
    have "(x + 4) mod 8 \<noteq> x mod 8" "(x + 12) mod 8 \<noteq> x mod 8" by (simp_all add: mod_eq_dvd_iff_nat)
    with that show "x + 4 \<noteq> y" "x + 12 \<noteq> y" by auto
  qed
  have "b mod 8 = c mod 8" "c mod 8 = b mod 8" using assms by (simp_all add: node_def)
  then show "b + 8 \<noteq> c + 12" "b + 12 \<noteq> c + 8" "b + 4 \<noteq> c" "b \<noteq> c + 4" "b + 4 \<noteq> c + 8" "b + 8 \<noteq> c + 4" "b \<noteq> c + 12" "b + 12 \<noteq> c"
    using off [of b c] off [of c b] by auto
qed

lemma control_words:
  assumes "4 dvd t" "t + 3184 < 4294967296"
  shows "at_word (t + 8)" "fl < 24 \<Longrightarrow> at_word (t + 12 + 4 * fl)"
    "fl < 24 \<Longrightarrow> sl < 32 \<Longrightarrow> at_word (t + 108 + 4 * (32 * fl + sl))"
proof -
  note d = dvd4_add(2,4,5) [OF assms(1)]
  show "at_word (t + 8)" using d(1) assms(2) by (simp add: at_word_def)
  show "at_word (t + 12 + 4 * fl)" if "fl < 24"
  proof -
    have "t + 12 + 4 * fl < 4294967296" using that assms(2) by linarith
    with d(2) show ?thesis by (simp only: at_word_def)
  qed
  show "at_word (t + 108 + 4 * (32 * fl + sl))" if "fl < 24" "sl < 32"
  proof -
    from that have "fl \<le> 23" "sl \<le> 31" by simp_all
    then have "4 * (32 * fl + sl) \<le> 3068" by simp
    then have "t + 108 + 4 * (32 * fl + sl) < 4294967296" using assms(2) by linarith
    with d(3) show ?thesis by (simp only: at_word_def)
  qed
qed

lemma matrix_index_inj:
  assumes "sl < 32" "sl' < 32"
  shows "32 * fl + sl = 32 * fl' + (sl' :: nat) \<longleftrightarrow> fl = fl' \<and> sl = sl'"
proof -
  have "(32 * fl + sl) div 32 = fl" "(32 * fl' + sl') div 32 = fl'" using assms by simp_all
  then show ?thesis by (metis add_left_cancel)
qed

section \<open>The operations on the array\<close>

text \<open>A bit number below 32 is in the first word.\<close>

lemma words_set_bit_at:
  "at_word q \<Longrightarrow> n < 32 \<Longrightarrow>
   words (set_bit_at (int n) (of_nat q) m) = (words m)(q := words m q OR push_bit n 1)"
  by (simp add: set_bit_at_def Let_def words_store32 load32_words)

lemma words_clear_bit_at:
  "at_word q \<Longrightarrow> n < 32 \<Longrightarrow>
   words (clear_bit_at (int n) (of_nat q) m) = (words m)(q := words m q AND NOT (push_bit n 1))"
  by (simp add: clear_bit_at_def Let_def words_store32 load32_words)

end
