(* ===== verification/TlsfLists.thy ===== *)
theory TlsfLists
  imports TlsfWords
begin

text \<open>
  The free lists of the allocator. There is a doubly linked list of free blocks for every
  size class, and two levels of bitmaps say which lists are not empty. The three list macros
  are shown to be insertion and removal on these lists, and \<open>FIND_SUITABLE_BLOCK\<close> to find the
  first block of the first list that is not empty, from a given class on.
\<close>

declare split_paired_All [simp del] split_paired_Ex [simp del]

section \<open>Doubly linked lists\<close>

text \<open>
  A segment from the pointer \<open>h\<close> to the pointer \<open>h'\<close>; the block before it is \<open>p\<close> and its last
  block is \<open>p'\<close>.
\<close>

primrec dseg :: "(nat \<Rightarrow> u32) \<Rightarrow> u32 \<Rightarrow> u32 \<Rightarrow> nat list \<Rightarrow> u32 \<Rightarrow> u32 \<Rightarrow> bool" where
  "dseg w h p [] h' p' \<longleftrightarrow> h = h' \<and> p = p'"
| "dseg w h p (b # bs) h' p' \<longleftrightarrow> h = of_nat b \<and> w (b + 8) = p \<and> dseg w (w (b + 12)) (of_nat b) bs h' p'"

definition dlist :: "(nat \<Rightarrow> u32) \<Rightarrow> u32 \<Rightarrow> u32 \<Rightarrow> nat list \<Rightarrow> bool" where
  "dlist w h p bs \<longleftrightarrow> (\<exists>p'. dseg w h p bs 0 p')"

lemma dlist_Nil [simp]: "dlist w h p [] \<longleftrightarrow> h = 0"
  by (simp add: dlist_def)

lemma dlist_Cons [simp]: "dlist w h p (b # bs) \<longleftrightarrow> h = of_nat b \<and> w (b + 8) = p \<and> dlist w (w (b + 12)) (of_nat b) bs"
  by (simp add: dlist_def)

lemma dseg_append: "dseg w h p (us @ vs) h' p' \<longleftrightarrow> (\<exists>k q. dseg w h p us k q \<and> dseg w k q vs h' p')"
  by (induction us arbitrary: h p) auto

lemma dlist_append: "dlist w h p (us @ vs) \<longleftrightarrow> (\<exists>k q. dseg w h p us k q \<and> dlist w k q vs)"
  by (auto simp: dlist_def dseg_append)

lemma dseg_cong:
  "(\<And>b. b \<in> set bs \<Longrightarrow> w (b + 8) = v (b + 8) \<and> w (b + 12) = v (b + 12)) \<Longrightarrow> dseg w h p bs h' p' \<longleftrightarrow> dseg v h p bs h' p'"
  by (induction bs arbitrary: h p) auto

lemma dlist_cong:
  "(\<And>b. b \<in> set bs \<Longrightarrow> w (b + 8) = v (b + 8) \<and> w (b + 12) = v (b + 12)) \<Longrightarrow> dlist w h p bs \<longleftrightarrow> dlist v h p bs"
  by (simp add: dlist_def dseg_cong [of bs w v])

lemma dlist_head: "dlist w h p bs \<Longrightarrow> h = (if bs = [] then 0 else of_nat (hd bs))"
  by (cases bs) auto

lemma dseg_last: "dseg w h p us h' p' \<Longrightarrow> p' = (if us = [] then p else of_nat (last us))"
  by (induction us arbitrary: h p) auto

text \<open>The words of the list pointers of some blocks.\<close>

definition links :: "nat set \<Rightarrow> nat set" where
  "links N = (\<lambda>b. b + 8) ` N \<union> (\<lambda>b. b + 12) ` N"

lemma dlist_upd: "x \<notin> links (set bs) \<Longrightarrow> dlist (w(x := v)) h p bs \<longleftrightarrow> dlist w h p bs"
  by (rule dlist_cong) (auto simp: links_def)

lemma dseg_upd: "x \<notin> links (set bs) \<Longrightarrow> dseg (w(x := v)) h p bs h' p' \<longleftrightarrow> dseg w h p bs h' p'"
  by (rule dseg_cong) (auto simp: links_def)

lemma links_iff:
  assumes "\<And>c. c \<in> N \<Longrightarrow> node t c" "node t b"
  shows "b + 8 \<in> links N \<longleftrightarrow> b \<in> N" "b + 12 \<in> links N \<longleftrightarrow> b \<in> N"
  using assms node_fields_distinct by (auto simp: links_def)

section \<open>Removal from a doubly linked list\<close>

definition unlink :: "nat \<Rightarrow> (nat \<Rightarrow> u32) \<Rightarrow> nat \<Rightarrow> u32" where
  "unlink b w =
     (let w = (if w (b + 12) \<noteq> 0 then w(unat (w (b + 12)) + 8 := w (b + 8)) else w)
      in if w (b + 8) \<noteq> 0 then w(unat (w (b + 8)) + 12 := w (b + 12)) else w)"

lemma unlink_list:
  assumes "dlist w h 0 (us @ b # vs)" "distinct (us @ b # vs)" "\<And>c. c \<in> set (us @ b # vs) \<Longrightarrow> node t c"
  shows "dlist (unlink b w) (if us = [] then w (b + 12) else h) 0 (us @ vs)"
    "x \<notin> links (set us \<union> set vs) \<Longrightarrow> unlink b w x = w x"
    "us = [] \<longleftrightarrow> h = of_nat b"
proof -
  have lt: "c < 4294967296" "0 < c" if "c \<in> set (us @ b # vs)" for c
    using assms(3) [OF that] by (simp_all add: node_def)
  obtain p where seg: "dseg w h 0 us (of_nat b) p" "w (b + 8) = p" "dlist w (w (b + 12)) (of_nat b) vs"
    using assms(1) by (auto simp: dlist_append)
  have p: "p = (if us = [] then 0 else of_nat (last us))" using dseg_last [OF seg(1)] .
  have n: "w (b + 12) = (if vs = [] then 0 else of_nat (hd vs))" using dlist_head [OF seg(3)] .
  show "us = [] \<longleftrightarrow> h = of_nat b"
    using seg(1) lt assms(2) by (cases us) (auto simp: of_nat_u32_inj)
  have nb: "node t b" using assms(3) by simp
  let ?w1 = "if vs \<noteq> [] then w(hd vs + 8 := p) else w"
  let ?w2 = "if us \<noteq> [] then ?w1(last us + 12 := w (b + 12)) else ?w1"
  have hv: "hd vs \<in> set vs" if "vs \<noteq> []" using that by simp
  have lu: "last us \<in> set us" if "us \<noteq> []" using that by simp
  have w1: "?w1 (b + 8) = p" "?w1 (b + 12) = w (b + 12)"
    using seg(2) hv assms(2) node_fields_distinct [OF assms(3) nb, of "hd vs"] by auto
  have ptr: "(of_nat c :: u32) \<noteq> 0" "unat (of_nat c :: u32) = c" if "c \<in> set (us @ b # vs)" for c
    using lt [OF that] by (simp_all add: of_nat_u32_0 u32_of_nat_unat)
  have "(if w (b + 12) \<noteq> 0 then w(unat (w (b + 12)) + 8 := w (b + 8)) else w) = ?w1"
    using n seg(2) ptr hv by (cases "vs = []") simp_all
  moreover have "(if p \<noteq> 0 then w'(unat p + 12 := z) else w') = (if us \<noteq> [] then w'(last us + 12 := z) else w')" for w' z
  proof (cases "us = []")
    case False
    then have "p = of_nat (last us)" "last us \<in> set (us @ b # vs)" using p by simp_all
    with ptr [OF this(2)] False show ?thesis by simp
  qed (use p in simp)
  ultimately have un: "unlink b w = ?w2"
    unfolding unlink_def Let_def by (simp only: w1)
  show "unlink b w x = w x" if "x \<notin> links (set us \<union> set vs)"
  proof -
    have "vs = [] \<or> x \<noteq> hd vs + 8" "us = [] \<or> x \<noteq> last us + 12" using that hv lu unfolding links_def by blast+
    then show ?thesis unfolding un by (cases "vs = []"; cases "us = []") simp_all
  qed
  have d1: "dlist ?w1 (w (b + 12)) p vs"
  proof (cases vs)
    case (Cons v vs')
    have "v + 8 \<notin> links (set vs')" using links_iff(1) [of "set vs'" t v] assms(2,3) Cons by auto
    then show ?thesis using seg(3) Cons node_fields_distinct [OF assms(3) assms(3), of v v] by (simp add: dlist_upd)
  qed (use seg in simp)
  have s1: "dseg ?w1 h 0 us (of_nat b) p"
  proof (cases vs)
    case (Cons v vs')
    have "v + 8 \<notin> links (set us)" using links_iff(1) [of "set us" t v] assms(2,3) Cons by auto
    then show ?thesis using seg(1) Cons by (simp add: dseg_upd)
  qed (use seg in simp)
  show "dlist (unlink b w) (if us = [] then w (b + 12) else h) 0 (us @ vs)"
  proof (cases us rule: rev_cases)
    case Nil
    then show ?thesis using d1 p unfolding un by simp
  next
    case (snoc us' l)
    have l: "l + 12 \<notin> links (set vs)" "l + 12 \<notin> links (set us')"
      using links_iff(2) [of "set vs" t l] links_iff(2) [of "set us'" t l] assms(2,3) snoc by auto
    define v where "v = ?w1"
    obtain q where q: "dseg v h 0 us' (of_nat l) q" "v (l + 8) = q" "p = of_nat l"
      using s1 unfolding snoc dseg_append dseg.simps v_def [symmetric] by blast
    let ?v = "v(l + 12 := w (b + 12))"
    have "dseg ?v h 0 us' (of_nat l) q" using dseg_upd [OF l(2)] q(1) by blast
    moreover have "?v (l + 8) = q" using q(2) by (simp only: fun_upd_def) simp
    moreover have "?v (l + 12) = w (b + 12)" by (rule fun_upd_same)
    ultimately have "dseg ?v h 0 us (w (b + 12)) (of_nat l)" unfolding snoc dseg_append dseg.simps by blast
    moreover have "dlist ?v (w (b + 12)) (of_nat l) vs"
    proof (rule dlist_upd [OF l(1), THEN iffD2])
      show "dlist v (w (b + 12)) (of_nat l) vs" using d1 unfolding v_def [symmetric] by (simp only: q(3))
    qed
    moreover have "unlink b w = ?v" unfolding un v_def using snoc by simp
    ultimately have "dlist (unlink b w) h 0 (us @ vs)" unfolding dlist_append by metis
    then show ?thesis using snoc by simp
  qed
qed

text \<open>Insertion at the head.\<close>

lemma dlist_push:
  assumes "dlist w h 0 bs" "distinct (b # bs)" "\<And>c. c \<in> set (b # bs) \<Longrightarrow> node t c"
  shows "dlist (if h \<noteq> 0 then w(b + 8 := 0, b + 12 := h, unat h + 8 := of_nat b) else w(b + 8 := 0, b + 12 := h)) (of_nat b) 0 (b # bs)"
proof (cases bs)
  case Nil
  then show ?thesis using assms(1) by simp
next
  case (Cons c cs)
  have nc: "node t c" "node t b" using assms(3) Cons by simp_all
  have h: "h = of_nat c" "w (c + 8) = 0" "dlist w (w (c + 12)) (of_nat c) cs" using assms(1) Cons by simp_all
  have c: "of_nat c \<noteq> (0 :: u32)" "unat (of_nat c :: u32) = c"
    using nc(1) by (simp_all add: node_def of_nat_u32_0 u32_of_nat_unat)
  have "b \<notin> set cs" "c \<notin> set cs" "b \<noteq> c" using assms(2) Cons by auto
  then have out: "b + 8 \<notin> links (set cs)" "b + 12 \<notin> links (set cs)" "c + 8 \<notin> links (set cs)"
    using links_iff [of "set cs" t b] links_iff [of "set cs" t c] assms(3) Cons by auto
  let ?w = "w(b + 8 := 0, b + 12 := h, c + 8 := of_nat b)"
  have "dlist ?w (w (c + 12)) (of_nat c) cs"
    by (rule dlist_upd [OF out(3), THEN iffD2], rule dlist_upd [OF out(2), THEN iffD2], rule dlist_upd [OF out(1), THEN iffD2], rule h(3))
  then have "dlist ?w h (of_nat b) bs"
    using h(1) Cons \<open>b \<noteq> c\<close> node_fields_distinct [OF nc] by simp
  moreover have "?w (b + 8) = 0" "?w (b + 12) = h"
    using \<open>b \<noteq> c\<close> node_fields_distinct [OF nc] by simp_all
  ultimately show ?thesis using c h(1) by simp
qed

section \<open>The lists of all classes\<close>

definition head_word :: "nat \<Rightarrow> nat \<times> nat \<Rightarrow> nat" where
  "head_word t c = t + 108 + 4 * (32 * fst c + snd c)"

definition sl_word :: "nat \<Rightarrow> nat \<Rightarrow> nat" where
  "sl_word t fl = t + 12 + 4 * fl"

definition class_ok :: "nat \<times> nat \<Rightarrow> bool" where
  "class_ok c \<longleftrightarrow> fst c < 24 \<and> snd c < 32"

text \<open>The lists share no blocks, and have blocks behind the control structure only.\<close>

definition disjoint_lists :: "nat \<Rightarrow> (nat \<times> nat \<Rightarrow> nat list) \<Rightarrow> bool" where
  "disjoint_lists t L \<longleftrightarrow> (\<forall>c. L c \<noteq> [] \<longrightarrow> class_ok c) \<and> (\<forall>c. distinct (L c)) \<and> (\<forall>c. \<forall>b\<in>set (L c). node t b) \<and>
     (\<forall>c d. c \<noteq> d \<longrightarrow> set (L c) \<inter> set (L d) = {})"

definition linked :: "nat \<Rightarrow> (nat \<Rightarrow> u32) \<Rightarrow> (nat \<times> nat \<Rightarrow> nat list) \<Rightarrow> bool" where
  "linked t w L \<longleftrightarrow> (\<forall>c. class_ok c \<longrightarrow> dlist w (w (head_word t c)) 0 (L c))"

definition bitmaps :: "nat \<Rightarrow> (nat \<Rightarrow> u32) \<Rightarrow> (nat \<times> nat \<Rightarrow> nat list) \<Rightarrow> bool" where
  "bitmaps t w L \<longleftrightarrow> (\<forall>c. class_ok c \<longrightarrow> bit (w (sl_word t (fst c))) (snd c) = (L c \<noteq> [])) \<and>
     (\<forall>fl. bit (w (t + 8)) fl \<longleftrightarrow> fl < 24 \<and> w (sl_word t fl) \<noteq> 0)"

definition free_lists :: "nat \<Rightarrow> (nat \<Rightarrow> u32) \<Rightarrow> (nat \<times> nat \<Rightarrow> nat list) \<Rightarrow> bool" where
  "free_lists t w L \<longleftrightarrow> 4 dvd t \<and> t + 3184 < 4294967296 \<and> disjoint_lists t L \<and> linked t w L \<and> bitmaps t w L"

definition members :: "(nat \<times> nat \<Rightarrow> nat list) \<Rightarrow> nat set" where
  "members L = (\<Union>c. set (L c))"

lemma members_upd: "members (L(c := bs)) = set bs \<union> (\<Union>d\<in>- {c}. set (L d))"
  by (auto simp: members_def split: if_splits)

text \<open>The words of the control structure, and where they are.\<close>

definition control :: "nat \<Rightarrow> nat set" where
  "control t = {t..<t + 3180}"

lemma control_places:
  "class_ok c \<Longrightarrow> head_word t c \<in> control t" "fl < 24 \<Longrightarrow> sl_word t fl \<in> control t" "t + 8 \<in> control t"
  by (auto simp: class_ok_def head_word_def sl_word_def control_def)

lemma control_distinct:
  "fl < 24 \<Longrightarrow> head_word t c \<noteq> sl_word t fl" "head_word t c \<noteq> t + 8" "sl_word t fl \<noteq> t + 8"
  "class_ok c \<Longrightarrow> class_ok d \<Longrightarrow> head_word t c = head_word t d \<longleftrightarrow> c = d"
  "sl_word t fl = sl_word t fl' \<longleftrightarrow> fl = fl'"
proof -
  show "head_word t c = head_word t d \<longleftrightarrow> c = d" if "class_ok c" "class_ok d"
    using that matrix_index_inj [of "snd c" "snd d" "fst c" "fst d"]
    by (auto simp: head_word_def class_ok_def prod_eq_iff)
qed (simp_all add: head_word_def sl_word_def)

lemma node_not_control:
  assumes "node t b"
  shows "b \<notin> control t" "b + 4 \<notin> control t" "b + 8 \<notin> control t" "b + 12 \<notin> control t"
  using assms by (auto simp: node_def control_def)

lemma control_not_links: "(\<And>b. b \<in> N \<Longrightarrow> node t b) \<Longrightarrow> x \<in> control t \<Longrightarrow> x \<notin> links N"
  using node_not_control by (auto simp: links_def)

section \<open>The list macros on the word array\<close>

definition clear_w :: "nat \<Rightarrow> nat \<times> nat \<Rightarrow> (nat \<Rightarrow> u32) \<Rightarrow> nat \<Rightarrow> u32" where
  "clear_w t c w =
     (let w = w(sl_word t (fst c) := w (sl_word t (fst c)) AND NOT (push_bit (snd c) 1))
      in if w (sl_word t (fst c)) = 0 then w(t + 8 := w (t + 8) AND NOT (push_bit (fst c) 1)) else w)"

definition insert_w :: "nat \<Rightarrow> nat \<Rightarrow> nat \<times> nat \<Rightarrow> (nat \<Rightarrow> u32) \<Rightarrow> nat \<Rightarrow> u32" where
  "insert_w t b c w =
     (let h = w (head_word t c);
          w = (if h \<noteq> 0 then w(b + 8 := 0, b + 12 := h, unat h + 8 := of_nat b) else w(b + 8 := 0, b + 12 := h));
          w = w(head_word t c := of_nat b);
          w = w(sl_word t (fst c) := w (sl_word t (fst c)) OR push_bit (snd c) 1)
      in w(t + 8 := w (t + 8) OR push_bit (fst c) 1))"

definition extract_w :: "nat \<Rightarrow> nat \<Rightarrow> nat \<times> nat \<Rightarrow> (nat \<Rightarrow> u32) \<Rightarrow> nat \<Rightarrow> u32" where
  "extract_w t b c w =
     (let w = unlink b w;
          w = (if w (head_word t c) = of_nat b then
                 let w = w(head_word t c := w (b + 12)) in if w (head_word t c) = 0 then clear_w t c w else w
               else w)
      in w(b + 8 := 0, b + 12 := 0))"

lemma words_links:
  assumes "node t b"
  shows "load32 m (prev_of (of_nat b)) = words m (b + 8)" "load32 m (next_of (of_nat b)) = words m (b + 12)"
    "words (store32 (prev_of (of_nat b)) v m) = (words m)(b + 8 := v)"
    "words (store32 (next_of (of_nat b)) v m) = (words m)(b + 12 := v)"
  using node_words [OF assms] by (simp_all add: of_nat_fields load32_words words_store32 del: of_nat_add)

lemma words_links_ptr:
  assumes "node t (unat h)"
  shows "words (store32 (prev_of h) v m) = (words m)(unat h + 8 := v)"
    "words (store32 (next_of h) v m) = (words m)(unat h + 12 := v)"
  using words_links(3,4) [OF assms] by simp_all

lemma words_control:
  assumes "4 dvd t" "t + 3184 < 4294967296" "class_ok c"
  shows "load32 m (matrix (of_nat t) (int (fst c)) (int (snd c))) = words m (head_word t c)"
    "load32 m (sl_bitmap (of_nat t) (int (fst c))) = words m (sl_word t (fst c))"
    "load32 m (fl_bitmap (of_nat t)) = words m (t + 8)"
    "words (store32 (matrix (of_nat t) (int (fst c)) (int (snd c))) v m) = (words m)(head_word t c := v)"
    "words (set_bit_at (int (snd c)) (sl_bitmap (of_nat t) (int (fst c))) m) =
       (words m)(sl_word t (fst c) := words m (sl_word t (fst c)) OR push_bit (snd c) 1)"
    "words (set_bit_at (int (fst c)) (fl_bitmap (of_nat t)) m) = (words m)(t + 8 := words m (t + 8) OR push_bit (fst c) 1)"
    "words (clear_bit_at (int (snd c)) (sl_bitmap (of_nat t) (int (fst c))) m) =
       (words m)(sl_word t (fst c) := words m (sl_word t (fst c)) AND NOT (push_bit (snd c) 1))"
    "words (clear_bit_at (int (fst c)) (fl_bitmap (of_nat t)) m) = (words m)(t + 8 := words m (t + 8) AND NOT (push_bit (fst c) 1))"
  using control_words [OF assms(1,2)] assms(3)
  by (simp_all add: class_ok_def head_word_def sl_word_def of_nat_fields load32_words words_store32 words_set_bit_at
      words_clear_bit_at del: of_nat_add of_nat_mult push_bit_of_1)

lemma words_clear_empty:
  assumes "4 dvd t" "t + 3184 < 4294967296" "class_ok c"
  shows "words (clear_empty (of_nat t) (int (fst c)) (int (snd c)) m) = clear_w t c (words m)"
  using words_control [OF assms] by (simp add: clear_empty_def clear_w_def Let_def del: push_bit_of_1)

lemma words_INSERT_BLOCK:
  assumes "node t b" "class_ok c" "words m (head_word t c) \<noteq> 0 \<Longrightarrow> node t (unat (words m (head_word t c)))"
  shows "words (INSERT_BLOCK (of_nat b) (of_nat t) (int (fst c)) (int (snd c)) m) = insert_w t b c (words m)"
proof -
  have t: "4 dvd t" "t + 3184 < 4294967296" using assms(1) by (auto simp: node_def)
  have ne: "head_word t c \<noteq> b + 8" "head_word t c \<noteq> b + 12"
    using control_places(1) [OF assms(2)] node_not_control [OF assms(1)] by metis+
  define h where "h = words m (head_word t c)"
  define m1 where "m1 = store32 (next_of (of_nat b)) h (store32 (prev_of (of_nat b)) 0 m)"
  define m2 where "m2 = (if h \<noteq> 0 then store32 (prev_of h) (of_nat b) m1 else m1)"
  have w1: "words m1 = (words m)(b + 8 := 0, b + 12 := h)" using words_links [OF assms(1)] by (simp only: m1_def)
  then have h: "words m1 (head_word t c) = h" using ne by (simp add: h_def)
  have h0: "load32 (store32 (prev_of (of_nat b)) 0 m) (matrix (of_nat t) (int (fst c)) (int (snd c))) = h"
    using words_control(1) [OF t assms(2)] words_links [OF assms(1)] ne by (simp add: h_def)
  have h1: "load32 m1 (matrix (of_nat t) (int (fst c)) (int (snd c))) = h"
    using words_control(1) [OF t assms(2)] h by simp
  have w2: "words m2 = (if h \<noteq> 0 then (words m)(b + 8 := 0, b + 12 := h, unat h + 8 := of_nat b)
      else (words m)(b + 8 := 0, b + 12 := h))"
  proof (cases "h = 0")
    case False
    then have "node t (unat h)" using assms(3) by (simp add: h_def)
    from words_links_ptr(1) [OF this] show ?thesis using False by (simp add: m2_def w1)
  qed (simp add: m2_def w1)
  have "INSERT_BLOCK (of_nat b) (of_nat t) (int (fst c)) (int (snd c)) m =
    set_bit_at (int (fst c)) (fl_bitmap (of_nat t)) (set_bit_at (int (snd c)) (sl_bitmap (of_nat t) (int (fst c)))
      (store32 (matrix (of_nat t) (int (fst c)) (int (snd c))) (of_nat b) m2))"
    unfolding INSERT_BLOCK_def Let_def h0 m1_def [symmetric] h1 m2_def ..
  then show ?thesis
    unfolding insert_w_def Let_def h_def [symmetric] w2 [symmetric] by (simp only: words_control(4-6) [OF t assms(2)])
qed

lemma words_EXTRACT_BLOCK:
  assumes "node t b" "class_ok c" "words m (b + 8) \<noteq> 0 \<Longrightarrow> node t (unat (words m (b + 8)))"
    "words m (b + 12) \<noteq> 0 \<Longrightarrow> node t (unat (words m (b + 12)))" "words m (b + 12) \<noteq> of_nat b"
  shows "words (EXTRACT_BLOCK (of_nat b) (of_nat t) (int (fst c)) (int (snd c)) m) = extract_w t b c (words m)"
proof -
  have t: "4 dvd t" "t + 3184 < 4294967296" using assms(1) by (auto simp: node_def)
  define m1 where "m1 = (if load32 m (next_of (of_nat b)) \<noteq> 0
    then store32 (prev_of (load32 m (next_of (of_nat b)))) (load32 m (prev_of (of_nat b))) m else m)"
  have w1: "words m1 = (if words m (b + 12) \<noteq> 0 then (words m)(unat (words m (b + 12)) + 8 := words m (b + 8)) else words m)"
    using words_links [OF assms(1)] words_links_ptr [OF assms(4)] by (simp add: m1_def)
  have "unat (words m (b + 12)) \<noteq> b" using assms(5) by (metis of_nat_unat ucast_id)
  then have p1: "words m1 (b + 8) = words m (b + 8)" "words m1 (b + 12) = words m (b + 12)"
    unfolding w1 using node_fields_distinct [OF assms(1) assms(4)] by auto
  define m2 where "m2 = (if load32 m1 (prev_of (of_nat b)) \<noteq> 0
    then store32 (next_of (load32 m1 (prev_of (of_nat b)))) (load32 m1 (next_of (of_nat b))) m1 else m1)"
  have "words m2 = (if words m1 (b + 8) \<noteq> 0 then (words m1)(unat (words m1 (b + 8)) + 12 := words m1 (b + 12)) else words m1)"
    using words_links [OF assms(1)] words_links_ptr [OF assms(3)] p1 by (simp add: m2_def)
  then have w2: "words m2 = unlink b (words m)" unfolding unlink_def w1 Let_def by (simp only:)
  have "EXTRACT_BLOCK (of_nat b) (of_nat t) (int (fst c)) (int (snd c)) m =
    (let m = (if load32 m2 (matrix (of_nat t) (int (fst c)) (int (snd c))) = of_nat b then
                let m = store32 (matrix (of_nat t) (int (fst c)) (int (snd c))) (load32 m2 (next_of (of_nat b))) m2
                in if load32 m (matrix (of_nat t) (int (fst c)) (int (snd c))) = 0
                   then clear_empty (of_nat t) (int (fst c)) (int (snd c)) m else m
              else m2)
     in store32 (next_of (of_nat b)) 0 (store32 (prev_of (of_nat b)) 0 m))"
    unfolding EXTRACT_BLOCK_def Let_def m1_def [symmetric] m2_def [symmetric] ..
  then show ?thesis
    using words_control(1,4) [OF t assms(2)] words_clear_empty [OF t assms(2)] words_links [OF assms(1)]
    by (simp add: extract_w_def w2 [symmetric] Let_def)
qed

section \<open>The bitmaps\<close>

lemma bit_push_1: "n < 32 \<Longrightarrow> bit (push_bit n (1 :: u32)) i \<longleftrightarrow> i = n"
  by (auto simp: bit_exp_iff)

lemma bitmaps_bit: "bitmaps t w L \<Longrightarrow> class_ok c \<Longrightarrow> bit (w (sl_word t (fst c))) (snd c) = (L c \<noteq> [])"
  unfolding bitmaps_def by blast

lemma bitmaps_cong:
  assumes "bitmaps t w L" "\<And>x. x \<in> control t \<Longrightarrow> (\<And>d. class_ok d \<Longrightarrow> x \<noteq> head_word t d) \<Longrightarrow> v x = w x"
    "\<And>c. class_ok c \<Longrightarrow> (L' c = []) = (L c = [])"
  shows "bitmaps t v L'"
proof -
  have "v (t + 8) = w (t + 8)" "fl < 24 \<Longrightarrow> v (sl_word t fl) = w (sl_word t fl)" for fl
    using assms(2) control_places control_distinct by metis+
  then show ?thesis using assms(1,3) unfolding bitmaps_def by (simp add: class_ok_def cong: conj_cong)
qed

lemma bitmaps_set:
  assumes "bitmaps t w L" "class_ok c" "bs \<noteq> []"
  defines "v \<equiv> w(sl_word t (fst c) := w (sl_word t (fst c)) OR push_bit (snd c) 1)"
  shows "bitmaps t (v(t + 8 := v (t + 8) OR push_bit (fst c) 1)) (L(c := bs))"
proof -
  have c: "fst c < 24" "snd c < 32" using assms(2) by (simp_all add: class_ok_def)
  let ?v = "v(t + 8 := v (t + 8) OR push_bit (fst c) 1)"
  have sl: "?v (sl_word t fl) = (if fl = fst c then w (sl_word t fl) OR push_bit (snd c) 1 else w (sl_word t fl))" for fl
    using control_distinct(3,5) by (simp add: v_def)
  have nz: "w x OR push_bit (snd c) 1 \<noteq> 0" for x
  proof -
    have "bit (w x OR push_bit (snd c) 1) (snd c)" using c(2) by (simp add: bit_or_iff bit_push_1 del: push_bit_of_1)
    then show ?thesis by fastforce
  qed
  have "?v (t + 8) = w (t + 8) OR push_bit (fst c) 1" using control_distinct(3) [of t "fst c"] by (simp add: v_def)
  then have "bit (?v (t + 8)) fl \<longleftrightarrow> fl < 24 \<and> ?v (sl_word t fl) \<noteq> 0" for fl
    unfolding sl using assms(1) c nz by (auto simp: bitmaps_def bit_or_iff bit_push_1 simp del: push_bit_of_1)
  moreover have "bit (?v (sl_word t (fst d))) (snd d) = ((L(c := bs)) d \<noteq> [])" if "class_ok d" for d
    unfolding sl using bitmaps_bit [OF assms(1) that] assms(3) c
    by (auto simp: bit_or_iff bit_push_1 prod_eq_iff simp del: push_bit_of_1)
  ultimately show ?thesis unfolding bitmaps_def by blast
qed

lemma bitmaps_clear:
  assumes "bitmaps t w L" "class_ok c"
  shows "bitmaps t (clear_w t c w) (L(c := []))"
proof -
  have c: "fst c < 24" "snd c < 32" using assms(2) by (simp_all add: class_ok_def)
  define x where "x = w (sl_word t (fst c)) AND NOT (push_bit (snd c) 1)"
  have sl: "clear_w t c w (sl_word t fl) = (if fl = fst c then x else w (sl_word t fl))" for fl
    using control_distinct(3,5) by (simp add: clear_w_def Let_def x_def)
  have fl: "clear_w t c w (t + 8) = (if x = 0 then w (t + 8) AND NOT (push_bit (fst c) 1) else w (t + 8))"
    using control_distinct(3) [of t "fst c"] by (simp add: clear_w_def Let_def x_def)
  have bx: "bit x i \<longleftrightarrow> bit (w (sl_word t (fst c))) i \<and> i \<noteq> snd c" for i
    using c(2) by (auto simp: x_def bit_and_iff bit_not_iff bit_push_1 dest: bit_imp_le_length simp del: push_bit_of_1)
  have "x \<noteq> 0 \<Longrightarrow> w (sl_word t (fst c)) \<noteq> 0" by (auto simp: x_def)
  then have "bit (clear_w t c w (t + 8)) i \<longleftrightarrow> i < 24 \<and> clear_w t c w (sl_word t i) \<noteq> 0" for i
    unfolding sl fl using assms(1) c
    by (auto simp: bitmaps_def bit_and_iff bit_not_iff bit_push_1 simp del: push_bit_of_1)
  moreover have "bit (clear_w t c w (sl_word t (fst d))) (snd d) = ((L(c := [])) d \<noteq> [])" if "class_ok d" for d
  proof (cases "fst d = fst c")
    case True
    then have "snd d = snd c \<longleftrightarrow> d = c" by (simp add: prod_eq_iff)
    then show ?thesis using bitmaps_bit [OF assms(1) that] by (simp only: sl True fun_upd_apply) (simp add: bx)
  next
    case False
    then have "d \<noteq> c" by blast
    then show ?thesis using bitmaps_bit [OF assms(1) that] by (simp only: sl False if_False fun_upd_apply)
  qed
  ultimately show ?thesis unfolding bitmaps_def by blast
qed

lemma clear_w_other: "class_ok c \<Longrightarrow> x \<noteq> sl_word t (fst c) \<Longrightarrow> x \<noteq> t + 8 \<Longrightarrow> clear_w t c w x = w x"
  by (simp add: clear_w_def Let_def)

section \<open>Insertion and removal\<close>

lemma free_lists_pool: "free_lists t w L \<Longrightarrow> 4 dvd t \<and> t + 3184 < 4294967296"
  by (simp add: free_lists_def)

lemma free_lists_nodes: "free_lists t w L \<Longrightarrow> b \<in> members L \<Longrightarrow> node t b"
  by (auto simp: free_lists_def disjoint_lists_def members_def)

lemma free_lists_list:
  "free_lists t w L \<Longrightarrow> class_ok c \<Longrightarrow> dlist w (w (head_word t c)) 0 (L c)"
  "free_lists t w L \<Longrightarrow> distinct (L c)"
  "free_lists t w L \<Longrightarrow> set (L c) \<subseteq> members L"
  unfolding free_lists_def linked_def disjoint_lists_def members_def by blast+

lemma free_lists_other: "free_lists t w L \<Longrightarrow> b \<in> set (L c) \<Longrightarrow> d \<noteq> c \<Longrightarrow> b \<notin> set (L d)"
  unfolding free_lists_def disjoint_lists_def by (metis disjoint_iff)

lemma links_mono: "M \<subseteq> N \<Longrightarrow> x \<notin> links N \<Longrightarrow> x \<notin> links M"
  by (auto simp: links_def)

lemma disjoint_lists_Cons:
  assumes "disjoint_lists t L" "node t b" "b \<notin> members L" "class_ok c"
  shows "disjoint_lists t (L(c := b # L c))"
  unfolding disjoint_lists_def
proof (intro conjI allI)
  fix d e
  have b: "b \<notin> set (L d)" for d using assms(3) unfolding members_def by blast
  show "(L(c := b # L c)) d \<noteq> [] \<longrightarrow> class_ok d" using assms(1,4) unfolding disjoint_lists_def by simp
  show "distinct ((L(c := b # L c)) d)" using assms(1) b unfolding disjoint_lists_def by simp
  show "\<forall>a\<in>set ((L(c := b # L c)) d). node t a" using assms(1,2) unfolding disjoint_lists_def by simp
  show "d \<noteq> e \<longrightarrow> set ((L(c := b # L c)) d) \<inter> set ((L(c := b # L c)) e) = {}"
    using assms(1) b unfolding disjoint_lists_def
    by (cases "d = c"; cases "e = c") simp_all
qed

lemma insert_lists:
  assumes "free_lists t w L" "node t b" "b \<notin> members L" "class_ok c"
  shows "free_lists t (insert_w t b c w) (L(c := b # L c))"
    "x \<notin> control t \<Longrightarrow> x \<notin> links (insert b (members L)) \<Longrightarrow> insert_w t b c w x = w x"
    "w (head_word t c) \<noteq> 0 \<Longrightarrow> node t (unat (w (head_word t c)))"
proof -
  note nodes = free_lists_nodes [OF assms(1)] and pool = free_lists_pool [OF assms(1)]
  let ?h = "w (head_word t c)"
  have h: "?h = (if L c = [] then 0 else of_nat (hd (L c)))"
    using dlist_head [OF free_lists_list(1) [OF assms(1,4)]] .
  have hd: "hd (L c) \<in> members L" if "L c \<noteq> []"
    using that hd_in_set free_lists_list(3) [OF assms(1)] by (metis subsetD)
  have uh: "unat ?h = hd (L c)" "L c \<noteq> []" if "?h \<noteq> 0"
  proof -
    from that show "L c \<noteq> []" using h by auto
    with nodes [OF hd] show "unat ?h = hd (L c)" using h by (simp add: node_def u32_of_nat_unat)
  qed
  show "node t (unat ?h)" if "?h \<noteq> 0" using uh [OF that] nodes hd by simp
  define v where "v = (if ?h \<noteq> 0 then w(b + 8 := 0, b + 12 := ?h, unat ?h + 8 := of_nat b) else w(b + 8 := 0, b + 12 := ?h))"
  have v_other: "v x = w x" if "x \<noteq> b + 8" "x \<noteq> b + 12" "L c \<noteq> [] \<Longrightarrow> x \<noteq> hd (L c) + 8" for x
    using that uh unfolding v_def by (cases "?h = 0") simp_all
  define u where "u = v(head_word t c := of_nat b)"
  define u2 where "u2 = u(sl_word t (fst c) := u (sl_word t (fst c)) OR push_bit (snd c) 1)"
  have ins: "insert_w t b c w = u2(t + 8 := u2 (t + 8) OR push_bit (fst c) 1)"
    unfolding insert_w_def Let_def v_def [symmetric] u_def [symmetric] u2_def [symmetric] ..
  have out: "insert_w t b c w x = v x" if "x \<notin> control t" for x
    using that control_places(1) [OF assms(4), of t] control_places(2) [of "fst c" t] control_places(3) [of t] assms(4)
    unfolding ins u2_def u_def class_ok_def by auto
  have v_control: "v x = w x" if "x \<in> control t" for x
  proof (rule v_other)
    show "x \<noteq> b + 8" "x \<noteq> b + 12" using that node_not_control [OF assms(2)] by blast+
    show "x \<noteq> hd (L c) + 8" if "L c \<noteq> []" using \<open>x \<in> control t\<close> node_not_control [OF nodes [OF hd [OF that]]] by blast
  qed
  show other: "insert_w t b c w x = w x" if "x \<notin> control t" "x \<notin> links (insert b (members L))" for x
    unfolding out [OF that(1)] using that(2) hd by (intro v_other) (auto simp: links_def)
  have new: "dlist v (of_nat b) 0 (b # L c)" unfolding v_def
  proof (rule dlist_push [OF free_lists_list(1) [OF assms(1,4)]])
    show "distinct (b # L c)" using assms(3) free_lists_list(2,3) [OF assms(1), of c] by auto
    show "node t a" if "a \<in> set (b # L c)" for a
      using that assms(2) nodes free_lists_list(3) [OF assms(1), of c] by auto
  qed
  have same: "dlist (insert_w t b c w) g 0 bs = dlist v g 0 bs" if "\<And>a. a \<in> set bs \<Longrightarrow> node t a" for g bs
    using out node_not_control(3,4) that by (intro dlist_cong) blast
  have "linked t (insert_w t b c w) (L(c := b # L c))" unfolding linked_def
  proof (intro allI impI)
    fix d assume d: "class_ok d"
    show "dlist (insert_w t b c w) (insert_w t b c w (head_word t d)) 0 ((L(c := b # L c)) d)"
    proof (cases "d = c")
      case True
      have "insert_w t b c w (head_word t c) = of_nat b"
        using control_distinct(1,2) assms(4) by (simp add: ins u2_def u_def class_ok_def)
      moreover have "\<And>a. a \<in> set (b # L c) \<Longrightarrow> node t a" using assms(2) nodes free_lists_list(3) [OF assms(1), of c] by auto
      then have "dlist (insert_w t b c w) (of_nat b) 0 (b # L c)" using new same [of "b # L c"] by blast
      ultimately show ?thesis by (simp only: True fun_upd_same)
    next
      case False
      have nd: "\<And>a. a \<in> set (L d) \<Longrightarrow> node t a" using nodes free_lists_list(3) [OF assms(1), of d] by auto
      have "insert_w t b c w (head_word t d) = w (head_word t d)"
        using control_distinct(1,2,4) assms(4) d False v_control control_places(1) [OF d]
        by (simp add: ins u2_def u_def class_ok_def)
      moreover have "dlist v g 0 (L d) = dlist w g 0 (L d)" for g
      proof (rule dlist_cong)
        fix a assume a: "a \<in> set (L d)"
        then have "a \<noteq> b" "L c \<noteq> [] \<Longrightarrow> a \<noteq> hd (L c)"
          using assms(3) free_lists_list(3) [OF assms(1), of d] free_lists_other [OF assms(1) _ False] hd_in_set by blast+
        then show "v (a + 8) = w (a + 8) \<and> v (a + 12) = w (a + 12)"
          using node_fields_distinct [OF nd [OF a] assms(2)] node_fields_distinct [OF nd [OF a] nodes [OF hd]]
          by (intro conjI v_other) simp_all
      qed
      ultimately show ?thesis using same [OF nd] free_lists_list(1) [OF assms(1) d] False by simp
    qed
  qed
  moreover have "bitmaps t (insert_w t b c w) (L(c := b # L c))"
  proof -
    have "bitmaps t u L"
    proof (rule bitmaps_cong)
      show "bitmaps t w L" using assms(1) unfolding free_lists_def by blast
      show "u x = w x" if "x \<in> control t" "\<And>d. class_ok d \<Longrightarrow> x \<noteq> head_word t d" for x
        using v_control [OF that(1)] that(2) [OF assms(4)] by (simp add: u_def)
    qed simp
    from bitmaps_set [OF this assms(4), of "b # L c"] show ?thesis unfolding ins u2_def by simp
  qed
  moreover have "disjoint_lists t (L(c := b # L c))"
    by (rule disjoint_lists_Cons [OF _ assms(2-4)]) (use assms(1) in \<open>simp add: free_lists_def\<close>)
  ultimately show "free_lists t (insert_w t b c w) (L(c := b # L c))" using pool by (simp add: free_lists_def)
qed

lemma disjoint_lists_remove:
  assumes "disjoint_lists t L" "L c = us @ b # vs"
  shows "disjoint_lists t (L(c := us @ vs))"
proof -
  have "distinct (L c)" "L c \<noteq> [] \<longrightarrow> class_ok c" using assms(1) unfolding disjoint_lists_def by blast+
  then have c: "set (us @ vs) \<subseteq> set (L c)" "class_ok c" "distinct (us @ vs)"
    unfolding assms(2) by auto
  show ?thesis unfolding disjoint_lists_def
  proof (intro conjI allI)
    fix d e
    show "(L(c := us @ vs)) d \<noteq> [] \<longrightarrow> class_ok d" "distinct ((L(c := us @ vs)) d)"
      using assms(1) c unfolding disjoint_lists_def by simp_all
    show "\<forall>a\<in>set ((L(c := us @ vs)) d). node t a"
      using assms(1) c(1) unfolding disjoint_lists_def by (metis fun_upd_apply subsetD)
    show "d \<noteq> e \<longrightarrow> set ((L(c := us @ vs)) d) \<inter> set ((L(c := us @ vs)) e) = {}"
    proof
      assume ne: "d \<noteq> e"
      have dis: "set (L x) \<inter> set (L y) = {}" if "x \<noteq> y" for x y using assms(1) that unfolding disjoint_lists_def by blast
      have "set ((L(c := us @ vs)) x) \<subseteq> set (L x)" for x using c(1) by simp
      with dis [OF ne] show "set ((L(c := us @ vs)) d) \<inter> set ((L(c := us @ vs)) e) = {}" by blast
    qed
  qed
qed

lemma extract_lists:
  assumes "free_lists t w L" "L c = us @ b # vs"
  shows "free_lists t (extract_w t b c w) (L(c := us @ vs))"
    "x \<notin> control t \<Longrightarrow> x \<notin> links (members L) \<Longrightarrow> extract_w t b c w x = w x"
    "w (b + 8) \<noteq> 0 \<Longrightarrow> node t (unat (w (b + 8)))" "w (b + 12) \<noteq> 0 \<Longrightarrow> node t (unat (w (b + 12)))"
    "w (b + 12) \<noteq> of_nat b" "w (head_word t c) = of_nat b \<longleftrightarrow> us = []" "class_ok c"
proof -
  note nodes = free_lists_nodes [OF assms(1)] and pool = free_lists_pool [OF assms(1)]
  have dj: "disjoint_lists t L" using assms(1) unfolding free_lists_def by blast
  show ok: "class_ok c" using dj assms(2) unfolding disjoint_lists_def by (metis append_is_Nil_conv list.distinct(1))
  have mem: "a \<in> members L" if "a \<in> set (us @ b # vs)" for a
    using that free_lists_list(3) [OF assms(1), of c] assms(2) by auto
  have cn: "node t a" if "a \<in> set (us @ b # vs)" for a using nodes mem that by blast
  have bn: "node t b" using cn by simp
  have dist: "distinct (us @ b # vs)" using free_lists_list(2) [OF assms(1), of c] assms(2) by simp
  have dl: "dlist w (w (head_word t c)) 0 (us @ b # vs)" using free_lists_list(1) [OF assms(1) ok] assms(2) by simp
  note un = unlink_list [OF dl dist cn]
  show hd: "w (head_word t c) = of_nat b \<longleftrightarrow> us = []" using un(3) by metis
  obtain p where seg: "dseg w (w (head_word t c)) 0 us (of_nat b) p" "w (b + 8) = p" "dlist w (w (b + 12)) (of_nat b) vs"
    using dl unfolding dlist_append dlist_Cons by blast
  have p: "w (b + 8) = (if us = [] then 0 else of_nat (last us))" using dseg_last [OF seg(1)] seg(2) by simp
  have n: "w (b + 12) = (if vs = [] then 0 else of_nat (hd vs))" using dlist_head [OF seg(3)] .
  have un_at: "unat (of_nat a :: u32) = a" if "a \<in> set (us @ b # vs)" for a
    using cn [OF that] by (simp add: node_def u32_of_nat_unat)
  show "node t (unat (w (b + 8)))" if "w (b + 8) \<noteq> 0"
    using that p cn un_at [of "last us"] by (cases "us = []") simp_all
  show "node t (unat (w (b + 12)))" if "w (b + 12) \<noteq> 0"
    using that n cn un_at [of "hd vs"] by (cases "vs = []") simp_all
  show "w (b + 12) \<noteq> of_nat b"
  proof (cases "vs = []")
    case True
    moreover have "(of_nat b :: u32) \<noteq> 0" using bn by (simp add: node_def of_nat_u32_0)
    ultimately show ?thesis using n by metis
  next
    case False
    then have "hd vs \<in> set vs" by simp
    with dist have "hd vs \<noteq> b" by auto
    then show ?thesis using n False un_at [of "hd vs"] un_at [of b] \<open>hd vs \<in> set vs\<close> by (metis append_Cons in_set_conv_decomp list.set_intros(1,2) Un_iff set_append)
  qed
  define v where "v = unlink b w"
  have v_other: "v x = w x" if "x \<notin> links (set us \<union> set vs)" for x using un(2) [OF _ that] unfolding v_def by blast
  have v_control: "v x = w x" if "x \<in> control t" for x
    using that control_not_links [of "set us \<union> set vs" t x] cn by (intro v_other) auto
  have b_out: "b + 12 \<notin> links (set us \<union> set vs)" "b + 8 \<notin> links (set us \<union> set vs)"
    using links_iff [of "set us \<union> set vs" t b] cn dist bn by auto
  define u where "u = (if v (head_word t c) = of_nat b then
      let w = v(head_word t c := v (b + 12)) in if w (head_word t c) = 0 then clear_w t c w else w else v)"
  have ex: "extract_w t b c w = u(b + 8 := 0, b + 12 := 0)" unfolding extract_w_def Let_def v_def u_def ..
  have u: "u = (if us \<noteq> [] then v else if vs = [] then clear_w t c (v(head_word t c := 0)) else v(head_word t c := w (b + 12)))"
    unfolding u_def Let_def using v_control [OF control_places(1) [OF ok]] v_other [OF b_out(1)] hd n cn [of "hd vs"]
    by (auto simp: node_def of_nat_u32_0)
  have u_out: "u x = v x" if "x \<notin> control t" for x
  proof -
    have "x \<noteq> head_word t c" "x \<noteq> sl_word t (fst c)" "x \<noteq> t + 8"
      using that control_places ok unfolding class_ok_def by metis+
    then show ?thesis unfolding u by (simp add: clear_w_other [OF ok])
  qed
  show other: "extract_w t b c w x = w x" if "x \<notin> control t" "x \<notin> links (members L)" for x
  proof -
    have "x \<notin> links (set us \<union> set vs)" using that(2) mem by (intro links_mono [OF _ that(2)]) auto
    moreover have "x \<noteq> b + 8" "x \<noteq> b + 12" using that(2) mem [of b] by (auto simp: links_def)
    ultimately show ?thesis unfolding ex using u_out [OF that(1)] v_other by simp
  qed
  have ex_control: "extract_w t b c w x = u x" if "x \<in> control t" for x
    using that node_not_control(3,4) [OF bn] unfolding ex by auto
  have same: "dlist (extract_w t b c w) g 0 (us @ vs) = dlist v g 0 (us @ vs)" for g
  proof (rule dlist_cong)
    fix a assume a: "a \<in> set (us @ vs)"
    then have na: "node t a" "a \<noteq> b" using cn dist by auto
    show "extract_w t b c w (a + 8) = v (a + 8) \<and> extract_w t b c w (a + 12) = v (a + 12)"
      using u_out node_not_control [OF na(1)] node_fields_distinct [OF na(1) bn] na(2) unfolding ex by simp
  qed
  have "linked t (extract_w t b c w) (L(c := us @ vs))" unfolding linked_def
  proof (intro allI impI)
    fix d assume d: "class_ok d"
    note head = ex_control [OF control_places(1) [OF d]]
    show "dlist (extract_w t b c w) (extract_w t b c w (head_word t d)) 0 ((L(c := us @ vs)) d)"
    proof (cases "d = c")
      case True
      have "extract_w t b c w (head_word t c) = (if us = [] then w (b + 12) else w (head_word t c))"
        using head True v_control [OF control_places(1) [OF ok]] control_distinct(1,2) ok n
        unfolding u class_ok_def by (auto simp: clear_w_def Let_def)
      then have "dlist (extract_w t b c w) (extract_w t b c w (head_word t c)) 0 (us @ vs)"
        unfolding same using un(1) unfolding v_def by simp
      then show ?thesis by (simp only: True fun_upd_same)
    next
      case False
      have "u (head_word t d) = v (head_word t d)"
        using control_distinct(1,2) control_distinct(4) [OF d ok] False ok unfolding u class_ok_def by (auto simp: clear_w_def Let_def)
      then have "extract_w t b c w (head_word t d) = w (head_word t d)"
        using head v_control [OF control_places(1) [OF d]] by simp
      moreover have "dlist (extract_w t b c w) g 0 (L d) = dlist w g 0 (L d)" for g
      proof (rule dlist_cong)
        fix a assume a: "a \<in> set (L d)"
        then have na: "node t a" using nodes free_lists_list(3) [OF assms(1), of d] by auto
        have "a \<notin> set (L c)" using free_lists_other [OF assms(1) a] False by metis
        then have na2: "a \<noteq> b" "a \<notin> set us \<union> set vs" using assms(2) by auto
        then have "a + 8 \<notin> links (set us \<union> set vs)" "a + 12 \<notin> links (set us \<union> set vs)"
          using links_iff [of "set us \<union> set vs" t a] na cn by auto
        then show "extract_w t b c w (a + 8) = w (a + 8) \<and> extract_w t b c w (a + 12) = w (a + 12)"
          using u_out node_not_control [OF na] node_fields_distinct [OF na bn] na2(1) v_other unfolding ex by simp
      qed
      ultimately show ?thesis using free_lists_list(1) [OF assms(1) d] False by simp
    qed
  qed
  moreover have "bitmaps t (extract_w t b c w) (L(c := us @ vs))"
  proof (cases "us = [] \<and> vs = []")
    case True
    have "bitmaps t (v(head_word t c := 0)) L"
    proof (rule bitmaps_cong)
      show "bitmaps t w L" using assms(1) unfolding free_lists_def by blast
      show "(v(head_word t c := 0)) x = w x" if "x \<in> control t" "\<And>d. class_ok d \<Longrightarrow> x \<noteq> head_word t d" for x
        using v_control [OF that(1)] that(2) [OF ok] by simp
    qed simp
    from bitmaps_clear [OF this ok] show ?thesis
    proof (rule bitmaps_cong)
      show "extract_w t b c w x = clear_w t c (v(head_word t c := 0)) x" if "x \<in> control t" for x
        unfolding ex_control [OF that] u using True by simp
      show "((L(c := us @ vs)) d = []) = ((L(c := [])) d = [])" for d using True by simp
    qed
  next
    case False
    show ?thesis
    proof (rule bitmaps_cong)
      show "bitmaps t w L" using assms(1) unfolding free_lists_def by blast
      show "extract_w t b c w x = w x" if "x \<in> control t" "\<And>d. class_ok d \<Longrightarrow> x \<noteq> head_word t d" for x
        using ex_control [OF that(1)] v_control [OF that(1)] that(2) [OF ok] False unfolding u by auto
      show "((L(c := us @ vs)) d = []) = (L d = [])" for d using assms(2) False by simp
    qed
  qed
  moreover have "disjoint_lists t (L(c := us @ vs))" by (rule disjoint_lists_remove [OF dj assms(2)])
  ultimately show "free_lists t (extract_w t b c w) (L(c := us @ vs))" using pool by (simp add: free_lists_def)
qed

section \<open>The macros on the lists\<close>

lemma INSERT_BLOCK_lists:
  assumes "free_lists t (words m) L" "node t b" "b \<notin> members L" "class_ok c"
  defines "m' \<equiv> INSERT_BLOCK (of_nat b) (of_nat t) (int (fst c)) (int (snd c)) m"
  shows "free_lists t (words m') (L(c := b # L c))"
    "x \<notin> control t \<Longrightarrow> x \<notin> links (insert b (members L)) \<Longrightarrow> words m' x = words m x"
proof -
  have "words m' = insert_w t b c (words m)"
    unfolding m'_def by (rule words_INSERT_BLOCK [OF assms(2,4) insert_lists(3) [OF assms(1-4)]])
  then show "free_lists t (words m') (L(c := b # L c))"
    "x \<notin> control t \<Longrightarrow> x \<notin> links (insert b (members L)) \<Longrightarrow> words m' x = words m x"
    using insert_lists(1,2) [OF assms(1-4)] by simp_all
qed

lemma EXTRACT_BLOCK_lists:
  assumes "free_lists t (words m) L" "L c = us @ b # vs"
  defines "m' \<equiv> EXTRACT_BLOCK (of_nat b) (of_nat t) (int (fst c)) (int (snd c)) m"
  shows "free_lists t (words m') (L(c := us @ vs))"
    "x \<notin> control t \<Longrightarrow> x \<notin> links (members L) \<Longrightarrow> words m' x = words m x"
proof -
  note ex = extract_lists [OF assms(1,2)]
  have "node t b"
    using free_lists_nodes [OF assms(1)] free_lists_list(3) [OF assms(1), of c] unfolding assms(2) by auto
  then have "words m' = extract_w t b c (words m)"
    unfolding m'_def by (rule words_EXTRACT_BLOCK [OF _ ex(7,3,4,5)])
  then show "free_lists t (words m') (L(c := us @ vs))"
    "x \<notin> control t \<Longrightarrow> x \<notin> links (members L) \<Longrightarrow> words m' x = words m x"
    using ex(1,2) by simp_all
qed

text \<open>On the head of a list the shorter macro does the same.\<close>

lemma words_EXTRACT_BLOCK_HDR:
  assumes "free_lists t (words m) L" "L c = b # vs"
  shows "words (EXTRACT_BLOCK_HDR (of_nat b) (of_nat t) (int (fst c)) (int (snd c)) m) = extract_w t b c (words m)"
proof -
  have ex: "class_ok c" "words m (b + 12) \<noteq> 0 \<Longrightarrow> node t (unat (words m (b + 12)))" "words m (b + 12) \<noteq> of_nat b"
    "words m (head_word t c) = of_nat b"
    using extract_lists(3-7) [OF assms(1), of c "[]" b vs] assms(2) by simp_all
  have t: "4 dvd t" "t + 3184 < 4294967296" using free_lists_pool [OF assms(1)] by simp_all
  have bn: "node t b" using free_lists_nodes [OF assms(1)] free_lists_list(3) [OF assms(1), of c] unfolding assms(2) by auto
  have prev: "words m (b + 8) = 0" using free_lists_list(1) [OF assms(1) ex(1)] assms(2) by simp
  let ?w = "words m" let ?h = "head_word t c"
  have hc: "?h \<in> control t" by (rule control_places(1) [OF ex(1)])
  have hne: "?h \<noteq> b + 8" "?h \<noteq> b + 12" using hc node_not_control [OF bn] by metis+
  define m1 where "m1 = store32 (matrix (of_nat t) (int (fst c)) (int (snd c))) (load32 m (next_of (of_nat b))) m"
  have w1: "words m1 = ?w(?h := ?w (b + 12))"
    unfolding m1_def words_control(4) [OF t ex(1)] words_links(2) [OF bn] ..
  have h1: "load32 m1 (matrix (of_nat t) (int (fst c)) (int (snd c))) = ?w (b + 12)"
    unfolding words_control(1) [OF t ex(1)] w1 by (rule fun_upd_same)
  define m2 where "m2 = (if ?w (b + 12) \<noteq> 0 then store32 (prev_of (?w (b + 12))) 0 m1 else clear_empty (of_nat t) (int (fst c)) (int (snd c)) m1)"
  have "EXTRACT_BLOCK_HDR (of_nat b) (of_nat t) (int (fst c)) (int (snd c)) m = store32 (next_of (of_nat b)) 0 (store32 (prev_of (of_nat b)) 0 m2)"
    unfolding EXTRACT_BLOCK_HDR_def Let_def m1_def [symmetric] h1 m2_def ..
  then have lhs: "words (EXTRACT_BLOCK_HDR (of_nat b) (of_nat t) (int (fst c)) (int (snd c)) m) = (words m2)(b + 8 := 0, b + 12 := 0)"
    by (simp only: words_links(3,4) [OF bn])
  show ?thesis
  proof (cases "?w (b + 12) = 0")
    case True
    have "words m2 = clear_w t c (?w(?h := 0))"
      using True by (simp add: m2_def words_clear_empty [OF t ex(1)] w1)
    then show ?thesis unfolding lhs using True prev ex(4) hne by (simp add: extract_w_def unlink_def Let_def)
  next
    case False
    let ?n = "unat (?w (b + 12))"
    have nn: "node t ?n" using ex(2) False by blast
    have "?n \<noteq> b" using ex(3) by (metis of_nat_unat ucast_id)
    have h2: "?h \<noteq> ?n + 8" using hc node_not_control [OF nn] by metis
    have un: "unlink b ?w = ?w(?n + 8 := 0)"
      using False prev \<open>?n \<noteq> b\<close> by (simp add: unlink_def Let_def)
    have "words m2 = ?w(?h := ?w (b + 12), ?n + 8 := 0)"
      using False by (simp only: m2_def words_links_ptr(1) [OF nn] w1 if_True not_False_eq_True)
    moreover have "?w(?h := ?w (b + 12), ?n + 8 := 0) = ?w(?n + 8 := 0, ?h := ?w (b + 12))"
      using h2 by (rule fun_upd_twist)
    moreover have "(?w(?n + 8 := 0)) (b + 12) = ?w (b + 12)" using node_fields_distinct(2) [OF bn nn] by simp
    ultimately show ?thesis unfolding lhs extract_w_def un Let_def using False h2 ex(4) by simp
  qed
qed

lemma EXTRACT_BLOCK_HDR_lists:
  assumes "free_lists t (words m) L" "L c = b # vs"
  defines "m' \<equiv> EXTRACT_BLOCK_HDR (of_nat b) (of_nat t) (int (fst c)) (int (snd c)) m"
  shows "free_lists t (words m') (L(c := vs))"
    "x \<notin> control t \<Longrightarrow> x \<notin> links (members L) \<Longrightarrow> words m' x = words m x"
  using extract_lists(1,2) [OF assms(1), of c "[]" b vs] assms(2) words_EXTRACT_BLOCK_HDR [OF assms(1,2)]
  unfolding m'_def by simp_all

section \<open>The search\<close>

definition class_index :: "nat \<times> nat \<Rightarrow> nat" where
  "class_index c = 32 * fst c + snd c"

lemma class_index_le:
  "snd c < 32 \<Longrightarrow> snd d < 32 \<Longrightarrow> class_index c \<le> class_index d \<longleftrightarrow> fst c < fst d \<or> fst c = fst d \<and> snd c \<le> snd d"
  unfolding class_index_def by linarith

lemma bit_above: "bit (x AND push_bit n (- 1) :: u32) i \<longleftrightarrow> bit x i \<and> n \<le> i"
  "bit (x AND NOT (mask n) :: u32) i \<longleftrightarrow> bit x i \<and> n \<le> i"
  by (auto simp: bit_and_iff bit_not_iff bit_mask_iff dest: bit_imp_le_length)

definition first_class :: "(nat \<times> nat \<Rightarrow> nat list) \<Rightarrow> nat \<times> nat \<Rightarrow> nat \<times> nat \<Rightarrow> bool" where
  "first_class L c d \<longleftrightarrow> class_ok d \<and> L d \<noteq> [] \<and> class_index c \<le> class_index d \<and>
     (\<forall>e. class_ok e \<longrightarrow> L e \<noteq> [] \<longrightarrow> class_index c \<le> class_index e \<longrightarrow> class_index d \<le> class_index e)"

lemma FIND_SUITABLE_BLOCK_first:
  assumes "free_lists t (words m) L" "class_ok c"
  defines "r \<equiv> FIND_SUITABLE_BLOCK (of_nat t) (int (fst c)) (int (snd c)) m"
  shows "(\<exists>d. first_class L c d \<and> r = (of_nat (hd (L d)), int (fst d), int (snd d))) \<or>
    (\<forall>d. class_ok d \<longrightarrow> class_index c \<le> class_index d \<longrightarrow> L d = []) \<and> fst r = 0"
proof -
  let ?w = "words m"
  have t: "4 dvd t" "t + 3184 < 4294967296" using free_lists_pool [OF assms(1)] by simp_all
  have bm: "bitmaps t ?w L" using assms(1) unfolding free_lists_def by blast
  have head: "load32 m (matrix (of_nat t) (int (fst d)) (int (snd d))) = of_nat (hd (L d))" if "class_ok d" "L d \<noteq> []" for d
    using dlist_head [OF free_lists_list(1) [OF assms(1) that(1)]] that(2) words_control(1) [OF t that(1)] by simp
  have slb: "load32 m (sl_bitmap (of_nat t) (int fl)) = ?w (sl_word t fl)" if "fl < 24" for fl
    using words_control(2) [OF t, of "(fl, 0)"] that by (simp add: class_ok_def)
  have flb: "load32 m (fl_bitmap (of_nat t)) = ?w (t + 8)" by (rule words_control(3) [OF t assms(2)])
  have c: "fst c < 24" "snd c < 32" using assms(2) by (simp_all add: class_ok_def)
  have bits: "bit (?w (sl_word t fl)) sl \<longleftrightarrow> L (fl, sl) \<noteq> []" if "fl < 24" "sl < 32" for fl sl
    using bitmaps_bit [OF bm, of "(fl, sl)"] that by (simp add: class_ok_def)
  define x where "x = ?w (sl_word t (fst c)) AND push_bit (snd c) (- 1)"
  define y where "y = ?w (t + 8) AND push_bit (fst c + 1) (- 1)"
  have bx: "bit x i \<longleftrightarrow> bit (?w (sl_word t (fst c))) i \<and> snd c \<le> i" for i unfolding x_def by (rule bit_above)
  have by_: "bit y i \<longleftrightarrow> bit (?w (t + 8)) i \<and> fst c + 1 \<le> i" for i unfolding y_def by (rule bit_above)
  have r: "r = (if x \<noteq> 0 then (load32 m (matrix (of_nat t) (int (fst c)) (ls_bit x)), int (fst c), ls_bit x)
      else if ls_bit y > 0 then
        (load32 m (matrix (of_nat t) (ls_bit y) (ls_bit (load32 m (sl_bitmap (of_nat t) (ls_bit y))))), ls_bit y,
         ls_bit (load32 m (sl_bitmap (of_nat t) (ls_bit y))))
      else (0, ls_bit y, int (snd c)))"
    unfolding r_def FIND_SUITABLE_BLOCK_def Let_def slb [OF c(1)] flb x_def y_def by (simp only: nat_int nat_int_add of_nat_1 [symmetric, where ?'a = int] refl)
  show ?thesis
  proof (cases "x = 0")
    case False
    from ls_bit_least [OF False] obtain k where k: "k < 32" "ls_bit x = int k" "bit x k" "\<forall>j<k. \<not> bit x j" by blast
    let ?d = "(fst c, k)"
    have "first_class L c ?d" unfolding first_class_def
    proof (intro conjI allI impI)
      show "class_ok ?d" using c k(1) by (simp add: class_ok_def)
      show "L ?d \<noteq> []" using k(3) bits [OF c(1) k(1)] by (simp add: bx)
      show "class_index c \<le> class_index ?d" using k(3) by (simp add: bx class_index_def)
      fix e assume e: "class_ok e" "L e \<noteq> []" "class_index c \<le> class_index e"
      then have "snd e < k \<Longrightarrow> fst e = fst c \<Longrightarrow> False"
        using k(4) bits [of "fst e" "snd e"] class_index_le [of c e] c
        by (cases e) (auto simp: bx class_ok_def)
      then show "class_index ?d \<le> class_index e"
        using e(1,3) class_index_le [of c e] class_index_le [of ?d e] c k(1) by (auto simp: class_ok_def)
    qed
    moreover from this have "load32 m (matrix (of_nat t) (int (fst c)) (int k)) = of_nat (hd (L ?d))"
      using head [of ?d] by (simp add: first_class_def)
    ultimately show ?thesis using False unfolding r by (auto simp: k(2) intro!: exI [of _ ?d])
  next
    case True
    have none: "L (fst c, i) = []" if "snd c \<le> i" "i < 32" for i
      using True that bits [OF c(1) that(2)] bx [of i] by simp
    show ?thesis
    proof (cases "y = 0")
      case False
      from ls_bit_least [OF False] obtain k where k: "ls_bit y = int k" "bit y k" "\<forall>j<k. \<not> bit y j" by blast
      then have kb: "fst c < k" "k < 24" "?w (sl_word t k) \<noteq> 0" using bm unfolding by_ bitmaps_def by auto
      from ls_bit_least [OF kb(3)] obtain j where j: "j < 32" "ls_bit (?w (sl_word t k)) = int j" "bit (?w (sl_word t k)) j"
        "\<forall>i<j. \<not> bit (?w (sl_word t k)) i" by blast
      let ?d = "(k, j)"
      have "first_class L c ?d" unfolding first_class_def
      proof (intro conjI allI impI)
        show "class_ok ?d" using kb j(1) by (simp add: class_ok_def)
        show "L ?d \<noteq> []" using j(3) bits [OF kb(2) j(1)] by simp
        show "class_index c \<le> class_index ?d" using kb(1) c(2) j(1) by (simp add: class_index_le)
        fix e assume e: "class_ok e" "L e \<noteq> []" "class_index c \<le> class_index e"
        then have eb: "fst e < 24" "snd e < 32" "bit (?w (sl_word t (fst e))) (snd e)" using bits [of "fst e" "snd e"] by (simp_all add: class_ok_def)
        have gt: "fst c < fst e"
          using none [of "snd e"] e eb(2) class_index_le [of c e] c(2) by (cases e) auto
        have "\<not> fst e < k"
        proof
          assume "fst e < k"
          then have "\<not> bit y (fst e)" using k(3) by blast
          then have "?w (sl_word t (fst e)) = 0" using gt eb(1) bm unfolding by_ bitmaps_def by auto
          with eb(3) show False by simp
        qed
        moreover have "fst e = k \<Longrightarrow> \<not> snd e < j" using eb(3) j(4) by blast
        ultimately show "class_index ?d \<le> class_index e" using eb(2) j(1) by (auto simp: class_index_le)
      qed
      moreover from this have "load32 m (matrix (of_nat t) (int k) (int j)) = of_nat (hd (L ?d))"
        using head [of ?d] by (simp add: first_class_def)
      ultimately show ?thesis using True kb(1) unfolding r by (auto simp: k(1) slb [OF kb(2)] j(2) intro!: exI [of _ ?d])
    next
      case y: True
      have "L d = []" if "class_ok d" "class_index c \<le> class_index d" for d
      proof (cases "fst d = fst c")
        case True
        then show ?thesis using none [of "snd d"] that class_index_le [of c d] c(2) by (cases d) (auto simp: class_ok_def)
      next
        case False
        then have "fst c < fst d" using that class_index_le [of c d] c(2) by (auto simp: class_ok_def)
        then have "?w (sl_word t (fst d)) = 0"
          using y bm that(1) by_ [of "fst d"] unfolding bitmaps_def class_ok_def by auto
        then show ?thesis using bitmaps_bit [OF bm that(1)] by simp
      qed
      then show ?thesis using True y unfolding r by simp
    qed
  qed
qed

end
