(* ===== verification/TlsfBlocks.thy ===== *)
theory TlsfBlocks
  imports TlsfLists
begin

text \<open>
  The blocks of the heap. From the end of the control structure on, the memory is tiled by
  blocks: a header of 8 bytes with the size, the two flags and, behind a free block, the
  address of that block, then the buffer. The last block has no buffer and ends the heap.
\<close>

section \<open>Headers\<close>

definition hdr :: "nat \<Rightarrow> bool \<Rightarrow> bool \<Rightarrow> u32" where
  "hdr n f pf = of_nat n OR (if f then 1 else 0) OR (if pf then 2 else 0)"

lemma low_bits:
  assumes "8 dvd n" "i < 3"
  shows "\<not> bit (of_nat n :: u32) i"
proof -
  have "(2::nat) ^ Suc i dvd 2 ^ 3" using assms(2) by (intro le_imp_power_dvd) simp
  then have "2 ^ Suc i dvd n" using assms(1) by (rule_tac dvd_trans) simp_all
  then obtain k where "n = 2 ^ i * (2 * k)" unfolding dvd_def by (auto simp: mult.assoc mult.left_commute)
  then have "n div 2 ^ i = 2 * k" by simp
  then have "\<not> bit n i" by (simp add: bit_iff_odd)
  then show ?thesis by (simp add: bit_of_nat_iff)
qed

lemma hdr_bits:
  assumes "8 dvd n"
  shows "bit (hdr n f pf) i \<longleftrightarrow> bit (of_nat n :: u32) i \<or> f \<and> i = 0 \<or> pf \<and> i = 1"
proof -
  have "bit (2 :: u32) i \<longleftrightarrow> i = 1" using bit_push_1 [of 1 i] by simp
  then show ?thesis by (auto simp: hdr_def bit_or_iff bit_1_iff)
qed

lemma flag_bits: "bit FREE_BLOCK i \<longleftrightarrow> i = 0" "bit PREV_FREE i \<longleftrightarrow> i = 1" "bit PREV_STATE i \<longleftrightarrow> i = 1"
  "bit BLOCK_SIZE i \<longleftrightarrow> 2 \<le> i \<and> i < 32"
proof -
  have "BLOCK_SIZE = NOT (mask 2)" by (simp add: BLOCK_SIZE_def mask_eq_exp_minus_1)
  moreover have "bit (NOT (mask 2) :: u32) i \<longleftrightarrow> 2 \<le> i \<and> i < 32" by (auto simp: bit_not_iff bit_mask_iff)
  ultimately show "bit BLOCK_SIZE i \<longleftrightarrow> 2 \<le> i \<and> i < 32" by (simp only:)
  show "bit FREE_BLOCK i \<longleftrightarrow> i = 0" "bit PREV_FREE i \<longleftrightarrow> i = 1" "bit PREV_STATE i \<longleftrightarrow> i = 1"
    using bit_push_1 [of 1 i] by (simp_all add: FREE_BLOCK_def PREV_FREE_def PREV_STATE_def bit_1_iff)
qed

lemma hdr_simps:
  assumes "8 dvd n"
  shows "hdr n f pf AND BLOCK_SIZE = of_nat n" "hdr n f pf OR FREE_BLOCK = hdr n True pf"
    "hdr n f pf OR PREV_FREE = hdr n f True" "hdr n f pf AND NOT FREE_BLOCK = hdr n False pf"
    "hdr n f pf AND NOT PREV_FREE = hdr n f False" "of_nat n OR FREE_BLOCK = hdr n True False"
    "of_nat n OR (hdr k g pf AND PREV_STATE) = (if 8 dvd k then hdr n False pf else of_nat n OR (hdr k g pf AND PREV_STATE))"
    "hdr n f pf AND FREE_BLOCK = 0 \<longleftrightarrow> \<not> f" "hdr n f pf AND PREV_FREE = 0 \<longleftrightarrow> \<not> pf"
proof -
  have low: "\<not> bit (of_nat n :: u32) 0" "\<not> bit (of_nat n :: u32) 1" using low_bits [OF assms] by simp_all
  have ge: "2 \<le> i \<and> i < 32" if "bit (of_nat n :: u32) i" for i
    using that low bit_imp_le_length [OF that] by (cases "i = 0"; cases "i = 1") simp_all
  show "hdr n f pf AND BLOCK_SIZE = of_nat n"
    by (rule bit_word_eqI) (use ge in \<open>auto simp: bit_and_iff hdr_bits [OF assms] flag_bits\<close>)
  show "hdr n f pf OR FREE_BLOCK = hdr n True pf" "hdr n f pf OR PREV_FREE = hdr n f True" "of_nat n OR FREE_BLOCK = hdr n True False"
    by (rule bit_word_eqI; auto simp: bit_or_iff hdr_bits [OF assms] flag_bits)+
  show "hdr n f pf AND NOT FREE_BLOCK = hdr n False pf" "hdr n f pf AND NOT PREV_FREE = hdr n f False"
    by (rule bit_word_eqI; auto simp: bit_and_iff bit_not_iff hdr_bits [OF assms] flag_bits dest: ge)+
  show "of_nat n OR (hdr k g pf AND PREV_STATE) = (if 8 dvd k then hdr n False pf else of_nat n OR (hdr k g pf AND PREV_STATE))"
  proof (cases "8 dvd k")
    case True
    have "of_nat n OR (hdr k g pf AND PREV_STATE) = hdr n False pf"
      using low_bits [OF True, of 1]
      by (intro bit_word_eqI) (auto simp: bit_or_iff bit_and_iff hdr_bits [OF assms] hdr_bits [OF True] flag_bits)
    then show ?thesis using True by simp
  qed simp
  have f0: "bit (hdr n f pf AND FREE_BLOCK) i \<longleftrightarrow> f \<and> i = 0" "bit (hdr n f pf AND PREV_FREE) i \<longleftrightarrow> pf \<and> i = 1" for i
    using low by (auto simp: bit_and_iff hdr_bits [OF assms] flag_bits)
  have zero: "x = 0 \<longleftrightarrow> (\<forall>i. \<not> bit x i)" for x :: u32
  proof
    show "x = 0" if "\<forall>i. \<not> bit x i" using that by (intro bit_word_eqI) simp
  qed simp
  show "hdr n f pf AND FREE_BLOCK = 0 \<longleftrightarrow> \<not> f" "hdr n f pf AND PREV_FREE = 0 \<longleftrightarrow> \<not> pf"
    unfolding zero f0 by auto
qed

lemma hdr_add:
  assumes "8 dvd n" "8 dvd k"
  shows "hdr n f pf + of_nat k = hdr (n + k) f pf"
proof -
  have sum: "hdr n f pf = of_nat n + ((if f then 1 else 0) + (if pf then 2 else 0))" if "8 dvd n" for n
  proof -
    have low: "\<not> bit (of_nat n :: u32) 0" "\<not> bit (of_nat n :: u32) (Suc 0)" using low_bits [OF that] by simp_all
    define g :: u32 where "g = (if f then 1 else 0) OR (if pf then 2 else 0)"
    have bg: "bit g i \<longleftrightarrow> f \<and> i = 0 \<or> pf \<and> i = 1" for i
      using bit_push_1 [of 1 i] by (auto simp: g_def bit_or_iff bit_1_iff)
    have "i \<noteq> 0 \<and> i \<noteq> Suc 0" if "bit (of_nat n :: u32) i" for i
      using low that by (cases "i = 0"; cases "i = Suc 0") simp_all
    then have "of_nat n AND g = 0" by (intro bit_word_eqI) (auto simp: bit_and_iff bg)
    then have "of_nat n + g = of_nat n OR g" by (rule disjunctive_add_eq_or)
    moreover have "g = (if f then 1 else 0) + (if pf then 2 else 0)" by (simp add: g_def)
    ultimately show ?thesis unfolding hdr_def g_def or.assoc by simp
  qed
  show ?thesis using sum [OF assms(1)] sum [of "n + k"] assms by simp
qed

section \<open>Blocks and their places\<close>

text \<open>A block is its size and whether it is free.\<close>

type_synonym block = "nat \<times> bool"

primrec extent :: "block list \<Rightarrow> nat" where
  "extent [] = 0"
| "extent (b # bs) = 8 + fst b + extent bs"

primrec placed :: "nat \<Rightarrow> block list \<Rightarrow> (nat \<times> block) list" where
  "placed q [] = []"
| "placed q (b # bs) = (q, b) # placed (q + 8 + fst b) bs"

lemma extent_append [simp]: "extent (xs @ ys) = extent xs + extent ys"
  by (induction xs) simp_all

lemma placed_append [simp]: "placed q (xs @ ys) = placed q xs @ placed (q + extent xs) ys"
  by (induction xs arbitrary: q) (simp_all add: ac_simps)

lemma placed_bounds: "(p, b) \<in> set (placed q bs) \<Longrightarrow> q \<le> p \<and> p + 8 + fst b \<le> q + extent bs \<and> b \<in> set bs"
  by (induction bs arbitrary: q) fastforce+

lemma placed_split:
  assumes "(p, b) \<in> set (placed q bs)"
  obtains xs ys where "bs = xs @ b # ys" "p = q + extent xs"
proof -
  from assms have "\<exists>xs ys. bs = xs @ b # ys \<and> p = q + extent xs"
  proof (induction bs arbitrary: q)
    case (Cons a bs)
    show ?case
    proof (cases "p = q \<and> b = a")
      case True
      then show ?thesis by (intro exI [of _ "[]"] exI [of _ bs]) simp
    next
      case False
      then have "(p, b) \<in> set (placed (q + 8 + fst a) bs)" using Cons.prems by auto
      from Cons.IH [OF this] obtain xs ys where "bs = xs @ b # ys" "p = q + 8 + fst a + extent xs" by blast
      then show ?thesis by (intro exI [of _ "a # xs"] exI [of _ ys]) simp
    qed
  qed simp
  with that show thesis by blast
qed

text \<open>Two blocks are the same or do not overlap.\<close>

lemma placed_disjoint:
  assumes "(p, a) \<in> set (placed q bs)" "(p', b) \<in> set (placed q bs)"
  shows "p = p' \<and> a = b \<or> p + 8 + fst a \<le> p' \<or> p' + 8 + fst b \<le> p"
  using assms
proof (induction bs arbitrary: q)
  case (Cons c bs)
  from Cons.prems consider "p = q \<and> a = c" "p' = q \<and> b = c" | "p = q \<and> a = c" "(p', b) \<in> set (placed (q + 8 + fst c) bs)"
    | "(p, a) \<in> set (placed (q + 8 + fst c) bs)" "p' = q \<and> b = c"
    | "(p, a) \<in> set (placed (q + 8 + fst c) bs)" "(p', b) \<in> set (placed (q + 8 + fst c) bs)" by auto
  then show ?case
  proof cases
    case 2
    then show ?thesis using placed_bounds [OF 2(2)] by simp
  next
    case 3
    then show ?thesis using placed_bounds [OF 3(1)] by simp
  qed (use Cons.IH in simp_all)
qed simp

text \<open>
  The headers of the blocks from \<open>q\<close> on; \<open>pf\<close> says that the block before is free, and \<open>p\<close>
  is its address.
\<close>

primrec heads :: "(nat \<Rightarrow> u32) \<Rightarrow> nat \<Rightarrow> bool \<Rightarrow> nat \<Rightarrow> block list \<Rightarrow> bool" where
  "heads w q pf p [] \<longleftrightarrow> True"
| "heads w q pf p (b # bs) \<longleftrightarrow> w (q + 4) = hdr (fst b) (snd b) pf \<and> (pf \<longrightarrow> w q = of_nat p) \<and>
     heads w (q + 8 + fst b) (snd b) q bs"

definition last_free :: "bool \<Rightarrow> block list \<Rightarrow> bool" where
  "last_free pf xs = (if xs = [] then pf else snd (last xs))"

definition last_place :: "nat \<Rightarrow> nat \<Rightarrow> block list \<Rightarrow> nat" where
  "last_place q p xs = (if xs = [] then p else q + extent (butlast xs))"

lemma last_Nil [simp]: "last_free pf [] = pf" "last_place q p [] = p"
  by (simp_all add: last_free_def last_place_def)

lemma last_snoc [simp]: "last_free pf (xs @ [b]) = snd b" "last_place q p (xs @ [b]) = q + extent xs"
  by (simp_all add: last_free_def last_place_def)

lemma last_Cons_step: "last_free pf (b # xs) = last_free (snd b) xs" "last_place q p (b # xs) = last_place (q + 8 + fst b) q xs"
  by (simp_all add: last_free_def last_place_def)

lemma heads_append:
  "heads w q pf p (xs @ ys) \<longleftrightarrow> heads w q pf p xs \<and> heads w (q + extent xs) (last_free pf xs) (last_place q p xs) ys"
  by (induction xs arbitrary: q pf p) (simp_all add: last_Cons_step ac_simps)

lemma heads_cong:
  "(\<And>x b. (x, b) \<in> set (placed q bs) \<Longrightarrow> w x = v x \<and> w (x + 4) = v (x + 4)) \<Longrightarrow> heads w q pf p bs \<longleftrightarrow> heads v q pf p bs"
proof (induction bs arbitrary: q pf p)
  case (Cons b bs)
  have "w q = v q" "w (q + 4) = v (q + 4)" using Cons.prems [of q b] by simp_all
  moreover have "heads w (q + 8 + fst b) (snd b) q bs = heads v (q + 8 + fst b) (snd b) q bs"
  proof (rule Cons.IH)
    fix x c
    assume "(x, c) \<in> set (placed (q + 8 + fst b) bs)"
    then show "w x = v x \<and> w (x + 4) = v (x + 4)" using Cons.prems [of x c] by simp
  qed
  ultimately show ?case by simp
qed simp

text \<open>Some blocks are replaced by others of the same extent; the header of the next block changes with them.\<close>

lemma heads_replace:
  assumes "heads w q pf p (xs @ zs @ y # ys)" "extent zs' = extent zs"
    "\<And>x b. (x, b) \<in> set (placed q xs) \<Longrightarrow> v x = w x \<and> v (x + 4) = w (x + 4)"
    "\<And>x b. (x, b) \<in> set (placed (q + extent xs + extent zs + 8 + fst y) ys) \<Longrightarrow> v x = w x \<and> v (x + 4) = w (x + 4)"
    "heads v (q + extent xs) (last_free pf xs) (last_place q p xs) (zs' @ [y])"
  shows "heads v q pf p (xs @ zs' @ y # ys)"
proof -
  have "heads w q pf p xs" "heads w (q + extent xs + extent zs + 8 + fst y) (snd y) (q + extent xs + extent zs) ys"
    using assms(1) by (simp_all add: heads_append)
  then have "heads v q pf p xs" "heads v (q + extent xs + extent zs + 8 + fst y) (snd y) (q + extent xs + extent zs) ys"
    using heads_cong [of q xs v w] heads_cong [of _ ys v w] assms(3,4) by blast+
  then show ?thesis using assms(2,5) by (simp add: heads_append)
qed

end
