(* ===== verification/TlsfHeap.thy ===== *)
theory TlsfHeap
  imports TlsfBlocks
begin

text \<open>
  The invariant of the heap: its blocks, their headers and its free lists belong together.
  \<open>malloc_ex\<close> and \<open>free_ex\<close> keep it, and on the list of blocks they are carving a free
  block and joining neighbours.
\<close>

section \<open>The invariant\<close>

definition class_of :: "nat \<Rightarrow> nat \<times> nat" where
  "class_of n = (case MAPPING_INSERT (of_nat n) of (fl, sl) \<Rightarrow> (nat fl, nat sl))"

lemma class_of:
  assumes "n < 1073741824"
  shows "MAPPING_INSERT (of_nat n) = (int (fst (class_of n)), int (snd (class_of n)))" "class_ok (class_of n)"
proof -
  obtain fl sl where c: "MAPPING_INSERT (of_nat n) = (int fl, int sl)" "sl < 32" "class_low fl sl \<le> unat (of_nat n :: u32)"
    using MAPPING_INSERT_class [of "of_nat n"] by metis
  have "fl < 24"
  proof (rule ccontr)
    assume "\<not> fl < 24"
    then have "class_low 24 0 \<le> class_low fl sl"
      using class_low_mono_fl [of 24 fl 0 sl] class_low_mono_sl [of 0 sl 24] by (cases "fl = 24") auto
    then show False using c(3) assms by (simp add: class_low_def u32_of_nat_unat)
  qed
  then show "MAPPING_INSERT (of_nat n) = (int (fst (class_of n)), int (snd (class_of n)))" "class_ok (class_of n)"
    using c(1,2) by (simp_all add: class_of_def class_ok_def)
qed

text \<open>The free blocks, with their addresses and sizes, and that the lists have exactly these.\<close>

definition frees :: "nat \<Rightarrow> block list \<Rightarrow> (nat \<times> nat) set" where
  "frees q bs = {(p, n). (p, n, True) \<in> set (placed q bs)}"

lemma frees_simps [simp]:
  "frees q [] = {}" "frees q ((n, True) # bs) = insert (q, n) (frees (q + 8 + n) bs)"
  "frees q ((n, False) # bs) = frees (q + 8 + n) bs" "frees q (xs @ ys) = frees q xs \<union> frees (q + extent xs) ys"
  by (auto simp: frees_def)

lemma frees_bounds: "(p, n) \<in> frees q bs \<Longrightarrow> q \<le> p \<and> p + 8 + n \<le> q + extent bs"
  unfolding frees_def using placed_bounds [of p "(n, True)" q bs] by auto

definition listed :: "(nat \<times> nat \<Rightarrow> nat list) \<Rightarrow> (nat \<times> nat) set \<Rightarrow> bool" where
  "listed L F \<longleftrightarrow> (\<forall>c. set (L c) = {p. \<exists>n. (p, n) \<in> F \<and> class_of n = c})"

lemma listed_members: "listed L F \<Longrightarrow> members L = fst ` F"
  unfolding listed_def members_def by force

lemma listed_insert: "listed L F \<Longrightarrow> listed (L(class_of n := p # L (class_of n))) (insert (p, n) F)"
  unfolding listed_def by auto

lemma listed_remove:
  assumes "listed L (insert (p, n) F)" "L (class_of n) = us @ p # vs" "distinct (us @ p # vs)" "p \<notin> fst ` F"
  shows "listed (L(class_of n := us @ vs)) F"
  unfolding listed_def
proof
  fix c
  have "set (L c) = {q. \<exists>k. (q, k) \<in> insert (p, n) F \<and> class_of k = c}" using assms(1) unfolding listed_def by blast
  moreover have "set (us @ vs) = set (us @ p # vs) - {p}" using assms(3) by auto
  moreover have "(p, k) \<notin> F" for k using assms(4) by force
  ultimately show "set ((L(class_of n := us @ vs)) c) = {q. \<exists>k. (q, k) \<in> F \<and> class_of k = c}"
    unfolding assms(2) [symmetric] by auto
qed

text \<open>Neighbours are not both free; sizes are multiples of 8, and only the last block has none.\<close>

abbreviation not_both_free :: "block \<Rightarrow> block \<Rightarrow> bool" where
  "not_both_free a b \<equiv> \<not> (snd a \<and> snd b)"

definition good_blocks :: "block list \<Rightarrow> bool" where
  "good_blocks bs \<longleftrightarrow> bs \<noteq> [] \<and> last bs = (0, False) \<and> (\<forall>b\<in>set (butlast bs). 8 \<le> fst b) \<and>
     (\<forall>b\<in>set bs. 8 dvd fst b) \<and> successively not_both_free bs"

definition room :: "nat \<Rightarrow> block list \<Rightarrow> bool" where
  "room t bs \<longleftrightarrow> 4 dvd t \<and> t + 3184 + extent bs + 8 \<le> 4294967296 \<and> extent bs < 1073741824"

definition heap :: "nat \<Rightarrow> block list \<Rightarrow> (nat \<times> nat \<Rightarrow> nat list) \<Rightarrow> mem \<Rightarrow> bool" where
  "heap t bs L m \<longleftrightarrow> good_blocks bs \<and> room t bs \<and> heads (words m) (t + 3184) False 0 bs \<and>
     free_lists t (words m) L \<and> listed L (frees (t + 3184) bs)"

lemma extent_dvd: "\<forall>b\<in>set bs. 8 dvd fst b \<Longrightarrow> 8 dvd extent bs"
  by (induction bs) simp_all

lemma placed_node:
  assumes "room t bs" "\<forall>b\<in>set bs. 8 dvd fst b" "(p, b) \<in> set (placed (t + 3184) bs)"
  shows "node t p"
proof -
  obtain xs ys where s: "bs = xs @ b # ys" "p = t + 3184 + extent xs" using placed_split [OF assms(3)] .
  have "8 dvd extent xs" using assms(2) s(1) by (intro extent_dvd) auto
  then have "8 dvd 3184 + extent xs" by simp
  then have "p mod 8 = t mod 8" unfolding s(2) by (metis add.assoc mod_add_right_eq dvd_eq_mod_eq_0 add_0_right)
  then show ?thesis using assms(1) s by (simp add: node_def room_def)
qed

lemma placed_inner:
  assumes "room t bs" "\<forall>b\<in>set bs. 8 dvd fst b" "(p, b) \<in> set (placed (t + 3184) bs)" "8 \<le> fst b"
  shows "at_word (p + 8 + fst b)" "at_word (p + 12 + fst b)" "p + 8 + fst b + 8 \<le> 4294967296"
proof -
  have n: "4 dvd p" using node_dvd [OF placed_node [OF assms(1-3)]] .
  have d: "4 dvd fst b" using assms(2) placed_bounds [OF assms(3)] dvd_trans [of 4 8 "fst b"] by auto
  show u: "p + 8 + fst b + 8 \<le> 4294967296" using placed_bounds [OF assms(3)] assms(1) by (simp add: room_def)
  have "4 dvd p + 8 + fst b" "4 dvd p + 12 + fst b" using n d by (simp_all add: dvd_add)
  then show "at_word (p + 8 + fst b)" "at_word (p + 12 + fst b)" using u by (simp_all add: at_word_def)
qed

section \<open>What the list macros leave alone\<close>

lemma free_lists_cong:
  assumes "free_lists t w L" "\<And>x. x \<in> control t \<or> x \<in> links (members L) \<Longrightarrow> v x = w x"
  shows "free_lists t v L"
proof -
  have "linked t v L" unfolding linked_def
  proof (intro allI impI)
    fix c assume c: "class_ok c"
    have "v (head_word t c) = w (head_word t c)" using assms(2) control_places(1) [OF c] by blast
    moreover have "dlist v h 0 (L c) = dlist w h 0 (L c)" for h
      using assms(2) free_lists_list(3) [OF assms(1), of c] by (intro dlist_cong conjI assms(2) disjI2) (auto simp: links_def)
    ultimately show "dlist v (v (head_word t c)) 0 (L c)" using free_lists_list(1) [OF assms(1) c] by simp
  qed
  moreover have "bitmaps t v L"
    by (rule bitmaps_cong [of t w L]) (use assms in \<open>simp_all add: free_lists_def\<close>)
  ultimately show ?thesis using assms(1) unfolding free_lists_def by blast
qed

lemma free_lists_upd:
  "free_lists t w L \<Longrightarrow> x \<notin> control t \<Longrightarrow> x \<notin> links (members L) \<Longrightarrow> free_lists t (w(x := v)) L"
  by (erule free_lists_cong) auto

text \<open>The headers of all blocks and the buffers of the used ones.\<close>

definition stable :: "nat \<Rightarrow> block list \<Rightarrow> nat \<Rightarrow> bool" where
  "stable q bs x \<longleftrightarrow> (\<exists>p b. (p, b) \<in> set (placed q bs) \<and> (x = p \<or> x = p + 4 \<or> \<not> snd b \<and> p + 8 \<le> x \<and> x < p + 8 + fst b))"

lemma stable_head: "(p, b) \<in> set (placed q bs) \<Longrightarrow> stable q bs p" "(p, b) \<in> set (placed q bs) \<Longrightarrow> stable q bs (p + 4)"
  unfolding stable_def by blast+

lemma stable_buffer: "(p, n, False) \<in> set (placed q bs) \<Longrightarrow> p + 8 \<le> x \<Longrightarrow> x < p + 8 + n \<Longrightarrow> stable q bs x"
  unfolding stable_def by force

lemma stable_safe:
  assumes "listed L (frees (t + 3184) bs)" "\<forall>b\<in>set bs. snd b \<longrightarrow> 8 \<le> fst b" "stable (t + 3184) bs x"
  shows "x \<notin> control t" "x \<notin> links (members L)"
proof -
  obtain p b where b: "(p, b) \<in> set (placed (t + 3184) bs)" "x = p \<or> x = p + 4 \<or> \<not> snd b \<and> p + 8 \<le> x \<and> x < p + 8 + fst b"
    using assms(3) unfolding stable_def by blast
  show "x \<notin> control t" using placed_bounds [OF b(1)] b(2) by (auto simp: control_def)
  show "x \<notin> links (members L)"
  proof
    assume "x \<in> links (members L)"
    then obtain f k where f: "(f, k, True) \<in> set (placed (t + 3184) bs)" "x = f + 8 \<or> x = f + 12"
      unfolding listed_members [OF assms(1)] by (auto simp: links_def frees_def)
    then have "8 \<le> k" using assms(2) placed_bounds [OF f(1)] by auto
    then show False using placed_disjoint [OF b(1) f(1)] b(2) f(2) by auto
  qed
qed

lemma good_blocksD:
  assumes "good_blocks bs"
  shows "\<forall>b\<in>set bs. snd b \<longrightarrow> 8 \<le> fst b" "\<forall>b\<in>set bs. 8 dvd fst b"
proof -
  have "b \<in> set (butlast bs) \<or> b = (0, False)" if "b \<in> set bs" for b
    using that assms unfolding good_blocks_def by (metis append_butlast_last_id in_set_conv_decomp list.set_intros(1) rotate1.simps(2) set_ConsD set_rotate1)
  then show "\<forall>b\<in>set bs. snd b \<longrightarrow> 8 \<le> fst b" using assms unfolding good_blocks_def by (metis snd_conv)
  show "\<forall>b\<in>set bs. 8 dvd fst b" using assms by (simp add: good_blocks_def)
qed

text \<open>A free block has a used block behind it and does not follow a free one.\<close>

lemma good_blocks_free:
  assumes "good_blocks (xs @ (n, True) # ys)"
  obtains y ys' where "ys = y # ys'" "\<not> snd y" "last_free False xs = False" "8 \<le> n" "8 dvd n"
proof -
  have "ys \<noteq> []" using assms by (auto simp: good_blocks_def)
  then obtain y ys' where y: "ys = y # ys'" by (cases ys) auto
  have s: "successively not_both_free (xs @ (n, True) # ys)" using assms by (simp add: good_blocks_def)
  have "\<not> snd y" using s y by (simp add: successively_append_iff)
  moreover have "last_free False xs = False" using s by (auto simp: last_free_def successively_append_iff)
  moreover have "8 \<le> n" "8 dvd n" using good_blocksD [OF assms] by simp_all
  ultimately show thesis using that y by blast
qed

section \<open>Taking a free block from its list\<close>

lemma room_same: "room t bs \<Longrightarrow> extent bs' = extent bs \<Longrightarrow> room t bs'"
  by (simp add: room_def)

lemma room_size: "room t bs \<Longrightarrow> b \<in> set bs \<Longrightarrow> fst b < 1073741824"
proof -
  have "b \<in> set bs \<Longrightarrow> fst b \<le> extent bs" by (induction bs) auto
  then show "room t bs \<Longrightarrow> b \<in> set bs \<Longrightarrow> fst b < 1073741824" by (simp add: room_def)
qed

text \<open>The lists, for blocks some of which may be in transit.\<close>

definition lists_for :: "nat \<Rightarrow> block list \<Rightarrow> (nat \<times> nat \<Rightarrow> nat list) \<Rightarrow> (nat \<Rightarrow> u32) \<Rightarrow> bool" where
  "lists_for t bs L w \<longleftrightarrow> room t bs \<and> (\<forall>b\<in>set bs. 8 dvd fst b) \<and> (\<forall>b\<in>set bs. snd b \<longrightarrow> 8 \<le> fst b) \<and>
     free_lists t w L \<and> listed L (frees (t + 3184) bs)"

lemma heap_lists_for: "heap t bs L m \<Longrightarrow> lists_for t bs L (words m)"
  using good_blocksD by (auto simp: heap_def lists_for_def)

lemma lists_for_safe: "lists_for t bs L w \<Longrightarrow> stable (t + 3184) bs x \<Longrightarrow> x \<notin> control t \<and> x \<notin> links (members L)"
  using stable_safe [of L t bs x] by (simp add: lists_for_def)

lemma lists_for_upd: "lists_for t bs L w \<Longrightarrow> stable (t + 3184) bs x \<Longrightarrow> lists_for t bs L (w(x := v))"
  using lists_for_safe [of t bs L w x] free_lists_upd [of t w L x v] by (simp add: lists_for_def)

lemma frees_block:
  assumes "8 dvd n"
  shows "frees q (xs @ (n, True) # ys) = insert (q + extent xs, n) (frees q (xs @ (n, False) # ys))"
    "q + extent xs \<notin> fst ` frees q (xs @ (n, False) # ys)"
proof -
  show "q + extent xs \<notin> fst ` frees q (xs @ (n, False) # ys)"
  proof
    assume "q + extent xs \<in> fst ` frees q (xs @ (n, False) # ys)"
    then obtain k where "(q + extent xs, k) \<in> frees q (xs @ (n, False) # ys)" by force
    then have "(q + extent xs, k) \<in> frees q xs \<or> (q + extent xs, k) \<in> frees (q + extent xs + 8 + n) ys" by simp
    then show False using frees_bounds [of "q + extent xs" k q xs] frees_bounds [of "q + extent xs" k "q + extent xs + 8 + n" ys] by auto
  qed
qed simp

text \<open>
  Removal of the free block behind \<open>xs\<close> from its list, by either macro: it is in transit,
  like a used block, and no header or buffer of a used block changes.
\<close>

lemma take_block:
  assumes "lists_for t (xs @ (n, True) # ys) L (words m)"
  defines "q \<equiv> t + 3184 + extent xs"
  obtains us vs where "L (class_of n) = us @ q # vs"
    "lists_for t (xs @ (n, False) # ys) (L(class_of n := us @ vs))
       (words (EXTRACT_BLOCK (of_nat q) (of_nat t) (int (fst (class_of n))) (int (snd (class_of n))) m))"
    "us = [] \<Longrightarrow> words (EXTRACT_BLOCK_HDR (of_nat q) (of_nat t) (int (fst (class_of n))) (int (snd (class_of n))) m) =
       words (EXTRACT_BLOCK (of_nat q) (of_nat t) (int (fst (class_of n))) (int (snd (class_of n))) m)"
    "\<And>x. stable (t + 3184) (xs @ (n, True) # ys) x \<Longrightarrow>
       words (EXTRACT_BLOCK (of_nat q) (of_nat t) (int (fst (class_of n))) (int (snd (class_of n))) m) x = words m x"
proof -
  have l: "room t (xs @ (n, True) # ys)" "free_lists t (words m) L" "listed L (frees (t + 3184) (xs @ (n, True) # ys))" "8 dvd n"
    using assms(1) by (simp_all add: lists_for_def)
  have "q \<in> set (L (class_of n))"
    using l(3) frees_block(1) [OF l(4), of "t + 3184" xs ys] unfolding listed_def q_def by auto
  then obtain us vs where s: "L (class_of n) = us @ q # vs" by (meson split_list)
  have d: "distinct (us @ q # vs)" using free_lists_list(2) [OF l(2), of "class_of n"] s by simp
  have "listed (L(class_of n := us @ vs)) (frees (t + 3184) (xs @ (n, False) # ys))"
  proof (rule listed_remove [where p = q and L = L, OF _ s d])
    show "listed L (insert (q, n) (frees (t + 3184) (xs @ (n, False) # ys)))" "q \<notin> fst ` frees (t + 3184) (xs @ (n, False) # ys)"
      using l(3) frees_block [OF l(4), of "t + 3184" xs ys] unfolding q_def by simp_all
  qed
  then have "lists_for t (xs @ (n, False) # ys) (L(class_of n := us @ vs))
       (words (EXTRACT_BLOCK (of_nat q) (of_nat t) (int (fst (class_of n))) (int (snd (class_of n))) m))"
    using EXTRACT_BLOCK_lists(1) [OF l(2) s] assms(1) room_same [OF l(1)] by (auto simp: lists_for_def)
  moreover have "words (EXTRACT_BLOCK_HDR (of_nat q) (of_nat t) (int (fst (class_of n))) (int (snd (class_of n))) m) =
       words (EXTRACT_BLOCK (of_nat q) (of_nat t) (int (fst (class_of n))) (int (snd (class_of n))) m)" if "us = []"
  proof -
    have "L (class_of n) = q # vs" using s that by simp
    note ex = extract_lists(3-7) [OF l(2) s] and hdr = words_EXTRACT_BLOCK_HDR [OF l(2) this]
    have "node t q" using free_lists_nodes [OF l(2)] free_lists_list(3) [OF l(2), of "class_of n"] s by auto
    from words_EXTRACT_BLOCK [OF this ex(5,1-3)] show ?thesis using hdr by simp
  qed
  moreover have "words (EXTRACT_BLOCK (of_nat q) (of_nat t) (int (fst (class_of n))) (int (snd (class_of n))) m) x = words m x"
    if "stable (t + 3184) (xs @ (n, True) # ys) x" for x
    using EXTRACT_BLOCK_lists(2) [OF l(2) s] lists_for_safe [OF assms(1) that] by blast
  ultimately show thesis using that s by blast
qed

text \<open>Insertion of the block behind \<open>xs\<close>.\<close>

lemma put_block:
  assumes "lists_for t (xs @ (n, False) # ys) L (words m)" "8 \<le> n"
  defines "q \<equiv> t + 3184 + extent xs"
  defines "m' \<equiv> INSERT_BLOCK (of_nat q) (of_nat t) (int (fst (class_of n))) (int (snd (class_of n))) m"
  shows "lists_for t (xs @ (n, True) # ys) (L(class_of n := q # L (class_of n))) (words m')"
    "stable (t + 3184) (xs @ (n, True) # ys) x \<Longrightarrow> words m' x = words m x"
proof -
  have l: "room t (xs @ (n, False) # ys)" "free_lists t (words m) L" "listed L (frees (t + 3184) (xs @ (n, False) # ys))" "8 dvd n"
    using assms(1) by (simp_all add: lists_for_def)
  let ?L = "L(class_of n := q # L (class_of n))"
  have c: "class_ok (class_of n)" using class_of(2) room_size [OF l(1), of "(n, False)"] by simp
  have qn: "node t q" unfolding q_def
    by (rule placed_node [OF l(1), of _ "(n, False)"]) (use assms(1) in \<open>auto simp: lists_for_def\<close>)
  have out: "q \<notin> members L"
    using frees_block(2) [OF l(4), of "t + 3184" xs ys] unfolding listed_members [OF l(3)] q_def .
  note ins = INSERT_BLOCK_lists [OF l(2) qn out c]
  have li: "listed ?L (frees (t + 3184) (xs @ (n, True) # ys))"
    using listed_insert [OF l(3), of n q] frees_block(1) [OF l(4), of "t + 3184" xs ys] unfolding q_def by simp
  then show lf: "lists_for t (xs @ (n, True) # ys) ?L (words m')"
    using ins(1) assms(1,2) room_same [OF l(1)] by (auto simp: lists_for_def m'_def)
  show "words m' x = words m x" if "stable (t + 3184) (xs @ (n, True) # ys) x"
  proof -
    have "members ?L = insert q (members L)"
    proof -
      have "members L = set (L (class_of n)) \<union> (\<Union>d\<in>- {class_of n}. set (L d))" unfolding members_def by blast
      then show ?thesis unfolding members_upd by simp
    qed
    then show ?thesis unfolding m'_def using ins(2) lists_for_safe [OF lf that] by simp
  qed
qed

end
