(* ===== verification/TlsfMalloc.thy ===== *)
theory TlsfMalloc
  imports TlsfHeap
begin

text \<open>
  \<open>malloc_ex\<close> on the list of blocks: it takes the first block of the first suitable list,
  and carves the request off it when what is left can hold a block.
\<close>

section \<open>The size that is searched for\<close>

definition request :: "u32 \<Rightarrow> u32" where
  "request sz = (if sz < MIN_BLOCK_SIZE then MIN_BLOCK_SIZE else ROUNDUP_SIZE sz)"

definition fit :: "u32 \<Rightarrow> nat" where
  "fit sz = unat (fst (MAPPING_SEARCH (request sz)))"

lemma unat_ROUNDUP_SIZE: "unat r + 7 < 4294967296 \<Longrightarrow> unat (ROUNDUP_SIZE r) = (unat r + 7) div 8 * 8"
proof -
  assume r: "unat r + 7 < 4294967296"
  have "MEM_ALIGN = push_bit 3 1 - 1" by (simp add: MEM_ALIGN_def)
  then have "unat (ROUNDUP_SIZE r) = unat (r + 7) div 2 ^ 3 * 2 ^ 3"
    unfolding ROUNDUP_SIZE_def using and_not_mask [of 3 "r + 7"] by (simp add: MEM_ALIGN_def)
  then show ?thesis using r by (simp add: unat_add_no_wrap)
qed

lemma request:
  assumes "unat sz \<le> 0x3E000000"
  shows "8 dvd unat (request sz)" "8 \<le> unat (request sz)" "unat sz \<le> unat (request sz)" "unat (request sz) \<le> 0x3E000000"
proof -
  let ?u = "(unat sz + 7) div 8"
  have r: "unat (request sz) = (if unat sz < 8 then 8 else 8 * ?u)"
    using assms unat_ROUNDUP_SIZE [of sz] by (simp add: request_def MIN_BLOCK_SIZE_def word_less_nat_alt)
  have u: "unat sz \<le> 8 * ?u" "8 * ?u \<le> unat sz + 7" by presburger+
  have "?u \<le> 0x7C00000" using assms by simp
  then show "8 dvd unat (request sz)" "8 \<le> unat (request sz)" "unat sz \<le> unat (request sz)" "unat (request sz) \<le> 0x3E000000"
    using u unfolding r by simp_all
qed

lemma search:
  assumes "unat sz \<le> 0x3E000000"
  obtains c where "MAPPING_SEARCH (request sz) = (of_nat (fit sz), int (fst c), int (snd c))" "class_ok c"
    "unat sz \<le> fit sz" "8 dvd fit sz" "8 \<le> fit sz" "fit sz < 1073741824"
    "\<And>n. n < 1073741824 \<Longrightarrow> fit sz \<le> n \<longleftrightarrow> class_index c \<le> class_index (class_of n)"
proof -
  note r = request [OF assms]
  have r4: "4 dvd unat (request sz)" using r(1) by (rule dvd_trans [rotated]) simp
  have le: "unat (request sz) \<le> 0xFC000000" using r(4) by simp
  obtain r' fl sl where s: "MAPPING_SEARCH (request sz) = (r', int fl, int sl)" "sl < 32" "class_low fl sl = unat r'"
    "unat (request sz) \<le> unat r'" "32 * (unat r' - unat (request sz)) \<le> unat (request sz)" "8 dvd unat r'"
    using MAPPING_SEARCH_class [OF r4 le] r(1) by metis
  have f: "fit sz = unat r'" by (simp add: fit_def s(1))
  have lim: "unat r' < 1073741824" using s(5) r(4) by linarith
  have "fl < 24"
  proof (rule ccontr)
    assume "\<not> fl < 24"
    then have "class_low 24 0 \<le> class_low fl sl"
      using class_low_mono_fl [of 24 fl 0 sl] class_low_mono_sl [of 0 sl 24] by (cases "fl = 24") auto
    then show False using s(3) lim by (simp add: class_low_def)
  qed
  with s(2) have ok: "class_ok (fl, sl)" by (simp add: class_ok_def)
  have "request sz \<le> 0xFC000000" using r(4) by (simp add: word_le_nat_alt)
  then have ord: "fit sz \<le> n \<longleftrightarrow> class_index (fl, sl) \<le> class_index (class_of n)" if "n < 1073741824" for n
    using search_insert_order [OF r4 _ s(1) class_of(1) [OF that]] class_of(2) [OF that] s(2) that
    by (auto simp: f word_le_nat_alt u32_of_nat_unat class_index_le class_ok_def)
  show thesis
  proof (rule that [OF _ ok])
    show "MAPPING_SEARCH (request sz) = (of_nat (fit sz), int (fst (fl, sl)), int (snd (fl, sl)))" using s(1) by (simp add: f)
  qed (use f s r lim ord in simp_all)
qed

section \<open>Replacing blocks\<close>

lemma heap_replace:
  assumes "heads w (t + 3184) False 0 (xs @ zs @ y # ys)" "extent zs' = extent zs"
    "good_blocks (xs @ zs' @ y # ys)" "lists_for t (xs @ zs' @ y # ys) L (words m)"
    "\<And>x b. (x, b) \<in> set (placed (t + 3184) xs) \<Longrightarrow> words m x = w x \<and> words m (x + 4) = w (x + 4)"
    "\<And>x b. (x, b) \<in> set (placed (t + 3184 + extent xs + extent zs + 8 + fst y) ys) \<Longrightarrow> words m x = w x \<and> words m (x + 4) = w (x + 4)"
    "heads (words m) (t + 3184 + extent xs) (last_free False xs) (last_place (t + 3184) 0 xs) (zs' @ [y])"
  shows "heap t (xs @ zs' @ y # ys) L m"
  using heads_replace [OF assms(1,2,5,6,7)] assms(3,4) by (simp add: heap_def lists_for_def)

lemma good_blocks_replace:
  assumes "good_blocks (xs @ zs @ y # ys)" "zs \<noteq> []" "zs' \<noteq> []" "\<forall>b\<in>set zs'. 8 dvd fst b \<and> 8 \<le> fst b"
    "successively not_both_free zs'" "snd (hd zs') \<Longrightarrow> \<not> last_free False xs" "snd (last zs') \<Longrightarrow> \<not> snd y"
  shows "good_blocks (xs @ zs' @ y # ys)"
proof -
  have s: "successively not_both_free xs" "successively not_both_free (y # ys)"
    using assms(1) by (simp_all add: good_blocks_def successively_append_iff)
  have "successively not_both_free (xs @ zs' @ y # ys)"
    using s assms(3,5,6,7) by (cases "xs = []") (auto simp: successively_append_iff last_free_def)
  then show ?thesis using assms(1,4) by (auto simp: good_blocks_def butlast_append split: if_splits)
qed

definition carve :: "nat \<Rightarrow> nat \<Rightarrow> block list" where
  "carve n s = (if 16 \<le> n - s then [(s, False), (n - s - 8, True)] else [(n, False)])"

lemma extent_carve: "extent (carve n s) = 8 + n"
  by (simp add: carve_def)

lemma carve_sizes: "8 dvd n \<Longrightarrow> 8 dvd s \<Longrightarrow> 8 \<le> n \<Longrightarrow> 8 \<le> s \<Longrightarrow> \<forall>b\<in>set (carve n s). 8 dvd fst b \<and> 8 \<le> fst b"
  by (auto simp: carve_def dvd_diff_nat)

section \<open>Steps of the code on the words\<close>

lemma words_size:
  assumes "at_word (p + 4)"
  shows "load32 m (size_of (of_nat p)) = words m (p + 4)" "words (store32 (size_of (of_nat p)) v m) = (words m)(p + 4 := v)"
  using load32_words [OF assms] words_store32 [OF assms] of_nat_fields(1) [of p] by simp_all

lemma block_size_words:
  assumes "at_word (p + 4)" "words m (p + 4) = hdr n f pf" "8 dvd n"
  shows "block_size m (of_nat p) = of_nat n"
  unfolding block_size_def words_size(1) [OF assms(1)] assms(2) by (rule hdr_simps(1) [OF assms(3)])

lemma next_block: "GET_NEXT_BLOCK (buffer (of_nat p)) (of_nat n) = of_nat (p + 8 + n)"
  by (simp add: buffer_def GET_NEXT_BLOCK_def)

lemma stable_append: "stable q (xs @ ys) x \<longleftrightarrow> stable q xs x \<or> stable (q + extent xs) ys x"
  unfolding stable_def by auto

lemma stable_Cons: "stable q (b # ys) x \<longleftrightarrow> x = q \<or> x = q + 4 \<or> \<not> snd b \<and> q + 8 \<le> x \<and> x < q + 8 + fst b \<or> stable (q + 8 + fst b) ys x"
  unfolding stable_def by auto

lemma stable_bounds: "stable q bs x \<Longrightarrow> q \<le> x \<and> x < q + extent bs"
  unfolding stable_def using placed_bounds by fastforce

text \<open>A word of the blocks before or behind the one that is worked on, without the header behind it.\<close>

definition outer :: "nat \<Rightarrow> block list \<Rightarrow> nat \<Rightarrow> block list \<Rightarrow> nat \<Rightarrow> bool" where
  "outer q xs r ys x \<longleftrightarrow> stable q xs x \<or> stable r ys x \<and> r + 8 \<le> x"

lemma outer_heads:
  "(x, b) \<in> set (placed q xs) \<Longrightarrow> outer q xs r ys x \<and> outer q xs r ys (x + 4)"
  "(x, b) \<in> set (placed (r + 8 + fst y) ys) \<Longrightarrow> outer q xs r (y # ys) x \<and> outer q xs r (y # ys) (x + 4)"
  using stable_head [of x b q xs] stable_head [of x b "r + 8 + fst y" ys] placed_bounds [of x b "r + 8 + fst y" ys]
  by (auto simp: outer_def stable_Cons)

lemma outer_buffer:
  assumes "(p, k, False) \<in> set (placed q (xs @ (n, f) # ys))" "p \<noteq> q + extent xs" "p + 8 \<le> x" "x < p + 8 + k"
  shows "outer q xs (q + extent xs + 8 + n) ys x"
proof -
  have "(p, k, False) \<in> set (placed q xs) \<or> (p, k, False) \<in> set (placed (q + extent xs + 8 + n) ys)" using assms(1,2) by auto
  then show ?thesis
  proof
    assume b: "(p, k, False) \<in> set (placed (q + extent xs + 8 + n) ys)"
    then have "q + extent xs + 8 + n + 8 \<le> x" using placed_bounds [OF b] assms(3) by simp
    then show ?thesis using stable_buffer [OF b assms(3,4)] by (simp add: outer_def)
  qed (use stable_buffer [OF _ assms(3,4)] in \<open>auto simp: outer_def\<close>)
qed

text \<open>The two ways in which \<open>malloc_ex\<close> goes on with the block that it has taken.\<close>

definition carve_mem :: "nat \<Rightarrow> nat \<Rightarrow> nat \<Rightarrow> nat \<Rightarrow> mem \<Rightarrow> mem" where
  "carve_mem t q n s m =
     (let k = n - s - 8;
          m = store32 (size_of (of_nat (q + 8 + s))) (of_nat k OR FREE_BLOCK) m;
          m = store32 (of_nat (q + 8 + n)) (of_nat (q + 8 + s)) m;
          m = INSERT_BLOCK (of_nat (q + 8 + s)) (of_nat t) (int (fst (class_of k))) (int (snd (class_of k))) m
      in store32 (size_of (of_nat q)) (of_nat s OR (load32 m (size_of (of_nat q)) AND PREV_STATE)) m)"

definition whole_mem :: "nat \<Rightarrow> nat \<Rightarrow> mem \<Rightarrow> mem" where
  "whole_mem q n m =
     (let m = store32 (size_of (of_nat (q + 8 + n))) (load32 m (size_of (of_nat (q + 8 + n))) AND NOT PREV_FREE) m
      in store32 (size_of (of_nat q)) (load32 m (size_of (of_nat q)) AND NOT FREE_BLOCK) m)"

lemma heads_carved:
  "heads w q False p [(s, False), (k, True), y] \<longleftrightarrow> w (q + 4) = hdr s False False \<and> w (q + 8 + s + 4) = hdr k True False \<and>
     w (q + 8 + s + 8 + k + 4) = hdr (fst y) (snd y) True \<and> w (q + 8 + s + 8 + k) = of_nat (q + 8 + s)"
  by auto

lemma carve_heap:
  assumes "heads (words m0) (t + 3184) False 0 (xs @ (n, g) # y # ys)" "good_blocks (xs @ (n, True) # y # ys)"
    "lists_for t (xs @ (n, False) # y # ys) L (words m)" "8 dvd s" "8 \<le> s" "s + 16 \<le> n"
  defines "q \<equiv> t + 3184 + extent xs"
  assumes "words m (q + 4) = hdr n h False" "words m (q + 8 + n + 4) = hdr (fst y) (snd y) True"
    "\<And>x. outer (t + 3184) xs (q + 8 + n) (y # ys) x \<Longrightarrow> words m x = words m0 x"
  shows "\<exists>L'. heap t (xs @ [(s, False), (n - s - 8, True)] @ y # ys) L' (carve_mem t q n s m)"
    "outer (t + 3184) xs (q + 8 + n) (y # ys) x \<Longrightarrow> words (carve_mem t q n s m) x = words m0 x"
proof -
  let ?A = "t + 3184" let ?k = "n - s - 8" let ?p = "q + 8 + s" let ?r = "q + 8 + n"
  obtain yf: "\<not> snd y" and xf: "last_free False xs = False" and n8: "8 dvd n"
    using good_blocks_free [OF assms(2)] by auto
  have k: "8 dvd ?k" "8 \<le> ?k" using n8 assms(4,6) by (simp_all add: dvd_diff_nat)
  have rm: "room t (xs @ (n, False) # y # ys)" and dv: "\<forall>b\<in>set (xs @ (n, False) # y # ys). 8 dvd fst b"
    using assms(3) by (simp_all add: lists_for_def)
  let ?bs = "xs @ (s, False) # (?k, False) # y # ys"
  have ext: "extent ?bs = extent (xs @ (n, False) # y # ys)" using assms(6) by simp
  have rm2: "room t ?bs" by (rule room_same [OF rm ext])
  have fr: "frees ?A ?bs = frees ?A (xs @ (n, False) # y # ys)" using assms(6) by (simp add: add.assoc)
  have lf: "lists_for t ?bs L (words m)"
    using assms(3) rm2 k(1) assms(4) unfolding lists_for_def fr by auto
  have dv2: "\<forall>b\<in>set ?bs. 8 dvd fst b" using lf by (simp add: lists_for_def)
  have at: "at_word (q + 4)" "at_word (?p + 4)" "at_word ?r"
    using node_words [OF placed_node [OF rm2 dv2, of q "(s, False)"]] node_words [OF placed_node [OF rm2 dv2, of ?p "(?k, False)"]]
      node_words [OF placed_node [OF rm2 dv2, of ?r y]] assms(6) by (simp_all add: q_def)
  define m1 where "m1 = store32 (size_of (of_nat ?p)) (of_nat ?k OR FREE_BLOCK) m"
  define m2 where "m2 = store32 (of_nat ?r) (of_nat ?p) m1"
  define m3 where "m3 = INSERT_BLOCK (of_nat ?p) (of_nat t) (int (fst (class_of ?k))) (int (snd (class_of ?k))) m2"
  have w2: "words m2 = (words m)(?p + 4 := hdr ?k True False, ?r := of_nat ?p)"
    unfolding m2_def words_store32 [OF at(3)] m1_def words_size(2) [OF at(2)] hdr_simps(6) [OF k(1)] ..
  have "stable ?A ?bs (?p + 4)" "stable ?A ?bs ?r" using assms(6) by (simp_all add: stable_append stable_Cons q_def)
  then have lf2: "lists_for t ((xs @ [(s, False)]) @ (?k, False) # y # ys) L (words m2)"
    unfolding w2 using lists_for_upd lf by simp
  have pq: "t + 3184 + extent (xs @ [(s, False)]) = ?p" by (simp add: q_def)
  note put = put_block [OF lf2 k(2), unfolded pq, folded m3_def]
  let ?L = "L(class_of ?k := ?p # L (class_of ?k))" and ?cs = "xs @ [(s, False), (?k, True)] @ y # ys"
  have st: "words m3 x = words m2 x" if "stable ?A ?cs x" for x using put(2) that by simp
  have qst: "stable ?A ?cs (q + 4)" by (simp add: stable_append stable_Cons q_def)
  have w3q: "words m3 (q + 4) = hdr n h False"
    using st [OF qst] assms(5,6,8) unfolding w2 by simp
  have cm: "carve_mem t q n s m = store32 (size_of (of_nat q)) (of_nat s OR (load32 m3 (size_of (of_nat q)) AND PREV_STATE)) m3"
    unfolding carve_mem_def Let_def m1_def [symmetric] m2_def [symmetric] m3_def [symmetric] ..
  have w4: "words (carve_mem t q n s m) = (words m3)(q + 4 := hdr s False False)"
    unfolding cm words_size [OF at(1)] w3q using hdr_simps(7) [OF assms(4), of n h False] n8 by simp
  have out: "words (carve_mem t q n s m) x = words m0 x" if "outer ?A xs ?r (y # ys) x" for x
  proof -
    have "stable ?A ?cs x" "x \<noteq> q + 4" "x \<noteq> ?p + 4" "x \<noteq> ?r"
      using that stable_bounds [of ?A xs x] assms(6) by (auto simp: outer_def stable_append stable_Cons q_def)
    then show ?thesis using st assms(10) [OF that] unfolding w4 w2 by simp
  qed
  then show "outer ?A xs ?r (y # ys) x \<Longrightarrow> words (carve_mem t q n s m) x = words m0 x" .
  have "heap t ?cs ?L (carve_mem t q n s m)"
  proof (rule heap_replace [where w = "words m0" and zs = "[(n, g)]"])
    show "heads (words m0) ?A False 0 (xs @ [(n, g)] @ y # ys)" using assms(1) by simp
    show "extent [(s, False), (?k, True)] = extent [(n, g)]" using assms(6) by simp
    show "good_blocks ?cs"
      by (rule good_blocks_replace [of xs "[(n, True)]"]) (use assms(2,4,5) k yf in simp_all)
    show "lists_for t ?cs ?L (words (carve_mem t q n s m))"
      unfolding w4 using put(1) by (intro lists_for_upd [OF _ qst]) simp
    show "words (carve_mem t q n s m) x = words m0 x \<and> words (carve_mem t q n s m) (x + 4) = words m0 (x + 4)"
      if "(x, b) \<in> set (placed ?A xs)" for x b using outer_heads(1) [OF that] out by blast
    show "words (carve_mem t q n s m) x = words m0 x \<and> words (carve_mem t q n s m) (x + 4) = words m0 (x + 4)"
      if "(x, b) \<in> set (placed (?A + extent xs + extent [(n, g)] + 8 + fst y) ys)" for x b
    proof -
      have "(x, b) \<in> set (placed (?r + 8 + fst y) ys)" using that by (simp add: q_def ac_simps)
      from outer_heads(2) [OF this] out show ?thesis by blast
    qed
    have "stable ?A ?cs (?p + 4)" "stable ?A ?cs ?r" "stable ?A ?cs (?r + 4)" "?r \<noteq> q + 4" "?p + 4 \<noteq> ?r"
      using assms(6) by (simp_all add: stable_append stable_Cons q_def)
    then have "words (carve_mem t q n s m) (?p + 4) = hdr ?k True False" "words (carve_mem t q n s m) ?r = of_nat ?p"
      "words (carve_mem t q n s m) (?r + 4) = hdr (fst y) (snd y) True" "words (carve_mem t q n s m) (q + 4) = hdr s False False"
      using st assms(6,9) unfolding w4 w2 by simp_all
    moreover have "?p + 8 + ?k = ?r" using assms(6) by simp
    ultimately show "heads (words (carve_mem t q n s m)) (?A + extent xs) (last_free False xs) (last_place ?A 0 xs) ([(s, False), (?k, True)] @ [y])"
      unfolding q_def [symmetric] xf append.simps heads_carved by (simp only: HOL.simp_thms)
  qed
  then show "\<exists>L'. heap t ?cs L' (carve_mem t q n s m)" by blast
qed

lemma whole_heap:
  assumes "heads (words m0) (t + 3184) False 0 (xs @ (n, g) # y # ys)" "good_blocks (xs @ (n, True) # y # ys)"
    "lists_for t (xs @ (n, False) # y # ys) L (words m)"
  defines "q \<equiv> t + 3184 + extent xs"
  assumes "words m (q + 4) = hdr n True False" "words m (q + 8 + n + 4) = hdr (fst y) (snd y) True"
    "\<And>x. outer (t + 3184) xs (q + 8 + n) (y # ys) x \<Longrightarrow> words m x = words m0 x"
  shows "heap t (xs @ [(n, False)] @ y # ys) L (whole_mem q n m)"
    "outer (t + 3184) xs (q + 8 + n) (y # ys) x \<Longrightarrow> words (whole_mem q n m) x = words m0 x"
proof -
  let ?A = "t + 3184" let ?r = "q + 8 + n"
  obtain yf: "\<not> snd y" and xf: "last_free False xs = False" and n8: "8 dvd n" "8 \<le> n"
    using good_blocks_free [OF assms(2)] by auto
  have rm: "room t (xs @ (n, False) # y # ys)" and dv: "\<forall>b\<in>set (xs @ (n, False) # y # ys). 8 dvd fst b"
    using assms(3) by (simp_all add: lists_for_def)
  have at: "at_word (q + 4)" "at_word (?r + 4)"
    using node_words [OF placed_node [OF rm dv, of q "(n, False)"]] node_words [OF placed_node [OF rm dv, of ?r y]] by (simp_all add: q_def)
  have y8: "8 dvd fst y" using dv by simp
  have w: "words (whole_mem q n m) = (words m)(?r + 4 := hdr (fst y) (snd y) False, q + 4 := hdr n False False)"
    unfolding whole_mem_def Let_def words_size [OF at(1)] words_size [OF at(2)] assms(5,6)
    using assms(5) hdr_simps(5) [OF y8, of "snd y" True] hdr_simps(4) [OF n8(1), of True False] by simp
  have st: "stable ?A (xs @ (n, False) # y # ys) (q + 4)" "stable ?A (xs @ (n, False) # y # ys) (?r + 4)"
    by (simp_all add: stable_append stable_Cons q_def)
  have lf: "lists_for t (xs @ [(n, False)] @ y # ys) L (words (whole_mem q n m))"
    unfolding w using lists_for_upd [OF lists_for_upd [OF assms(3) st(2)] st(1)] by simp
  have out: "words (whole_mem q n m) x = words m0 x" if "outer ?A xs ?r (y # ys) x" for x
  proof -
    have "x \<noteq> q + 4" "x \<noteq> ?r + 4" using that stable_bounds [of ?A xs x] by (auto simp: outer_def q_def)
    then show ?thesis using assms(7) [OF that] unfolding w by simp
  qed
  then show "outer ?A xs ?r (y # ys) x \<Longrightarrow> words (whole_mem q n m) x = words m0 x" .
  show "heap t (xs @ [(n, False)] @ y # ys) L (whole_mem q n m)"
  proof (rule heap_replace [where w = "words m0" and zs = "[(n, g)]", OF _ _ _ lf])
    show "heads (words m0) ?A False 0 (xs @ [(n, g)] @ y # ys)" using assms(1) by simp
    show "extent [(n, False)] = extent [(n, g)]" by simp
    show "good_blocks (xs @ [(n, False)] @ y # ys)"
      by (rule good_blocks_replace [of xs "[(n, True)]"]) (use assms(2) n8 in simp_all)
    show "words (whole_mem q n m) x = words m0 x \<and> words (whole_mem q n m) (x + 4) = words m0 (x + 4)"
      if "(x, b) \<in> set (placed ?A xs)" for x b using outer_heads(1) [OF that] out by blast
    show "words (whole_mem q n m) x = words m0 x \<and> words (whole_mem q n m) (x + 4) = words m0 (x + 4)"
      if "(x, b) \<in> set (placed (?A + extent xs + extent [(n, g)] + 8 + fst y) ys)" for x b
    proof -
      have "(x, b) \<in> set (placed (?r + 8 + fst y) ys)" using that by (simp add: q_def ac_simps)
      from outer_heads(2) [OF this] out show ?thesis by blast
    qed
    show "heads (words (whole_mem q n m)) (?A + extent xs) (last_free False xs) (last_place ?A 0 xs) ([(n, False)] @ [y])"
      unfolding q_def [symmetric] xf w by simp
  qed
qed

definition take_mem :: "nat \<Rightarrow> nat \<Rightarrow> nat \<Rightarrow> nat \<Rightarrow> mem \<Rightarrow> mem" where
  "take_mem t q n s m = (if 16 \<le> n - s then carve_mem t q n s m else whole_mem q n m)"

lemma take_heap:
  assumes "heads (words m0) (t + 3184) False 0 (xs @ (n, g) # y # ys)" "good_blocks (xs @ (n, True) # y # ys)"
    "lists_for t (xs @ (n, False) # y # ys) L (words m)" "8 dvd s" "8 \<le> s"
  defines "q \<equiv> t + 3184 + extent xs"
  assumes "words m (q + 4) = hdr n True False" "words m (q + 8 + n + 4) = hdr (fst y) (snd y) True"
    "\<And>x. outer (t + 3184) xs (q + 8 + n) (y # ys) x \<Longrightarrow> words m x = words m0 x"
  shows "\<exists>L'. heap t (xs @ carve n s @ y # ys) L' (take_mem t q n s m)"
    "outer (t + 3184) xs (q + 8 + n) (y # ys) x \<Longrightarrow> words (take_mem t q n s m) x = words m0 x"
proof -
  have c: "s + 16 \<le> n" if "16 \<le> n - s" using that by simp
  note carved = carve_heap [OF assms(1-5) c, folded q_def, OF _ assms(7-9)]
  note whole = whole_heap [OF assms(1-3), folded q_def, OF assms(7-9)]
  show "\<exists>L'. heap t (xs @ carve n s @ y # ys) L' (take_mem t q n s m)"
    using carved(1) whole(1) by (cases "16 \<le> n - s") (auto simp: take_mem_def carve_def)
  show "outer (t + 3184) xs (q + 8 + n) (y # ys) x \<Longrightarrow> words (take_mem t q n s m) x = words m0 x"
    using carved(2) whole(2) by (cases "16 \<le> n - s") (simp_all add: take_mem_def)
qed

section \<open>malloc\<close>

lemma malloc_ex_none:
  assumes "MAPPING_SEARCH (request sz) = (s, fl, sl)" "fst (FIND_SUITABLE_BLOCK tp fl sl m) = 0"
  shows "malloc_ex sz tp m = (0, m)"
proof -
  obtain f s' where "FIND_SUITABLE_BLOCK tp fl sl m = (0, f, s')" using assms(2) by (metis prod.collapse)
  then show ?thesis unfolding malloc_ex_def request_def [symmetric] Let_def assms(1) by simp
qed

lemma malloc_ex_taken:
  assumes "MAPPING_SEARCH (request sz) = (of_nat s, fl, sl)" "FIND_SUITABLE_BLOCK (of_nat t) fl sl m = (of_nat q, fl', sl')"
    "(of_nat q :: u32) \<noteq> 0"
  defines "m1 \<equiv> EXTRACT_BLOCK_HDR (of_nat q) (of_nat t) fl' sl' m"
  assumes "block_size m1 (of_nat q) = of_nat n" "s \<le> n" "n < 1073741824"
  shows "malloc_ex sz (of_nat t) m = (of_nat (q + 8), take_mem t q n s m1)"
proof -
  have sub: "of_nat n - of_nat s = (of_nat (n - s) :: u32)" using assms(6) by (simp add: of_nat_diff)
  have n32: "n - s < 4294967296" using assms(7) by simp
  have cmp: "sizeof_bhdr \<le> of_nat (n - s) \<longleftrightarrow> 16 \<le> n - s"
    by (simp add: word_le_nat_alt sizeof_bhdr_def u32_of_nat_unat [OF n32])
  have k: "of_nat (n - s) - BHDR_OVERHEAD = (of_nat (n - s - 8) :: u32)" if "16 \<le> n - s"
    using that by (simp add: BHDR_OVERHEAD_def of_nat_diff)
  have c: "MAPPING_INSERT (of_nat (n - s - 8)) = (int (fst (class_of (n - s - 8))), int (snd (class_of (n - s - 8))))"
    using assms(7) by (intro class_of(1)) simp
  have buf: "buffer (of_nat q) = of_nat (q + 8)" by (simp add: buffer_def)
  show ?thesis
    unfolding malloc_ex_def request_def [symmetric] Let_def assms(1,2) prod.case m1_def [symmetric] assms(5) next_block sub cmp
      take_mem_def carve_mem_def whole_mem_def
    using assms(3) k by (cases "16 \<le> n - s") (simp_all only: if_True if_False c prod.case buf simp_thms)
qed

text \<open>The first block of a list, taken from it.\<close>

lemma first_block:
  assumes "heap t bs L m" "L d \<noteq> []"
  defines "m1 \<equiv> EXTRACT_BLOCK_HDR (of_nat (hd (L d))) (of_nat t) (int (fst d)) (int (snd d)) m"
  obtains xs n y ys L1 where "bs = xs @ (n, True) # y # ys" "hd (L d) = t + 3184 + extent xs" "class_of n = d" "n < 1073741824"
    "lists_for t (xs @ (n, False) # y # ys) L1 (words m1)" "\<And>x. stable (t + 3184) bs x \<Longrightarrow> words m1 x = words m x"
    "8 dvd n" "node t (hd (L d))" "words m1 (hd (L d) + 4) = hdr n True False"
    "words m1 (hd (L d) + 8 + n + 4) = hdr (fst y) (snd y) True"
proof -
  let ?A = "t + 3184"
  have h: "good_blocks bs" "room t bs" "free_lists t (words m) L" "listed L (frees ?A bs)" "heads (words m) ?A False 0 bs"
    using assms(1) by (simp_all add: heap_def)
  define q where "q = hd (L d)"
  have "q \<in> set (L d)" using assms(2) by (simp add: q_def)
  then obtain n where n: "(q, n, True) \<in> set (placed ?A bs)" "class_of n = d" using h(4) unfolding listed_def frees_def by blast
  then obtain xs ys0 where sp: "bs = xs @ (n, True) # ys0" "q = ?A + extent xs" by (meson placed_split)
  obtain y ys where y: "ys0 = y # ys" "last_free False xs = False" "8 dvd n"
    using good_blocks_free [of xs n ys0] h(1) sp(1) by metis
  have bs: "bs = xs @ (n, True) # y # ys" using sp(1) y(1) by simp
  have small: "n < 1073741824" using room_size [OF h(2), of "(n, True)"] by (simp add: sp(1))
  have lf: "lists_for t (xs @ (n, True) # y # ys) L (words m)" using heap_lists_for [OF assms(1)] bs by simp
  obtain us vs where tk: "L (class_of n) = us @ q # vs"
    "lists_for t (xs @ (n, False) # y # ys) (L(class_of n := us @ vs))
       (words (EXTRACT_BLOCK (of_nat q) (of_nat t) (int (fst (class_of n))) (int (snd (class_of n))) m))"
    "us = [] \<Longrightarrow> words (EXTRACT_BLOCK_HDR (of_nat q) (of_nat t) (int (fst (class_of n))) (int (snd (class_of n))) m) =
       words (EXTRACT_BLOCK (of_nat q) (of_nat t) (int (fst (class_of n))) (int (snd (class_of n))) m)"
    "\<And>x. stable ?A bs x \<Longrightarrow>
       words (EXTRACT_BLOCK (of_nat q) (of_nat t) (int (fst (class_of n))) (int (snd (class_of n))) m) x = words m x"
    using take_block [OF lf] unfolding bs sp(2) by metis
  have "distinct (us @ q # vs)" using free_lists_list(2) [OF h(3), of "class_of n"] tk(1) by simp
  moreover have "q = hd (us @ q # vs)" using tk(1) n(2) q_def by simp
  ultimately have us: "us = []" by (cases us) auto
  have m1: "words m1 = words (EXTRACT_BLOCK (of_nat q) (of_nat t) (int (fst (class_of n))) (int (snd (class_of n))) m)"
    using tk(3) [OF us] n(2) by (simp add: m1_def q_def)
  have nq: "node t q"
    by (rule placed_node [OF h(2) good_blocksD(2) [OF h(1)], of q "(n, True)"]) (simp add: bs sp(2))
  have "words m (q + 4) = hdr n True False" "words m (q + 8 + n + 4) = hdr (fst y) (snd y) True"
    using h(5) y(2) unfolding bs by (simp_all add: heads_append sp(2) ac_simps)
  moreover have "stable ?A bs (q + 4)" "stable ?A bs (q + 8 + n + 4)" unfolding bs by (simp_all add: stable_append stable_Cons sp(2))
  ultimately have hw: "words m1 (q + 4) = hdr n True False" "words m1 (q + 8 + n + 4) = hdr (fst y) (snd y) True"
    using tk(4) m1 by simp_all
  show thesis
    by (rule that [OF bs sp(2) [unfolded q_def] n(2) small tk(2) [folded m1] tk(4) [folded m1] y(3) nq [unfolded q_def] hw [unfolded q_def]])
qed

text \<open>
  What \<open>malloc_ex\<close> does with a heap of blocks \<open>bs\<close>: nothing, when no free block has the
  size that is searched for; else it turns a large enough free block into a used one, or into
  a used one of this size and a free one. Buffers of used blocks keep their contents.
\<close>

lemma malloc_ex_heap:
  assumes "heap t bs L m" "unat sz \<le> 0x3E000000"
  shows "malloc_ex sz (of_nat t) m = (0, m) \<and> (\<forall>(p, n)\<in>frees (t + 3184) bs. n < fit sz) \<or>
    (\<exists>xs n ys L' m'. bs = xs @ (n, True) # ys \<and> fit sz \<le> n \<and>
       malloc_ex sz (of_nat t) m = (of_nat (t + 3184 + extent xs + 8), m') \<and>
       heap t (xs @ carve n (fit sz) @ ys) L' m' \<and>
       (\<forall>p k x. (p, k, False) \<in> set (placed (t + 3184) bs) \<longrightarrow> p + 8 \<le> x \<longrightarrow> x < p + 8 + k \<longrightarrow> words m' x = words m x))"
proof -
  let ?A = "t + 3184" let ?s = "fit sz"
  obtain c where c: "MAPPING_SEARCH (request sz) = (of_nat ?s, int (fst c), int (snd c))" "class_ok c"
    "8 dvd ?s" "8 \<le> ?s" "\<And>n. n < 1073741824 \<Longrightarrow> ?s \<le> n \<longleftrightarrow> class_index c \<le> class_index (class_of n)"
    using search [OF assms(2)] by metis
  have h: "good_blocks bs" "room t bs" "heads (words m) ?A False 0 bs" "free_lists t (words m) L" "listed L (frees ?A bs)"
    using assms(1) by (simp_all add: heap_def)
  from FIND_SUITABLE_BLOCK_first [OF h(4) c(2)]
  consider d where "first_class L c d" "FIND_SUITABLE_BLOCK (of_nat t) (int (fst c)) (int (snd c)) m = (of_nat (hd (L d)), int (fst d), int (snd d))"
    | "\<forall>d. class_ok d \<longrightarrow> class_index c \<le> class_index d \<longrightarrow> L d = []" "fst (FIND_SUITABLE_BLOCK (of_nat t) (int (fst c)) (int (snd c)) m) = 0"
    by blast
  then show ?thesis
  proof cases
    case 2
    have "n < ?s" if f: "(p, n) \<in> frees ?A bs" for p n
    proof -
      have n: "n < 1073741824" using f room_size [OF h(2), of "(n, True)"] placed_bounds [of p "(n, True)" ?A bs] by (auto simp: frees_def)
      have "p \<in> set (L (class_of n))" using h(5) f unfolding listed_def by auto
      then have "\<not> class_index c \<le> class_index (class_of n)" using 2(1) class_of(2) [OF n] by (metis empty_iff list.set(1))
      then show ?thesis using c(5) [OF n] by simp
    qed
    then show ?thesis using malloc_ex_none [OF c(1) 2(2)] by blast
  next
    case 1
    have d: "L d \<noteq> []" "class_index c \<le> class_index d" using 1(1) by (simp_all add: first_class_def)
    define q where "q = hd (L d)"
    define m1 where "m1 = EXTRACT_BLOCK_HDR (of_nat q) (of_nat t) (int (fst d)) (int (snd d)) m"
    obtain xs n y ys L1 where f: "bs = xs @ (n, True) # y # ys" "q = ?A + extent xs" "class_of n = d" "n < 1073741824"
      "lists_for t (xs @ (n, False) # y # ys) L1 (words m1)" "\<And>x. stable ?A bs x \<Longrightarrow> words m1 x = words m x"
      "8 dvd n" "node t q" "words m1 (q + 4) = hdr n True False" "words m1 (q + 8 + n + 4) = hdr (fst y) (snd y) True"
      using first_block [OF assms(1) d(1)] unfolding m1_def q_def by metis
    have sn: "?s \<le> n" using c(5) [OF f(4)] f(3) d(2) by simp
    have bsz: "block_size m1 (of_nat q) = of_nat n" using block_size_words [OF node_words(2) [OF f(8)] f(9,7)] .
    have q0: "(of_nat q :: u32) \<noteq> 0" using f(8) by (simp add: node_def of_nat_u32_0)
    have out: "words m1 x = words m x" if "outer ?A xs (q + 8 + n) (y # ys) x" for x
      by (rule f(6)) (use that in \<open>auto simp: f(1) outer_def stable_append stable_Cons f(2)\<close>)
    have "heads (words m) ?A False 0 (xs @ (n, True) # y # ys)" "good_blocks (xs @ (n, True) # y # ys)" using h(1,3) f(1) by simp_all
    note tk = take_heap [OF this f(5) c(3,4), folded f(2), OF f(9,10) out]
    have "words (take_mem t q n ?s m1) x = words m x" if "(p, k, False) \<in> set (placed ?A bs)" "p + 8 \<le> x" "x < p + 8 + k" for p k x
    proof (rule tk(2))
      have "p \<noteq> q" using placed_disjoint [OF that(1), of q "(n, True)"] by (auto simp: f(1,2))
      then show "outer ?A xs (q + 8 + n) (y # ys) x"
        using outer_buffer [of p k ?A xs n True "y # ys" x] that unfolding f(1,2) by blast
    qed
    moreover obtain L' where "heap t (xs @ carve n ?s @ y # ys) L' (take_mem t q n ?s m1)" using tk(1) by blast
    moreover have "malloc_ex sz (of_nat t) m = (of_nat (?A + extent xs + 8), take_mem t q n ?s m1)"
      using malloc_ex_taken [OF c(1) 1(2) [folded q_def] q0, folded m1_def, OF bsz sn f(4)] f(2) by simp
    ultimately show ?thesis using sn f(1) by blast
  qed
qed

end
