(* ===== verification/TlsfFree.thy ===== *)
theory TlsfFree
  imports TlsfMalloc
begin

text \<open>
  \<open>free_ex\<close> on the list of blocks: the block becomes free and is joined with the free
  blocks before and behind it, so that no two neighbours are free.
\<close>

section \<open>Joining on the list of blocks\<close>

definition join_right :: "nat \<Rightarrow> block list \<Rightarrow> nat \<times> block list" where
  "join_right n ys = (if ys \<noteq> [] \<and> snd (hd ys) then (n + (fst (hd ys) + 8), tl ys) else (n, ys))"

definition join_left :: "block list \<Rightarrow> nat \<Rightarrow> block list \<times> nat" where
  "join_left xs n = (if last_free False xs then (butlast xs, fst (last xs) + (n + 8)) else (xs, n))"

definition freed :: "block list \<Rightarrow> nat \<Rightarrow> block list \<Rightarrow> block list" where
  "freed xs n ys = (let (n, ys) = join_right n ys; (xs, n) = join_left xs n in xs @ (n, True) # ys)"

section \<open>A block in transit\<close>

text \<open>
  The block behind \<open>xs\<close> is in no list. Its header says \<open>f\<close>; the header of the next block need
  not know about it yet.
\<close>

definition next_heads :: "(nat \<Rightarrow> u32) \<Rightarrow> nat \<Rightarrow> block list \<Rightarrow> bool" where
  "next_heads w r ys \<longleftrightarrow> (\<exists>g. w (r + 4) = hdr (fst (hd ys)) (snd (hd ys)) g) \<and>
     heads w (r + 8 + fst (hd ys)) (snd (hd ys)) r (tl ys)"

definition gap :: "nat \<Rightarrow> block list \<Rightarrow> nat \<Rightarrow> bool \<Rightarrow> block list \<Rightarrow> (nat \<times> nat \<Rightarrow> nat list) \<Rightarrow> mem \<Rightarrow> bool" where
  "gap t xs n f ys L m \<longleftrightarrow> lists_for t (xs @ (n, False) # ys) L (words m) \<and> good_blocks (xs @ (n, False) # ys) \<and> 8 \<le> n \<and>
     heads (words m) (t + 3184) False 0 xs \<and>
     words m (t + 3184 + extent xs + 4) = hdr n f (last_free False xs) \<and>
     (last_free False xs \<longrightarrow> words m (t + 3184 + extent xs) = of_nat (last_place (t + 3184) 0 xs)) \<and>
     next_heads (words m) (t + 3184 + extent xs + 8 + n) ys"

lemma heads_gap:
  assumes "heap t (xs @ (n, False) # ys) L m" "8 \<le> n"
  shows "gap t xs n False ys L m" "ys \<noteq> []"
proof -
  have g: "good_blocks (xs @ (n, False) # ys)" using assms(1) by (simp add: heap_def)
  then show "ys \<noteq> []" using assms(2) by (auto simp: good_blocks_def)
  then obtain y ys' where "ys = y # ys'" by (cases ys) auto
  then show "gap t xs n False ys L m"
    using assms heap_lists_for [OF assms(1)] g by (auto simp: gap_def heap_def heads_append next_heads_def)
qed

lemma gap_next: "gap t xs n f ys L m \<Longrightarrow> ys \<noteq> []"
  by (auto simp: gap_def good_blocks_def)

text \<open>Everything in transit is kept by a change of words that are not headers or other buffers.\<close>

lemma gap_cong:
  assumes "gap t xs n f ys L m" "lists_for t (xs @ (n, False) # ys) L (words m')"
    "words m' (t + 3184 + extent xs + 4) = hdr n f' (last_free False xs)"
    "words m' (t + 3184 + extent xs) = words m (t + 3184 + extent xs)"
    "words m' (t + 3184 + extent xs + 8 + n + 4) = words m (t + 3184 + extent xs + 8 + n + 4)"
    "\<And>x. outer (t + 3184) xs (t + 3184 + extent xs + 8 + n) ys x \<Longrightarrow> words m' x = words m x"
  shows "gap t xs n f' ys L m'"
proof -
  let ?r = "t + 3184 + extent xs + 8 + n"
  have ys: "ys = hd ys # tl ys" using gap_next [OF assms(1)] by simp
  have "heads (words m') (t + 3184) False 0 xs = heads (words m) (t + 3184) False 0 xs"
    by (rule heads_cong) (use outer_heads(1) assms(6) in blast)
  moreover have "heads (words m') (?r + 8 + fst (hd ys)) (snd (hd ys)) ?r (tl ys) = heads (words m) (?r + 8 + fst (hd ys)) (snd (hd ys)) ?r (tl ys)"
  proof (rule heads_cong)
    fix x b
    assume "(x, b) \<in> set (placed (?r + 8 + fst (hd ys)) (tl ys))"
    from outer_heads(2) [OF this, of "t + 3184" xs] show "words m' x = words m x \<and> words m' (x + 4) = words m (x + 4)"
      using assms(6) ys by metis
  qed
  ultimately show ?thesis using assms(1-5) by (simp add: gap_def next_heads_def)
qed

lemma gap_sizes:
  assumes "gap t xs n f ys L m"
  shows "room t (xs @ (n, False) # ys)" "\<forall>b\<in>set (xs @ (n, False) # ys). 8 dvd fst b" "8 dvd n"
    "node t (t + 3184 + extent xs)" "node t (t + 3184 + extent xs + 8 + n)"
proof -
  show r: "room t (xs @ (n, False) # ys)" and d: "\<forall>b\<in>set (xs @ (n, False) # ys). 8 dvd fst b"
    using assms by (auto simp: gap_def lists_for_def)
  then show "8 dvd n" by simp
  show "node t (t + 3184 + extent xs)" by (rule placed_node [OF r d, of _ "(n, False)"]) simp
  obtain y ys' where "ys = y # ys'" using gap_next [OF assms] by (cases ys) auto
  then show "node t (t + 3184 + extent xs + 8 + n)" using placed_node [OF r d, of "t + 3184 + extent xs + 8 + n" y] by simp
qed

section \<open>Marking the block\<close>

definition mark_mem :: "nat \<Rightarrow> mem \<Rightarrow> mem" where
  "mark_mem q m = store32 (next_of (of_nat q)) 0 (store32 (prev_of (of_nat q)) 0
     (store32 (size_of (of_nat q)) (load32 m (size_of (of_nat q)) OR FREE_BLOCK) m))"

lemma gap_mark:
  assumes "gap t xs n f ys L m"
  defines "q \<equiv> t + 3184 + extent xs"
  shows "gap t xs n True ys L (mark_mem q m)"
    "outer (t + 3184) xs (q + 8 + n) ys x \<Longrightarrow> words (mark_mem q m) x = words m x"
proof -
  let ?bs = "xs @ (n, False) # ys"
  note sz = gap_sizes [OF assms(1), folded q_def]
  have n8: "8 \<le> n" "words m (q + 4) = hdr n f (last_free False xs)" "lists_for t ?bs L (words m)"
    using assms(1) by (simp_all add: gap_def q_def)
  obtain y ys' where y: "ys = y # ys'" using gap_next [OF assms(1)] by (cases ys) auto
  have w: "words (mark_mem q m) = (words m)(q + 4 := hdr n True (last_free False xs), q + 8 := 0, q + 12 := 0)"
    unfolding mark_mem_def words_links(4) [OF sz(4)] words_links(3) [OF sz(4)] words_size [OF node_words(2) [OF sz(4)]] n8(2)
      hdr_simps(2) [OF sz(3)] ..
  have "stable (t + 3184) ?bs (q + 4)" "stable (t + 3184) ?bs (q + 8)" "stable (t + 3184) ?bs (q + 12)"
    using n8(1) by (simp_all add: stable_append stable_Cons q_def)
  then have lf: "lists_for t ?bs L (words (mark_mem q m))" unfolding w by (intro lists_for_upd n8(3))
  have out: "words (mark_mem q m) x = words m x" if "outer (t + 3184) xs (q + 8 + n) ys x" for x
    using that stable_bounds [of "t + 3184" xs x] n8(1) unfolding w by (auto simp: outer_def q_def)
  then show "outer (t + 3184) xs (q + 8 + n) ys x \<Longrightarrow> words (mark_mem q m) x = words m x" .
  show "gap t xs n True ys L (mark_mem q m)"
    by (rule gap_cong [OF assms(1) lf]) (use out n8(1) in \<open>simp_all add: w q_def [symmetric]\<close>)
qed

section \<open>Joining with the next block\<close>

definition right_mem :: "nat \<Rightarrow> nat \<Rightarrow> nat \<Rightarrow> nat \<Rightarrow> mem \<Rightarrow> mem" where
  "right_mem t q r k m =
     (let m = EXTRACT_BLOCK (of_nat r) (of_nat t) (int (fst (class_of k))) (int (snd (class_of k))) m
      in store32 (size_of (of_nat q)) (load32 m (size_of (of_nat q)) + (block_size m (of_nat r) + BHDR_OVERHEAD)) m)"

lemma lists_for_join:
  assumes "lists_for t (xs @ [(j, False), (n, False)] @ ys) L w"
  shows "lists_for t (xs @ (j + (n + 8), False) # ys) L w"
proof -
  have l: "free_lists t w L" "listed L (frees (t + 3184) (xs @ [(j, False), (n, False)] @ ys))" "8 dvd j" "8 dvd n"
    "\<forall>b\<in>set (xs @ ys). 8 dvd fst b" "\<forall>b\<in>set (xs @ ys). snd b \<longrightarrow> 8 \<le> fst b"
    "room t (xs @ [(j, False), (n, False)] @ ys)"
    using assms unfolding lists_for_def by simp_all
  have "8 dvd j + (n + 8)" by (intro dvd_add l(3,4)) simp
  then have "\<forall>b\<in>set (xs @ (j + (n + 8), False) # ys). 8 dvd fst b" using l(5) by auto
  moreover have "\<forall>b\<in>set (xs @ (j + (n + 8), False) # ys). snd b \<longrightarrow> 8 \<le> fst b" using l(6) by auto
  moreover have "frees (t + 3184) (xs @ (j + (n + 8), False) # ys) = frees (t + 3184) (xs @ [(j, False), (n, False)] @ ys)"
    by (simp add: ac_simps)
  moreover have "room t (xs @ (j + (n + 8), False) # ys)" by (rule room_same [OF l(7)]) simp
  ultimately show ?thesis using l(1,2) unfolding lists_for_def by (simp only: simp_thms)
qed

lemma good_blocks_join:
  assumes "good_blocks (xs @ a # b # ys)" "8 dvd n" "8 \<le> n" "ys \<noteq> []"
  shows "good_blocks (xs @ (n, False) # ys)"
  using assms by (auto simp: good_blocks_def successively_append_iff successively_Cons butlast_append split: if_splits)

text \<open>
  A block in transit that has taken up the free block behind it: its header may still say the
  old size \<open>j\<close>.
\<close>

definition held :: "nat \<Rightarrow> block list \<Rightarrow> nat \<Rightarrow> nat \<Rightarrow> bool \<Rightarrow> block list \<Rightarrow> (nat \<times> nat \<Rightarrow> nat list) \<Rightarrow> mem \<Rightarrow> bool" where
  "held t xs n j f ys L m \<longleftrightarrow> lists_for t (xs @ (n, False) # ys) L (words m) \<and> good_blocks (xs @ (n, False) # ys) \<and> 8 \<le> n \<and> 8 dvd j \<and>
     heads (words m) (t + 3184) False 0 xs \<and>
     words m (t + 3184 + extent xs + 4) = hdr j f (last_free False xs) \<and>
     (last_free False xs \<longrightarrow> words m (t + 3184 + extent xs) = of_nat (last_place (t + 3184) 0 xs)) \<and>
     next_heads (words m) (t + 3184 + extent xs + 8 + n) ys"

lemma held_same: "held t xs n n f ys L m \<longleftrightarrow> gap t xs n f ys L m"
  unfolding held_def gap_def lists_for_def by auto

lemma held_extract:
  assumes "gap t xs n f ((k, True) # ys) L m"
  defines "q \<equiv> t + 3184 + extent xs"
  defines "e \<equiv> EXTRACT_BLOCK (of_nat (q + 8 + n)) (of_nat t) (int (fst (class_of k))) (int (snd (class_of k))) m"
  obtains L' where "held t xs (n + (k + 8)) n f ys L' e" "block_size e (of_nat (q + 8 + n)) = of_nat k" "\<not> snd (hd ys)"
    "\<And>x. outer (t + 3184) xs (q + 8 + (n + (k + 8))) ys x \<or> stable (q + 8 + (n + (k + 8))) ys x \<or> q + 8 \<le> x \<and> x < q + 8 + n \<Longrightarrow>
       words e x = words m x"
proof -
  let ?A = "t + 3184" let ?r = "q + 8 + n" let ?N = "n + (k + 8)"
  note sz = gap_sizes [OF assms(1), folded q_def]
  have g: "good_blocks (xs @ (n, False) # (k, True) # ys)" "8 \<le> n" "lists_for t ((xs @ [(n, False)]) @ (k, True) # ys) L (words m)"
    "heads (words m) ?A False 0 xs" "words m (q + 4) = hdr n f (last_free False xs)"
    "last_free False xs \<Longrightarrow> words m q = of_nat (last_place ?A 0 xs)"
    using assms(1) by (simp_all add: gap_def q_def)
  obtain gf where nx: "words m (?r + 4) = hdr k True gf" "heads (words m) (?r + 8 + k) True ?r ys"
    using assms(1) by (auto simp: gap_def next_heads_def q_def)
  have "ys \<noteq> []" using g(1) by (auto simp: good_blocks_def)
  then obtain y ys' where y: "ys = y # ys'" by (cases ys) auto
  have k8: "8 dvd k" using sz(2) by simp
  have qe: "t + 3184 + extent (xs @ [(n, False)]) = ?r" by (simp add: q_def)
  obtain us vs where tk: "lists_for t ((xs @ [(n, False)]) @ (k, False) # ys) (L(class_of k := us @ vs)) (words e)"
    "\<And>x. stable ?A ((xs @ [(n, False)]) @ (k, True) # ys) x \<Longrightarrow> words e x = words m x"
    using take_block [OF g(3), unfolded qe] unfolding e_def by metis
  let ?L = "L(class_of k := us @ vs)"
  have st: "stable ?A ((xs @ [(n, False)]) @ (k, True) # ys) (q + 4)" "stable ?A ((xs @ [(n, False)]) @ (k, True) # ys) (?r + 4)"
    "stable ?A ((xs @ [(n, False)]) @ (k, True) # ys) q"
    by (simp_all add: stable_append stable_Cons q_def)
  have bz: "block_size e (of_nat ?r) = of_nat k"
    by (rule block_size_words [OF node_words(2) [OF sz(5)] _ k8, of _ True gf]) (simp only: tk(2) [OF st(2)] nx(1))
  have lf0: "lists_for t (xs @ [(n, False), (k, False)] @ ys) ?L (words e)" using tk(1) by simp
  have lf: "lists_for t (xs @ (?N, False) # ys) ?L (words e)" by (rule lists_for_join [OF lf0])
  have r2: "?r + 8 + k = q + 8 + ?N" by simp
  have out: "words e x = words m x" if "outer ?A xs (q + 8 + ?N) ys x \<or> stable (q + 8 + ?N) ys x \<or> q + 8 \<le> x \<and> x < q + 8 + n" for x
    by (rule tk(2)) (use that r2 in \<open>auto simp: outer_def stable_append stable_Cons q_def ac_simps\<close>)
  have hy: "heads (words e) (?r + 8 + k) True ?r ys = heads (words m) (?r + 8 + k) True ?r ys"
    unfolding r2 by (rule heads_cong) (use out stable_head in blast)
  have hx: "heads (words e) ?A False 0 xs = heads (words m) ?A False 0 xs"
    by (rule heads_cong) (use out outer_heads(1) in blast)
  have "held t xs ?N n f ys ?L e"
    unfolding held_def q_def [symmetric]
  proof (intro conjI impI)
    show "good_blocks (xs @ (?N, False) # ys)" using good_blocks_join [OF g(1), of ?N] sz(3) k8 g(2) y by simp
    show "words e q = of_nat (last_place ?A 0 xs)" if "last_free False xs"
      using g(6) [OF that] tk(2) [OF st(3)] by simp
    show "next_heads (words e) (q + 8 + ?N) ys"
      using nx(2) hy unfolding r2 [symmetric] next_heads_def y by auto
    show "words e (q + 4) = hdr n f (last_free False xs)" using tk(2) [OF st(1)] g(5) by simp
  qed (use lf g hx sz(3) in simp_all)
  moreover have "\<not> snd (hd ys)" using g(1) by (simp add: y good_blocks_def successively_append_iff)
  ultimately show thesis using that bz out by blast
qed

lemma held_header:
  assumes "held t xs n j f ys L m" "8 dvd i"
  defines "q \<equiv> t + 3184 + extent xs"
  assumes "words m' = (words m)(q + 4 := hdr i f' (last_free False xs))"
  shows "held t xs n i f' ys L m'" "x \<noteq> q + 4 \<Longrightarrow> words m' x = words m x"
proof -
  let ?A = "t + 3184" let ?r = "q + 8 + n"
  have h: "lists_for t (xs @ (n, False) # ys) L (words m)" "good_blocks (xs @ (n, False) # ys)" "8 \<le> n" "heads (words m) ?A False 0 xs"
    "last_free False xs \<longrightarrow> words m q = of_nat (last_place ?A 0 xs)" "next_heads (words m) ?r ys"
    using assms(1) by (simp_all add: held_def q_def)
  have "lists_for t (xs @ (n, False) # ys) L (words m')"
    unfolding assms(4) by (rule lists_for_upd [OF h(1)]) (simp add: stable_append stable_Cons q_def)
  moreover have "heads (words m') ?A False 0 xs"
  proof -
    have "heads (words m') ?A False 0 xs = heads (words m) ?A False 0 xs"
    proof (rule heads_cong)
      fix x b
      assume "(x, b) \<in> set (placed ?A xs)"
      then show "words m' x = words m x \<and> words m' (x + 4) = words m (x + 4)"
        using placed_bounds [of x b ?A xs] by (auto simp: assms(4) q_def)
    qed
    then show ?thesis using h(4) by simp
  qed
  moreover have "next_heads (words m') ?r ys"
  proof -
    have "heads (words m') (?r + 8 + fst (hd ys)) (snd (hd ys)) ?r (tl ys) = heads (words m) (?r + 8 + fst (hd ys)) (snd (hd ys)) ?r (tl ys)"
    proof (rule heads_cong)
      fix x b
      assume "(x, b) \<in> set (placed (?r + 8 + fst (hd ys)) (tl ys))"
      then show "words m' x = words m x \<and> words m' (x + 4) = words m (x + 4)"
        using placed_bounds [of x b "?r + 8 + fst (hd ys)" "tl ys"] by (auto simp: assms(4))
    qed
    then show ?thesis using h(6) h(3) by (simp add: next_heads_def assms(4))
  qed
  ultimately show "held t xs n i f' ys L m'"
    unfolding held_def q_def [symmetric] using h(2,3,5) assms(2,4) by simp
  show "x \<noteq> q + 4 \<Longrightarrow> words m' x = words m x" by (simp add: assms(4))
qed

lemma held_bounds:
  assumes "held t xs n j f ys L m"
  shows "room t (xs @ (n, False) # ys)" "\<forall>b\<in>set (xs @ (n, False) # ys). 8 dvd fst b" "8 dvd n"
    "node t (t + 3184 + extent xs)" "node t (t + 3184 + extent xs + 8 + n)" "ys \<noteq> []"
proof -
  show r: "room t (xs @ (n, False) # ys)" and d: "\<forall>b\<in>set (xs @ (n, False) # ys). 8 dvd fst b"
    using assms by (auto simp: held_def lists_for_def)
  then show "8 dvd n" by simp
  show "node t (t + 3184 + extent xs)" by (rule placed_node [OF r d, of _ "(n, False)"]) simp
  show ys: "ys \<noteq> []" using assms by (auto simp: held_def good_blocks_def)
  then obtain y ys' where "ys = y # ys'" by (cases ys) auto
  then show "node t (t + 3184 + extent xs + 8 + n)" using placed_node [OF r d, of "t + 3184 + extent xs + 8 + n" y] by simp
qed

lemma gap_right:
  assumes "gap t xs n f ((k, True) # ys) L m"
  defines "q \<equiv> t + 3184 + extent xs"
  obtains L' where "gap t xs (n + (k + 8)) f ys L' (right_mem t q (q + 8 + n) k m)" "\<not> snd (hd ys)"
    "\<And>x. outer (t + 3184) xs (q + 8 + (n + (k + 8))) ys x \<or> q + 8 \<le> x \<and> x < q + 8 + n \<Longrightarrow>
       words (right_mem t q (q + 8 + n) k m) x = words m x"
proof -
  let ?r = "q + 8 + n" let ?N = "n + (k + 8)"
  let ?e = "EXTRACT_BLOCK (of_nat ?r) (of_nat t) (int (fst (class_of k))) (int (snd (class_of k))) m"
  note sz = gap_sizes [OF assms(1), folded q_def]
  have k8: "8 dvd k" using sz(2) by simp
  obtain L' where e: "held t xs ?N n f ys L' ?e" "block_size ?e (of_nat ?r) = of_nat k" "\<not> snd (hd ys)"
    "\<And>x. outer (t + 3184) xs (q + 8 + ?N) ys x \<or> stable (q + 8 + ?N) ys x \<or> q + 8 \<le> x \<and> x < q + 8 + n \<Longrightarrow> words ?e x = words m x"
    using held_extract [OF assms(1), folded q_def] by metis
  have hd: "words ?e (q + 4) = hdr n f (last_free False xs)" using e(1) by (simp add: held_def q_def)
  have "words (right_mem t q ?r k m) = (words ?e)(q + 4 := hdr n f (last_free False xs) + of_nat (k + 8))"
    unfolding right_mem_def Let_def words_size [OF node_words(2) [OF sz(4)]] e(2) hd by (simp add: BHDR_OVERHEAD_def)
  also have "hdr n f (last_free False xs) + of_nat (k + 8) = hdr ?N f (last_free False xs)"
    by (rule hdr_add [OF sz(3)]) (use k8 in \<open>simp add: dvd_add\<close>)
  finally have w: "words (right_mem t q ?r k m) = (words ?e)(q + 4 := hdr ?N f (last_free False xs))" .
  note new = held_header [OF e(1), folded q_def, OF _ w]
  have "8 dvd ?N" by (intro dvd_add sz(3) k8) simp
  then have "gap t xs ?N f ys L' (right_mem t q ?r k m)" using new(1) by (simp add: held_same)
  moreover have "words (right_mem t q ?r k m) x = words m x" if x: "outer (t + 3184) xs (q + 8 + ?N) ys x \<or> q + 8 \<le> x \<and> x < q + 8 + n" for x
  proof -
    have "x \<noteq> q + 4" using x stable_bounds [of "t + 3184" xs x] by (auto simp: outer_def q_def)
    then show ?thesis using e(4) x by (auto simp: w)
  qed
  ultimately show thesis using that e(3) by blast
qed

section \<open>Joining with the block before\<close>

definition left_mem :: "nat \<Rightarrow> nat \<Rightarrow> nat \<Rightarrow> nat \<Rightarrow> mem \<Rightarrow> mem" where
  "left_mem t p j q m =
     (let m = EXTRACT_BLOCK (of_nat p) (of_nat t) (int (fst (class_of j))) (int (snd (class_of j))) m
      in store32 (size_of (of_nat p)) (load32 m (size_of (of_nat p)) + (block_size m (of_nat q) + BHDR_OVERHEAD)) m)"

lemma gap_left:
  assumes "gap t (xs @ [(j, True)]) n True ys L m"
  defines "p \<equiv> t + 3184 + extent xs"
  obtains L' where "gap t xs (j + (n + 8)) True ys L' (left_mem t p j (p + 8 + j) m)" "last_free False xs = False"
    "words m (p + 8 + j) = of_nat p" "words m (p + 4) = hdr j True False"
    "\<And>x. outer (t + 3184) xs (p + 8 + (j + (n + 8))) ys x \<Longrightarrow> words (left_mem t p j (p + 8 + j) m) x = words m x"
proof -
  let ?A = "t + 3184" let ?q = "p + 8 + j" let ?N = "j + (n + 8)"
  note sz = gap_sizes [OF assms(1)]
  have qe: "t + 3184 + extent (xs @ [(j, True)]) = ?q" by (simp add: p_def ac_simps)
  have g: "good_blocks (xs @ (j, True) # (n, False) # ys)" "8 \<le> n" "lists_for t (xs @ (j, True) # (n, False) # ys) L (words m)"
    using assms(1) unfolding gap_def append_assoc append.simps by blast+
  have h: "heads (words m) ?A False 0 xs" "words m (p + 4) = hdr j True (last_free False xs)"
    "words m (?q + 4) = hdr n True True" "words m ?q = of_nat p" "next_heads (words m) (?q + 8 + n) ys"
    using assms(1) unfolding gap_def qe by (simp_all add: heads_append p_def)
  obtain xf: "last_free False xs = False" and j8: "8 \<le> j" "8 dvd j" using good_blocks_free [OF g(1)] by metis
  have dv: "\<forall>b\<in>set (xs @ (j, True) # (n, False) # ys). 8 dvd fst b" and rm: "room t (xs @ (j, True) # (n, False) # ys)"
    using g(3) unfolding lists_for_def by blast+
  have np: "node t p" by (rule placed_node [OF rm dv, of p "(j, True)"]) (simp add: p_def)
  let ?e = "EXTRACT_BLOCK (of_nat p) (of_nat t) (int (fst (class_of j))) (int (snd (class_of j))) m"
  obtain us vs where tk: "lists_for t (xs @ (j, False) # (n, False) # ys) (L(class_of j := us @ vs)) (words ?e)"
    "\<And>x. stable ?A (xs @ (j, True) # (n, False) # ys) x \<Longrightarrow> words ?e x = words m x"
    using take_block [OF g(3), folded p_def] by metis
  let ?L = "L(class_of j := us @ vs)"
  have st: "stable ?A (xs @ (j, True) # (n, False) # ys) (p + 4)" "stable ?A (xs @ (j, True) # (n, False) # ys) (?q + 4)"
    by (simp_all add: stable_append stable_Cons p_def)
  have nq: "node t ?q" using sz(4) unfolding qe .
  have bz: "block_size ?e (of_nat ?q) = of_nat n"
    by (rule block_size_words [OF node_words(2) [OF nq] _ sz(3), of _ True True]) (simp only: tk(2) [OF st(2)] h(3))
  have "words (left_mem t p j ?q m) = (words ?e)(p + 4 := hdr j True False + of_nat (n + 8))"
    unfolding left_mem_def Let_def words_size [OF node_words(2) [OF np]] bz tk(2) [OF st(1)] h(2) xf by (simp add: BHDR_OVERHEAD_def)
  also have "hdr j True False + of_nat (n + 8) = hdr ?N True False" by (rule hdr_add [OF j8(2)]) (intro dvd_add sz(3), simp)
  finally have w: "words (left_mem t p j ?q m) = (words ?e)(p + 4 := hdr ?N True False)" .
  have lf1: "lists_for t (xs @ (?N, False) # ys) ?L (words ?e)" by (rule lists_for_join) (use tk(1) in simp)
  have lf: "lists_for t (xs @ (?N, False) # ys) ?L (words (left_mem t p j ?q m))"
    unfolding w by (rule lists_for_upd [OF lf1]) (simp add: stable_append stable_Cons p_def)
  have r2: "?q + 8 + n = p + 8 + ?N" by simp
  have out: "words (left_mem t p j ?q m) x = words m x" if "stable ?A xs x \<or> stable (p + 8 + ?N) ys x" for x
  proof -
    have "stable ?A (xs @ (j, True) # (n, False) # ys) x"
      using that unfolding r2 [symmetric] by (auto simp: stable_append stable_Cons p_def)
    moreover have "x \<noteq> p + 4" using that stable_bounds [of ?A xs x] stable_bounds [of "p + 8 + ?N" ys x] by (auto simp: p_def)
    ultimately show ?thesis using tk(2) unfolding w by simp
  qed
  have hx: "heads (words (left_mem t p j ?q m)) ?A False 0 xs = heads (words m) ?A False 0 xs"
    by (rule heads_cong) (use out stable_head in blast)
  have ys: "ys = hd ys # tl ys" using gap_next [OF assms(1)] by simp
  have pl: "placed (p + 8 + ?N) ys = (p + 8 + ?N, hd ys) # placed (p + 8 + ?N + 8 + fst (hd ys)) (tl ys)"
    by (subst ys) simp
  have hy: "heads (words (left_mem t p j ?q m)) (p + 8 + ?N + 8 + fst (hd ys)) (snd (hd ys)) (p + 8 + ?N) (tl ys) =
      heads (words m) (p + 8 + ?N + 8 + fst (hd ys)) (snd (hd ys)) (p + 8 + ?N) (tl ys)"
  proof (rule heads_cong)
    fix x b
    assume "(x, b) \<in> set (placed (p + 8 + ?N + 8 + fst (hd ys)) (tl ys))"
    then have "(x, b) \<in> set (placed (p + 8 + ?N) ys)" unfolding pl by (rule list.set_intros(2))
    then show "words (left_mem t p j ?q m) x = words m x \<and> words (left_mem t p j ?q m) (x + 4) = words m (x + 4)"
      using out stable_head by blast
  qed
  have "words (left_mem t p j ?q m) (p + 8 + ?N + 4) = words m (p + 8 + ?N + 4)"
    using out [of "p + 8 + ?N + 4"] stable_head(2) [of "p + 8 + ?N" "hd ys" "p + 8 + ?N" ys] by (simp only: pl list.set_intros simp_thms)
  then have nh: "next_heads (words (left_mem t p j ?q m)) (p + 8 + ?N) ys"
    using h(5) hy unfolding r2 next_heads_def by simp
  have gb: "good_blocks (xs @ (?N, False) # ys)"
    by (rule good_blocks_join [OF g(1) _ _ gap_next [OF assms(1)]]) (intro dvd_add j8(2) sz(3), simp, use j8(1) in simp)
  have "gap t xs ?N True ys ?L (left_mem t p j ?q m)"
    unfolding gap_def p_def [symmetric] xf hx using lf gb h(1) j8(1) nh by (simp add: w)
  then show thesis using that xf h(2,4) out by (auto simp: outer_def)
qed

section \<open>Inserting the block\<close>

definition put_mem :: "nat \<Rightarrow> nat \<Rightarrow> nat \<Rightarrow> mem \<Rightarrow> mem" where
  "put_mem t q n m =
     (let m = INSERT_BLOCK (of_nat q) (of_nat t) (int (fst (class_of n))) (int (snd (class_of n))) m;
          m = store32 (size_of (of_nat (q + 8 + n))) (load32 m (size_of (of_nat (q + 8 + n))) OR PREV_FREE) m
      in store32 (of_nat (q + 8 + n)) (of_nat q) m)"

lemma gap_put:
  assumes "gap t xs n True ys L m" "last_free False xs = False" "\<not> snd (hd ys)"
  defines "q \<equiv> t + 3184 + extent xs"
  obtains L' where "heap t (xs @ (n, True) # ys) L' (put_mem t q n m)"
    "\<And>x. outer (t + 3184) xs (q + 8 + n) ys x \<Longrightarrow> words (put_mem t q n m) x = words m x"
proof -
  let ?A = "t + 3184" let ?r = "q + 8 + n"
  note sz = gap_sizes [OF assms(1), folded q_def]
  obtain y ys' where y: "ys = y # ys'" using gap_next [OF assms(1)] by (cases ys) auto
  have g: "lists_for t (xs @ (n, False) # ys) L (words m)" "good_blocks (xs @ (n, False) # ys)" "8 \<le> n"
    "heads (words m) ?A False 0 xs" "words m (q + 4) = hdr n True False" "next_heads (words m) ?r ys"
    using assms(1) unfolding gap_def q_def assms(2) by blast+
  obtain gf where nx: "words m (?r + 4) = hdr (fst y) (snd y) gf" "heads (words m) (?r + 8 + fst y) (snd y) ?r ys'"
    using g(6) unfolding next_heads_def y by auto
  define m1 where "m1 = INSERT_BLOCK (of_nat q) (of_nat t) (int (fst (class_of n))) (int (snd (class_of n))) m"
  let ?L = "L(class_of n := q # L (class_of n))" and ?bs = "xs @ (n, True) # ys"
  note put = put_block [OF g(1,3), folded q_def, folded m1_def]
  have st: "stable ?A ?bs (?r + 4)" "stable ?A ?bs ?r" "stable ?A ?bs (q + 4)" by (simp_all add: stable_append stable_Cons q_def y)
  have y8: "8 dvd fst y" using sz(2) y by simp
  have w: "words (put_mem t q n m) = (words m1)(?r + 4 := hdr (fst y) (snd y) True, ?r := of_nat q)"
    unfolding put_mem_def Let_def m1_def [symmetric] words_store32 [OF node_words(1) [OF sz(5)]] words_size [OF node_words(2) [OF sz(5)]]
      put(2) [OF st(1)] nx(1) hdr_simps(3) [OF y8] ..
  have lf: "lists_for t ?bs ?L (words (put_mem t q n m))" unfolding w by (intro lists_for_upd put(1) st)
  have out: "words (put_mem t q n m) x = words m x" if "outer ?A xs ?r ys x" for x
  proof -
    have "stable ?A ?bs x" "x \<noteq> ?r" "x \<noteq> ?r + 4"
      using that stable_bounds [of ?A xs x] by (auto simp: outer_def stable_append stable_Cons q_def)
    then show ?thesis using put(2) unfolding w by simp
  qed
  have good: "good_blocks (xs @ [(n, True)] @ y # ys')"
    by (rule good_blocks_replace [of xs "[(n, False)]"]) (use g(2,3) sz(3) assms(2,3) y in simp_all)
  have hx: "heads (words (put_mem t q n m)) ?A False 0 xs"
    using g(4) heads_cong [of ?A xs "words (put_mem t q n m)" "words m" False 0] outer_heads(1) out by blast
  have hy: "heads (words (put_mem t q n m)) (?r + 8 + fst y) (snd y) ?r ys'"
    using nx(2) heads_cong [of "?r + 8 + fst y" ys' "words (put_mem t q n m)" "words m" "snd y" ?r] outer_heads(2) [of _ _ ?r y ys' ?A xs] out
    unfolding y by blast
  have "words (put_mem t q n m) (q + 4) = hdr n True False" using put(2) [OF st(3)] g(5) unfolding w by simp
  then have "heads (words (put_mem t q n m)) ?A False 0 ?bs"
    unfolding y heads_append heads.simps using hx hy assms(2) by (simp add: q_def [symmetric] w)
  then have "heap t ?bs ?L (put_mem t q n m)" using lf good y unfolding heap_def lists_for_def by simp
  then show thesis using that out by blast
qed

section \<open>free\<close>

definition free_right :: "u32 \<Rightarrow> u32 \<Rightarrow> mem \<Rightarrow> mem" where
  "free_right tp b m =
     (let tmp_b = GET_NEXT_BLOCK (buffer b) (block_size m b)
      in if load32 m (size_of tmp_b) AND FREE_BLOCK \<noteq> 0 then
           let (fl, sl) = MAPPING_INSERT (block_size m tmp_b);
               m = EXTRACT_BLOCK tmp_b tp fl sl m
           in store32 (size_of b) (load32 m (size_of b) + (block_size m tmp_b + BHDR_OVERHEAD)) m
         else m)"

definition free_left :: "u32 \<Rightarrow> u32 \<Rightarrow> mem \<Rightarrow> u32 \<times> mem" where
  "free_left tp b m =
     (if load32 m (size_of b) AND PREV_FREE \<noteq> 0 then
        let tmp_b = load32 m b;
            (fl, sl) = MAPPING_INSERT (block_size m tmp_b);
            m = EXTRACT_BLOCK tmp_b tp fl sl m
        in (tmp_b, store32 (size_of tmp_b) (load32 m (size_of tmp_b) + (block_size m b + BHDR_OVERHEAD)) m)
      else (b, m))"

definition free_put :: "u32 \<Rightarrow> u32 \<Rightarrow> mem \<Rightarrow> mem" where
  "free_put tp b m =
     (let (fl, sl) = MAPPING_INSERT (block_size m b);
          m = INSERT_BLOCK b tp fl sl m;
          tmp_b = GET_NEXT_BLOCK (buffer b) (block_size m b);
          m = store32 (size_of tmp_b) (load32 m (size_of tmp_b) OR PREV_FREE) m
      in store32 tmp_b b m)"

lemma free_ex_steps:
  assumes "q + 8 < 4294967296"
  shows "free_ex (of_nat (q + 8)) tp m =
    (let (b, m) = free_left tp (of_nat q) (free_right tp (of_nat q) (mark_mem q m)) in free_put tp b m)"
proof -
  have "(of_nat (q + 8) :: u32) \<noteq> 0" "of_nat (q + 8) - BHDR_OVERHEAD = (of_nat q :: u32)"
    using assms by (simp_all only: of_nat_u32_0) (simp_all add: BHDR_OVERHEAD_def)
  then show ?thesis
    unfolding free_ex_def mark_mem_def free_right_def free_left_def free_put_def Let_def by (simp only: if_False)
qed

lemma gap_head: "gap t xs n f ys L m \<Longrightarrow> words m (t + 3184 + extent xs + 4) = hdr n f (last_free False xs)"
  by (simp add: gap_def)

lemma gap_class:
  assumes "gap t xs n f ys L m" "b \<in> set (xs @ (n, False) # ys)"
  shows "MAPPING_INSERT (of_nat (fst b)) = (int (fst (class_of (fst b))), int (snd (class_of (fst b))))"
  by (rule class_of(1) [OF room_size [OF gap_sizes(1) [OF assms(1)] assms(2)]])

lemma free_right_gap:
  assumes "gap t xs n True ys L m"
  defines "q \<equiv> t + 3184 + extent xs"
  shows "free_right (of_nat t) (of_nat q) m = (if snd (hd ys) then right_mem t q (q + 8 + n) (fst (hd ys)) m else m)"
proof -
  note sz = gap_sizes [OF assms(1), folded q_def]
  have y: "hd ys \<in> set (xs @ (n, False) # ys)" using gap_next [OF assms(1)] by simp
  have y8: "8 dvd fst (hd ys)" using sz(2) y by blast
  have b: "block_size m (of_nat q) = of_nat n"
    by (rule block_size_words [OF node_words(2) [OF sz(4)] gap_head [OF assms(1), folded q_def] sz(3)])
  obtain g where g: "words m (q + 8 + n + 4) = hdr (fst (hd ys)) (snd (hd ys)) g"
    using assms(1) unfolding gap_def next_heads_def q_def by blast
  have r: "block_size m (of_nat (q + 8 + n)) = of_nat (fst (hd ys))"
    by (rule block_size_words [OF node_words(2) [OF sz(5)] g y8])
  show ?thesis
    unfolding free_right_def Let_def b next_block words_size(1) [OF node_words(2) [OF sz(5)]] g r gap_class [OF assms(1) y] right_mem_def prod.case
    using hdr_simps(8) [OF y8, of "snd (hd ys)" g] by (simp only: not_not if_cancel)
qed

lemma free_left_gap:
  assumes "gap t (xs @ [(j, True)]) n True ys L m"
  defines "p \<equiv> t + 3184 + extent xs"
  shows "free_left (of_nat t) (of_nat (p + 8 + j)) m = (of_nat p, left_mem t p j (p + 8 + j) m)"
proof -
  have qe: "t + 3184 + extent (xs @ [(j, True)]) = p + 8 + j" by (simp add: p_def ac_simps)
  note sz = gap_sizes [OF assms(1), unfolded qe]
  have h: "words m (p + 8 + j + 4) = hdr n True True" using gap_head [OF assms(1)] unfolding qe by simp
  obtain w: "words m (p + 8 + j) = of_nat p" "words m (p + 4) = hdr j True False"
    using gap_left [OF assms(1)] unfolding p_def by metis
  have j: "(j, True) \<in> set ((xs @ [(j, True)]) @ (n, False) # ys)" by simp
  have j8: "8 dvd j" using sz(2) j by fastforce
  have np: "node t p" by (rule placed_node [OF sz(1,2), of p "(j, True)"]) (simp add: p_def)
  have b: "block_size m (of_nat p) = of_nat j" by (rule block_size_words [OF node_words(2) [OF np] w(2) j8])
  have "load32 m (of_nat (p + 8 + j)) = of_nat p" using load32_words [OF node_words(1) [OF sz(4)]] w(1) by simp
  then show ?thesis
    unfolding free_left_def Let_def words_size(1) [OF node_words(2) [OF sz(4)]] h
    using hdr_simps(9) [OF sz(3), of True True] gap_class [OF assms(1) j] by (simp add: b left_mem_def Let_def)
qed

lemma free_left_none:
  assumes "gap t xs n True ys L m" "last_free False xs = False"
  shows "free_left (of_nat t) (of_nat (t + 3184 + extent xs)) m = (of_nat (t + 3184 + extent xs), m)"
proof -
  note sz = gap_sizes [OF assms(1)]
  show ?thesis
    unfolding free_left_def words_size(1) [OF node_words(2) [OF sz(4)]] gap_head [OF assms(1)] assms(2)
    using hdr_simps(9) [OF sz(3), of True False] by simp
qed

lemma free_put_gap:
  assumes "gap t xs n True ys L m" "last_free False xs = False"
  defines "q \<equiv> t + 3184 + extent xs"
  shows "free_put (of_nat t) (of_nat q) m = put_mem t q n m"
proof -
  note sz = gap_sizes [OF assms(1), folded q_def]
  have b: "block_size m (of_nat q) = of_nat n"
    by (rule block_size_words [OF node_words(2) [OF sz(4)] gap_head [OF assms(1), folded q_def] sz(3)])
  let ?m = "INSERT_BLOCK (of_nat q) (of_nat t) (int (fst (class_of n))) (int (snd (class_of n))) m"
  have g: "lists_for t (xs @ (n, False) # ys) L (words m)" "8 \<le> n" using assms(1) by (simp_all add: gap_def)
  have "words ?m (q + 4) = words m (q + 4)"
    using put_block(2) [OF g, folded q_def, of "q + 4"] by (simp add: stable_append stable_Cons q_def)
  then have "words ?m (q + 4) = hdr n True (last_free False xs)" using gap_head [OF assms(1)] by (simp add: q_def)
  then have b2: "block_size ?m (of_nat q) = of_nat n" by (rule block_size_words [OF node_words(2) [OF sz(4)] _ sz(3)])
  have "MAPPING_INSERT (of_nat n) = (int (fst (class_of n)), int (snd (class_of n)))" using gap_class [OF assms(1), of "(n, False)"] by simp
  then show ?thesis unfolding free_put_def Let_def b put_mem_def by (simp only: prod.case b2 next_block)
qed

text \<open>
  Freeing a block in transit: the blocks are those of \<open>freed\<close>, and the buffers of the other
  used blocks keep their contents.
\<close>

lemma free_ex_heap:
  assumes "gap t xs n f ys L m"
  defines "q \<equiv> t + 3184 + extent xs"
  obtains L' where "heap t (freed xs n ys) L' (free_ex (of_nat (q + 8)) (of_nat t) m)"
    "\<And>p k x. (p, k, False) \<in> set (placed (t + 3184) (xs @ (n, False) # ys)) \<Longrightarrow> p \<noteq> q \<Longrightarrow> p + 8 \<le> x \<Longrightarrow> x < p + 8 + k \<Longrightarrow>
       words (free_ex (of_nat (q + 8)) (of_nat t) m) x = words m x"
proof -
  let ?A = "t + 3184"
  have q8: "q + 8 < 4294967296" using gap_sizes(4) [OF assms(1)] by (simp add: node_def q_def)
  note mark = gap_mark [OF assms(1), folded q_def]
  obtain n1 ys1 where jr: "join_right n ys = (n1, ys1)" by fastforce
  define m2 where "m2 = free_right (of_nat t) (of_nat q) (mark_mem q m)"
  have right: "\<exists>L1. gap t xs n1 True ys1 L1 m2 \<and> \<not> snd (hd ys1) \<and>
    (\<forall>x. outer ?A xs (q + 8 + n1) ys1 x \<longrightarrow> words m2 x = words m x) \<and>
    (\<forall>p k. (p, k, False) \<in> set (placed (q + 8 + n) ys) \<longrightarrow> (p, k, False) \<in> set (placed (q + 8 + n1) ys1))"
  proof (cases "snd (hd ys)")
    case True
    then obtain k where ys: "ys = (k, True) # ys1" "n1 = n + (k + 8)"
      using jr gap_next [OF assms(1)] by (cases ys) (auto simp: join_right_def)
    obtain L1 where L1: "gap t xs n1 True ys1 L1 m2" "\<not> snd (hd ys1)"
      "\<And>x. outer ?A xs (q + 8 + n1) ys1 x \<Longrightarrow> words m2 x = words (mark_mem q m) x"
      using gap_right [OF mark(1) [unfolded ys(1)], folded q_def] free_right_gap [OF mark(1), folded q_def] True
      unfolding m2_def ys by (simp only: list.sel if_True prod.sel) metis
    have "outer ?A xs (q + 8 + n) ys x" if "outer ?A xs (q + 8 + n1) ys1 x" for x
      using that unfolding ys by (auto simp: outer_def stable_Cons ac_simps)
    then show ?thesis using L1 mark(2) unfolding ys by (intro exI [of _ L1]) (auto simp: ac_simps)
  next
    case False
    then have "ys1 = ys" "n1 = n" using jr gap_next [OF assms(1)] by (simp_all add: join_right_def)
    then show ?thesis
      using mark False free_right_gap [OF mark(1), folded q_def] unfolding m2_def by (intro exI [of _ L]) simp
  qed
  then obtain L1 where L1: "gap t xs n1 True ys1 L1 m2" "\<not> snd (hd ys1)"
    "\<And>x. outer ?A xs (q + 8 + n1) ys1 x \<Longrightarrow> words m2 x = words m x"
    "\<And>p k. (p, k, False) \<in> set (placed (q + 8 + n) ys) \<Longrightarrow> (p, k, False) \<in> set (placed (q + 8 + n1) ys1)" by blast
  obtain xs2 n2 where jl: "join_left xs n1 = (xs2, n2)" by fastforce
  let ?q2 = "?A + extent xs2"
  have left: "\<exists>L2 m3. free_left (of_nat t) (of_nat q) m2 = (of_nat ?q2, m3) \<and> gap t xs2 n2 True ys1 L2 m3 \<and>
    last_free False xs2 = False \<and> (\<forall>x. outer ?A xs2 (?q2 + 8 + n2) ys1 x \<longrightarrow> words m3 x = words m x) \<and>
    (\<forall>p k. (p, k, False) \<in> set (placed ?A xs) \<longrightarrow> (p, k, False) \<in> set (placed ?A xs2)) \<and> ?q2 + 8 + n2 = q + 8 + n1"
  proof (cases "last_free False xs")
    case True
    then obtain j where xs: "xs = xs2 @ [(j, True)]" "n2 = j + (n1 + 8)"
      using jl by (cases xs rule: rev_cases) (auto simp: join_left_def)
    have qe: "?q2 + 8 + j = q" "?q2 + 8 + n2 = q + 8 + n1" using xs by (simp_all add: q_def)
    obtain L2 where L2: "gap t xs2 n2 True ys1 L2 (left_mem t ?q2 j q m2)" "last_free False xs2 = False"
      "\<And>x. outer ?A xs2 (?q2 + 8 + n2) ys1 x \<Longrightarrow> words (left_mem t ?q2 j q m2) x = words m2 x"
      using gap_left [OF L1(1) [unfolded xs(1)]] unfolding xs(2) qe(1) by metis
    have "free_left (of_nat t) (of_nat q) m2 = (of_nat ?q2, left_mem t ?q2 j q m2)"
      using free_left_gap [OF L1(1) [unfolded xs(1)]] unfolding qe(1) .
    moreover have "outer ?A xs (q + 8 + n1) ys1 x" if "outer ?A xs2 (?q2 + 8 + n2) ys1 x" for x
      using that unfolding qe(2) xs(1) by (auto simp: outer_def stable_append)
    ultimately show ?thesis using L2 L1(3) qe(2) xs(1) by (intro exI [of _ L2] exI [of _ "left_mem t ?q2 j q m2"]) auto
  next
    case False
    then have "xs2 = xs" "n2 = n1" using jl by (simp_all add: join_left_def)
    then show ?thesis using free_left_none [OF L1(1)] False L1 by (intro exI [of _ L1] exI [of _ m2]) (simp add: q_def)
  qed
  then obtain L2 m3 where L2: "free_left (of_nat t) (of_nat q) m2 = (of_nat ?q2, m3)" "gap t xs2 n2 True ys1 L2 m3"
    "last_free False xs2 = False" "\<And>x. outer ?A xs2 (?q2 + 8 + n2) ys1 x \<Longrightarrow> words m3 x = words m x"
    "\<And>p k. (p, k, False) \<in> set (placed ?A xs) \<Longrightarrow> (p, k, False) \<in> set (placed ?A xs2)" "?q2 + 8 + n2 = q + 8 + n1" by blast
  have ex: "free_ex (of_nat (q + 8)) (of_nat t) m = put_mem t ?q2 n2 m3"
    unfolding free_ex_steps [OF q8] m2_def [symmetric] L2(1) Let_def prod.case by (rule free_put_gap [OF L2(2,3)])
  have fd: "freed xs n ys = xs2 @ (n2, True) # ys1" by (simp add: freed_def jr jl)
  obtain L3 where L3: "heap t (freed xs n ys) L3 (free_ex (of_nat (q + 8)) (of_nat t) m)"
    "\<And>x. outer ?A xs2 (?q2 + 8 + n2) ys1 x \<Longrightarrow> words (free_ex (of_nat (q + 8)) (of_nat t) m) x = words m3 x"
    using gap_put [OF L2(2,3) L1(2)] unfolding ex fd by metis
  moreover have "words (free_ex (of_nat (q + 8)) (of_nat t) m) x = words m x"
    if "(p, k, False) \<in> set (placed ?A (xs @ (n, False) # ys))" "p \<noteq> q" "p + 8 \<le> x" "x < p + 8 + k" for p k x
  proof -
    have "(p, k, False) \<in> set (placed ?A xs) \<or> (p, k, False) \<in> set (placed (q + 8 + n) ys)" using that(1,2) by (auto simp: q_def)
    then have "(p, k, False) \<in> set (placed ?A xs2) \<or> (p, k, False) \<in> set (placed (?q2 + 8 + n2) ys1)"
      using L2(5) L1(4) unfolding L2(6) by blast
    then have "outer ?A xs2 (?q2 + 8 + n2) ys1 x"
    proof
      assume b: "(p, k, False) \<in> set (placed (?q2 + 8 + n2) ys1)"
      then have "?q2 + 8 + n2 + 8 \<le> x" using placed_bounds [OF b] that(3) by simp
      then show ?thesis using stable_buffer [OF b that(3,4)] by (simp add: outer_def)
    qed (use stable_buffer [OF _ that(3,4)] in \<open>simp add: outer_def\<close>)
    then show ?thesis using L3(2) L2(4) by simp
  qed
  ultimately show thesis using that by blast
qed

end
