(* ===== verification/TlsfPool.thy ===== *)
theory TlsfPool
  imports TlsfFree
begin

text \<open>
  A pool from its initialisation on: \<open>init_memory_pool\<close> makes a heap with one free block.
\<close>

section \<open>Zeroed words\<close>

lemma words_memset:
  assumes "at_word q" "unat d \<le> q" "q + 4 \<le> unat d + unat n" "unat d + unat n \<le> 4294967296"
  shows "words (snd (memset d 0 n m)) q = 0"
proof -
  have "snd (memset d 0 n m) x = 0" if "x \<in> word_at (of_nat q)" for x
  proof -
    have q: "unat (of_nat q :: u32) = q" using assms(1) by (simp add: at_word_def u32_of_nat_unat)
    have b: "q \<le> unat x" "unat x < q + 4" using word_at_bounds [OF that] assms(3,4) unfolding q by simp_all
    then have "unat (x - d) = unat x - unat d" using assms(2) by (simp add: unat_sub word_le_nat_alt)
    then have "x - d < n" using b assms(2,3) by (simp add: word_less_nat_alt)
    then show ?thesis by (simp add: memset_fill)
  qed
  then have "load32 (snd (memset d 0 n m)) (of_nat q) = load32 (\<lambda>_. 0) (of_nat q)" by (intro load32_cong) simp
  then show ?thesis using assms(1) by (simp add: words_def load32_def)
qed

lemma free_lists_empty:
  assumes "4 dvd t" "t + 3184 < 4294967296" "\<And>x. t + 8 \<le> x \<Longrightarrow> x < t + 3180 \<Longrightarrow> at_word x \<Longrightarrow> w x = 0"
  shows "free_lists t w (\<lambda>_. [])"
proof -
  note cw = control_words [OF assms(1,2)]
  have h: "w (head_word t c) = 0" if "class_ok c" for c
    using assms(3) cw(3) that by (simp add: head_word_def class_ok_def)
  have s: "w (sl_word t fl) = 0" if "fl < 24" for fl using assms(3) cw(2) [OF that] that by (simp add: sl_word_def)
  have f: "w (t + 8) = 0" using assms(3) cw(1) by simp
  have "bitmaps t w (\<lambda>_. [])" unfolding bitmaps_def using s f by (auto simp: class_ok_def)
  then show ?thesis using assms(1,2) h by (auto simp: free_lists_def disjoint_lists_def linked_def)
qed

lemma free_lists_area_head: "free_lists t w L \<Longrightarrow> free_lists t (w(t + 4 := v)) L"
proof -
  assume f: "free_lists t w L"
  have n: "node t b" if "b \<in> members L" for b using free_lists_nodes [OF f that] .
  have l: "t + 4 \<notin> links (set (L c))" for c
    using n free_lists_list(3) [OF f, of c] by (force simp: links_def node_def)
  have "linked t (w(t + 4 := v)) L"
    using free_lists_list(1) [OF f] dlist_upd [OF l] by (simp add: linked_def head_word_def)
  moreover have "bitmaps t (w(t + 4 := v)) L"
    using f by (simp add: free_lists_def bitmaps_def sl_word_def)
  ultimately show ?thesis using f by (simp add: free_lists_def)
qed

lemma heap_area_head:
  assumes "heap t bs L m" "words m' = (words m)(t + 4 := v)"
  shows "heap t bs L m'"
proof -
  have "heads (words m') (t + 3184) False 0 bs = heads (words m) (t + 3184) False 0 bs"
    by (rule heads_cong) (use assms(2) placed_bounds in fastforce)
  then show ?thesis using assms free_lists_area_head by (simp add: heap_def)
qed

section \<open>The first area\<close>

lemma unat_ROUNDDOWN_SIZE: "unat (ROUNDDOWN_SIZE r) = unat r div 8 * 8"
proof -
  have "MEM_ALIGN = push_bit 3 1 - 1" by (simp add: MEM_ALIGN_def)
  then show ?thesis unfolding ROUNDDOWN_SIZE_def using and_not_mask [of 3 r] by simp
qed

lemma hdr_plain: "hdr n False False = of_nat n" "hdr 0 False True = PREV_FREE"
  by (simp_all add: hdr_def PREV_FREE_def)

text \<open>The bytes that are used of a pool of \<open>n\<close> bytes.\<close>

definition area_size :: "nat \<Rightarrow> nat" where
  "area_size n = (n - 3180) div 8 * 8"

lemma area_size: "3244 \<le> n \<Longrightarrow> 64 \<le> area_size n" "3244 \<le> n \<Longrightarrow> area_size n + 3180 \<le> n" "8 dvd area_size n" "8 dvd area_size n - 32"
proof -
  show "area_size n + 3180 \<le> n" if "3244 \<le> n"
    using that div_times_less_eq_dividend [of "n - 3180" 8] unfolding area_size_def by linarith
  show "64 \<le> area_size n" if "3244 \<le> n"
    using div_le_mono [of 64 "n - 3180" 8] that unfolding area_size_def by simp
  show "8 dvd area_size n" "8 dvd area_size n - 32" by (simp_all add: area_size_def dvd_diff_nat)
qed

lemma words_process_area:
  assumes "4 dvd a" "64 \<le> z" "8 dvd z" "a + z \<le> 4294967296" "z < 1073741824"
  shows "words (process_area (of_nat a) (of_nat z) m) =
    (words m)(a + 4 := 8, a + 16 + 4 := of_nat (z - 32), a + 16 + 12 := 0, a + 16 + 8 := 0,
      a + z - 8 := of_nat (a + 16), a + z - 8 + 4 := PREV_FREE, a + 12 := 0, a + 8 := of_nat (a + z - 8))"
proof -
  have d: "4 dvd z" "8 dvd z - 32" "8 dvd (8::nat)" using assms(3) by (auto simp: dvd_diff_nat intro: dvd_trans [of 4 8])
  let ?b = "a + 16" let ?l = "a + z - 8"
  have l: "?l = ?b + 8 + (z - 32)" "4 dvd ?l" using assms(1,2) d(1) by (simp_all add: dvd_diff_nat dvd_add)
  have at: "at_word (a + 4)" "at_word (a + 8)" "at_word (a + 12)" "at_word (?b + 4)" "at_word (?b + 8)" "at_word (?b + 12)" "at_word ?l" "at_word (?l + 4)"
    using assms(2,4) l(2) dvd4_add [OF assms(1)] dvd4_add [of ?b] dvd_add [OF assms(1), of 16] dvd_add [OF l(2), of 4]
    by (simp_all add: at_word_def)
  define m1 where "m1 = store32 (size_of (of_nat a)) 8 m"
  have w1: "words m1 = (words m)(a + 4 := 8)" unfolding m1_def by (rule words_size(2) [OF at(1)])
  have b1: "block_size m1 (of_nat a) = of_nat 8"
    by (rule block_size_words [OF at(1) _ d(3), of _ False False]) (simp add: w1 hdr_plain)
  define m2 where "m2 = store32 (prev_of (of_nat ?b)) 0 (store32 (next_of (of_nat ?b)) 0 (store32 (size_of (of_nat ?b)) (of_nat (z - 32)) m1))"
  have w2: "words m2 = (words m1)(?b + 4 := of_nat (z - 32), ?b + 12 := 0, ?b + 8 := 0)"
    unfolding m2_def of_nat_fields(1,3,4) words_store32 [OF at(4)] words_store32 [OF at(5)] words_store32 [OF at(6)] ..
  have b2: "block_size m2 (of_nat ?b) = of_nat (z - 32)"
    by (rule block_size_words [OF at(4) _ d(2), of _ False False]) (simp add: w2 hdr_plain)
  have nb: "GET_NEXT_BLOCK (buffer (of_nat a)) (of_nat 8) = (of_nat ?b :: u32)" unfolding next_block by simp
  have lb: "GET_NEXT_BLOCK (buffer (of_nat ?b)) (of_nat (z - 32)) = (of_nat ?l :: u32)" unfolding next_block l(1) ..
  have sz: "ROUNDDOWN_SIZE (of_nat z - 3 * BHDR_OVERHEAD - of_nat 8) = (of_nat (z - 32) :: u32)"
  proof -
    have "of_nat z - 3 * BHDR_OVERHEAD - of_nat 8 = (of_nat (z - 32) :: u32)" using assms(2) by (simp add: BHDR_OVERHEAD_def of_nat_diff)
    moreover have "(z - 32) div 8 * 8 = z - 32" using d(2) by simp
    then have "ROUNDDOWN_SIZE (of_nat (z - 32)) = (of_nat (z - 32) :: u32)"
      using unat_ROUNDDOWN_SIZE [of "of_nat (z - 32)"] assms(5) by (simp add: word_unat_eq_iff u32_of_nat_unat)
    ultimately show ?thesis by (simp only:)
  qed
  have first: "(if sizeof_area_info < MIN_BLOCK_SIZE then MIN_BLOCK_SIZE else ROUNDUP_SIZE sizeof_area_info) = 8"
    by (simp add: sizeof_area_info_def MIN_BLOCK_SIZE_def ROUNDUP_SIZE_def MEM_ALIGN_def)
  have ai: "buffer (of_nat a) = (of_nat (a + 8) :: u32)" "ai_next (of_nat (a + 8)) = of_nat (a + 12)" "ai_end (of_nat (a + 8)) = of_nat (a + 8)"
    by (simp_all add: buffer_def ai_next_def ai_end_def)
  have "process_area (of_nat a) (of_nat z) m =
    store32 (of_nat (a + 8)) (of_nat ?l) (store32 (of_nat (a + 12)) 0 (store32 (size_of (of_nat ?l)) PREV_FREE (store32 (of_nat ?l) (of_nat ?b) m2)))"
    unfolding process_area_def Let_def first m1_def [symmetric] b1 nb sz m2_def [symmetric] b2 lb unfolding ai ..
  then show ?thesis
    by (simp only: words_store32 [OF at(2)] words_store32 [OF at(3)] words_size(2) [OF at(8)] words_store32 [OF at(7)] w2 w1)
qed

text \<open>The blocks of a new pool: the header of its area, the free block and the end.\<close>

definition pool_blocks :: "nat \<Rightarrow> block list" where
  "pool_blocks n = [(8, False), (area_size n - 32, True), (0, False)]"

lemma process_area_gap:
  assumes "4 dvd t" "3244 \<le> n" "t + n + 12 \<le> 4294967296" "n < 1073741824"
    "\<And>x. t + 8 \<le> x \<Longrightarrow> x < t + 3180 \<Longrightarrow> at_word x \<Longrightarrow> words m x = 0"
  shows "gap t [(8, False)] (area_size n - 32) False [(0, False)] (\<lambda>_. []) (process_area (of_nat (t + 3184)) (of_nat (area_size n)) m)"
proof -
  let ?z = "area_size n" let ?A = "t + 3184" let ?m = "process_area (of_nat ?A) (of_nat ?z) m"
  note z = area_size(1,2) [OF assms(2)] area_size(3,4) [of n]
  have a4: "4 dvd ?A" using assms(1) by (simp add: dvd_add)
  have w: "words ?m = (words m)(?A + 4 := 8, ?A + 16 + 4 := of_nat (?z - 32), ?A + 16 + 12 := 0, ?A + 16 + 8 := 0,
      ?A + ?z - 8 := of_nat (?A + 16), ?A + ?z - 8 + 4 := PREV_FREE, ?A + 12 := 0, ?A + 8 := of_nat (?A + ?z - 8))"
    by (rule words_process_area [OF a4 z(1,3)]) (use z assms in simp_all)
  have r: "?A + 16 + 8 + (?z - 32) = ?A + ?z - 8" using z(1) by simp
  have fl: "free_lists t (words ?m) (\<lambda>_. [])"
  proof (rule free_lists_empty)
    show "words ?m x = 0" if "t + 8 \<le> x" "x < t + 3180" "at_word x" for x
      unfolding w using assms(5) [OF that] that(2) z(1) by simp
  qed (use assms in simp_all)
  have rm: "room t ([(8, False)] @ (?z - 32, False) # [(0, False)])"
    using assms(1,3,4) z(1,2) by (simp add: room_def)
  have lf: "lists_for t ([(8, False)] @ (?z - 32, False) # [(0, False)]) (\<lambda>_. []) (words ?m)"
    using rm fl z(4) by (simp add: lists_for_def listed_def)
  have "words ?m (?A + 16 + 4) = hdr (?z - 32) False False" "words ?m (?A + 4) = hdr 8 False False"
    "words ?m (?A + ?z - 8 + 4) = hdr 0 False True"
    using z(1) unfolding w hdr_plain by simp_all
  moreover have "good_blocks ([(8, False)] @ (?z - 32, False) # [(0, False)])" using z(1,4) by (simp add: good_blocks_def)
  ultimately show ?thesis
    using lf z(1) unfolding gap_def next_heads_def by (auto simp: last_free_def r)
qed

lemma init_memory_pool_heap:
  assumes "4 dvd t" "t \<noteq> 0" "3244 \<le> unat n" "t + unat n + 12 \<le> 4294967296" "unat n < 1073741824"
    "load32 (kmem h) (of_nat t) \<noteq> TLSF_SIGNATURE"
  obtains L h' where "init_memory_pool n (of_nat t) h = (of_nat (area_size (unat n) - 32), h')" "mp h' = of_nat t"
    "heap t (pool_blocks (unat n)) L (kmem h')"
proof -
  let ?z = "area_size (unat n)" let ?A = "t + 3184"
  note z = area_size(1,2) [OF assms(3)] area_size(3,4) [of "unat n"]
  have t32: "t < 4294967296" using assms(4) by simp
  have zr: "ROUNDDOWN_SIZE (n - sizeof_tlsf) = of_nat ?z"
  proof -
    have "unat (n - sizeof_tlsf) = unat n - 3180"
      using assms(3) by (simp add: unat_sub word_le_nat_alt sizeof_tlsf_def)
    then show ?thesis using unat_ROUNDDOWN_SIZE [of "n - sizeof_tlsf"] by (metis area_size_def of_nat_unat ucast_id)
  qed
  have ar: "GET_NEXT_BLOCK (of_nat t) (ROUNDUP_SIZE sizeof_tlsf) = (of_nat ?A :: u32)"
    by (simp add: GET_NEXT_BLOCK_def ROUNDUP_SIZE_def sizeof_tlsf_def MEM_ALIGN_def)
  define m1 where "m1 = store32 (of_nat t) TLSF_SIGNATURE (snd (memset (of_nat t) 0 sizeof_tlsf (kmem h)))"
  have at: "at_word t" "at_word (t + 4)" using assms(1,4) by (simp_all add: at_word_def dvd_add)
  have zero: "words m1 x = 0" if "t + 8 \<le> x" "x < t + 3180" "at_word x" for x
  proof -
    have "x + 4 \<le> t + 3180"
    proof -
      have "4 dvd x" "x < t + 3180" using that(2,3) by (simp_all add: at_word_def)
      then obtain i j where "x = 4 * i" "t = 4 * j" using assms(1) by (meson dvdE)
      moreover from this \<open>x < t + 3180\<close> have "i < j + 795" by simp
      ultimately show ?thesis by simp
    qed
    then have "words (snd (memset (of_nat t) 0 sizeof_tlsf (kmem h))) x = 0"
      using that assms(3,4) by (intro words_memset) (simp_all add: u32_of_nat_unat t32 sizeof_tlsf_def)
    then show ?thesis using that(1) unfolding m1_def by (simp add: words_store32 [OF at(1)])
  qed
  define m2 where "m2 = process_area (of_nat ?A) (of_nat ?z) m1"
  have g: "gap t [(8, False)] (?z - 32) False [(0, False)] (\<lambda>_. []) m2"
    unfolding m2_def by (rule process_area_gap) (use assms zero in simp_all)
  have h8: "words m2 (?A + 4) = hdr 8 False False" using g by (simp add: gap_def)
  have atA: "at_word (?A + 4)" using node_words(2) [OF placed_node [OF gap_sizes(1,2) [OF g], of ?A "(8, False)"]] by simp
  have b: "GET_NEXT_BLOCK (buffer (of_nat ?A)) (block_size m2 (of_nat ?A)) = (of_nat (?A + 16) :: u32)"
    using block_size_words [OF atA h8] next_block [of ?A 8] by (simp add: ac_simps)
  define m3 where "m3 = free_ex (of_nat (?A + 16 + 8)) (of_nat t) m2"
  have fd: "freed [(8, False)] (?z - 32) [(0, False)] = pool_blocks (unat n)"
    by (simp add: freed_def join_right_def join_left_def last_free_def pool_blocks_def)
  have qe: "?A + extent [(8, False)] = ?A + 16" by simp
  obtain L where L: "heap t (pool_blocks (unat n)) L m3"
    by (rule free_ex_heap [OF g, unfolded qe fd, folded m3_def])
  define m4 where "m4 = store32 (of_nat (t + 4)) (buffer (of_nat ?A)) m3"
  have L4: "heap t (pool_blocks (unat n)) L m4"
    unfolding m4_def by (rule heap_area_head [OF L]) (rule words_store32 [OF at(2)])
  have "words m4 (?A + 16 + 4) = hdr (?z - 32) True False"
    using L4 by (simp add: heap_def pool_blocks_def)
  moreover have "at_word (?A + 16 + 4)" using node_words(2) [OF gap_sizes(4) [OF g]] by simp
  ultimately have bz: "block_size m4 (of_nat (?A + 16)) = of_nat (?z - 32)" using block_size_words z(4) by blast
  have "init_memory_pool n (of_nat t) h = (block_size m4 (of_nat (?A + 16)), \<lparr>mp = of_nat t, kmem = m4\<rparr>)"
  proof -
    have c: "\<not> (of_nat t = (0 :: u32) \<or> n = 0 \<or> n < sizeof_tlsf + BHDR_OVERHEAD * 8)"
      using assms(2,3) t32 by (auto simp: of_nat_u32_0 sizeof_tlsf_def BHDR_OVERHEAD_def word_less_nat_alt)
    have "of_nat t AND (3 :: u32) = 0"
      using unat_and_3 [of "of_nat t"] assms(1) by (auto simp: word_unat_eq_iff u32_of_nat_unat t32)
    moreover have "buffer (of_nat (?A + 16)) = of_nat (?A + 16 + 8)" by (simp add: buffer_def)
    ultimately show ?thesis
      using c assms(6) unfolding init_memory_pool_def Let_def m1_def [symmetric] ar zr m2_def [symmetric] b
      by (simp only: if_False simp_thms m3_def [symmetric] of_nat_fields(6) m4_def [symmetric])
  qed
  then show thesis using that L4 bz by simp
qed

end
