(* ===== verification/TlsfClient.thy ===== *)
theory TlsfClient
  imports TlsfPool
begin

text \<open>
  What the clients of \<^verbatim>\<open>kmalloc\<close> and \<^verbatim>\<open>kfree\<close> rely on, as the interface of an allocator: the
  allocated blocks do not overlap and nobody but their owners changes their bytes. The
  heap of the kernel is shown to provide it.
\<close>

section \<open>The interface\<close>

definition region :: "u32 \<Rightarrow> nat \<Rightarrow> u32 set" where
  "region p n = {z. unat p \<le> unat z \<and> unat z < unat p + n}"

text \<open>
  The runs of clients that allocate, free their blocks, and write to the bytes of their
  blocks. The blocks of \<open>K\<close> are left alone: they are neither freed nor written to.
\<close>

inductive client :: "(u32 \<Rightarrow> 's \<Rightarrow> u32 \<times> 's) \<Rightarrow> (u32 \<Rightarrow> 's \<Rightarrow> 's) \<Rightarrow> ('s \<Rightarrow> mem) \<Rightarrow> (mem \<Rightarrow> 's \<Rightarrow> 's) \<Rightarrow> (u32 \<Rightarrow> bool) \<Rightarrow>
    u32 set \<Rightarrow> 's \<Rightarrow> (u32 \<rightharpoonup> nat) \<Rightarrow> 's \<Rightarrow> (u32 \<rightharpoonup> nat) \<Rightarrow> bool"
  for alloc dealloc bytes set_bytes fits K s A where
  start: "client alloc dealloc bytes set_bytes fits K s A s A"
| alloc: "client alloc dealloc bytes set_bytes fits K s A s' A' \<Longrightarrow> fits n \<Longrightarrow> alloc n s' = (p, s'') \<Longrightarrow>
    client alloc dealloc bytes set_bytes fits K s A s'' (if p = 0 then A' else A'(p \<mapsto> unat n))"
| dealloc: "client alloc dealloc bytes set_bytes fits K s A s' A' \<Longrightarrow> A' p = Some n \<Longrightarrow> p \<notin> K \<Longrightarrow>
    client alloc dealloc bytes set_bytes fits K s A (dealloc p s') (A'(p := None))"
| put: "client alloc dealloc bytes set_bytes fits K s A s' A' \<Longrightarrow>
    (\<And>z. (\<And>p n. A' p = Some n \<Longrightarrow> p \<notin> K \<Longrightarrow> z \<notin> region p n) \<Longrightarrow> m z = bytes s' z) \<Longrightarrow>
    client alloc dealloc bytes set_bytes fits K s A (set_bytes m s') A'"

locale allocator =
  fixes alloc :: "u32 \<Rightarrow> 's \<Rightarrow> u32 \<times> 's" and dealloc :: "u32 \<Rightarrow> 's \<Rightarrow> 's" and bytes :: "'s \<Rightarrow> mem"
    and set_bytes :: "mem \<Rightarrow> 's \<Rightarrow> 's" and fits :: "u32 \<Rightarrow> bool" and live :: "'s \<Rightarrow> (u32 \<rightharpoonup> nat) \<Rightarrow> bool"
  assumes bytes_set_bytes: "bytes (set_bytes m s) = m"
    and alloc_new: "live s A \<Longrightarrow> fits n \<Longrightarrow> alloc n s = (p, s') \<Longrightarrow> p \<noteq> 0 \<Longrightarrow> live s' (A(p \<mapsto> unat n)) \<and> A p = None"
    and alloc_none: "live s A \<Longrightarrow> fits n \<Longrightarrow> alloc n s = (0, s') \<Longrightarrow> s' = s"
    and alloc_keeps: "live s A \<Longrightarrow> fits n \<Longrightarrow> A q = Some k \<Longrightarrow> z \<in> region q k \<Longrightarrow> bytes (snd (alloc n s)) z = bytes s z"
    and dealloc_live: "live s A \<Longrightarrow> A p = Some j \<Longrightarrow> live (dealloc p s) (A(p := None))"
    and dealloc_keeps: "live s A \<Longrightarrow> A p = Some j \<Longrightarrow> A q = Some k \<Longrightarrow> q \<noteq> p \<Longrightarrow> z \<in> region q k \<Longrightarrow>
      bytes (dealloc p s) z = bytes s z"
    and write_live: "live s A \<Longrightarrow> (\<And>z. (\<And>p j. A p = Some j \<Longrightarrow> z \<notin> region p j) \<Longrightarrow> m z = bytes s z) \<Longrightarrow> live (set_bytes m s) A"
    and separate: "live s A \<Longrightarrow> A p = Some j \<Longrightarrow> A q = Some k \<Longrightarrow> p \<noteq> q \<Longrightarrow> region p j \<inter> region q k = {}"
begin

lemma client_keeps:
  assumes "client alloc dealloc bytes set_bytes fits K s A s' A'" "live s A" "K \<subseteq> dom A"
  shows "live s' A' \<and> (\<forall>q\<in>K. A' q = A q) \<and> (\<forall>q\<in>K. \<forall>z\<in>region q (the (A q)). bytes s' z = bytes s z)"
  using assms(1)
proof induction
  case start
  then show ?case using assms(2) by simp
next
  case (alloc s' A' n p s'')
  have keep: "bytes s'' z = bytes s' z" if "q \<in> K" "z \<in> region q (the (A q))" for q z
  proof -
    have "A' q = Some (the (A q))" using that(1) assms(3) alloc.IH by (auto simp: subset_iff)
    then show ?thesis using alloc_keeps [of s' A' n q] alloc.IH alloc.hyps(2,3) that(2) by auto
  qed
  show ?case
  proof (cases "p = 0")
    case True
    then have "s'' = s'" using alloc_none alloc.IH alloc.hyps by blast
    then show ?thesis using True alloc.IH by simp
  next
    case False
    then have n: "live s'' (A'(p \<mapsto> unat n))" "A' p = None" using alloc_new alloc.IH alloc.hyps by blast+
    then have "p \<notin> K" using alloc.IH assms(3) by (auto simp: subset_iff)
    then have "\<forall>q\<in>K. (A'(p \<mapsto> unat n)) q = A q" using alloc.IH by auto
    then show ?thesis using n(1) keep False alloc.IH by (simp del: fun_upd_apply)
  qed
next
  case (dealloc s' A' p n)
  have "bytes (dealloc p s') z = bytes s' z" if "q \<in> K" "z \<in> region q (the (A q))" for q z
  proof -
    have "A' q = Some (the (A q))" "q \<noteq> p" using that(1) assms(3) dealloc.IH dealloc.hyps(3) by (auto simp: subset_iff)
    then show ?thesis using dealloc_keeps dealloc.IH dealloc.hyps(2) that(2) by blast
  qed
  moreover have "\<forall>q\<in>K. (A'(p := None)) q = A q" using dealloc.IH dealloc.hyps(3) by auto
  ultimately show ?case using dealloc_live [of s' A' p n] dealloc.hyps(2) dealloc.IH by (simp del: fun_upd_apply)
next
  case (put s' A' m)
  have "m z = bytes s' z" if q: "q \<in> K" "z \<in> region q (the (A q))" for q z
  proof (rule put.hyps)
    fix p n
    assume "A' p = Some n" "p \<notin> K"
    moreover have "A' q = Some (the (A q))" using q(1) put.IH assms(3) by (auto simp: subset_iff)
    ultimately show "z \<notin> region p n" using separate [of s' A' p n q "the (A q)"] put.IH q by blast
  qed
  moreover have "live (set_bytes m s') A'" using write_live [of s' A' m] put.IH put.hyps by blast
  ultimately show ?case using put.IH by (simp add: bytes_set_bytes)
qed

lemma client_live: "client alloc dealloc bytes set_bytes fits {} s A s' A' \<Longrightarrow> live s A \<Longrightarrow> live s' A'"
  using client_keeps by blast

end

section \<open>The heap provides it\<close>

lemma bytes_of_words:
  assumes "\<And>x. a \<le> x \<Longrightarrow> x < a + k \<Longrightarrow> words m' x = words m x" "4 dvd a" "4 dvd k" "a \<le> unat z" "unat z < a + k"
  shows "m' z = m z"
proof -
  let ?q = "unat z div 4 * 4" let ?j = "unat z mod 4"
  have z: "unat z = ?q + ?j" "?j < 4" by simp_all
  obtain i j where ij: "a = 4 * i" "k = 4 * j" using assms(2,3) by (auto simp: dvd_def)
  have "i \<le> unat z div 4" "unat z div 4 < i + j" using assms(4,5) unfolding ij by (simp_all add: less_mult_imp_div_less add_mult_distrib2 [symmetric] mult.commute)
  then have q: "a \<le> ?q" "?q < a + k" using ij by simp_all
  have at: "at_word ?q" using u32_unat_bound [of z] div_times_less_eq_dividend [of "unat z" 4] by (simp add: at_word_def)
  have "load32 m' (of_nat ?q) = load32 m (of_nat ?q)" using assms(1) [OF q] unfolding load32_words [OF at] .
  then have "byte_of (load32 m' (of_nat ?q)) ?j = byte_of (load32 m (of_nat ?q)) ?j" by simp
  moreover have "of_nat ?q + of_nat ?j = z" by (metis z(1) of_nat_add of_nat_unat ucast_id)
  ultimately show ?thesis using byte_of_load32 [OF z(2)] by metis
qed

text \<open>A change of bytes of used blocks' buffers only.\<close>

lemma heap_write:
  assumes "heap t bs L m"
    "\<And>z. (\<And>q k. (q, k, False) \<in> set (placed (t + 3184) bs) \<Longrightarrow> \<not> (q + 8 \<le> unat z \<and> unat z < q + 8 + k)) \<Longrightarrow> m' z = m z"
  shows "heap t bs L m'"
proof -
  let ?A = "t + 3184"
  have lf: "lists_for t bs L (words m)" by (rule heap_lists_for [OF assms(1)])
  have h: "room t bs" "\<forall>b\<in>set bs. 8 dvd fst b" "listed L (frees ?A bs)" "free_lists t (words m) L"
    using lf by (simp_all add: lists_for_def)
  have same: "words m' x = words m x"
    if "\<And>q k. (q, k, False) \<in> set (placed ?A bs) \<Longrightarrow> at_word x \<Longrightarrow> \<not> (q + 8 \<le> x \<and> x < q + 8 + k)" for x
  proof (cases "at_word x")
    case True
    have ux: "unat (of_nat x :: u32) = x" using True by (simp add: at_word_def u32_of_nat_unat)
    note out = that [OF _ True]
    have "m' z = m z" if z: "z \<in> word_at (of_nat x)" for z
    proof (rule assms(2))
      fix q k
      assume b: "(q, k, False) \<in> set (placed ?A bs)"
      have "x + 4 \<le> 4294967296" using True by (auto simp: at_word_def dvd_def)
      then have zx: "x \<le> unat z" "unat z < x + 4" using word_at_bounds [OF z] unfolding ux by simp_all
      have "4 dvd q" "4 dvd k" using node_dvd [OF placed_node [OF h(1,2) b]] h(2) placed_bounds [OF b] dvd_trans [of 4 8 k] by auto
      then obtain i j l where "q = 4 * i" "k = 4 * j" "x = 4 * l" using True unfolding at_word_def by (meson dvdE)
      then have "x + 4 \<le> q + 8 \<or> q + 8 \<le> x" by (cases "l < i + 2") simp_all
      then show "\<not> (q + 8 \<le> unat z \<and> unat z < q + 8 + k)" using out [OF b] zx by auto
    qed
    then have "load32 m' (of_nat x) = load32 m (of_nat x)" by (rule load32_cong)
    then show ?thesis using True by (simp add: words_def)
  qed (simp add: words_def)
  have "free_lists t (words m') L"
  proof (rule free_lists_cong [OF h(4)])
    fix x
    assume x: "x \<in> control t \<or> x \<in> links (members L)"
    show "words m' x = words m x"
    proof (rule same)
      fix q k
      assume "(q, k, False) \<in> set (placed ?A bs)"
      from stable_buffer [OF this, of x] lists_for_safe [OF lf, of x] x show "\<not> (q + 8 \<le> x \<and> x < q + 8 + k)" by blast
    qed
  qed
  moreover have "heads (words m') ?A False 0 bs = heads (words m) ?A False 0 bs"
  proof (rule heads_cong)
    fix x b
    assume b: "(x, b) \<in> set (placed ?A bs)"
    have "\<not> (q + 8 \<le> x + i \<and> x + i < q + 8 + k)" if "(q, k, False) \<in> set (placed ?A bs)" "i \<le> 4" for q k i
      using placed_disjoint [OF b that(1)] that(2) by auto
    from same [of x] same [of "x + 4"] this [of _ _ 0] this [of _ _ 4] show "words m' x = words m x \<and> words m' (x + 4) = words m (x + 4)" by simp
  qed
  ultimately show ?thesis using assms(1) by (simp add: heap_def)
qed

text \<open>Used blocks stay where they are, whatever is allocated or freed.\<close>

lemma carve_keeps:
  assumes "(p, k, False) \<in> set (placed q (xs @ (n, True) # ys))"
  shows "(p, k, False) \<in> set (placed q (xs @ carve n s @ ys))"
  using assms by (auto simp: extent_carve add.assoc)

lemma carve_new: "s \<le> n \<Longrightarrow> \<exists>k. (q + extent xs, k, False) \<in> set (placed q (xs @ carve n s @ ys)) \<and> s \<le> k"
  by (auto simp: carve_def)

lemma freed_keeps:
  assumes "(p, k, False) \<in> set (placed q (xs @ (n, False) # ys))" "p \<noteq> q + extent xs"
  shows "(p, k, False) \<in> set (placed q (freed xs n ys))"
proof -
  obtain n1 ys1 where r: "join_right n ys = (n1, ys1)" by fastforce
  obtain xs2 n2 where l: "join_left xs n1 = (xs2, n2)" by fastforce
  have f: "freed xs n ys = xs2 @ (n2, True) # ys1" by (simp add: freed_def r l)
  have "(p, k, False) \<in> set (placed (q + extent xs + 8 + n) ys) \<Longrightarrow> (p, k, False) \<in> set (placed (q + extent xs + 8 + n1) ys1)"
    using r by (cases ys) (auto simp: join_right_def add.assoc split: if_splits)
  moreover have "placed (q + extent xs2 + 8 + n2) ys1 = placed (q + extent xs + 8 + n1) ys1 \<and>
      ((p, k, False) \<in> set (placed q xs) \<longrightarrow> (p, k, False) \<in> set (placed q xs2))"
    using l by (cases xs rule: rev_cases) (auto simp: join_left_def ac_simps split: if_splits)
  moreover have "(p, k, False) \<in> set (placed q xs) \<or> (p, k, False) \<in> set (placed (q + extent xs + 8 + n) ys)"
    using assms by auto
  ultimately show ?thesis unfolding f by auto
qed

lemma extent_freed: "extent (freed xs n ys) = extent (xs @ (n, b) # ys)"
proof -
  obtain n1 ys1 where r: "join_right n ys = (n1, ys1)" by fastforce
  have "n1 + extent ys1 = n + extent ys" using r by (cases ys) (auto simp: join_right_def split: if_splits)
  then show ?thesis
    by (cases xs rule: rev_cases) (auto simp: freed_def r join_left_def)
qed

lemma freed_used:
  assumes "(p, k, False) \<in> set (placed q (freed xs n ys))"
  shows "(p, k, False) \<in> set (placed q (xs @ (n, b) # ys)) \<and> p \<noteq> q + extent xs"
proof -
  obtain n1 ys1 where r: "join_right n ys = (n1, ys1)" by fastforce
  obtain xs2 n2 where l: "join_left xs n1 = (xs2, n2)" by fastforce
  have f: "freed xs n ys = xs2 @ (n2, True) # ys1" by (simp add: freed_def r l)
  have right: "(p, k, False) \<in> set (placed (q + extent xs + 8 + n1) ys1) \<Longrightarrow> (p, k, False) \<in> set (placed (q + extent xs + 8 + n) ys)"
    using r by (cases ys) (auto simp: join_right_def add.assoc split: if_splits)
  have left: "placed (q + extent xs2 + 8 + n2) ys1 = placed (q + extent xs + 8 + n1) ys1 \<and>
      ((p, k, False) \<in> set (placed q xs2) \<longrightarrow> (p, k, False) \<in> set (placed q xs))"
    using l by (cases xs rule: rev_cases) (auto simp: join_left_def ac_simps split: if_splits)
  from assms left consider "(p, k, False) \<in> set (placed q xs)" | "(p, k, False) \<in> set (placed (q + extent xs + 8 + n1) ys1)"
    unfolding f by auto
  then show ?thesis
  proof cases
    case 1
    then show ?thesis using placed_bounds [OF 1] by simp
  next
    case 2
    then show ?thesis using right placed_bounds [OF 2] by simp
  qed
qed

text \<open>
  The used blocks, but for the first one, which is the header of the area, and the last one,
  are exactly those at \<open>A\<close>, and each has at least the size that was asked for.
\<close>

definition owned :: "nat \<Rightarrow> block list \<Rightarrow> (u32 \<rightharpoonup> nat) \<Rightarrow> bool" where
  "owned t bs A \<longleftrightarrow> (t + 3184, 8, False) \<in> set (placed (t + 3184) bs) \<and>
     (\<forall>p n. A p = Some n \<longrightarrow> (\<exists>q k. p = of_nat (q + 8) \<and> (q, k, False) \<in> set (placed (t + 3184) bs) \<and> q \<noteq> t + 3184 \<and> 8 \<le> k \<and> n \<le> k)) \<and>
     (\<forall>q k. (q, k, False) \<in> set (placed (t + 3184) bs) \<longrightarrow> q \<noteq> t + 3184 \<longrightarrow> 8 \<le> k \<longrightarrow> A (of_nat (q + 8)) \<noteq> None)"

lemma ownedD:
  assumes "owned t bs A" "A p = Some n"
  obtains q k where "p = of_nat (q + 8)" "(q, k, False) \<in> set (placed (t + 3184) bs)" "q \<noteq> t + 3184" "8 \<le> k" "n \<le> k"
  using assms unfolding owned_def by blast

lemma owned_carve:
  assumes "owned t (xs @ (s, True) # ys) A" "r \<le> s" "8 \<le> r" "n \<le> r"
  shows "owned t (xs @ carve s r @ ys) (A(of_nat (t + 3184 + extent xs + 8) \<mapsto> n))"
proof -
  let ?A = "t + 3184" let ?q = "t + 3184 + extent xs" let ?bs = "xs @ carve s r @ ys"
  note keep = carve_keeps [of _ _ ?A xs s ys r]
  have old: "(?A, 8, False) \<in> set (placed ?A (xs @ (s, True) # ys))" using assms(1) by (simp add: owned_def)
  then have ne: "?q \<noteq> ?A" using placed_disjoint [OF old, of ?q "(s, True)"] by simp
  obtain j where j: "(?q, j, False) \<in> set (placed ?A ?bs)" "r \<le> j" using carve_new [OF assms(2)] by blast
  have "\<exists>q k. p = of_nat (q + 8) \<and> (q, k, False) \<in> set (placed ?A ?bs) \<and> q \<noteq> ?A \<and> 8 \<le> k \<and> i \<le> k"
    if "(A(of_nat (?q + 8) \<mapsto> n)) p = Some i" for p i
  proof (cases "p = of_nat (?q + 8)")
    case True
    then have "i = n" using that by simp
    then show ?thesis using True j assms(3,4) ne by (intro exI [of _ ?q] exI [of _ j]) simp
  next
    case False
    then have "A p = Some i" using that by simp
    from ownedD [OF assms(1) this] keep show ?thesis by metis
  qed
  moreover have "(A(of_nat (?q + 8) \<mapsto> n)) (of_nat (q + 8)) \<noteq> None"
    if "(q, k, False) \<in> set (placed ?A ?bs)" "q \<noteq> ?A" "8 \<le> k" for q k
  proof (cases "q = ?q")
    case False
    have "(q, k, False) \<in> set (placed ?A xs) \<or> (q, k, False) \<in> set (placed (?q + 8 + s) ys)"
      using that(1) False by (auto simp: extent_carve carve_def add.assoc split: if_splits)
    then have "(q, k, False) \<in> set (placed ?A (xs @ (s, True) # ys))" by auto
    then have "A (of_nat (q + 8)) \<noteq> None" using assms(1) that(2,3) unfolding owned_def by blast
    then show ?thesis by (metis fun_upd_apply option.distinct(1))
  qed simp
  ultimately show ?thesis using keep [OF old] unfolding owned_def by blast
qed

text \<open>The block at \<open>q\<close> is no longer used; all others stay.\<close>

lemma owned_drop:
  assumes "owned t bs A" "room t bs" "(q, j, False) \<in> set (placed (t + 3184) bs)" "q \<noteq> t + 3184"
    "\<And>p k. (p, k, False) \<in> set (placed (t + 3184) bs') \<longleftrightarrow> (p, k, False) \<in> set (placed (t + 3184) bs) \<and> p \<noteq> q"
  shows "owned t bs' (A(of_nat (q + 8) := None))"
proof -
  let ?A = "t + 3184"
  have bound: "p + 8 < 4294967296" if "(p, b) \<in> set (placed ?A bs)" for p b
    using placed_bounds [OF that] assms(2) by (simp add: room_def)
  have inj: "p = q" if "(p, b) \<in> set (placed ?A bs)" "of_nat (p + 8) = (of_nat (q + 8) :: u32)" for p b
  proof -
    have "p + 8 = q + 8" using of_nat_u32_inj [OF bound [OF that(1)] bound [OF assms(3)]] that(2) by blast
    then show ?thesis by simp
  qed
  have "\<exists>q' k. p = of_nat (q' + 8) \<and> (q', k, False) \<in> set (placed ?A bs') \<and> q' \<noteq> ?A \<and> 8 \<le> k \<and> i \<le> k"
    if p: "(A(of_nat (q + 8) := None)) p = Some i" for p i
  proof -
    have r: "A p = Some i" "p \<noteq> of_nat (q + 8)" using p by (auto split: if_splits)
    from ownedD [OF assms(1) r(1)] show ?thesis using assms(5) r(2) by metis
  qed
  moreover have "(A(of_nat (q + 8) := None)) (of_nat (q' + 8)) \<noteq> None"
    if q': "(q', k, False) \<in> set (placed ?A bs')" "q' \<noteq> ?A" "8 \<le> k" for q' k
  proof -
    have u: "(q', k, False) \<in> set (placed ?A bs)" "q' \<noteq> q" using q'(1) assms(5) by blast+
    then have "(of_nat (q' + 8) :: u32) \<noteq> of_nat (q + 8)" using inj by blast
    moreover have "A (of_nat (q' + 8)) \<noteq> None" using assms(1) u(1) q'(2,3) unfolding owned_def by blast
    ultimately show ?thesis by simp
  qed
  moreover have "(?A, 8, False) \<in> set (placed ?A bs')" using assms(1,4,5) by (simp add: owned_def)
  ultimately show ?thesis unfolding owned_def by blast
qed

lemma owned_freed:
  assumes "owned t (xs @ (j, False) # ys) A" "room t (xs @ (j, False) # ys)" "extent xs \<noteq> 0"
  shows "owned t (freed xs j ys) (A(of_nat (t + 3184 + extent xs + 8) := None))"
proof (rule owned_drop [OF assms(1,2), where j = j])
  show "(p, k, False) \<in> set (placed (t + 3184) (freed xs j ys)) \<longleftrightarrow>
      (p, k, False) \<in> set (placed (t + 3184) (xs @ (j, False) # ys)) \<and> p \<noteq> t + 3184 + extent xs" for p k
    using freed_keeps freed_used by blast
qed (use assms(3) in simp_all)

text \<open>The size that is recorded for a block may be any that it has room for.\<close>

lemma owned_resize:
  assumes "owned t bs A" "(q, k, False) \<in> set (placed (t + 3184) bs)" "q \<noteq> t + 3184" "8 \<le> k" "i \<le> k"
  shows "owned t bs (A(of_nat (q + 8) \<mapsto> i))"
  unfolding owned_def
proof (intro conjI allI impI)
  fix p n
  assume "(A(of_nat (q + 8) \<mapsto> i)) p = Some n"
  then consider "p = of_nat (q + 8)" "n = i" | "A p = Some n" by (metis fun_upd_apply option.inject)
  then show "\<exists>q k. p = of_nat (q + 8) \<and> (q, k, False) \<in> set (placed (t + 3184) bs) \<and> q \<noteq> t + 3184 \<and> 8 \<le> k \<and> n \<le> k"
  proof cases
    case 1
    then show ?thesis using assms(2-5) by blast
  next
    case 2
    then show ?thesis using assms(1) unfolding owned_def by blast
  qed
next
  show "(A(of_nat (q + 8) \<mapsto> i)) (of_nat (q' + 8)) \<noteq> None"
    if "(q', k', False) \<in> set (placed (t + 3184) bs)" "q' \<noteq> t + 3184" "8 \<le> k'" for q' k'
  proof -
    have "A (of_nat (q' + 8)) \<noteq> None" using assms(1) that unfolding owned_def by blast
    then show ?thesis by (metis fun_upd_apply option.distinct(1))
  qed
qed (use assms(1) in \<open>simp add: owned_def\<close>)

text \<open>
  The heap at \<open>t\<close>, whose blocks take \<open>e\<close> bytes, with the blocks \<open>A\<close> allocated, each at least
  as large as was asked for.
\<close>

definition kheap_live :: "nat \<Rightarrow> nat \<Rightarrow> kheap \<Rightarrow> (u32 \<rightharpoonup> nat) \<Rightarrow> bool" where
  "kheap_live t e h A \<longleftrightarrow> mp h = of_nat t \<and> (\<exists>bs L. heap t bs L (kmem h) \<and> extent bs = e \<and> owned t bs A)"

definition kheap_fits :: "u32 \<Rightarrow> bool" where
  "kheap_fits n \<longleftrightarrow> n \<le> 0x3E000000"

definition set_kmem :: "mem \<Rightarrow> kheap \<Rightarrow> kheap" where
  "set_kmem m h = h\<lparr>kmem := m\<rparr>"

lemma placed_region:
  assumes "heap t bs L m" "(q, k, False) \<in> set (placed (t + 3184) bs)" "n \<le> k"
  shows "unat (of_nat (q + 8) :: u32) = q + 8" "z \<in> region (of_nat (q + 8)) n \<Longrightarrow> q + 8 \<le> unat z \<and> unat z < q + 8 + k"
proof -
  show u: "unat (of_nat (q + 8) :: u32) = q + 8"
    using placed_bounds [OF assms(2)] assms(1) by (intro u32_of_nat_unat) (simp add: heap_def room_def)
  show "z \<in> region (of_nat (q + 8)) n \<Longrightarrow> q + 8 \<le> unat z \<and> unat z < q + 8 + k"
    using assms(3) unfolding region_def u by simp
qed

lemma kheap_liveE:
  assumes "kheap_live t e h A"
  obtains bs L where "mp h = of_nat t" "heap t bs L (kmem h)" "extent bs = e" "owned t bs A"
  using assms unfolding kheap_live_def by blast

lemma kheap_liveI:
  "mp h = of_nat t \<Longrightarrow> heap t bs L (kmem h) \<Longrightarrow> extent bs = e \<Longrightarrow> owned t bs A \<Longrightarrow> kheap_live t e h A"
  unfolding kheap_live_def by blast

lemma block_bytes:
  assumes "heap t bs L m" "(q, k, False) \<in> set (placed (t + 3184) bs)" "n \<le> k" "z \<in> region (of_nat (q + 8)) n"
    "\<And>x. q + 8 \<le> x \<Longrightarrow> x < q + 8 + k \<Longrightarrow> words m' x = words m x"
  shows "m' z = m z"
proof (rule bytes_of_words [OF assms(5)])
  have r: "room t bs" "\<forall>b\<in>set bs. 8 dvd fst b" using heap_lists_for [OF assms(1)] by (simp_all add: lists_for_def)
  show "4 dvd q + 8" using node_dvd [OF placed_node [OF r assms(2)]] by (simp add: dvd_add)
  show "4 dvd k" using r(2) placed_bounds [OF assms(2)] dvd_trans [of 4 8 k] by auto
qed (use placed_region(2) [OF assms(1-4)] in simp_all)

lemma kmalloc_live:
  assumes "kheap_live t e h A" "kheap_fits n"
  shows "fst (kmalloc n h) \<noteq> 0 \<Longrightarrow> kheap_live t e (snd (kmalloc n h)) (A(fst (kmalloc n h) \<mapsto> unat n)) \<and> A (fst (kmalloc n h)) = None"
    "fst (kmalloc n h) = 0 \<Longrightarrow> snd (kmalloc n h) = h"
    "A q = Some k \<Longrightarrow> z \<in> region q k \<Longrightarrow> kmem (snd (kmalloc n h)) z = kmem h z"
proof -
  obtain bs L where h: "mp h = of_nat t" "heap t bs L (kmem h)" "extent bs = e" "owned t bs A"
    using kheap_liveE [OF assms(1)] by metis
  have n: "unat n \<le> 0x3E000000" using assms(2) by (simp add: kheap_fits_def word_le_nat_alt)
  have k: "kmalloc n h = (fst (malloc_ex n (of_nat t) (kmem h)), h\<lparr>kmem := snd (malloc_ex n (of_nat t) (kmem h))\<rparr>)"
    by (simp add: kmalloc_def tlsf_malloc_def h(1) split: prod.split)
  from malloc_ex_heap [OF h(2) n]
  have "(fst (kmalloc n h) \<noteq> 0 \<longrightarrow> kheap_live t e (snd (kmalloc n h)) (A(fst (kmalloc n h) \<mapsto> unat n)) \<and> A (fst (kmalloc n h)) = None) \<and>
    (fst (kmalloc n h) = 0 \<longrightarrow> snd (kmalloc n h) = h) \<and>
    (A q = Some k \<longrightarrow> z \<in> region q k \<longrightarrow> kmem (snd (kmalloc n h)) z = kmem h z)"
  proof (elim disjE conjE exE)
    assume "malloc_ex n (of_nat t) (kmem h) = (0, kmem h)"
    then show ?thesis unfolding k by simp
  next
    fix xs s ys L' m'
    assume m: "bs = xs @ (s, True) # ys" "fit n \<le> s" "malloc_ex n (of_nat t) (kmem h) = (of_nat (t + 3184 + extent xs + 8), m')"
      "heap t (xs @ carve s (fit n) @ ys) L' m'"
      "\<forall>p k x. (p, k, False) \<in> set (placed (t + 3184) bs) \<longrightarrow> p + 8 \<le> x \<longrightarrow> x < p + 8 + k \<longrightarrow> words m' x = words (kmem h) x"
    let ?q = "t + 3184 + extent xs" let ?bs = "xs @ carve s (fit n) @ ys"
    have f: "unat n \<le> fit n" "8 \<le> fit n" using search [OF n] by metis+
    have qs: "(?q, s, True) \<in> set (placed (t + 3184) bs)" by (simp add: m(1))
    have q8: "unat (of_nat (?q + 8) :: u32) = ?q + 8"
      using placed_bounds [OF qs] h(2) by (intro u32_of_nat_unat) (simp add: heap_def room_def)
    have fresh: "A (of_nat (?q + 8)) = None"
    proof (rule ccontr)
      assume "A (of_nat (?q + 8)) \<noteq> None"
      then obtain i where "A (of_nat (?q + 8)) = Some i" by blast
      from ownedD [OF h(4) this] obtain q' k' where b: "of_nat (?q + 8) = (of_nat (q' + 8) :: u32)" "(q', k', False) \<in> set (placed (t + 3184) bs)" .
      have "?q = q'" using b(1) q8 placed_region(1) [OF h(2) b(2)] by (metis add_right_cancel order_refl)
      then show False using placed_disjoint [OF b(2) qs] by simp
    qed
    have "owned t ?bs (A(of_nat (?q + 8) \<mapsto> unat n))" by (rule owned_carve [OF h(4) [unfolded m(1)] m(2) f(2,1)])
    moreover have "extent ?bs = e" using h(3) m(1) by (simp add: extent_carve)
    ultimately have "kheap_live t e (snd (kmalloc n h)) (A(of_nat (?q + 8) \<mapsto> unat n))"
      using m(4) h(1) unfolding k m(3) by (intro kheap_liveI [of _ t ?bs L']) simp_all
    moreover have "kmem (snd (kmalloc n h)) z = kmem h z" if A: "A q = Some k" "z \<in> region q k"
    proof -
      obtain q' k' where b: "q = of_nat (q' + 8)" "(q', k', False) \<in> set (placed (t + 3184) bs)" "k \<le> k'" by (rule ownedD [OF h(4) A(1)])
      show ?thesis
        using block_bytes [OF h(2) b(2,3), of z m'] A(2) m(5) b(1,2) unfolding k m(3) by simp
    qed
    moreover have "(of_nat (?q + 8) :: u32) \<noteq> 0" using q8 by auto
    ultimately show ?thesis using fresh unfolding k m(3) by simp
  qed
  then show "fst (kmalloc n h) \<noteq> 0 \<Longrightarrow> kheap_live t e (snd (kmalloc n h)) (A(fst (kmalloc n h) \<mapsto> unat n)) \<and> A (fst (kmalloc n h)) = None"
    "fst (kmalloc n h) = 0 \<Longrightarrow> snd (kmalloc n h) = h"
    "A q = Some k \<Longrightarrow> z \<in> region q k \<Longrightarrow> kmem (snd (kmalloc n h)) z = kmem h z" by blast+
qed

lemma kfree_live:
  assumes "kheap_live t e h A" "A p = Some n"
  shows "kheap_live t e (kfree p h) (A(p := None))"
    "A q = Some k \<Longrightarrow> q \<noteq> p \<Longrightarrow> z \<in> region q k \<Longrightarrow> kmem (kfree p h) z = kmem h z"
proof -
  obtain bs L where h: "mp h = of_nat t" "heap t bs L (kmem h)" "extent bs = e" "owned t bs A"
    using kheap_liveE [OF assms(1)] by metis
  obtain b j where b: "p = of_nat (b + 8)" "(b, j, False) \<in> set (placed (t + 3184) bs)" "b \<noteq> t + 3184" "8 \<le> j"
    by (rule ownedD [OF h(4) assms(2)])
  obtain xs ys where s: "bs = xs @ (j, False) # ys" "b = t + 3184 + extent xs" using placed_split [OF b(2)] .
  note g = heads_gap(1) [OF h(2) [unfolded s(1)] b(4)]
  obtain L' where f: "heap t (freed xs j ys) L' (free_ex p (of_nat t) (kmem h))"
    "\<And>q k x. (q, k, False) \<in> set (placed (t + 3184) bs) \<Longrightarrow> q \<noteq> b \<Longrightarrow> q + 8 \<le> x \<Longrightarrow> x < q + 8 + k \<Longrightarrow>
       words (free_ex p (of_nat t) (kmem h)) x = words (kmem h) x"
    using free_ex_heap [OF g, folded s(2), folded b(1) s(1)] by metis
  have k: "kfree p h = h\<lparr>kmem := free_ex p (of_nat t) (kmem h)\<rparr>" by (simp add: kfree_def tlsf_free_def h(1))
  have "owned t (freed xs j ys) (A(p := None))"
    using owned_freed [OF h(4) [unfolded s(1)]] h(2) b(3) unfolding b(1) s heap_def by simp
  then show "kheap_live t e (kfree p h) (A(p := None))"
    using f(1) h(1,3) extent_freed [of xs j ys False] s(1) unfolding k by (intro kheap_liveI [of _ t "freed xs j ys" L']) simp_all
  show "kmem (kfree p h) z = kmem h z" if A: "A q = Some k" "q \<noteq> p" "z \<in> region q k"
  proof -
    obtain q' k' where c: "q = of_nat (q' + 8)" "(q', k', False) \<in> set (placed (t + 3184) bs)" "k \<le> k'" by (rule ownedD [OF h(4) A(1)])
    then have "q' \<noteq> b" using A(2) b(1) by blast
    then show ?thesis using block_bytes [OF h(2) c(2,3), of z "kmem (kfree p h)"] A(3) f(2) [OF c(2)] c(1) unfolding k by simp
  qed
qed

lemma kheap_separate:
  assumes "kheap_live t e h A" "A p = Some n" "A q = Some k" "p \<noteq> q"
  shows "region p n \<inter> region q k = {}"
proof -
  obtain bs L where h: "heap t bs L (kmem h)" "owned t bs A" using kheap_liveE [OF assms(1)] by metis
  obtain b j where b: "p = of_nat (b + 8)" "(b, j, False) \<in> set (placed (t + 3184) bs)" "n \<le> j" by (rule ownedD [OF h(2) assms(2)])
  obtain c l where c: "q = of_nat (c + 8)" "(c, l, False) \<in> set (placed (t + 3184) bs)" "k \<le> l" by (rule ownedD [OF h(2) assms(3)])
  have "b \<noteq> c" using assms(4) b(1) c(1) by blast
  then show ?thesis
    using placed_disjoint [OF b(2) c(2)] placed_region(2) [OF h(1) b(2,3)] placed_region(2) [OF h(1) c(2,3)] unfolding b(1) c(1) by fastforce
qed

text \<open>Allocated blocks lie between the header of the area and the last block.\<close>

lemma kheap_inside:
  assumes "kheap_live t e h A" "A p = Some n" "z \<in> region p n"
  shows "t + 3200 \<le> unat z \<and> unat z + 8 < t + 3184 + e"
proof -
  obtain bs L where h: "heap t bs L (kmem h)" "extent bs = e" "owned t bs A" using kheap_liveE [OF assms(1)] by metis
  obtain q k where q: "p = of_nat (q + 8)" "(q, k, False) \<in> set (placed (t + 3184) bs)" "q \<noteq> t + 3184" "8 \<le> k" "n \<le> k"
    by (rule ownedD [OF h(3) assms(2)])
  have z: "q + 8 \<le> unat z" "unat z < q + 8 + k" using placed_region(2) [OF h(1) q(2,5)] assms(3) unfolding q(1) by simp_all
  obtain cs where g: "bs = cs @ [(0, False)]" using h(1) unfolding heap_def good_blocks_def by (metis append_butlast_last_id)
  then have "(q, k, False) \<in> set (placed (t + 3184) cs)" using q(2,4) by auto
  from placed_bounds [OF this] have "q + 8 + k \<le> t + 3184 + extent cs" by simp
  moreover have "extent bs = extent cs + 8" by (simp add: g)
  moreover have "(t + 3184, 8, False) \<in> set (placed (t + 3184) bs)" using h(3) by (simp add: owned_def)
  ultimately show ?thesis using z h(2) placed_disjoint [OF q(2), of "t + 3184" "(8, False)"] placed_bounds [OF q(2)] q(3) by auto
qed

lemma kheap_bound:
  assumes "kheap_live t e h A" "A p = Some n"
  shows "unat p + n + 8 \<le> 4294967296"
proof -
  obtain bs L where h: "heap t bs L (kmem h)" "owned t bs A" using kheap_liveE [OF assms(1)] by metis
  obtain q k where q: "p = of_nat (q + 8)" "(q, k, False) \<in> set (placed (t + 3184) bs)" "n \<le> k" by (rule ownedD [OF h(2) assms(2)])
  have "unat p = q + 8" using placed_region(1) [OF h(1) q(2,3)] q(1) by simp
  then show ?thesis using placed_bounds [OF q(2)] h(1) q(3) by (simp add: heap_def room_def)
qed

lemma kheap_write:
  assumes "kheap_live t e h A" "\<And>z. (\<And>p n. A p = Some n \<Longrightarrow> z \<notin> region p n) \<Longrightarrow> m z = kmem h z"
  shows "kheap_live t e (set_kmem m h) A"
proof -
  obtain bs L where h: "mp h = of_nat t" "heap t bs L (kmem h)" "extent bs = e" "owned t bs A"
    using kheap_liveE [OF assms(1)] by metis
  have "heap t bs L m"
  proof (rule heap_write [OF h(2)], rule assms(2))
    fix z p :: u32 and n
    assume z: "\<And>q k. (q, k, False) \<in> set (placed (t + 3184) bs) \<Longrightarrow> \<not> (q + 8 \<le> unat z \<and> unat z < q + 8 + k)" and "A p = Some n"
    then obtain q k where "p = of_nat (q + 8)" "(q, k, False) \<in> set (placed (t + 3184) bs)" "n \<le> k" by (meson ownedD [OF h(4)])
    then show "z \<notin> region p n" using placed_region(2) [OF h(2)] z by blast
  qed
  then show ?thesis using h unfolding kheap_live_def set_kmem_def by auto
qed

interpretation kernel: allocator kmalloc kfree kmem set_kmem kheap_fits "kheap_live t e" for t e
proof (unfold_locales, goal_cases)
  case (2 s A n p s')
  then show ?case using kmalloc_live(1) [OF 2(1,2)] by simp
next
  case (3 s A n s')
  then show ?case using kmalloc_live(2) [OF 3(1,2)] by simp
qed (use kmalloc_live(3) kfree_live kheap_separate kheap_write in \<open>auto simp: set_kmem_def\<close>)

end
