(* ===== verification/TlsfRealloc.thy ===== *)
theory TlsfRealloc
  imports TlsfClient
begin

text \<open>
  \<open>realloc_ex\<close> on the list of blocks: a block shrinks or grows where it is when it is large
  enough together with a free block behind it, and else moves to a new block. \<open>krealloc\<close> is
  shown to provide the interface of an allocator that can resize.
\<close>

section \<open>What is left of a block\<close>

text \<open>The code that makes a free block of what is behind the first \<open>s\<close> bytes.\<close>

lemma held_split:
  assumes "held t xs N j False ys L m" "\<not> snd (hd ys)" "8 dvd s" "8 \<le> s" "s + 16 \<le> N"
  defines "q \<equiv> t + 3184 + extent xs"
  defines "m' \<equiv> split_block (of_nat q) (of_nat (q + 8 + N)) (of_nat (N - s)) (of_nat s) (of_nat t) m"
  obtains L' where "heap t (xs @ [(s, False), (N - s - 8, True)] @ ys) L' m'"
    "\<And>x. outer (t + 3184) xs (q + 8 + N) ys x \<or> q + 8 \<le> x \<and> x < q + 8 + s \<Longrightarrow> words m' x = words m x"
proof -
  let ?A = "t + 3184" let ?k = "N - s - 8" let ?p = "q + 8 + s" let ?r = "q + 8 + N" let ?lf = "last_free False xs"
  note bd = held_bounds [OF assms(1), folded q_def]
  obtain y ys' where y: "ys = y # ys'" using bd(6) by (cases ys) auto
  have h: "lists_for t (xs @ (N, False) # ys) L (words m)" "good_blocks (xs @ (N, False) # ys)" "8 dvd j"
    "heads (words m) ?A False 0 xs" "words m (q + 4) = hdr j False ?lf" "?lf \<longrightarrow> words m q = of_nat (last_place ?A 0 xs)"
    "next_heads (words m) ?r ys"
    using assms(1) unfolding held_def q_def by blast+
  obtain g where nx: "words m (?r + 4) = hdr (fst y) (snd y) g" "heads (words m) (?r + 8 + fst y) (snd y) ?r ys'"
    using h(7) by (auto simp: next_heads_def y)
  have y8: "8 dvd fst y" using bd(2) by (simp add: y)
  have k: "8 dvd ?k" "8 \<le> ?k" using bd(3) assms(3,5) by (simp_all add: dvd_diff_nat)
  let ?bs = "xs @ (s, False) # (?k, False) # ys" and ?cs = "xs @ (s, False) # (?k, True) # ys"
  have rm: "room t ?bs" by (rule room_same [OF bd(1)]) (use assms(5) in simp)
  have fr: "frees ?A ?bs = frees ?A (xs @ (N, False) # ys)" using assms(5) by (simp add: add.assoc)
  have lf: "lists_for t ?bs L (words m)" using h(1) rm k(1) assms(3) unfolding lists_for_def fr by auto
  have dv: "\<forall>b\<in>set ?bs. 8 dvd fst b" using lf by (simp add: lists_for_def)
  have at: "at_word (q + 4)" "at_word (?p + 4)" "at_word ?r" "at_word (?r + 4)"
    using node_words [OF bd(4)] node_words [OF bd(5)] node_words [OF placed_node [OF rm dv, of ?p "(?k, False)"]] by (simp_all add: q_def)
  define m1 where "m1 = store32 (size_of (of_nat ?p)) (of_nat ?k OR FREE_BLOCK) m"
  define m2 where "m2 = store32 (of_nat ?r) (of_nat ?p) m1"
  define m3 where "m3 = store32 (size_of (of_nat ?r)) (load32 m2 (size_of (of_nat ?r)) OR PREV_FREE) m2"
  define m4 where "m4 = INSERT_BLOCK (of_nat ?p) (of_nat t) (int (fst (class_of ?k))) (int (snd (class_of ?k))) m3"
  have w2: "words m2 = (words m)(?p + 4 := hdr ?k True False, ?r := of_nat ?p)"
    unfolding m2_def words_store32 [OF at(3)] m1_def words_size(2) [OF at(2)] hdr_simps(6) [OF k(1)] ..
  have "words m2 (?r + 4) = hdr (fst y) (snd y) g" using nx(1) assms(5) unfolding w2 by simp
  then have w3: "words m3 = (words m)(?p + 4 := hdr ?k True False, ?r := of_nat ?p, ?r + 4 := hdr (fst y) (snd y) True)"
    unfolding m3_def words_size [OF at(4)] using hdr_simps(3) [OF y8, of "snd y" g] by (simp only: w2)
  have "stable ?A ?bs (?p + 4)" "stable ?A ?bs ?r" "stable ?A ?bs (?r + 4)" using assms(5) by (simp_all add: stable_append stable_Cons q_def y)
  then have lf3: "lists_for t ((xs @ [(s, False)]) @ (?k, False) # ys) L (words m3)" unfolding w3 using lists_for_upd lf by simp
  have pe: "t + 3184 + extent (xs @ [(s, False)]) = ?p" by (simp add: q_def)
  note put = put_block [OF lf3 k(2), unfolded pe, folded m4_def]
  let ?L = "L(class_of ?k := ?p # L (class_of ?k))"
  have st: "words m4 x = words m3 x" if "stable ?A ?cs x" for x using put(2) that by simp
  have qs: "stable ?A ?cs (q + 4)" "stable ?A ?cs q" "stable ?A ?cs (?p + 4)" "stable ?A ?cs ?r" "stable ?A ?cs (?r + 4)"
    using assms(5) by (simp_all add: stable_append stable_Cons q_def y)
  have c: "MAPPING_INSERT (of_nat ?k) = (int (fst (class_of ?k)), int (snd (class_of ?k)))"
    using room_size [OF rm, of "(?k, False)"] by (intro class_of(1)) simp
  have m': "m' = store32 (size_of (of_nat q)) (of_nat s OR (load32 m4 (size_of (of_nat q)) AND PREV_STATE)) m4"
  proof -
    have N: "N < 1073741824" using room_size [OF bd(1), of "(N, False)"] by simp
    then have n32: "N - s < 4294967296" by simp
    have b: "sizeof_bhdr \<le> of_nat (N - s)"
      using assms(5) unfolding word_le_nat_alt u32_of_nat_unat [OF n32] by (simp add: sizeof_bhdr_def)
    have e: "of_nat (N - s) - BHDR_OVERHEAD = (of_nat ?k :: u32)" using assms(5) by (simp add: BHDR_OVERHEAD_def of_nat_diff)
    show ?thesis
      unfolding m'_def split_block_def Let_def m1_def m2_def m3_def m4_def using b by (simp only: if_True e next_block c prod.case)
  qed
  have "words m4 (q + 4) = hdr j False ?lf" using st [OF qs(1)] h(5) assms(4,5) unfolding w3 by simp
  then have w: "words m' = (words m4)(q + 4 := hdr s False ?lf)"
    unfolding m' words_size [OF at(1)] using hdr_simps(7) [OF assms(3), of j False ?lf] h(3) by simp
  have out: "words m' x = words m x" if "outer ?A xs ?r ys x \<or> q + 8 \<le> x \<and> x < q + 8 + s" for x
  proof -
    have "stable ?A ?cs x" "x \<noteq> q + 4" "x \<noteq> ?p + 4" "x \<noteq> ?r" "x \<noteq> ?r + 4"
      using that stable_bounds [of ?A xs x] assms(5) by (auto simp: outer_def stable_append stable_Cons q_def ac_simps)
    then show ?thesis using st unfolding w w3 by simp
  qed
  have good: "good_blocks (xs @ [(s, False), (?k, True)] @ y # ys')"
    by (rule good_blocks_replace [of xs "[(N, False)]"]) (use h(2) assms(2-4) k y in simp_all)
  have hx: "heads (words m') ?A False 0 xs"
    using h(4) heads_cong [of ?A xs "words m'" "words m" False 0] outer_heads(1) out by blast
  have hy: "heads (words m') (?r + 8 + fst y) (snd y) ?r ys'"
    using nx(2) heads_cong [of "?r + 8 + fst y" ys' "words m'" "words m" "snd y" ?r] outer_heads(2) [of _ _ ?r y ys' ?A xs] out
    unfolding y by blast
  have own: "words m' (q + 4) = hdr s False ?lf" "words m' (?p + 4) = hdr ?k True False" "words m' ?r = of_nat ?p"
    "words m' (?r + 4) = hdr (fst y) (snd y) True" "words m' q = words m q"
    using st [OF qs(3)] st [OF qs(4)] st [OF qs(5)] st [OF qs(2)] assms(5) unfolding w w3 by simp_all
  have pr: "?p + 8 + ?k = ?r" using assms(5) by simp
  have "heads (words m') q ?lf (last_place ?A 0 xs) ((s, False) # (?k, True) # y # ys')"
    unfolding heads.simps fst_conv snd_conv pr using own h(6) hy by simp
  then have "heads (words m') ?A False 0 ?cs" using hx unfolding y heads_append by (simp add: q_def)
  moreover have "lists_for t ?cs ?L (words m')" unfolding w using put(1) by (intro lists_for_upd [OF _ qs(1)]) simp
  ultimately have "heap t (xs @ [(s, False), (?k, True)] @ ys) ?L m'" using good y unfolding heap_def lists_for_def by simp
  then show thesis using that out by blast
qed

text \<open>A block whose neighbours know about it is a block of the heap.\<close>

lemma held_settle:
  assumes "held t xs n n False ys L m"
    "words m (t + 3184 + extent xs + 8 + n + 4) = hdr (fst (hd ys)) (snd (hd ys)) False"
  shows "heap t (xs @ (n, False) # ys) L m"
proof -
  obtain y ys' where "ys = y # ys'" using held_bounds(6) [OF assms(1)] by (cases ys) auto
  then show ?thesis using assms unfolding held_def heap_def lists_for_def next_heads_def by (simp add: heads_append)
qed

text \<open>Growing into the free block behind, before anything is split off.\<close>

definition grow_mem :: "nat \<Rightarrow> nat \<Rightarrow> nat \<Rightarrow> nat \<Rightarrow> mem \<Rightarrow> mem" where
  "grow_mem t q n k m =
     (let m = right_mem t q (q + 8 + n) k m;
          m = store32 (of_nat (q + 8 + (n + (k + 8)))) (of_nat q) m
      in store32 (size_of (of_nat (q + 8 + (n + (k + 8)))))
           (load32 m (size_of (of_nat (q + 8 + (n + (k + 8))))) AND NOT PREV_FREE) m)"

lemma gap_grow:
  assumes "gap t xs n False ((k, True) # ys) L m"
  defines "q \<equiv> t + 3184 + extent xs"
  obtains L' where "heap t (xs @ (n + (k + 8), False) # ys) L' (grow_mem t q n k m)" "\<not> snd (hd ys)"
    "\<And>x. outer (t + 3184) xs (q + 8 + (n + (k + 8))) ys x \<or> q + 8 \<le> x \<and> x < q + 8 + n \<Longrightarrow> words (grow_mem t q n k m) x = words m x"
proof -
  let ?A = "t + 3184" let ?N = "n + (k + 8)" let ?r = "q + 8 + ?N"
  define m1 where "m1 = right_mem t q (q + 8 + n) k m"
  obtain L1 where g: "gap t xs ?N False ys L1 m1" "\<not> snd (hd ys)"
    "\<And>x. outer ?A xs ?r ys x \<or> q + 8 \<le> x \<and> x < q + 8 + n \<Longrightarrow> words m1 x = words m x"
    using gap_right [OF assms(1), folded q_def] unfolding m1_def by metis
  note sz = gap_sizes [OF g(1), folded q_def]
  obtain y ys' where y: "ys = y # ys'" using gap_next [OF g(1)] by (cases ys) auto
  have y8: "8 dvd fst y" using sz(2) by (simp add: y)
  obtain gf where nx: "words m1 (?r + 4) = hdr (fst y) (snd y) gf" using g(1) by (auto simp: gap_def next_heads_def y q_def)
  have "words (store32 (of_nat ?r) (of_nat q) m1) (?r + 4) = hdr (fst y) (snd y) gf"
    unfolding words_store32 [OF node_words(1) [OF sz(5)]] using nx by simp
  then have w: "words (grow_mem t q n k m) = (words m1)(?r := of_nat q, ?r + 4 := hdr (fst y) (snd y) False)"
    unfolding grow_mem_def Let_def m1_def [symmetric] words_size [OF node_words(2) [OF sz(5)]] words_store32 [OF node_words(1) [OF sz(5)]]
    using hdr_simps(5) [OF y8, of "snd y" gf] by simp
  have h: "lists_for t (xs @ (?N, False) # ys) L1 (words m1)" "words m1 (q + 4) = hdr ?N False (last_free False xs)"
    using g(1) by (simp_all add: gap_def q_def)
  have lf: "lists_for t (xs @ (?N, False) # ys) L1 (words (grow_mem t q n k m))"
    unfolding w by (intro lists_for_upd h(1)) (simp_all add: stable_append stable_Cons q_def y)
  have out: "words (grow_mem t q n k m) x = words m1 x" if "outer ?A xs ?r ys x \<or> x < ?r" for x
    using that stable_bounds [of ?A xs x] unfolding w by (auto simp: outer_def q_def)
  have "held t xs ?N ?N False ys L1 (grow_mem t q n k m)"
    unfolding held_def q_def [symmetric]
  proof (intro conjI impI)
    have "heads (words (grow_mem t q n k m)) ?A False 0 xs = heads (words m1) ?A False 0 xs"
      by (rule heads_cong) (use out outer_heads(1) in blast)
    then show "heads (words (grow_mem t q n k m)) ?A False 0 xs" using g(1) by (simp add: gap_def)
    have "heads (words (grow_mem t q n k m)) (?r + 8 + fst y) (snd y) ?r ys' = heads (words m1) (?r + 8 + fst y) (snd y) ?r ys'"
      by (rule heads_cong) (use out outer_heads(2) in \<open>simp only: y, blast\<close>)
    moreover have "heads (words m1) (?r + 8 + fst y) (snd y) ?r ys'" using g(1) unfolding gap_def q_def [symmetric] by (simp add: next_heads_def y)
    moreover have "words (grow_mem t q n k m) (?r + 4) = hdr (fst y) (snd y) False" by (simp add: w)
    ultimately show "next_heads (words (grow_mem t q n k m)) ?r ys" unfolding next_heads_def y list.sel by blast
    show "words (grow_mem t q n k m) q = of_nat (last_place ?A 0 xs)" if "last_free False xs"
      using g(1) that out [of q] by (simp add: gap_def q_def)
    show "words (grow_mem t q n k m) (q + 4) = hdr ?N False (last_free False xs)" using out [of "q + 4"] h(2) by simp
  qed (use g(1) lf sz(3) in \<open>simp_all add: gap_def\<close>)
  then have "heap t (xs @ (?N, False) # ys) L1 (grow_mem t q n k m)"
    by (rule held_settle) (unfold q_def [symmetric], simp add: w y)
  moreover have "words (grow_mem t q n k m) x = words m x" if "outer ?A xs ?r ys x \<or> q + 8 \<le> x \<and> x < q + 8 + n" for x
    using g(3) [OF that] out [of x] that by auto
  ultimately show thesis using that g(2) by blast
qed

section \<open>Resizing in place\<close>

text \<open>
  The code of \<open>realloc_ex\<close> for a block at \<open>q\<close>, with the values that it reads: the sizes \<open>n\<close> and
  \<open>k\<close> of the block and of the next one, and whether the next one is free.
\<close>

lemma realloc_ex_reads:
  assumes "gap t xs n False ys L m" "unat sz \<le> 0x3E000000" "sz \<noteq> 0"
  defines "q \<equiv> t + 3184 + extent xs" and "s \<equiv> unat (request sz)" and "k \<equiv> fst (hd ys)"
  shows "realloc_ex (of_nat (q + 8)) sz (of_nat t) m =
    (if s \<le> n then
       if snd (hd ys) then
         let m = EXTRACT_BLOCK (of_nat (q + 8 + n)) (of_nat t) (int (fst (class_of k))) (int (snd (class_of k))) m
         in (of_nat (q + 8), split_block (of_nat q) (GET_NEXT_BLOCK (buffer (of_nat (q + 8 + n))) (block_size m (of_nat (q + 8 + n))))
              (of_nat n + (block_size m (of_nat (q + 8 + n)) + BHDR_OVERHEAD) - of_nat s) (of_nat s) (of_nat t) m)
       else (of_nat (q + 8), split_block (of_nat q) (of_nat (q + 8 + n)) (of_nat n - of_nat s) (of_nat s) (of_nat t) m)
     else if snd (hd ys) \<and> s \<le> n + k then
       let m = right_mem t q (q + 8 + n) k m;
           next_b = GET_NEXT_BLOCK (buffer (of_nat q)) (block_size m (of_nat q));
           m = store32 next_b (of_nat q) m;
           m = store32 (size_of next_b) (load32 m (size_of next_b) AND NOT PREV_FREE) m
       in (of_nat (q + 8), split_block (of_nat q) next_b (block_size m (of_nat q) - of_nat s) (of_nat s) (of_nat t) m)
     else
       let (p, m) = malloc_ex (request sz) (of_nat t) m
       in if p = 0 then (0, m)
          else let (_, m) = memcpy p (of_nat (q + 8)) (if block_size m (of_nat q) > of_nat s then of_nat s else block_size m (of_nat q)) m
               in (p, free_ex (of_nat (q + 8)) (of_nat t) m))"
proof -
  note sz = gap_sizes [OF assms(1), folded q_def]
  have y: "hd ys \<in> set (xs @ (n, False) # ys)" using gap_next [OF assms(1)] by simp
  have y8: "8 dvd k" using sz(2) y unfolding k_def by blast
  have b: "block_size m (of_nat q) = of_nat n"
    by (rule block_size_words [OF node_words(2) [OF sz(4)] gap_head [OF assms(1), folded q_def] sz(3)])
  obtain g where g: "words m (q + 8 + n + 4) = hdr k (snd (hd ys)) g"
    using assms(1) unfolding gap_def next_heads_def q_def k_def by blast
  have r: "block_size m (of_nat (q + 8 + n)) = of_nat k" by (rule block_size_words [OF node_words(2) [OF sz(5)] g y8])
  note fr = hdr_simps(8) [OF y8]
  have lim: "n < 1073741824" "k < 1073741824"
    using room_size [OF sz(1), of "(n, False)"] room_size [OF sz(1) y] by (simp_all add: k_def)
  have s: "request sz = of_nat s" "s < 1073741824" using request(4) [OF assms(2)] by (simp_all add: s_def)
  have le: "(of_nat s :: u32) \<le> of_nat i \<longleftrightarrow> s \<le> i" if "i < 4294967296" for i
    using that s(2) by (simp add: word_le_nat_alt u32_of_nat_unat)
  have cmp: "(of_nat s :: u32) \<le> of_nat n \<longleftrightarrow> s \<le> n" "(of_nat s :: u32) \<le> of_nat n + of_nat k \<longleftrightarrow> s \<le> n + k"
    using le [of n] le [of "n + k"] lim by simp_all
  have q8: "q + 8 < 4294967296" using sz(4) by (simp add: node_def)
  have ptr: "(of_nat (q + 8) :: u32) \<noteq> 0" using of_nat_u32_0 [OF q8] by simp
  have bb: "of_nat (q + 8) - BHDR_OVERHEAD = (of_nat q :: u32)" "buffer (of_nat q) = of_nat (q + 8)"
    by (simp_all add: BHDR_OVERHEAD_def buffer_def)
  have rq: "(if sz < MIN_BLOCK_SIZE then MIN_BLOCK_SIZE else ROUNDUP_SIZE sz) = of_nat s" using s(1) by (simp add: request_def)
  have cl: "MAPPING_INSERT (of_nat k) = (int (fst (class_of k)), int (snd (class_of k)))" unfolding k_def by (rule gap_class [OF assms(1) y])
  note reads = ptr assms(3) if_False if_True bb rq b next_block of_nat_fields(9) words_size(1) [OF node_words(2) [OF sz(5)]] g fr r cmp cl prod.case simp_thms
  show ?thesis
    unfolding realloc_ex_def right_mem_def s(1) Let_def
    by (cases "s \<le> n"; cases "snd (hd ys)"; cases "s \<le> n + k") (simp_all only: reads)
qed

lemma split_small: "N - s < 16 \<Longrightarrow> split_block b next_b (of_nat (N - s)) r tp m = m"
  by (simp add: split_block_def sizeof_bhdr_def word_le_nat_alt u32_of_nat_unat)

lemma heap_carve:
  assumes "heap t (xs @ (N, False) # ys) L m" "8 \<le> N" "\<not> snd (hd ys)" "8 dvd s" "8 \<le> s" "s \<le> N"
  defines "q \<equiv> t + 3184 + extent xs"
  defines "m' \<equiv> split_block (of_nat q) (of_nat (q + 8 + N)) (of_nat N - of_nat s) (of_nat s) (of_nat t) m"
  obtains L' where "heap t (xs @ carve N s @ ys) L' m'"
    "\<And>x. outer (t + 3184) xs (q + 8 + N) ys x \<or> q + 8 \<le> x \<and> x < q + 8 + s \<Longrightarrow> words m' x = words m x"
proof -
  have h: "held t xs N N False ys L m" using heads_gap(1) [OF assms(1,2)] by (simp only: held_same)
  have e: "of_nat N - of_nat s = (of_nat (N - s) :: u32)" using assms(6) by (simp add: of_nat_diff)
  show thesis
  proof (cases "16 \<le> N - s")
    case True
    then have "s + 16 \<le> N" by simp
    from held_split [OF h assms(3-5) this, folded q_def] obtain L' where
      "heap t (xs @ [(s, False), (N - s - 8, True)] @ ys) L' m'"
      "\<And>x. outer (t + 3184) xs (q + 8 + N) ys x \<or> q + 8 \<le> x \<and> x < q + 8 + s \<Longrightarrow> words m' x = words m x"
      unfolding m'_def e by metis
    moreover have "carve N s = [(s, False), (N - s - 8, True)]" using True by (simp add: carve_def)
    ultimately show thesis using that by simp
  next
    case False
    then have "m' = m" unfolding m'_def e by (intro split_small) simp
    then show thesis using that assms(1) False by (simp add: carve_def)
  qed
qed

text \<open>
  A block stays where it is when it is large enough, alone or with a free block behind it:
  it is carved from both, and keeps its contents up to the new size.
\<close>

lemma realloc_in_place:
  assumes "heap t (xs @ (n, False) # ys) L m" "8 \<le> n" "unat sz \<le> 0x3E000000" "sz \<noteq> 0" "join_right n ys = (N, zs)"
  defines "q \<equiv> t + 3184 + extent xs" and "s \<equiv> unat (request sz)"
  assumes "s \<le> n \<or> s + 8 \<le> N"
  obtains L' m' where "realloc_ex (of_nat (q + 8)) sz (of_nat t) m = (of_nat (q + 8), m')"
    "heap t (xs @ carve N s @ zs) L' m'"
    "\<And>x. outer (t + 3184) xs (q + 8 + N) zs x \<or> q + 8 \<le> x \<and> x < q + 8 + min n s \<Longrightarrow> words m' x = words m x"
proof -
  note g = heads_gap(1) [OF assms(1,2)]
  note reads = realloc_ex_reads [OF g assms(3,4), folded q_def s_def]
  have s: "8 dvd s" "8 \<le> s" using request [OF assms(3)] by (simp_all add: s_def)
  show thesis
  proof (cases "snd (hd ys)")
    case False
    then have nz: "N = n" "zs = ys" using assms(5) gap_next [OF g] by (simp_all add: join_right_def)
    then have sn: "s \<le> n" using assms(8) by auto
    let ?m = "split_block (of_nat q) (of_nat (q + 8 + n)) (of_nat n - of_nat s) (of_nat s) (of_nat t) m"
    have r: "realloc_ex (of_nat (q + 8)) sz (of_nat t) m = (of_nat (q + 8), ?m)" unfolding reads using False sn by simp
    obtain L' where "heap t (xs @ carve n s @ ys) L' ?m"
      "\<And>x. outer (t + 3184) xs (q + 8 + n) ys x \<or> q + 8 \<le> x \<and> x < q + 8 + s \<Longrightarrow> words ?m x = words m x"
      using heap_carve [OF assms(1,2) False s sn, folded q_def] by metis
    then show thesis using that [OF r] sn unfolding nz by simp
  next
    case True
    then obtain k where ys: "ys = (k, True) # zs" and N: "N = n + (k + 8)"
      using assms(5) gap_next [OF g] by (cases ys) (auto simp: join_right_def)
    note g = g [unfolded ys]
    have k8: "8 \<le> k" using g good_blocksD(1) [of "xs @ (n, False) # (k, True) # zs"] by (simp add: gap_def)
    show thesis
    proof (cases "s \<le> n")
      case sn: True
      let ?e = "EXTRACT_BLOCK (of_nat (q + 8 + n)) (of_nat t) (int (fst (class_of k))) (int (snd (class_of k))) m"
      let ?m = "split_block (of_nat q) (of_nat (q + 8 + N)) (of_nat (N - s)) (of_nat s) (of_nat t) ?e"
      obtain L1 where e: "held t xs N n False zs L1 ?e" "block_size ?e (of_nat (q + 8 + n)) = of_nat k" "\<not> snd (hd zs)"
        "\<And>x. outer (t + 3184) xs (q + 8 + N) zs x \<or> stable (q + 8 + N) zs x \<or> q + 8 \<le> x \<and> x < q + 8 + n \<Longrightarrow> words ?e x = words m x"
        using held_extract [OF g, folded q_def] unfolding N by metis
      have "of_nat n + (of_nat k + BHDR_OVERHEAD) - of_nat s = (of_nat (N - s) :: u32)"
        using sn by (simp add: N BHDR_OVERHEAD_def of_nat_diff)
      moreover have "q + 8 + n + 8 + k = q + 8 + N" by (simp add: N)
      ultimately have r: "realloc_ex (of_nat (q + 8)) sz (of_nat t) m = (of_nat (q + 8), ?m)"
        unfolding reads ys list.sel prod.sel Let_def e(2) next_block using sn by (simp only: if_True)
      have "s + 16 \<le> N" using sn k8 by (simp add: N)
      from held_split [OF e(1,3) s this, folded q_def] obtain L' where f:
        "heap t (xs @ [(s, False), (N - s - 8, True)] @ zs) L' ?m"
        "\<And>x. outer (t + 3184) xs (q + 8 + N) zs x \<or> q + 8 \<le> x \<and> x < q + 8 + s \<Longrightarrow> words ?m x = words ?e x" by metis
      have c: "carve N s = [(s, False), (N - s - 8, True)]" using \<open>s + 16 \<le> N\<close> by (auto simp: carve_def)
      show thesis
      proof (rule that [OF r])
        show "heap t (xs @ carve N s @ zs) L' ?m" using f(1) c by simp
        show "words ?m x = words m x" if "outer (t + 3184) xs (q + 8 + N) zs x \<or> q + 8 \<le> x \<and> x < q + 8 + min n s" for x
          using f(2) [of x] e(4) [of x] sn that by auto
      qed
    next
      case False
      then have sk: "s \<le> n + k" using assms(8) by (simp add: N)
      obtain L1 where w: "heap t (xs @ (N, False) # zs) L1 (grow_mem t q n k m)" "\<not> snd (hd zs)"
        "\<And>x. outer (t + 3184) xs (q + 8 + N) zs x \<or> q + 8 \<le> x \<and> x < q + 8 + n \<Longrightarrow> words (grow_mem t q n k m) x = words m x"
        using gap_grow [OF g, folded q_def] unfolding N by metis
      obtain L2 where "gap t xs N False zs L2 (right_mem t q (q + 8 + n) k m)" using gap_right [OF g, folded q_def] unfolding N by metis
      note sz = gap_sizes(3,4) [OF this, folded q_def] and hd = gap_head [OF this, folded q_def]
      have b1: "block_size (right_mem t q (q + 8 + n) k m) (of_nat q) = of_nat N"
        by (rule block_size_words [OF node_words(2) [OF sz(2)] hd sz(1)])
      have N8: "8 \<le> N" by (simp add: N)
      have b2: "block_size (grow_mem t q n k m) (of_nat q) = of_nat N"
        by (rule block_size_words [OF node_words(2) [OF sz(2)] gap_head [OF heads_gap(1) [OF w(1) N8], folded q_def] sz(1)])
      let ?m = "split_block (of_nat q) (of_nat (q + 8 + N)) (of_nat N - of_nat s) (of_nat s) (of_nat t) (grow_mem t q n k m)"
      have gm: "store32 (size_of (of_nat (q + 8 + N)))
          (load32 (store32 (of_nat (q + 8 + N)) (of_nat q) (right_mem t q (q + 8 + n) k m)) (size_of (of_nat (q + 8 + N))) AND NOT PREV_FREE)
          (store32 (of_nat (q + 8 + N)) (of_nat q) (right_mem t q (q + 8 + n) k m)) = grow_mem t q n k m"
        by (simp add: grow_mem_def Let_def N)
      have r: "realloc_ex (of_nat (q + 8)) sz (of_nat t) m = (of_nat (q + 8), ?m)"
        unfolding reads ys list.sel prod.sel using False sk by (simp only: if_False if_True simp_thms Let_def b1 next_block gm b2)
      have sN: "s \<le> N" using sk by (simp add: N)
      obtain L' where f: "heap t (xs @ carve N s @ zs) L' ?m"
        "\<And>x. outer (t + 3184) xs (q + 8 + N) zs x \<or> q + 8 \<le> x \<and> x < q + 8 + s \<Longrightarrow> words ?m x = words (grow_mem t q n k m) x"
        using heap_carve [OF w(1) N8 w(2) s sN, folded q_def] by metis
      show thesis
      proof (rule that [OF r f(1)])
        show "words ?m x = words m x" if "outer (t + 3184) xs (q + 8 + N) zs x \<or> q + 8 \<le> x \<and> x < q + 8 + min n s" for x
          using f(2) [of x] w(3) [of x] False that by auto
      qed
    qed
  qed
qed

section \<open>The blocks of clients\<close>

lemma block_size_used:
  assumes "heap t bs L m" "(q, n, f) \<in> set (placed (t + 3184) bs)"
  shows "block_size m (of_nat q) = of_nat n"
proof -
  have r: "room t bs" "\<forall>b\<in>set bs. 8 dvd fst b" using heap_lists_for [OF assms(1)] by (simp_all add: lists_for_def)
  obtain xs ys where s: "bs = xs @ (n, f) # ys" "q = t + 3184 + extent xs" using placed_split [OF assms(2)] .
  have "words m (q + 4) = hdr n f (last_free False xs)" using assms(1) by (simp add: heap_def s heads_append)
  then show ?thesis using node_words(2) [OF placed_node [OF r assms(2)]] r(2) s(1) by (intro block_size_words) auto
qed

lemma join_right_placed:
  "join_right n ys = (N, zs) \<Longrightarrow> (p, k, False) \<in> set (placed (r + 8 + n) ys) \<longleftrightarrow> (p, k, False) \<in> set (placed (r + 8 + N) zs)"
  by (cases ys) (auto simp: join_right_def add.assoc split: if_splits)

lemma join_right_extent: "join_right n ys = (N, zs) \<Longrightarrow> n + extent ys = N + extent zs"
  by (cases ys) (auto simp: join_right_def split: if_splits)

lemma in_place_outer:
  assumes "(p, k, False) \<in> set (placed q (xs @ (n, False) # ys))" "join_right n ys = (N, zs)" "p \<noteq> q + extent xs" "p + 8 \<le> x" "x < p + 8 + k"
  shows "outer q xs (q + extent xs + 8 + N) zs x"
proof (rule outer_buffer [where f = False and k = k])
  show "(p, k, False) \<in> set (placed q (xs @ (N, False) # zs))"
    using assms(1,3) join_right_placed [OF assms(2), of p k "q + extent xs"] by auto
qed (use assms(3-5) in simp_all)

lemma owned_in_place:
  assumes "owned t (xs @ (n, False) # ys) A" "room t (xs @ (n, False) # ys)" "extent xs \<noteq> 0" "join_right n ys = (N, zs)"
    "s \<le> N" "8 \<le> s" "i \<le> s"
  shows "owned t (xs @ carve N s @ zs) (A(of_nat (t + 3184 + extent xs + 8) \<mapsto> i))"
proof -
  let ?A = "t + 3184" let ?q = "t + 3184 + extent xs" let ?p = "of_nat (?q + 8) :: u32"
  have "owned t (xs @ (N, True) # zs) (A(?p := None))"
  proof (rule owned_drop [OF assms(1,2), where j = n])
    fix p k
    have "p \<noteq> ?q" if "(p, k, False) \<in> set (placed ?A xs) \<or> (p, k, False) \<in> set (placed (?q + 8 + n) ys)"
      using that placed_bounds [of p "(k, False)" ?A xs] placed_bounds [of p "(k, False)" "?q + 8 + n" ys] by auto
    then show "(p, k, False) \<in> set (placed ?A (xs @ (N, True) # zs)) \<longleftrightarrow> (p, k, False) \<in> set (placed ?A (xs @ (n, False) # ys)) \<and> p \<noteq> ?q"
      using join_right_placed [OF assms(4), of p k ?q] by auto
  qed (use assms(3) in simp_all)
  from owned_carve [OF this assms(5-7)] show ?thesis by simp
qed

text \<open>What \<open>krealloc\<close> has to keep: the given bytes of the block, and all of the other blocks.\<close>

definition keeps :: "(u32 \<rightharpoonup> nat) \<Rightarrow> u32 \<Rightarrow> u32 \<Rightarrow> nat \<Rightarrow> mem \<Rightarrow> mem \<Rightarrow> bool" where
  "keeps A p p' n m m' \<longleftrightarrow> (\<forall>i<n. m' (p' + of_nat i) = m (p + of_nat i)) \<and>
     (\<forall>q k. A q = Some k \<longrightarrow> q \<noteq> p \<longrightarrow> (\<forall>z\<in>region q k. m' z = m z))"

lemma keeps_upd: "keeps (A(p \<mapsto> n)) p p' i m m' = keeps A p p' i m m'"
  unfolding keeps_def by auto

lemma krealloc_split: "krealloc p sz h = (fst (realloc_ex p sz (mp h) (kmem h)), h\<lparr>kmem := snd (realloc_ex p sz (mp h) (kmem h))\<rparr>)"
  by (simp add: krealloc_def tlsf_realloc_def split: prod.split)

lemma krealloc_in_place:
  assumes "mp h = of_nat t" "heap t (xs @ (n, False) # ys) L (kmem h)" "extent (xs @ (n, False) # ys) = e"
    "owned t (xs @ (n, False) # ys) A" "extent xs \<noteq> 0" "8 \<le> n" "kheap_fits sz" "sz \<noteq> 0" "join_right n ys = (N, zs)"
  defines "s \<equiv> unat (request sz)" and "p \<equiv> of_nat (t + 3184 + extent xs + 8)"
  assumes "s \<le> n \<or> s + 8 \<le> N"
  shows "\<exists>h'. krealloc p sz h = (p, h') \<and> kheap_live t e h' (A(p \<mapsto> unat sz)) \<and> keeps A p p (min n (unat sz)) (kmem h) (kmem h')"
proof -
  let ?A = "t + 3184" let ?q = "t + 3184 + extent xs" let ?bs = "xs @ (n, False) # ys"
  have sz: "unat sz \<le> 0x3E000000" using assms(7) by (simp add: kheap_fits_def word_le_nat_alt)
  note rq = request [OF sz, folded s_def]
  obtain L' m' where r: "realloc_ex p sz (of_nat t) (kmem h) = (p, m')" "heap t (xs @ carve N s @ zs) L' m'"
    "\<And>x. outer ?A xs (?q + 8 + N) zs x \<or> ?q + 8 \<le> x \<and> x < ?q + 8 + min n s \<Longrightarrow> words m' x = words (kmem h) x"
    using realloc_in_place [OF assms(2,6) sz assms(8,9), folded s_def p_def, OF assms(12)] by metis
  have nN: "n \<le> N" using assms(9) by (auto simp: join_right_def split: if_splits)
  have live: "kheap_live t e (h\<lparr>kmem := m'\<rparr>) (A(p \<mapsto> unat sz))"
  proof (rule kheap_liveI [where bs = "xs @ carve N s @ zs" and L = L'])
    show "owned t (xs @ carve N s @ zs) (A(p \<mapsto> unat sz))"
      unfolding p_def using owned_in_place [OF assms(4) _ assms(5,9)] assms(2,12) nN rq(2,3) by (auto simp: heap_def)
    show "extent (xs @ carve N s @ zs) = e" using assms(3) join_right_extent [OF assms(9)] by (simp add: extent_carve)
  qed (use assms(1) r(2) in simp_all)
  have own: "(?q, n, False) \<in> set (placed ?A ?bs)" by simp
  have "m' (p + of_nat i) = kmem h (p + of_nat i)" if i: "i < min n (unat sz)" for i
  proof -
    have p: "unat p = ?q + 8" unfolding p_def by (rule placed_region(1) [OF assms(2) own order_refl])
    have "unat p + i < 4294967296" using placed_bounds [OF own] i assms(2) p by (simp add: heap_def room_def)
    then have "unat (p + of_nat i) = ?q + 8 + i" using p by (simp add: unat_add_no_wrap u32_of_nat_unat)
    moreover have "4 dvd n" "4 dvd s" "4 dvd ?q + 8"
    proof -
      have d: "room t ?bs" "\<forall>b\<in>set ?bs. 8 dvd fst b" using heap_lists_for [OF assms(2)] by (simp_all add: lists_for_def)
      show "4 dvd ?q + 8" by (rule dvd4_add(2) [OF node_dvd [OF placed_node [OF d own]]])
      show "4 dvd n" "4 dvd s" using d(2) rq(1) dvd_trans [of 4 8] by auto
    qed
    ultimately show ?thesis
      using i rq(3) by (intro bytes_of_words [where a = "?q + 8" and k = "min n s"] r(3)) (auto simp: min_def split: if_splits)
  qed
  moreover have "m' z = kmem h z" if A: "A q' = Some k" "q' \<noteq> p" "z \<in> region q' k" for q' k z
  proof -
    obtain c j where b: "q' = of_nat (c + 8)" "(c, j, False) \<in> set (placed ?A ?bs)" "k \<le> j" by (rule ownedD [OF assms(4) A(1)])
    have "c \<noteq> ?q" using A(2) b(1) unfolding p_def by blast
    then have "words m' x = words (kmem h) x" if "c + 8 \<le> x" "x < c + 8 + j" for x
      using in_place_outer [OF b(2) assms(9) _ that] r(3) by blast
    then show ?thesis using block_bytes [OF assms(2) b(2,3), of z m'] A(3) b(1) by simp
  qed
  ultimately have "keeps A p p (min n (unat sz)) (kmem h) m'" unfolding keeps_def by blast
  then show ?thesis using live r(1) assms(1) by (simp add: krealloc_split)
qed

section \<open>Moving to a new block\<close>

lemma region_sub:
  assumes "unat p + n \<le> 4294967296"
  shows "unat (z - p) < n \<longleftrightarrow> z \<in> region p n"
  using assms unat_sub_if_size [of z p] u32_unat_bound [of z] by (auto simp: region_def word_size)

lemma region_nth: "unat p + n \<le> 4294967296 \<Longrightarrow> i < n \<Longrightarrow> p + of_nat i \<in> region p n"
  using u32_of_nat_unat [of i] by (simp add: region_sub [symmetric])

lemma regions_no_overlap:
  assumes "region a i \<inter> region b j = {}" "unat a + i \<le> 4294967296" "unat b + j \<le> 4294967296" "n \<le> i" "n \<le> j"
  shows "no_overlap a b n"
proof (cases "n = 0")
  case False
  then have "a \<in> region a i" "b \<in> region b j" using assms(4,5) by (simp_all add: region_def)
  then have "\<not> unat (a - b) < j" "\<not> unat (b - a) < i" unfolding region_sub [OF assms(2)] region_sub [OF assms(3)] using assms(1) by blast+
  then show ?thesis using assms(4,5) by (simp add: no_overlap_def)
qed (simp add: no_overlap_def)

lemma kmalloc_split: "kmalloc sz h = (fst (malloc_ex sz (mp h) (kmem h)), h\<lparr>kmem := snd (malloc_ex sz (mp h) (kmem h))\<rparr>)"
  by (simp add: kmalloc_def tlsf_malloc_def split: prod.split)

lemma malloc_keeps_size:
  assumes "heap t bs L m" "unat sz \<le> 0x3E000000" "(q, n, False) \<in> set (placed (t + 3184) bs)"
  shows "block_size (snd (malloc_ex sz (of_nat t) m)) (of_nat q) = of_nat n"
  using malloc_ex_heap [OF assms(1,2)]
proof (elim disjE exE conjE)
  fix xs k ys L' m'
  assume m: "bs = xs @ (k, True) # ys" "malloc_ex sz (of_nat t) m = (of_nat (t + 3184 + extent xs + 8), m')"
    "heap t (xs @ carve k (fit sz) @ ys) L' m'"
  show ?thesis using block_size_used [OF m(3) carve_keeps] assms(3) m(1,2) by simp
qed (use block_size_used [OF assms(1,3)] in simp)

lemma kheap_shrink:
  assumes "kheap_live t e h A" "A p = Some j" "i \<le> j"
  shows "kheap_live t e h (A(p \<mapsto> i))"
proof -
  obtain bs L where h: "mp h = of_nat t" "heap t bs L (kmem h)" "extent bs = e" "owned t bs A" by (rule kheap_liveE [OF assms(1)])
  obtain q k where q: "p = of_nat (q + 8)" "(q, k, False) \<in> set (placed (t + 3184) bs)" "q \<noteq> t + 3184" "8 \<le> k" "j \<le> k"
    by (rule ownedD [OF h(4) assms(2)])
  have "i \<le> k" using assms(3) q(5) by simp
  from owned_resize [OF h(4) q(2-4) this] show ?thesis unfolding q(1) by (rule kheap_liveI [OF h(1-3)])
qed

text \<open>A new block takes over the first \<open>n\<close> bytes of the old one, which is freed.\<close>

lemma move_block:
  assumes "kheap_live t e h A" "A p = Some n" "kheap_fits r" "kmalloc r h = (p', h1)" "p' \<noteq> 0" "n \<le> unat r"
  defines "h2 \<equiv> set_kmem (snd (memcpy p' p (of_nat n) (kmem h1))) h1"
  shows "A p' = None \<and> kheap_live t e (kfree p h2) (A(p := None, p' \<mapsto> unat r)) \<and> keeps A p p' n (kmem h) (kmem (kfree p h2))"
proof -
  let ?A = "A(p' \<mapsto> unat r)"
  have live: "kheap_live t e h1 ?A" and new: "A p' = None" using kernel.alloc_new [OF assms(1,3-5)] by simp_all
  have pp: "p' \<noteq> p" using new assms(2) by auto
  have A: "?A p' = Some (unat r)" "?A p = Some n" using pp assms(2) by simp_all
  have b: "unat p' + unat r \<le> 4294967296" "unat p + n \<le> 4294967296"
    using kheap_bound [OF live A(1)] kheap_bound [OF live A(2)] by simp_all
  have n32: "unat (of_nat n :: u32) = n" using assms(6) u32_unat_bound [of r] by (simp add: u32_of_nat_unat)
  have "no_overlap p' p (unat (of_nat n :: u32))"
    unfolding n32 by (rule regions_no_overlap [OF kheap_separate [OF live A pp] b assms(6) order_refl])
  from memcpy_copies [OF this, of "kmem h1"] have m2: "kmem h2 = (\<lambda>x. if unat (x - p') < n then kmem h1 (p + (x - p')) else kmem h1 x)"
    by (simp add: h2_def set_kmem_def word_less_nat_alt n32)
  have same: "kmem h2 z = kmem h1 z" if "z \<notin> region p' (unat r)" for z
  proof -
    have "z \<notin> region p' n" using that assms(6) by (auto simp: region_def)
    then show ?thesis using region_sub [of p' n z] b(1) assms(6) by (simp add: m2)
  qed
  have live2: "kheap_live t e h2 ?A"
    unfolding h2_def by (rule kheap_write [OF live]) (use same A(1) in \<open>auto simp: h2_def set_kmem_def\<close>)
  note free = kfree_live [OF live2 A(2)]
  have eq: "A(p := None, p' \<mapsto> unat r) = ?A(p := None)" using pp by (simp add: fun_upd_twist)
  have "kheap_live t e (kfree p h2) (A(p := None, p' \<mapsto> unat r))" unfolding eq by (rule free(1))
  moreover have "kmem (kfree p h2) (p' + of_nat i) = kmem h (p + of_nat i)" if "i < n" for i
  proof -
    have "kmem (kfree p h2) (p' + of_nat i) = kmem h2 (p' + of_nat i)"
      using that assms(6) by (intro free(2) [OF A(1) pp] region_nth [OF b(1)]) simp
    also have "\<dots> = kmem h1 (p + of_nat i)" using that n32 u32_of_nat_unat [of i] u32_unat_bound [of r] assms(6) by (simp add: m2)
    also have "\<dots> = kmem h (p + of_nat i)"
      using kernel.alloc_keeps [OF assms(1,3,2) region_nth [OF b(2) that]] assms(4) by simp
    finally show ?thesis .
  qed
  moreover have "kmem (kfree p h2) z = kmem h z" if q: "A q = Some k" "q \<noteq> p" "z \<in> region q k" for q k z
  proof -
    have Aq: "?A q = Some k" "q \<noteq> p'" using q(1) new by auto
    have "kmem (kfree p h2) z = kmem h2 z" by (rule free(2) [OF Aq(1) q(2,3)])
    also have "\<dots> = kmem h1 z" using kheap_separate [OF live Aq(1) A(1) Aq(2)] q(3) by (intro same) blast
    also have "\<dots> = kmem h z" using kernel.alloc_keeps [OF assms(1,3) q(1,3)] assms(4) by simp
    finally show ?thesis .
  qed
  ultimately show ?thesis using new unfolding keeps_def by blast
qed

lemma krealloc_moved:
  assumes "mp h = of_nat t" "heap t (xs @ (n, False) # ys) L (kmem h)" "extent (xs @ (n, False) # ys) = e"
    "owned t (xs @ (n, False) # ys) A" "extent xs \<noteq> 0" "8 \<le> n" "kheap_fits sz" "sz \<noteq> 0" "join_right n ys = (N, zs)"
  defines "s \<equiv> unat (request sz)" and "p \<equiv> of_nat (t + 3184 + extent xs + 8)"
  assumes "\<not> (s \<le> n \<or> s + 8 \<le> N)"
  shows "krealloc p sz h = (0, h) \<or>
    (\<exists>p' h'. krealloc p sz h = (p', h') \<and> p' \<noteq> 0 \<and> A p' = None \<and> kheap_live t e h' (A(p := None, p' \<mapsto> unat sz)) \<and>
       keeps A p p' n (kmem h) (kmem h'))"
proof -
  let ?q = "t + 3184 + extent xs" let ?bs = "xs @ (n, False) # ys"
  have sz: "unat sz \<le> 0x3E000000" using assms(7) by (simp add: kheap_fits_def word_le_nat_alt)
  note rq = request [OF sz]
  have fits: "kheap_fits (request sz)" using rq(4) by (simp add: kheap_fits_def word_le_nat_alt)
  have own: "(?q, n, False) \<in> set (placed (t + 3184) ?bs)" by simp
  have live: "kheap_live t e h (A(p \<mapsto> n))"
    unfolding p_def by (rule kheap_liveI [OF assms(1-3) owned_resize [OF assms(4) own]]) (use assms(5,6) in simp_all)
  obtain p' h1 where k: "kmalloc (request sz) h = (p', h1)" by fastforce
  then have m: "malloc_ex (request sz) (of_nat t) (kmem h) = (p', kmem h1)" and h1: "mp h1 = of_nat t"
    using assms(1) by (auto simp: kmalloc_split)
  have "snd (hd ys) \<Longrightarrow> s \<le> n + fst (hd ys) \<Longrightarrow> s + 8 \<le> N"
    using assms(9) heads_gap(2) [OF assms(2,6)] by (auto simp: join_right_def split: if_splits)
  then have stay: "\<not> s \<le> n" "\<not> (snd (hd ys) \<and> s \<le> n + fst (hd ys))" using assms(12) by blast+
  note reads = realloc_ex_reads [OF heads_gap(1) [OF assms(2,6)] sz assms(8), folded s_def p_def]
  have r: "realloc_ex p sz (of_nat t) (kmem h) =
    (if p' = 0 then (0, kmem h1) else (p', free_ex p (of_nat t) (snd (memcpy p' p (of_nat n) (kmem h1)))))"
  proof -
    have b: "block_size (kmem h1) (of_nat ?q) = of_nat n" using malloc_keeps_size [OF assms(2) rq(4) own] m by simp
    have "n < 4294967296" using placed_bounds [OF own] assms(2) by (simp add: heap_def room_def)
    then have "\<not> (of_nat s :: u32) < of_nat n" using stay(1) by (simp add: s_def word_less_nat_alt u32_of_nat_unat)
    then show ?thesis unfolding reads by (simp only: stay if_False m b Let_def case_prod_unfold fst_conv snd_conv)
  qed
  show ?thesis
  proof (cases "p' = 0")
    case True
    have "h1 = h" by (rule kernel.alloc_none [OF live fits k [unfolded True]])
    then show ?thesis using r True assms(1) by (simp add: krealloc_split)
  next
    case False
    let ?h = "kfree p (set_kmem (snd (memcpy p' p (of_nat n) (kmem h1))) h1)"
    have "n \<le> unat (request sz)" using stay(1) by (simp add: s_def)
    have "(A(p \<mapsto> n)) p' = None \<and> kheap_live t e ?h (A(p \<mapsto> n, p := None, p' \<mapsto> unat (request sz))) \<and>
        keeps (A(p \<mapsto> n)) p p' n (kmem h) (kmem ?h)"
      by (rule move_block [OF live _ fits k False \<open>n \<le> unat (request sz)\<close>]) simp
    then have mv: "A p' = None" "kheap_live t e ?h (A(p := None, p' \<mapsto> unat (request sz)))" "keeps A p p' n (kmem h) (kmem ?h)"
      by (simp_all add: keeps_upd split: if_splits)
    have "kheap_live t e ?h (A(p := None, p' \<mapsto> unat sz))" using kheap_shrink [OF mv(2), of p' _ "unat sz"] rq(3) by simp
    moreover have "krealloc p sz h = (p', ?h)" 
      using r False h1 by (simp add: krealloc_split assms(1) kfree_def tlsf_free_def set_kmem_def)
    ultimately show ?thesis using mv False by blast
  qed
qed

lemma kheap_not_null: "kheap_live t e h A \<Longrightarrow> A p = Some j \<Longrightarrow> p \<noteq> 0"
proof -
  assume l: "kheap_live t e h A" and A: "A p = Some j"
  obtain bs L where h: "heap t bs L (kmem h)" "owned t bs A" using kheap_liveE [OF l] by metis
  obtain q n where q: "p = of_nat (q + 8)" "(q, n, False) \<in> set (placed (t + 3184) bs)" by (rule ownedD [OF h(2) A])
  show "p \<noteq> 0" using placed_region(1) [OF h(1) q(2) order_refl] by (auto simp: q(1))
qed

lemma request_small:
  assumes "unat sz \<le> n" "8 dvd n" "8 \<le> n" "unat sz \<le> 0x3E000000"
  shows "unat (request sz) \<le> n"
proof -
  have "unat (request sz) = (if unat sz < 8 then 8 else (unat sz + 7) div 8 * 8)"
    using assms(4) unat_ROUNDUP_SIZE [of sz] by (simp add: request_def MIN_BLOCK_SIZE_def word_less_nat_alt)
  moreover obtain k where "n = 8 * k" using assms(2) by blast
  then have "(unat sz + 7) div 8 * 8 \<le> n" using assms(1) by simp
  ultimately show ?thesis using assms(3) by simp
qed

text \<open>
  \<open>krealloc\<close> of an allocated block fails and changes nothing, or returns a block of the new
  size with the old contents; a block that shrinks stays where it is.
\<close>

lemma krealloc_live:
  assumes "kheap_live t e h A" "A p = Some j" "kheap_fits sz" "sz \<noteq> 0"
  shows "krealloc p sz h = (0, h) \<and> j < unat sz \<or>
    (\<exists>p' h'. krealloc p sz h = (p', h') \<and> p' \<noteq> 0 \<and> (p' = p \<or> A p' = None \<and> j < unat sz) \<and>
       kheap_live t e h' (A(p := None, p' \<mapsto> unat sz)) \<and> keeps A p p' (min j (unat sz)) (kmem h) (kmem h'))"
proof -
  obtain bs L where h: "mp h = of_nat t" "heap t bs L (kmem h)" "extent bs = e" "owned t bs A" by (rule kheap_liveE [OF assms(1)])
  obtain q n where q: "p = of_nat (q + 8)" "(q, n, False) \<in> set (placed (t + 3184) bs)" "q \<noteq> t + 3184" "8 \<le> n" "j \<le> n"
    by (rule ownedD [OF h(4) assms(2)])
  obtain xs ys where s: "bs = xs @ (n, False) # ys" "q = t + 3184 + extent xs" using placed_split [OF q(2)] .
  obtain N zs where jr: "join_right n ys = (N, zs)" by fastforce
  have e0: "extent xs \<noteq> 0" using q(3) s(2) by simp
  have p: "p = of_nat (t + 3184 + extent xs + 8)" using q(1) s(2) by simp
  have p0: "p \<noteq> 0" by (rule kheap_not_null [OF assms(1,2)])
  have sub: "keeps A p p' (min j (unat sz)) m m'" if "keeps A p p' i m m'" "min j (unat sz) \<le> i" for p' i m m'
    using that less_le_trans [OF _ that(2)] unfolding keeps_def by blast
  note args = h(1) h(2-4) [unfolded s(1)] e0 q(4) assms(3,4) jr
  show ?thesis
  proof (cases "unat (request sz) \<le> n \<or> unat (request sz) + 8 \<le> N")
    case True
    from krealloc_in_place [OF args True] show ?thesis
      unfolding p [symmetric] using p0 sub q(5) by fastforce
  next
    case False
    have sz: "unat sz \<le> 0x3E000000" using assms(3) by (simp add: kheap_fits_def word_le_nat_alt)
    have "8 dvd n" using good_blocksD(2) [of bs] h(2) s(1) by (simp add: heap_def)
    then have "j < unat sz" using request_small [OF _ _ q(4) sz] False q(5) by fastforce
    then show ?thesis using krealloc_moved [OF args False] sub q(5) unfolding p [symmetric] by fastforce
  qed
qed

section \<open>The interface with resizing\<close>

locale reallocator = allocator +
  fixes resize :: "u32 \<Rightarrow> u32 \<Rightarrow> 'a \<Rightarrow> u32 \<times> 'a"
  assumes resize: "live s A \<Longrightarrow> A p = Some j \<Longrightarrow> fits n \<Longrightarrow> n \<noteq> 0 \<Longrightarrow>
    resize p n s = (0, s) \<or> (\<exists>p' s'. resize p n s = (p', s') \<and> p' \<noteq> 0 \<and> (p' = p \<or> A p' = None) \<and>
      live s' (A(p := None, p' \<mapsto> unat n)) \<and> keeps A p p' (min j (unat n)) (bytes s) (bytes s'))"

text \<open>A buffer that is resized again and again; when that fails, the old block is used on.\<close>

fun resize_all :: "(u32 \<Rightarrow> u32 \<Rightarrow> 's \<Rightarrow> u32 \<times> 's) \<Rightarrow> u32 list \<Rightarrow> u32 \<Rightarrow> 's \<Rightarrow> u32 \<times> 's" where
  "resize_all resize [] p s = (p, s)"
| "resize_all resize (n # ns) p s = (case resize p n s of (p', s') \<Rightarrow> resize_all resize ns (if p' = 0 then p else p') s')"

lemma keeps_trans:
  assumes "keeps A p p' k m m'" "keeps (A(p := None, p' \<mapsto> j)) p' p'' k m' m''" "p' = p \<or> A p' = None"
  shows "keeps A p p'' k m m''"
proof -
  have "(A(p := None, p' \<mapsto> j)) q = A q \<and> q \<noteq> p'" if "A q = Some i" "q \<noteq> p" for q i using that assms(3) by auto
  then show ?thesis using assms(1,2) unfolding keeps_def by metis
qed

context reallocator
begin

lemma resize_all_keeps:
  assumes "live s A" "A p = Some j" "k \<le> j" "\<forall>n\<in>set ns. fits n \<and> n \<noteq> 0 \<and> k \<le> unat n"
  shows "\<exists>p' s' j'. resize_all resize ns p s = (p', s') \<and> k \<le> j' \<and> (p' = p \<or> A p' = None) \<and>
    live s' (A(p := None, p' \<mapsto> j')) \<and> keeps A p p' k (bytes s) (bytes s')"
  using assms
proof (induction ns arbitrary: p s A j)
  case Nil
  have A: "A(p := None, p \<mapsto> j) = A" using Nil.prems(2) by auto
  show ?case using Nil.prems A by (intro exI [of _ p] exI [of _ s] exI [of _ j]) (simp add: keeps_def del: fun_upd_apply)
next
  case (Cons n ns)
  have n: "fits n" "n \<noteq> 0" "k \<le> unat n" "\<forall>n\<in>set ns. fits n \<and> n \<noteq> 0 \<and> k \<le> unat n" using Cons.prems(4) by simp_all
  from resize [OF Cons.prems(1,2) n(1,2)] consider "resize p n s = (0, s)"
    | p1 s1 where "resize p n s = (p1, s1)" "p1 \<noteq> 0" "p1 = p \<or> A p1 = None" "live s1 (A(p := None, p1 \<mapsto> unat n))"
      "keeps A p p1 (min j (unat n)) (bytes s) (bytes s1)" by blast
  then show ?case
  proof cases
    case 1
    then show ?thesis using Cons.IH [OF Cons.prems(1-3) n(4)] by simp
  next
    case 2
    let ?A = "A(p := None, p1 \<mapsto> unat n)"
    obtain p2 s2 j2 where r: "resize_all resize ns p1 s1 = (p2, s2)" "k \<le> j2" "p2 = p1 \<or> ?A p2 = None"
      "live s2 (?A(p1 := None, p2 \<mapsto> j2))" "keeps ?A p1 p2 k (bytes s1) (bytes s2)"
      using Cons.IH [OF 2(4) fun_upd_same n(3,4)] by blast
    have A: "?A(p1 := None, p2 \<mapsto> j2) = A(p := None, p2 \<mapsto> j2)" using 2(3) by (auto simp: fun_eq_iff)
    have "keeps A p p1 k (bytes s) (bytes s1)" using 2(5) Cons.prems(3) n(3) unfolding keeps_def by simp
    from keeps_trans [OF this r(5) 2(3)] have "keeps A p p2 k (bytes s) (bytes s2)" .
    moreover have "p2 = p \<or> A p2 = None" using r(3) 2(3) by (auto split: if_splits)
    ultimately show ?thesis using r(1,2,4) [unfolded A] 2(1,2) by (intro exI [of _ p2] exI [of _ s2] exI [of _ j2]) (simp del: fun_upd_apply)
  qed
qed

end

interpretation resizing: reallocator kmalloc kfree kmem set_kmem kheap_fits "kheap_live t e" krealloc for t e
proof unfold_locales
  fix s A p j n
  assume "kheap_live t e s A" "A p = Some j" "kheap_fits n" "n \<noteq> (0 :: u32)"
  from krealloc_live [OF this] show "krealloc p n s = (0, s) \<or> (\<exists>p' s'. krealloc p n s = (p', s') \<and> p' \<noteq> 0 \<and> (p' = p \<or> A p' = None) \<and>
      kheap_live t e s' (A(p := None, p' \<mapsto> unat n)) \<and> keeps A p p' (min j (unat n)) (kmem s) (kmem s'))" by blast
qed

end
