(* ===== verification/TlsfSpec.thy ===== *)
theory TlsfSpec
  imports TlsfRealloc
begin

text \<open>
  The properties of the kernel's heap: initialisation, allocation and release on the list of
  blocks, what clients rely on, and where the code falls short of it.
\<close>

section \<open>Pools\<close>

text \<open>A buffer that \<open>init_memory_pool\<close> accepts, below 1 GiB and not yet a pool.\<close>

definition pool_ok :: "u32 \<Rightarrow> u32 \<Rightarrow> kheap \<Rightarrow> bool" where
  "pool_ok pool n h \<longleftrightarrow> pool \<noteq> 0 \<and> 4 dvd unat pool \<and> 3244 \<le> unat n \<and> unat n < 1073741824 \<and>
     unat pool + unat n + 12 \<le> 4294967296 \<and> load32 (kmem h) pool \<noteq> TLSF_SIGNATURE"

lemma init_pool:
  assumes "pool_ok pool n h"
  obtains L h' where "init_memory_pool n pool h = (of_nat (area_size (unat n) - 32), h')" "mp h' = pool"
    "heap (unat pool) (pool_blocks (unat n)) L (kmem h')"
proof (rule init_memory_pool_heap [of "unat pool" n h])
  show "4 dvd unat pool" "unat pool \<noteq> 0" "3244 \<le> unat n" "unat pool + unat n + 12 \<le> 4294967296" "unat n < 1073741824"
    "load32 (kmem h) (of_nat (unat pool)) \<noteq> TLSF_SIGNATURE"
    using assms by (simp_all add: pool_ok_def unat_gt_0)
qed (use that in auto)

lemma extent_pool_blocks: "3244 \<le> n \<Longrightarrow> extent (pool_blocks n) = area_size n"
  using area_size(1) [of n] by (simp add: pool_blocks_def)

lemma init_kmalloc_live:
  assumes "pool_ok pool n h"
  shows "kheap_live (unat pool) (area_size (unat n)) (init_kmalloc pool n h) Map.empty"
proof -
  obtain L h' where i: "init_memory_pool n pool h = (of_nat (area_size (unat n) - 32), h')" "mp h' = pool"
    "heap (unat pool) (pool_blocks (unat n)) L (kmem h')" using init_pool [OF assms] .
  have n: "3244 \<le> unat n" using assms by (simp add: pool_ok_def)
  have "owned (unat pool) (pool_blocks (unat n)) Map.empty" by (simp add: owned_def pool_blocks_def)
  then show ?thesis
    using i extent_pool_blocks [OF n] unfolding init_kmalloc_def by (intro kheap_liveI [of _ _ "pool_blocks (unat n)" L]) simp_all
qed

text \<open>A heap without allocated blocks is the one that the initialisation made.\<close>

lemma nothing_owned:
  assumes "heap t bs L m" "owned t bs Map.empty" "extent bs = area_size n" "3244 \<le> n"
  shows "bs = pool_blocks n"
proof -
  let ?A = "t + 3184"
  have g: "good_blocks bs" using assms(1) by (simp add: heap_def)
  obtain b cs where bs: "bs = b # cs" using g by (cases bs) (auto simp: good_blocks_def)
  have first: "(?A, 8, False) \<in> set (placed ?A bs)" using assms(2) by (simp add: owned_def)
  have b: "b = (8, False)" using placed_disjoint [OF first, of ?A b] by (simp add: bs)
  have "last bs = (0, False)" using g by (simp add: good_blocks_def)
  then obtain mid where cs: "cs = mid @ [(0, False)]" using bs b by (metis append_butlast_last_id last.simps prod.inject zero_neq_numeral)
  have big: "8 \<le> fst c" if "c \<in> set mid" for c using g that by (auto simp: good_blocks_def bs cs butlast_append)
  have free: "snd c" if c: "c \<in> set mid" for c
  proof (rule ccontr)
    assume "\<not> snd c"
    obtain us vs where "mid = us @ c # vs" using split_list [OF c] by blast
    then have "(?A + 16 + extent us, fst c, False) \<in> set (placed ?A bs)" using \<open>\<not> snd c\<close> unfolding bs b cs by (cases c) simp
    then show False using assms(2) big [OF c] unfolding owned_def by fastforce
  qed
  have "successively not_both_free mid" using g by (simp add: good_blocks_def bs cs successively_append_iff successively_Cons split: if_splits)
  moreover have "mid = [] \<or> (\<exists>c. mid = [c]) \<or> (\<exists>c d ds. mid = c # d # ds)" by (metis list.exhaust)
  ultimately have "mid = [] \<or> (\<exists>c. mid = [c] \<and> snd c)" using free by auto
  moreover have "mid \<noteq> []" using assms(3) area_size(1) [OF assms(4)] by (auto simp: bs cs b)
  ultimately obtain k where "mid = [(k, True)]" by (metis prod.collapse)
  then show ?thesis using assms(3) by (simp add: pool_blocks_def bs cs b)
qed


section \<open>Sample pools\<close>

definition blank :: kheap where
  "blank = \<lparr>mp = 0, kmem = \<lambda>_. 0\<rparr>"

lemma pool_ok_blank: "pool_ok 0x10000 8192 blank" "pool_ok 0x10000 8188 blank"
  by (simp_all add: pool_ok_def blank_def load32_def TLSF_SIGNATURE_def dvd_def)

lemma pool_blocks_8192: "pool_blocks 8192 = [(8, False), (4976, True), (0, False)]"
  by (simp add: pool_blocks_def area_size_def)

lemma sample_heap: obtains L m where "heap 0x10000 [(8, False), (4976, True), (0, False)] L m"
  using init_pool [OF pool_ok_blank(1)] by (simp add: pool_blocks_8192) blast

lemma fit_100: "fit 100 = 104"
  by (simp add: fit_def request_def MIN_BLOCK_SIZE_def ROUNDUP_SIZE_def MEM_ALIGN_def MAPPING_SEARCH_def SMALL_BLOCK_def)

section \<open>Initialisation, allocation and release\<close>

text \<open>
  C15. \<open>init_memory_pool\<close> makes a well-formed heap of a usable buffer: behind the control
  structure one free block between the header of the area and the last block. It returns the
  size of the free block.
\<close>

theorem init_memory_pool_correct:
  assumes "pool_ok pool n h"
  shows "\<exists>L h'. init_memory_pool n pool h = (of_nat (area_size (unat n) - 32), h') \<and> mp h' = pool \<and>
    heap (unat pool) (pool_blocks (unat n)) L (kmem h')"
  using init_pool [OF assms] by metis

theorem init_memory_pool_correct_witness:
  "\<exists>L h'. init_memory_pool 8192 0x10000 blank = (4976, h') \<and> mp h' = 0x10000 \<and>
     heap 0x10000 [(8, False), (4976, True), (0, False)] L (kmem h')"
  using init_memory_pool_correct [OF pool_ok_blank(1)] by (simp add: pool_blocks_8192 area_size_def)

text \<open>
  C1. \<open>malloc_ex\<close> on a well-formed heap either fails and changes nothing, exactly when no free
  block has the size that is searched for, or turns one free block of at least this size
  into a used block at the address that it returns. What is left becomes a free block when
  it can hold one. The heap stays well-formed, and the used blocks keep their contents.
\<close>

theorem malloc_ex_correct:
  assumes "heap t bs L m" "unat sz \<le> 0x3E000000"
  shows "malloc_ex sz (of_nat t) m = (0, m) \<and> (\<forall>(p, n)\<in>frees (t + 3184) bs. n < fit sz) \<or>
    (\<exists>xs n ys L' m'. bs = xs @ (n, True) # ys \<and> fit sz \<le> n \<and>
       malloc_ex sz (of_nat t) m = (of_nat (t + 3184 + extent xs + 8), m') \<and>
       heap t (xs @ carve n (fit sz) @ ys) L' m' \<and>
       (\<forall>p k x. (p, k, False) \<in> set (placed (t + 3184) bs) \<longrightarrow> p + 8 \<le> x \<longrightarrow> x < p + 8 + k \<longrightarrow> words m' x = words m x))"
  by (rule malloc_ex_heap [OF assms])

theorem malloc_ex_correct_witness:
  "\<exists>L m L' m'. heap 0x10000 [(8, False), (4976, True), (0, False)] L m \<and> malloc_ex 100 0x10000 m = (0x10C88, m') \<and>
     heap 0x10000 [(8, False), (104, False), (4864, True), (0, False)] L' m'"
proof -
  obtain L m where h: "heap 0x10000 [(8, False), (4976, True), (0, False)] L m" by (rule sample_heap)
  from malloc_ex_correct [OF h, of 100] obtain xs n ys L' m' where
    m: "[(8, False), (4976, True), (0, False)] = xs @ (n, True) # ys"
      "malloc_ex 100 (of_nat 0x10000) m = (of_nat (0x10000 + 3184 + extent xs + 8), m')" "heap 0x10000 (xs @ carve n 104 @ ys) L' m'"
    by (auto simp: fit_100)
  then have "xs = [(8, False)] \<and> n = 4976 \<and> ys = [(0, False)]" by (auto simp: Cons_eq_append_conv)
  then show ?thesis using h m(2,3) by (auto simp: carve_def)
qed

text \<open>
  C2. \<open>free_ex\<close> of a used block makes it free and joins it with the free blocks before and
  behind it, so that no two free blocks are neighbours. The heap stays well-formed, and all
  other used blocks keep their contents.
\<close>

theorem free_ex_correct:
  assumes "heap t (xs @ (n, False) # ys) L m" "8 \<le> n"
  shows "\<exists>L'. heap t (freed xs n ys) L' (free_ex (of_nat (t + 3184 + extent xs + 8)) (of_nat t) m) \<and>
    (\<forall>p k x. (p, k, False) \<in> set (placed (t + 3184) (xs @ (n, False) # ys)) \<longrightarrow> p \<noteq> t + 3184 + extent xs \<longrightarrow>
       p + 8 \<le> x \<longrightarrow> x < p + 8 + k \<longrightarrow> words (free_ex (of_nat (t + 3184 + extent xs + 8)) (of_nat t) m) x = words m x)"
  using free_ex_heap [OF heads_gap(1) [OF assms]] by metis

lemma sample_used: obtains L m where "heap 0x10000 [(8, False), (104, False), (4864, True), (0, False)] L m"
proof -
  obtain L m where h: "heap 0x10000 [(8, False), (4976, True), (0, False)] L m" by (rule sample_heap)
  from malloc_ex_heap [OF h, of 100] obtain xs n ys L' m' where
    m: "[(8, False), (4976, True), (0, False)] = xs @ (n, True) # ys" "heap 0x10000 (xs @ carve n 104 @ ys) L' m'"
    by (auto simp: fit_100)
  then have "xs = [(8, False)] \<and> n = 4976 \<and> ys = [(0, False)]" by (auto simp: Cons_eq_append_conv)
  then show thesis using that m(2) by (simp add: carve_def)
qed

theorem free_ex_correct_witness:
  "\<exists>L m L'. heap 0x10000 [(8, False), (104, False), (4864, True), (0, False)] L m \<and>
     heap 0x10000 [(8, False), (4976, True), (0, False)] L' (free_ex 0x10C88 0x10000 m)"
proof -
  obtain L m where h: "heap 0x10000 [(8, False), (104, False), (4864, True), (0, False)] L m" by (rule sample_used)
  have "freed [(8, False)] 104 [(4864, True), (0, False)] = [(8, False), (4976, True), (0, False)]"
    by (simp add: freed_def join_right_def join_left_def last_free_def)
  then show ?thesis
    using free_ex_correct [of "0x10000" "[(8, False)]" 104 "[(4864, True), (0, False)]" L m] h by auto
qed

lemma freed_carve:
  assumes "good_blocks (xs @ (n, True) # ys)" "s \<le> n"
  obtains j zs where "carve n s @ ys = (j, False) # zs" "freed xs j zs = xs @ (n, True) # ys"
proof -
  obtain y ys' where "ys = y # ys'" "\<not> snd y" "last_free False xs = False" using good_blocks_free [OF assms(1)] .
  then show thesis
    using assms(2) that [of "if 16 \<le> n - s then s else n" "if 16 \<le> n - s then (n - s - 8, True) # ys else ys"]
    by (simp add: carve_def freed_def join_right_def join_left_def split: if_splits)
qed

text \<open>
  C16. Releasing what was just allocated restores the blocks of the heap, with their addresses
  and sizes: nothing is lost to splitting.
\<close>

theorem malloc_free_roundtrip:
  assumes "heap t bs L m" "unat sz \<le> 0x3E000000" "malloc_ex sz (of_nat t) m = (p, m')" "p \<noteq> 0"
  shows "\<exists>L'. heap t bs L' (free_ex p (of_nat t) m')"
proof -
  from malloc_ex_heap [OF assms(1,2)] assms(3,4) obtain xs n ys L1 where
    m: "bs = xs @ (n, True) # ys" "fit sz \<le> n" "p = of_nat (t + 3184 + extent xs + 8)" "heap t (xs @ carve n (fit sz) @ ys) L1 m'"
    by auto
  have "good_blocks (xs @ (n, True) # ys)" using assms(1) m(1) by (simp add: heap_def)
  then obtain j zs where c: "carve n (fit sz) @ ys = (j, False) # zs" "freed xs j zs = bs"
    using freed_carve m(1,2) by metis
  have "8 \<le> j"
  proof -
    have "8 \<le> fit sz" using search [OF assms(2)] by metis
    then show ?thesis using c(1) m(2) by (auto simp: carve_def split: if_splits)
  qed
  then show ?thesis using free_ex_heap [OF heads_gap(1) [OF m(4) [unfolded c(1)]]] unfolding c(2) m(3) by metis
qed

theorem malloc_free_roundtrip_witness:
  "\<exists>L m p m' L'. heap 0x10000 [(8, False), (4976, True), (0, False)] L m \<and> malloc_ex 100 0x10000 m = (p, m') \<and> p \<noteq> 0 \<and>
     heap 0x10000 [(8, False), (4976, True), (0, False)] L' (free_ex p 0x10000 m')"
proof -
  obtain L m where h: "heap 0x10000 [(8, False), (4976, True), (0, False)] L m" by (rule sample_heap)
  obtain p m' where r: "malloc_ex 100 0x10000 m = (p, m')" by fastforce
  have "p \<noteq> 0"
  proof
    assume "p = 0"
    have "\<exists>xs. (0 :: u32) = of_nat (0x10000 + 3184 + extent xs + 8) \<and> (\<exists>n ys. [(8, False), (4976, True), (0, False)] = xs @ (n, True) # ys)"
      using malloc_ex_heap [OF h, of 100] r \<open>p = 0\<close> by (auto simp: fit_100)
    then show False by (auto simp: Cons_eq_append_conv)
  qed
  then have "\<exists>L'. heap 0x10000 [(8, False), (4976, True), (0, False)] L' (free_ex p 0x10000 m')"
    using malloc_free_roundtrip [OF h, of 100 p m'] r by simp
  then show ?thesis using h r \<open>p \<noteq> 0\<close> by blast
qed

section \<open>What clients rely on\<close>

lemma malloc_ex_fails:
  assumes "heap t bs L m" "unat sz \<le> 0x3E000000" "fst (malloc_ex sz (of_nat t) m) = 0" "(p, n, True) \<in> set (placed (t + 3184) bs)"
  shows "n < fit sz"
  using malloc_ex_heap [OF assms(1,2)]
proof (elim disjE exE conjE)
  assume "\<forall>(p, n)\<in>frees (t + 3184) bs. n < fit sz"
  then show ?thesis using assms(4) by (auto simp: frees_def)
next
  fix xs n ys m'
  assume bs: "bs = xs @ (n, True) # ys" and r: "malloc_ex sz (of_nat t) m = (of_nat (t + 3184 + extent xs + 8), m')"
  have "t + 3184 + extent xs + 8 < 4294967296" using assms(1) by (simp add: bs heap_def room_def)
  then have "(of_nat (t + 3184 + extent xs + 8) :: u32) \<noteq> 0" by (subst of_nat_u32_0) simp_all
  then show ?thesis using assms(3) r by simp
qed

lemma fst_kmalloc: "mp h = of_nat t \<Longrightarrow> fst (kmalloc sz h) = fst (malloc_ex sz (of_nat t) (kmem h))"
  by (simp add: kmalloc_def tlsf_malloc_def split: prod.split)

text \<open>An empty heap serves what fits into its free block.\<close>

lemma empty_serves:
  assumes "kheap_live t (area_size n) h Map.empty" "3244 \<le> n" "unat sz \<le> 0x3E000000" "fit sz \<le> area_size n - 32"
  shows "fst (kmalloc sz h) \<noteq> 0"
proof
  assume none: "fst (kmalloc sz h) = 0"
  obtain bs L where h: "mp h = of_nat t" "heap t bs L (kmem h)" "extent bs = area_size n" "owned t bs Map.empty"
    using kheap_liveE [OF assms(1)] by metis
  have bs: "bs = pool_blocks n" by (rule nothing_owned [OF h(2,4,3) assms(2)])
  have "(t + 3184 + 16, area_size n - 32, True) \<in> set (placed (t + 3184) bs)" by (simp add: bs pool_blocks_def)
  from malloc_ex_fails [OF h(2) assms(3) none [unfolded fst_kmalloc [OF h(1)]] this] show False using assms(4) by simp
qed

text \<open>Two allocations from the sample pool.\<close>

abbreviation sample_pool :: kheap where
  "sample_pool \<equiv> init_kmalloc 0x10000 8192 blank"

lemma sample_live: "kheap_live 0x10000 5008 sample_pool Map.empty"
  using init_kmalloc_live [OF pool_ok_blank(1)] by (simp add: area_size_def)

lemma sample_kmalloc: obtains p h1 q h2 where "kmalloc 100 sample_pool = (p, h1)" "p \<noteq> 0" "kmalloc 100 h1 = (q, h2)" "q \<noteq> 0"
proof -
  obtain L where s: "heap 0x10000 [(8, False), (4976, True), (0, False)] L (kmem sample_pool)" "mp sample_pool = of_nat 0x10000"
    using init_pool [OF pool_ok_blank(1)] by (simp add: pool_blocks_8192 init_kmalloc_def) (metis snd_conv)
  obtain p h1 q h2 where k: "kmalloc 100 sample_pool = (p, h1)" "kmalloc 100 h1 = (q, h2)" by fastforce
  have "fst (kmalloc 100 sample_pool) \<noteq> 0"
    using empty_serves [of "0x10000" 8192 sample_pool 100] sample_live by (simp add: area_size_def fit_100)
  then have p: "p \<noteq> 0" using k(1) by simp
  obtain m1 where m1: "malloc_ex 100 (of_nat 0x10000) (kmem sample_pool) = (p, m1)" "h1 = sample_pool\<lparr>kmem := m1\<rparr>"
    using k(1) unfolding kmalloc_def tlsf_malloc_def s(2) by (auto split: prod.splits)
  then obtain xs n ys L' where
    m: "[(8, False), (4976, True), (0, False)] = xs @ (n, True) # ys" "heap 0x10000 (xs @ carve n 104 @ ys) L' m1"
    using malloc_ex_heap [OF s(1), of 100] p by (auto simp: fit_100)
  then have "xs = [(8, False)] \<and> n = 4976 \<and> ys = [(0, False)]" by (auto simp: Cons_eq_append_conv)
  then have "heap 0x10000 [(8, False), (104, False), (4864, True), (0, False)] L' (kmem h1)" using m(2) m1(2) by (simp add: carve_def)
  note fails = malloc_ex_fails [OF this, of 100 "0x10000 + 3312" 4864]
  have "fst (kmalloc 100 h1) \<noteq> 0"
    using fails fst_kmalloc [of h1 "0x10000" 100] s(2) m1(2) by (auto simp: fit_100)
  then show thesis using that k p by simp
qed

lemma sample_client:
  assumes "kmalloc 100 sample_pool = (p, h1)" "p \<noteq> 0" "kmalloc 100 h1 = (q, h2)" "q \<noteq> 0"
  shows "client kmalloc kfree kmem set_kmem kheap_fits {} sample_pool Map.empty h1 [p \<mapsto> 100]"
    "client kmalloc kfree kmem set_kmem kheap_fits {} sample_pool Map.empty h2 [p \<mapsto> 100, q \<mapsto> 100]" "p \<noteq> q"
    "client kmalloc kfree kmem set_kmem kheap_fits {p} h1 [p \<mapsto> 100] h2 [p \<mapsto> 100, q \<mapsto> 100]"
proof -
  have f: "kheap_fits 100" by (simp add: kheap_fits_def)
  have start: "client kmalloc kfree kmem set_kmem kheap_fits K s A s A" for K s A by (rule client.start)
  show a: "client kmalloc kfree kmem set_kmem kheap_fits {} sample_pool Map.empty h1 [p \<mapsto> 100]"
    using client.alloc [OF start f assms(1)] assms(2) by simp
  show "client kmalloc kfree kmem set_kmem kheap_fits {} sample_pool Map.empty h2 [p \<mapsto> 100, q \<mapsto> 100]"
    using client.alloc [OF a f assms(3)] assms(4) by simp
  show "client kmalloc kfree kmem set_kmem kheap_fits {p} h1 [p \<mapsto> 100] h2 [p \<mapsto> 100, q \<mapsto> 100]"
    using client.alloc [OF start f assms(3)] assms(4) by simp
  have "kheap_live 0x10000 5008 h1 [p \<mapsto> 100]" by (rule kernel.client_live [OF a sample_live])
  from kernel.alloc_new [OF this f assms(3,4)] show "p \<noteq> q" by auto
qed

text \<open>The size that is searched for, against the request.\<close>

lemma fit_bound:
  assumes "unat sz \<le> 0x3E000000"
  shows "fit sz \<le> 32 \<or> 32 * fit sz \<le> 33 * (unat sz + 7)"
proof -
  note r = request [OF assms]
  obtain c where c: "MAPPING_SEARCH (request sz) = (of_nat (fit sz), int (fst c), int (snd c))" "class_ok c" "fit sz < 1073741824"
    using search [OF assms] by metis
  have "4 dvd unat (request sz)" using r(1) by (rule dvd_trans [rotated]) simp
  moreover have "request sz \<le> 0xFC000000" using r(4) by (simp add: word_le_nat_alt)
  moreover obtain a b where "MAPPING_INSERT 0 = (a, b)" by fastforce
  ultimately have s: "request sz \<le> of_nat (fit sz)" "32 * (unat (of_nat (fit sz) :: u32) - unat (request sz)) \<le> unat (request sz)"
    using search_insert_order [OF _ _ c(1)] by blast+
  have f: "unat (of_nat (fit sz) :: u32) = fit sz" using c(3) by (simp add: u32_of_nat_unat)
  have "unat (request sz) \<le> (if unat sz < 8 then 8 else unat sz + 7)"
  proof -
    have "unat (request sz) = (if unat sz < 8 then 8 else (unat sz + 7) div 8 * 8)"
      using assms unat_ROUNDUP_SIZE [of sz] by (simp add: request_def MIN_BLOCK_SIZE_def word_less_nat_alt)
    then show ?thesis using div_times_less_eq_dividend [of "unat sz + 7" 8] by (simp split: if_splits)
  qed
  then show ?thesis using s unfolding f by (auto split: if_splits)
qed

text \<open>
  C3. Whatever a client allocates, frees and writes to its blocks from the initialisation of
  the heap on, the blocks that are allocated at any time do not overlap, and they lie in the
  pool, behind its control structure.
\<close>

theorem kmalloc_blocks_separate:
  assumes "pool_ok pool n h" "client kmalloc kfree kmem set_kmem kheap_fits {} (init_kmalloc pool n h) Map.empty h' A"
    "A p = Some i"
  shows "region p i \<subseteq> {z. unat pool + 3200 \<le> unat z \<and> unat z < unat pool + unat n} \<and>
    (A q = Some j \<longrightarrow> p \<noteq> q \<longrightarrow> region p i \<inter> region q j = {})"
proof -
  have l: "kheap_live (unat pool) (area_size (unat n)) h' A"
    by (rule kernel.client_live [OF assms(2) init_kmalloc_live [OF assms(1)]])
  have n: "area_size (unat n) + 3180 \<le> unat n" using assms(1) area_size(2) by (simp add: pool_ok_def)
  have "unat pool + 3200 \<le> unat z \<and> unat z < unat pool + unat n" if "z \<in> region p i" for z
    using kheap_inside [OF l assms(3) that] n by linarith
  then show ?thesis using kernel.separate [OF l assms(3)] by blast
qed

theorem kmalloc_blocks_separate_witness:
  "\<exists>p h1 q h2. kmalloc 100 sample_pool = (p, h1) \<and> kmalloc 100 h1 = (q, h2) \<and> p \<noteq> 0 \<and> q \<noteq> 0 \<and>
     region p 100 \<inter> region q 100 = {}"
proof -
  obtain p h1 q h2 where k: "kmalloc 100 sample_pool = (p, h1)" "p \<noteq> 0" "kmalloc 100 h1 = (q, h2)" "q \<noteq> 0" by (rule sample_kmalloc)
  note c = sample_client [OF k]
  have "region p 100 \<inter> region q 100 = {}"
    using kmalloc_blocks_separate [OF pool_ok_blank(1) c(2), of p 100 q 100] c(3) by simp
  then show ?thesis using k by blast
qed

text \<open>
  C14. The blocks \<open>K\<close> that a client holds at some time keep their contents and remain
  allocated, while it allocates and frees other blocks and writes to them.
\<close>

theorem kmalloc_contents_kept:
  assumes "pool_ok pool n h" "client kmalloc kfree kmem set_kmem kheap_fits {} (init_kmalloc pool n h) Map.empty h1 A1"
    "client kmalloc kfree kmem set_kmem kheap_fits K h1 A1 h2 A2" "K \<subseteq> dom A1"
  shows "\<forall>q\<in>K. A2 q = A1 q \<and> (\<forall>z\<in>region q (the (A1 q)). kmem h2 z = kmem h1 z)"
proof -
  have "kheap_live (unat pool) (area_size (unat n)) h1 A1"
    by (rule kernel.client_live [OF assms(2) init_kmalloc_live [OF assms(1)]])
  from kernel.client_keeps [OF assms(3) this assms(4)] show ?thesis by blast
qed

theorem kmalloc_contents_kept_witness:
  "\<exists>p h1 q h2. kmalloc 100 sample_pool = (p, h1) \<and> kmalloc 100 h1 = (q, h2) \<and> p \<noteq> 0 \<and> q \<noteq> 0 \<and>
     (\<forall>z\<in>region p 100. kmem (kfree q h2) z = kmem h1 z)"
proof -
  obtain p h1 q h2 where k: "kmalloc 100 sample_pool = (p, h1)" "p \<noteq> 0" "kmalloc 100 h1 = (q, h2)" "q \<noteq> 0" by (rule sample_kmalloc)
  note c = sample_client [OF k]
  have "client kmalloc kfree kmem set_kmem kheap_fits {p} h1 [p \<mapsto> 100] (kfree q h2) ([p \<mapsto> 100, q \<mapsto> 100](q := None))"
    by (rule client.dealloc [OF c(4)]) (use c(3) in auto)
  from kmalloc_contents_kept [OF pool_ok_blank(1) c(1) this] show ?thesis using k by auto
qed



section \<open>Aligned blocks\<close>

lemma aligned_request:
  fixes bytes align :: u32
  assumes "unat bytes + unat align + 3 \<le> 0x3E000000"
  shows "unat (bytes + align - 1 + 4) = unat bytes + unat align + 3"
proof -
  have "unat (bytes + align) = unat bytes + unat align" using assms by (subst unat_add_no_wrap) simp_all
  then have "unat (bytes + align + 3) = unat bytes + unat align + 3" using assms by (subst unat_add_no_wrap) simp_all
  moreover have "bytes + align - 1 + 4 = bytes + align + 3" by simp
  ultimately show ?thesis by (simp only:)
qed

text \<open>The pointer that \<open>aligned_kmalloc\<close> computes from that of the block.\<close>

lemma aligned_pointer:
  assumes "unat (align :: u32) = 2 ^ k" "2 \<le> k" "unat p + n + unat align + 3 < 4294967296"
  defines "ptr \<equiv> (p + 4 + align - 1) AND NOT (align - 1)"
  shows "2 ^ k dvd unat ptr" "unat p + 4 \<le> unat ptr" "unat ptr + n \<le> unat p + n + unat align + 3"
proof -
  have k: "k < 32"
  proof (rule ccontr)
    assume "\<not> k < 32"
    then have "(2::nat) ^ 32 \<le> 2 ^ k" by (intro power_increasing) simp_all
    then show False using assms(1) u32_unat_bound [of align] by simp
  qed
  have al: "push_bit k 1 = align" using assms(1) unat_push_bit_1 [OF k] by (simp add: word_unat_eq_iff)
  have "unat (p + 3 + align) = unat p + 3 + unat align"
  proof -
    have "1 \<le> unat align" using assms(1) by simp
    then have "unat (p + 3) = unat p + 3" using assms(3) by (subst unat_add_no_wrap) simp_all
    then show ?thesis using assms(1,3) by (subst unat_add_no_wrap) simp_all
  qed
  then have ptr: "unat ptr = (unat p + 3 + 2 ^ k) div 2 ^ k * 2 ^ k"
    using and_not_mask [OF k, of "p + 3 + align"] assms(1) unfolding ptr_def al by (simp add: ac_simps)
  show "2 ^ k dvd unat ptr" unfolding ptr by simp
  let ?m = "unat p + 3 + 2 ^ k"
  have "?m < 2 ^ k + ?m div 2 ^ k * 2 ^ k" by (rule dividend_less_div_times) simp
  moreover have "?m div 2 ^ k * 2 ^ k \<le> ?m" by (rule div_times_less_eq_dividend)
  ultimately show "unat p + 4 \<le> unat ptr" "unat ptr + n \<le> unat p + n + unat align + 3"
    unfolding ptr assms(1) by linarith+
qed

text \<open>
  C26. \<open>aligned_kmalloc\<close> for an alignment of 4 or a greater power of two returns NULL or an
  aligned address inside of a new block with room for the request behind it, so that it
  overlaps no allocated block. \<open>aligned_kfree\<close> of this address frees the block, unless the
  client has overwritten the word before it.
\<close>

theorem aligned_kmalloc_correct:
  assumes "kheap_live t e h A" "unat align = 2 ^ k" "2 \<le> k" "unat bytes + unat align + 3 \<le> 0x3E000000"
    "aligned_kmalloc bytes align h = (ptr, h')"
  defines "n \<equiv> unat bytes + unat align + 3"
  shows "ptr = 0 \<and> h' = h \<or> 2 ^ k dvd unat ptr \<and>
    (\<exists>p. A p = None \<and> kheap_live t e h' (A(p \<mapsto> n)) \<and> region ptr (unat bytes) \<subseteq> region p n \<and>
      (\<forall>h2. kheap_live t e h2 (A(p \<mapsto> n)) \<longrightarrow> load32 (kmem h2) (ptr - 4) = load32 (kmem h') (ptr - 4) \<longrightarrow>
         kheap_live t e (aligned_kfree ptr h2) A))"
proof -
  obtain p h1 where k: "kmalloc (bytes + align - 1 + 4) h = (p, h1)" by fastforce
  have un: "unat (bytes + align - 1 + 4) = n" using assms(2,4) aligned_request [of bytes align] by (simp add: n_def)
  have fits: "kheap_fits (bytes + align - 1 + 4)" using assms(4) un by (simp add: kheap_fits_def word_le_nat_alt n_def)
  show ?thesis
  proof (cases "p = 0")
    case True
    then have "h1 = h" using kernel.alloc_none [OF assms(1) fits] k by simp
    then show ?thesis using assms(5) k True by (simp add: aligned_kmalloc_def)
  next
    case False
    have live: "kheap_live t e h1 (A(p \<mapsto> n))" and new: "A p = None"
      using kernel.alloc_new [OF assms(1) fits k False] un by simp_all
    have b: "unat p + unat bytes + unat align + 3 < 4294967296" using kheap_bound [OF live, of p n] by (simp add: n_def)
    have ptr: "ptr = (p + 4 + align - 1) AND NOT (align - 1)" and h': "h' = h1\<lparr>kmem := store32 (ptr - 4) p (kmem h1)\<rparr>"
      using assms(5) k False by (auto simp: aligned_kmalloc_def Let_def)
    note al = aligned_pointer [OF assms(2,3) b, folded ptr]
    have inside: "z \<in> region p n" if "z \<in> word_at (ptr - 4)" for z
    proof -
      have u: "unat (ptr - 4) = unat ptr - 4" using al(2) by (subst unat_sub_no_wrap) (simp_all add: word_le_nat_alt)
      have "unat (ptr - 4) + 4 \<le> 4294967296" using al(2) u32_unat_bound [of ptr] unfolding u by linarith
      from word_at_bounds [OF that this] show ?thesis using al(2,3) unfolding u region_def n_def by auto
    qed
    have "store32 (ptr - 4) p (kmem h1) z = kmem h1 z" if "\<And>q j. (A(p \<mapsto> n)) q = Some j \<Longrightarrow> z \<notin> region q j" for z
      by (rule store32_outside) (use that [of p n] inside in auto)
    from kernel.write_live [OF live this] have "kheap_live t e h' (A(p \<mapsto> n))" by (simp add: set_kmem_def h')
    moreover have "kheap_live t e (aligned_kfree ptr h2) A"
      if "kheap_live t e h2 (A(p \<mapsto> n))" "load32 (kmem h2) (ptr - 4) = load32 (kmem h') (ptr - 4)" for h2
    proof -
      have "aligned_kfree ptr h2 = kfree p h2" using that(2) by (simp add: aligned_kfree_def h')
      moreover have "(A(p \<mapsto> n))(p := None) = A" using new by auto
      ultimately show ?thesis using kernel.dealloc_live [OF that(1), of p n] by simp
    qed
    moreover have "region ptr (unat bytes) \<subseteq> region p n" using al(2,3) unfolding region_def n_def by auto
    ultimately show ?thesis using al(1) new by blast
  qed
qed

theorem aligned_kmalloc_correct_witness: "32 dvd unat (fst (aligned_kmalloc 65 32 sample_pool))"
proof -
  obtain ptr h' where r: "aligned_kmalloc 65 32 sample_pool = (ptr, h')" by fastforce
  show ?thesis using aligned_kmalloc_correct [OF sample_live _ _ _ r, of 5] r by auto
qed

section \<open>Resizing and zeroed blocks\<close>

text \<open>
  C17. \<open>realloc_ex\<close> resizes a block where it is when it has room for the rounded request \<open>s\<close>, alone
  or with the free block behind it (\<open>join_right\<close>): the block is carved from both, what is left
  is free again, the heap stays well-formed, the block keeps its contents up to the smaller of the
  two sizes, and all other used blocks keep theirs.
\<close>

theorem realloc_ex_in_place:
  assumes "heap t (xs @ (n, False) # ys) L m" "8 \<le> n" "unat sz \<le> 0x3E000000" "sz \<noteq> 0" "join_right n ys = (N, zs)"
    "unat (request sz) \<le> n \<or> unat (request sz) + 8 \<le> N"
  defines "q \<equiv> t + 3184 + extent xs" and "s \<equiv> unat (request sz)"
  shows "\<exists>L' m'. realloc_ex (of_nat (q + 8)) sz (of_nat t) m = (of_nat (q + 8), m') \<and> heap t (xs @ carve N s @ zs) L' m' \<and>
    (\<forall>x. q + 8 \<le> x \<longrightarrow> x < q + 8 + min n s \<longrightarrow> words m' x = words m x) \<and>
    (\<forall>p k x. (p, k, False) \<in> set (placed (t + 3184) (xs @ (n, False) # ys)) \<longrightarrow> p \<noteq> q \<longrightarrow> p + 8 \<le> x \<longrightarrow> x < p + 8 + k \<longrightarrow>
       words m' x = words m x)"
proof -
  obtain L' m' where r: "realloc_ex (of_nat (q + 8)) sz (of_nat t) m = (of_nat (q + 8), m')" "heap t (xs @ carve N s @ zs) L' m'"
    "\<And>x. outer (t + 3184) xs (q + 8 + N) zs x \<or> q + 8 \<le> x \<and> x < q + 8 + min n s \<Longrightarrow> words m' x = words m x"
    using realloc_in_place [OF assms(1-6)] unfolding q_def s_def by metis
  have "words m' x = words m x"
    if "(p, k, False) \<in> set (placed (t + 3184) (xs @ (n, False) # ys))" "p \<noteq> q" "p + 8 \<le> x" "x < p + 8 + k" for p k x
    by (rule r(3)) (use in_place_outer [OF that(1) assms(5) that(2) [unfolded q_def] that(3,4)] in \<open>simp add: q_def\<close>)
  then show ?thesis using r by blast
qed

theorem realloc_ex_in_place_witness:
  "\<exists>L m L' m'. heap 0x10000 [(8, False), (104, False), (4864, True), (0, False)] L m \<and>
     realloc_ex 0x10C88 200 0x10000 m = (0x10C88, m') \<and> heap 0x10000 [(8, False), (200, False), (4768, True), (0, False)] L' m'"
proof -
  obtain L m where h: "heap 0x10000 [(8, False), (104, False), (4864, True), (0, False)] L m" by (rule sample_used)
  have r: "unat (request 200) = 200" by (simp add: request_def MIN_BLOCK_SIZE_def ROUNDUP_SIZE_def MEM_ALIGN_def)
  show ?thesis
    using realloc_ex_in_place [of "0x10000" "[(8, False)]" 104 "[(4864, True), (0, False)]" L m 200 4976 "[(0, False)]"] h r
    by (auto simp: join_right_def carve_def)
qed

text \<open>
  C4. \<open>krealloc\<close> of NULL allocates, and with size 0 frees. Of an allocated block it returns NULL
  and changes nothing, which it never does when the block shrinks, or it returns an allocated
  block of the new size: the same one, always when the block shrinks, or a new one in exchange
  for the old one. The contents up to the smaller size are kept, and all other blocks keep theirs.
\<close>

theorem krealloc_correct:
  assumes "kheap_live t e h A" "A p = Some j" "kheap_fits sz" "sz \<noteq> 0"
  shows "krealloc 0 sz h = kmalloc sz h \<and> krealloc p 0 h = (0, kfree p h) \<and>
    (krealloc p sz h = (0, h) \<and> j < unat sz \<or>
     (\<exists>p' h'. krealloc p sz h = (p', h') \<and> p' \<noteq> 0 \<and> (p' = p \<or> A p' = None \<and> j < unat sz) \<and>
        kheap_live t e h' (A(p := None, p' \<mapsto> unat sz)) \<and>
        (\<forall>i<min j (unat sz). kmem h' (p' + of_nat i) = kmem h (p + of_nat i)) \<and>
        (\<forall>q k. A q = Some k \<longrightarrow> q \<noteq> p \<longrightarrow> (\<forall>z\<in>region q k. kmem h' z = kmem h z))))"
proof -
  have "krealloc 0 sz h = kmalloc sz h" using assms(4) by (simp add: krealloc_split kmalloc_split realloc_ex_def)
  moreover have "p \<noteq> 0" by (rule kheap_not_null [OF assms(1,2)])
  then have "krealloc p 0 h = (0, kfree p h)" by (simp add: krealloc_split realloc_ex_def kfree_def tlsf_free_def)
  ultimately show ?thesis using krealloc_live [OF assms] unfolding keeps_def by blast
qed

theorem krealloc_correct_witness:
  "\<exists>p h1 h2. kmalloc 100 sample_pool = (p, h1) \<and> p \<noteq> 0 \<and> krealloc p 60 h1 = (p, h2) \<and> kheap_live 0x10000 5008 h2 [p \<mapsto> 60]"
proof -
  obtain p h1 q h2 where k: "kmalloc 100 sample_pool = (p, h1)" "p \<noteq> 0" "kmalloc 100 h1 = (q, h2)" "q \<noteq> 0" by (rule sample_kmalloc)
  have "kheap_live 0x10000 5008 h1 [p \<mapsto> 100]" by (rule kernel.client_live [OF sample_client(1) [OF k] sample_live])
  from krealloc_correct [OF this, of p 100 60] have "\<exists>h'. krealloc p 60 h1 = (p, h') \<and> kheap_live 0x10000 5008 h' [p \<mapsto> 60]"
    by (auto simp: kheap_fits_def)
  then show ?thesis using k by blast
qed

text \<open>
  C18. A buffer that is resized any number of times, its owner going on with the old block when
  that fails, keeps its first \<open>k\<close> bytes as long as no size is less than \<open>k\<close>. The other blocks
  keep their contents and remain allocated.
\<close>

theorem krealloc_repeated:
  assumes "kheap_live t e h A" "A p = Some j" "k \<le> j" "\<forall>n\<in>set ns. kheap_fits n \<and> n \<noteq> 0 \<and> k \<le> unat n"
    "resize_all krealloc ns p h = (p', h')"
  shows "\<exists>j'. k \<le> j' \<and> kheap_live t e h' (A(p := None, p' \<mapsto> j')) \<and> (p' = p \<or> A p' = None) \<and>
    (\<forall>i<k. kmem h' (p' + of_nat i) = kmem h (p + of_nat i)) \<and>
    (\<forall>q n. A q = Some n \<longrightarrow> q \<noteq> p \<longrightarrow> (\<forall>z\<in>region q n. kmem h' z = kmem h z))"
  using resizing.resize_all_keeps [OF assms(1-4)] assms(5) unfolding keeps_def by auto

theorem krealloc_repeated_witness:
  "\<exists>p h1 p' h'. kmalloc 100 sample_pool = (p, h1) \<and> p \<noteq> 0 \<and> resize_all krealloc [200, 50, 5000] p h1 = (p', h') \<and>
     (\<forall>i<50. kmem h' (p' + of_nat i) = kmem h1 (p + of_nat i))"
proof -
  obtain p h1 q h2 where k: "kmalloc 100 sample_pool = (p, h1)" "p \<noteq> 0" "kmalloc 100 h1 = (q, h2)" "q \<noteq> 0" by (rule sample_kmalloc)
  have live: "kheap_live 0x10000 5008 h1 [p \<mapsto> 100]" by (rule kernel.client_live [OF sample_client(1) [OF k] sample_live])
  obtain p' h' where r: "resize_all krealloc [200, 50, 5000] p h1 = (p', h')" by fastforce
  from krealloc_repeated [OF live _ _ _ r, of 100 50] have "\<forall>i<50. kmem h' (p' + of_nat i) = kmem h1 (p + of_nat i)"
    by (auto simp: kheap_fits_def)
  then show ?thesis using k r by blast
qed

text \<open>
  C19. \<open>tlsf_calloc\<close> returns NULL and changes nothing, always when one of its arguments is 0, or
  it returns a new block with all bytes 0. Its size is the product as a 32-bit number, which
  may be less than \<open>nelem\<close> elements need.
\<close>

theorem tlsf_calloc_correct:
  assumes "kheap_live t e h A" "kheap_fits (nelem * elem_size)" "tlsf_calloc nelem elem_size h = (p, h')"
  defines "n \<equiv> unat (nelem * elem_size)"
  shows "p = 0 \<and> h' = h \<or> nelem \<noteq> 0 \<and> elem_size \<noteq> 0 \<and> A p = None \<and> kheap_live t e h' (A(p \<mapsto> n)) \<and>
    (\<forall>z\<in>region p n. kmem h' z = 0) \<and> (\<forall>q k. A q = Some k \<longrightarrow> (\<forall>z\<in>region q k. kmem h' z = kmem h z))"
proof -
  obtain p1 h1 where k: "kmalloc (nelem * elem_size) h = (p1, h1)" by fastforce
  have r: "tlsf_calloc nelem elem_size h = (if nelem = 0 \<or> elem_size = 0 then (0, h) else if p1 = 0 then (0, h1)
      else (p1, set_kmem (snd (memset p1 0 (nelem * elem_size) (kmem h1))) h1))"
    using k by (auto simp: tlsf_calloc_def calloc_ex_def kmalloc_split set_kmem_def split: prod.split)
  show ?thesis
  proof (cases "nelem = 0 \<or> elem_size = 0 \<or> p1 = 0")
    case True
    moreover have "h1 = h" if "p1 = 0" using kernel.alloc_none [OF assms(1,2)] k that by simp
    ultimately show ?thesis using r assms(3) by (auto split: if_splits)
  next
    case False
    have live: "kheap_live t e h1 (A(p1 \<mapsto> n))" and new: "A p1 = None"
      using kernel.alloc_new [OF assms(1,2) k] False by (simp_all add: n_def)
    have h': "p = p1" "h' = set_kmem (kmem h') h1" using r assms(3) False by (auto simp: set_kmem_def)
    have "unat p1 + n \<le> 4294967296" using kheap_bound [OF live, of p1 n] by simp
    then have m: "kmem h' z = (if z \<in> region p1 n then 0 else kmem h1 z)" for z
      using r assms(3) False memset_fill [of p1 0 "nelem * elem_size" "kmem h1"] region_sub [of p1 n z]
      by (auto simp: set_kmem_def word_less_nat_alt n_def)
    have "kheap_live t e h' (A(p1 \<mapsto> n))"
      by (subst h'(2), rule kheap_write [OF live]) (use m in auto)
    moreover have "kmem h' z = kmem h z" if "A q = Some k" "z \<in> region q k" for q k z
    proof -
      have "(A(p1 \<mapsto> n)) q = Some k" "q \<noteq> p1" using that(1) new by auto
      then have "z \<notin> region p1 n" using kheap_separate [OF live _ fun_upd_same] that(2) by blast
      then show ?thesis using kernel.alloc_keeps [OF assms(1,2) that] k by (simp add: m)
    qed
    ultimately show ?thesis using m new False h'(1) by simp
  qed
qed

theorem tlsf_calloc_correct_witness:
  "\<exists>p h'. tlsf_calloc 5 20 sample_pool = (p, h') \<and> p \<noteq> 0 \<and> kheap_live 0x10000 5008 h' [p \<mapsto> 100] \<and> (\<forall>z\<in>region p 100. kmem h' z = 0)"
proof -
  obtain p h1 q h2 where k: "kmalloc 100 sample_pool = (p, h1)" "p \<noteq> 0" "kmalloc 100 h1 = (q, h2)" "q \<noteq> 0" by (rule sample_kmalloc)
  have "fst (tlsf_calloc 5 20 sample_pool) = p"
    using k(1,2) by (auto simp: tlsf_calloc_def calloc_ex_def kmalloc_split case_prod_unfold)
  then obtain h' where r: "tlsf_calloc 5 20 sample_pool = (p, h')" by (metis prod.collapse)
  from tlsf_calloc_correct [OF sample_live _ r] show ?thesis using r k(2) by (auto simp: kheap_fits_def)
qed

section \<open>Requests and pools at the limits\<close>

lemma request_huge: "0xFFFFFFF9 \<le> sz \<Longrightarrow> request sz = 0"
proof -
  assume sz: "0xFFFFFFF9 \<le> sz"
  have "unat (sz + 7) = (unat sz + 7) mod 4294967296" by (simp add: unat_word_ariths)
  moreover have "4294967289 \<le> unat sz" using sz by (simp add: word_le_nat_alt)
  then have "(unat sz + 7) mod 4294967296 = unat sz + 7 - 4294967296"
    using u32_unat_bound [of sz] by (subst mod_if) (simp add: mod_if)
  ultimately have "unat (sz + 7) div 8 = 0" using u32_unat_bound [of sz] by simp
  moreover have "(MEM_ALIGN :: u32) = push_bit 3 1 - 1" by (simp add: MEM_ALIGN_def)
  then have "unat (ROUNDUP_SIZE sz) = unat (sz + 7) div 2 ^ 3 * 2 ^ 3"
    unfolding ROUNDUP_SIZE_def using and_not_mask [of 3 "sz + 7"] by (simp add: MEM_ALIGN_def)
  ultimately have "ROUNDUP_SIZE sz = 0" by (simp add: word_unat_eq_iff)
  moreover have "\<not> sz < MIN_BLOCK_SIZE" using sz by (simp add: MIN_BLOCK_SIZE_def word_less_nat_alt word_le_nat_alt)
  ultimately show ?thesis by (simp add: request_def)
qed

lemma taken_size:
  assumes "node t q" "at_word (q + 12 + n)" "words m (q + 4) = hdr n True False" "8 dvd n"
  shows "block_size (take_mem t q n 0 m) (of_nat q) < 16"
proof (cases "16 \<le> n")
  case True
  have z: "(x AND PREV_STATE) AND BLOCK_SIZE = 0" for x
    by (simp add: PREV_STATE_def BLOCK_SIZE_def and.assoc)
  show ?thesis using True by (simp add: take_mem_def carve_mem_def Let_def block_size_def z)
next
  case False
  have at: "at_word (q + 4)" "at_word (q + 8 + n + 4)" using node_words(2) [OF assms(1)] assms(2) by (simp_all add: ac_simps)
  have "words (take_mem t q n 0 m) (q + 4) = hdr n False False"
    using False assms(3) hdr_simps(4) [OF assms(4), of True False]
    unfolding take_mem_def whole_mem_def Let_def words_size [OF at(1)] words_size [OF at(2)] by (simp add: words_size [OF at(1)])
  then have "block_size (take_mem t q n 0 m) (of_nat q) = of_nat n" by (rule block_size_words [OF at(1) _ assms(4)])
  then show ?thesis using False by (simp add: word_less_nat_alt u32_of_nat_unat)
qed

text \<open>
  A request of more than \<open>0xFFFFFFF8\<close> bytes does not fail, although no block can be large
  enough: rounding it up gives 0. \<open>malloc_ex\<close> returns a block of less than 16 bytes,
  whenever there is a free block at all.
\<close>

theorem malloc_ex_huge_request:
  assumes "heap t bs L m" "0xFFFFFFF9 \<le> sz" "(a, k, True) \<in> set (placed (t + 3184) bs)"
  shows "\<exists>p m'. malloc_ex sz (of_nat t) m = (p, m') \<and> p \<noteq> 0 \<and> block_size m' (p - BHDR_OVERHEAD) < 16"
proof -
  have c: "MAPPING_SEARCH (request sz) = (of_nat 0, int (fst (0, 0)), int (snd (0, 0)))"
    by (simp add: request_huge [OF assms(2)] MAPPING_SEARCH_def SMALL_BLOCK_def)
  have h: "good_blocks bs" "room t bs" "free_lists t (words m) L" "listed L (frees (t + 3184) bs)" using assms(1) by (simp_all add: heap_def)
  have "k < 1073741824" using room_size [OF h(2), of "(k, True)"] placed_bounds [OF assms(3)] by simp
  then have k: "class_ok (class_of k)" "L (class_of k) \<noteq> []"
    using class_of(2) h(4) assms(3) unfolding listed_def frees_def by (auto simp: set_empty [symmetric] simp del: set_empty)
  obtain d where d: "first_class L (0, 0) d" "FIND_SUITABLE_BLOCK (of_nat t) (int (fst (0, 0))) (int (snd (0, 0))) m = (of_nat (hd (L d)), int (fst d), int (snd d))"
    using FIND_SUITABLE_BLOCK_first [OF h(3), of "(0, 0)"] k by (auto simp: class_ok_def class_index_def)
  define q where "q = hd (L d)"
  define m1 where "m1 = EXTRACT_BLOCK_HDR (of_nat q) (of_nat t) (int (fst d)) (int (snd d)) m"
  have "L d \<noteq> []" using d(1) by (simp add: first_class_def)
  then obtain xs n y ys L1 where f: "bs = xs @ (n, True) # y # ys" "q = t + 3184 + extent xs" "n < 1073741824"
    "8 dvd n" "node t q" "words m1 (q + 4) = hdr n True False"
    using first_block [OF assms(1)] unfolding m1_def q_def by metis
  have q0: "(of_nat q :: u32) \<noteq> 0" "(of_nat (q + 8) :: u32) \<noteq> 0"
    using f(5) of_nat_u32_0 [of q] of_nat_u32_0 [of "q + 8"] unfolding node_def by linarith+
  have "at_word (q + 12 + n)"
    using placed_inner(2) [OF h(2) good_blocksD(2) [OF h(1)], of q "(n, True)"] good_blocksD(1) [OF h(1)] by (simp add: f(1,2))
  from taken_size [OF f(5) this f(6,4)] have "block_size (take_mem t q n 0 m1) (of_nat (q + 8) - BHDR_OVERHEAD) < 16"
    by (simp add: BHDR_OVERHEAD_def)
  moreover have "block_size m1 (of_nat q) = of_nat n" by (rule block_size_words [OF node_words(2) [OF f(5)] f(6,4)])
  then have "malloc_ex sz (of_nat t) m = (of_nat (q + 8), take_mem t q n 0 m1)"
    using malloc_ex_taken [OF c d(2) [folded q_def] q0(1), folded m1_def, OF _ _ f(3)] by simp
  ultimately show ?thesis using q0(2) by blast
qed

theorem malloc_ex_huge_request_witness:
  "\<exists>L m p m'. heap 0x10000 [(8, False), (4976, True), (0, False)] L m \<and> malloc_ex 0xFFFFFFFF 0x10000 m = (p, m') \<and> p \<noteq> 0 \<and>
     block_size m' (p - BHDR_OVERHEAD) < 16"
proof -
  obtain L m where h: "heap 0x10000 [(8, False), (4976, True), (0, False)] L m" by (rule sample_heap)
  from malloc_ex_huge_request [OF h, of "0xFFFFFFFF" "0x10000 + 3200" 4976] show ?thesis using h by simp blast
qed

text \<open>
  A pool whose size is 4 modulo 8 is overrun: the header of the last block is in the word
  behind the end of the buffer.
\<close>

theorem init_kmalloc_overruns:
  assumes "pool_ok pool n h" "unat n mod 8 = 4"
  shows "load32 (kmem (init_kmalloc pool n h)) (pool + n) = PREV_FREE"
proof -
  obtain L h' where i: "init_memory_pool n pool h = (of_nat (area_size (unat n) - 32), h')"
    "heap (unat pool) (pool_blocks (unat n)) L (kmem h')" using init_pool [OF assms(1)] .
  let ?q = "unat pool + 3184 + 24 + (area_size (unat n) - 32)"
  have n: "3244 \<le> unat n" using assms(1) by (simp add: pool_ok_def)
  have "(unat n - 3180) mod 8 = 0" using assms(2) n by presburger
  then have "area_size (unat n) = unat n - 3180" unfolding area_size_def by (metis mod_0_imp_dvd dvd_div_mult_self)
  then have q: "?q + 4 = unat pool + unat n" using n by simp
  have "words (kmem h') (?q + 4) = hdr 0 False True"
    using i(2) by (simp add: heap_def pool_blocks_def ac_simps)
  moreover have "at_word (unat pool + unat n)"
    using assms unfolding pool_ok_def at_word_def by (auto intro!: dvd_add) presburger
  ultimately have "load32 (kmem h') (of_nat (unat pool + unat n)) = PREV_FREE"
    unfolding q hdr_plain by (simp only: load32_words)
  then show ?thesis by (simp add: init_kmalloc_def i(1))
qed

theorem init_kmalloc_overruns_witness: "load32 (kmem (init_kmalloc 0x10000 8188 blank)) 0x11FFC = 2"
  using init_kmalloc_overruns [OF pool_ok_blank(2)] by (simp add: PREV_FREE_def)

section \<open>The free lists\<close>

lemma sample_lists: "free_lists 0x10000 (words (\<lambda>_. 0)) (\<lambda>_. [])"
  by (rule free_lists_empty) (simp_all add: words_def load32_def dvd_def)

text \<open>
  The links in the buffers of free blocks, the matrix of list heads and the two levels of
  bitmaps implement a list of blocks per class: \<open>INSERT_BLOCK\<close> puts a block in front of its
  list and changes no word but the control structure and the links of free blocks.
\<close>

theorem insert_block_correct:
  assumes "free_lists t (words m) L" "node t b" "b \<notin> members L" "class_ok c"
  shows "free_lists t (words (INSERT_BLOCK (of_nat b) (of_nat t) (int (fst c)) (int (snd c)) m)) (L(c := b # L c)) \<and>
    (x \<notin> control t \<longrightarrow> x \<notin> links (insert b (members L)) \<longrightarrow>
      words (INSERT_BLOCK (of_nat b) (of_nat t) (int (fst c)) (int (snd c)) m) x = words m x)"
  using INSERT_BLOCK_lists [OF assms] by blast

lemma sample_node: "node 0x10000 0x10C80" "class_ok (3, 4)" "members (\<lambda>_. []) = {}"
  by (simp_all add: node_def class_ok_def members_def dvd_def)

theorem insert_block_correct_witness:
  "free_lists 0x10000 (words (INSERT_BLOCK 0x10C80 0x10000 3 4 (\<lambda>_. 0))) ((\<lambda>_. [])((3, 4) := [0x10C80]))"
  using insert_block_correct [OF sample_lists sample_node(1) _ sample_node(2)] sample_node(3) by simp

text \<open>
  C25. \<open>EXTRACT_BLOCK\<close> removes a block from anywhere in its list, and \<open>EXTRACT_BLOCK_HDR\<close>, which
  \<open>malloc_ex\<close> uses for the first block, does the same for it with fewer memory accesses.
\<close>

theorem extract_block_correct:
  assumes "free_lists t (words m) L" "L c = us @ b # vs"
  defines "m1 \<equiv> EXTRACT_BLOCK (of_nat b) (of_nat t) (int (fst c)) (int (snd c)) m"
    and "m2 \<equiv> EXTRACT_BLOCK_HDR (of_nat b) (of_nat t) (int (fst c)) (int (snd c)) m"
  shows "free_lists t (words m1) (L(c := us @ vs)) \<and> (x \<notin> control t \<longrightarrow> x \<notin> links (members L) \<longrightarrow> words m1 x = words m x) \<and>
    (us = [] \<longrightarrow> words m2 = words m1)"
proof -
  have "words m2 = words m1" if "us = []"
  proof -
    have l: "L c = b # vs" using assms(2) that by simp
    have "node t b" using free_lists_nodes [OF assms(1)] free_lists_list(3) [OF assms(1), of c] l by auto
    from words_EXTRACT_BLOCK [OF this extract_lists(7) [OF assms(1,2)] extract_lists(3-5) [OF assms(1,2)]]
    show ?thesis using words_EXTRACT_BLOCK_HDR [OF assms(1) l] by (simp add: m1_def m2_def)
  qed
  then show ?thesis using EXTRACT_BLOCK_lists [OF assms(1,2)] unfolding m1_def by blast
qed

theorem extract_block_correct_witness:
  "let m = INSERT_BLOCK 0x10C80 0x10000 3 4 (\<lambda>_. 0)
   in words (EXTRACT_BLOCK_HDR 0x10C80 0x10000 3 4 m) = words (EXTRACT_BLOCK 0x10C80 0x10000 3 4 m)"
proof -
  have "free_lists 0x10000 (words (INSERT_BLOCK 0x10C80 0x10000 3 4 (\<lambda>_. 0))) ((\<lambda>_. [])((3, 4) := [0x10C80]))"
    using INSERT_BLOCK_lists(1) [OF sample_lists sample_node(1) _ sample_node(2)] sample_node(3) by simp
  from extract_block_correct [OF this, of "(3, 4)" "[]" "0x10C80" "[]"] show ?thesis by (simp add: Let_def)
qed

text \<open>
  C24. \<open>FIND_SUITABLE_BLOCK\<close> finds with two bit searches what a search through all lists would:
  the first block of the first list, in the order of the classes from \<open>c\<close> on, that is not
  empty. It returns NULL exactly when all these lists are empty.
\<close>

theorem find_suitable_block_correct:
  assumes "free_lists t (words m) L" "class_ok c"
  defines "r \<equiv> FIND_SUITABLE_BLOCK (of_nat t) (int (fst c)) (int (snd c)) m"
  shows "(\<exists>d. first_class L c d \<and> r = (of_nat (hd (L d)), int (fst d), int (snd d))) \<or>
    (\<forall>d. class_ok d \<longrightarrow> class_index c \<le> class_index d \<longrightarrow> L d = []) \<and> fst r = 0"
  unfolding r_def by (rule FIND_SUITABLE_BLOCK_first [OF assms(1,2)])

theorem find_suitable_block_correct_witness:
  "FIND_SUITABLE_BLOCK 0x10000 0 7 (INSERT_BLOCK 0x10C80 0x10000 3 4 (\<lambda>_. 0)) = (0x10C80, 3, 4)"
proof -
  let ?L = "(\<lambda>_. [])((3, 4) := [0x10C80]) :: nat \<times> nat \<Rightarrow> nat list"
  have "free_lists 0x10000 (words (INSERT_BLOCK 0x10C80 0x10000 3 4 (\<lambda>_. 0))) ?L"
    using INSERT_BLOCK_lists(1) [OF sample_lists sample_node(1) _ sample_node(2)] sample_node(3) by simp
  note find = find_suitable_block_correct [OF this, of "(0, 7)"]
  have "d = (3, 4)" if "first_class ?L (0, 7) d" for d
    using that by (auto simp: first_class_def split: if_splits)
  moreover have "\<not> (\<forall>d. class_ok d \<longrightarrow> class_index (0, 7) \<le> class_index d \<longrightarrow> ?L d = [])"
    by (auto simp: class_index_def class_ok_def intro!: exI [of _ "3 :: nat"] exI [of _ "4 :: nat"])
  ultimately show ?thesis using find by (auto simp: class_ok_def)
qed

end
