(* ===== verification/VmHeap.thy ===== *)
theory VmHeap
  imports Vmspace TlsfSpec
begin

text \<open>
  The address space on the heap of the kernel. The nodes of the zone lists are blocks from
  \<^verbatim>\<open>kmalloc\<close>, but for the static node \<^verbatim>\<open>km0\<close>, and go back to \<^verbatim>\<open>kfree\<close>. Other parts of the kernel
  use the same heap in between. As long as \<^verbatim>\<open>kmalloc\<close> does not fail, whose result \<^verbatim>\<open>page.c\<close> does not
  check, the lists and the heap stay well-formed. This is shown for any allocator, and the
  heap of the kernel is one.
\<close>

section \<open>Runs\<close>

definition vm_nodes :: "u32 \<Rightarrow> u32 list \<Rightarrow> u32 list \<Rightarrow> u32 set" where
  "vm_nodes km0 us ks = set us \<union> set ks - {km0}"

text \<open>
  The operations of the address space, for requests that do not wrap, and what other clients do
  to the heap: they know of the nodes that these are allocated, and leave them alone.
\<close>

inductive vm_run :: "(u32 \<Rightarrow> 'h \<Rightarrow> u32 \<times> 'h) \<Rightarrow> (u32 \<Rightarrow> 'h \<Rightarrow> 'h) \<Rightarrow> ('h \<Rightarrow> mem) \<Rightarrow> (mem \<Rightarrow> 'h \<Rightarrow> 'h) \<Rightarrow> (u32 \<Rightarrow> bool) \<Rightarrow>
    ('h \<Rightarrow> (u32 \<rightharpoonup> nat) \<Rightarrow> bool) \<Rightarrow> u32 \<Rightarrow> 'h vmspace \<Rightarrow> 'h vmspace \<Rightarrow> bool"
  for km kf bytes set_bytes fits live km0 s where
  vm_start: "vm_run km kf bytes set_bytes fits live km0 s s"
| vm_at: "vm_run km kf bytes set_bytes fits live km0 s s1 \<Longrightarrow> fst (km sizeof_vmzone (vm_alloc s1)) \<noteq> NULL \<Longrightarrow>
    unat va + unat (npages * PAGE_SIZE) < 4294967296 \<Longrightarrow> page_alloc_in_addr km va npages prot s1 = Some (r, s2) \<Longrightarrow>
    vm_run km kf bytes set_bytes fits live km0 s s2"
| vm_any: "vm_run km kf bytes set_bytes fits live km0 s s1 \<Longrightarrow> fst (km sizeof_vmzone (vm_alloc s1)) \<noteq> NULL \<Longrightarrow>
    0 < sint npages \<Longrightarrow> 0 < npages * PAGE_SIZE \<Longrightarrow> unat (npages * PAGE_SIZE) + unat (alloc_top (user \<noteq> 0)) < 4294967296 \<Longrightarrow>
    page_alloc km npages prot user s1 = Some (r, s2) \<Longrightarrow> vm_run km kf bytes set_bytes fits live km0 s s2"
| vm_free: "vm_run km kf bytes set_bytes fits live km0 s s1 \<Longrightarrow> page_free kf va npages s1 = Some (r, s2) \<Longrightarrow>
    vm_run km kf bytes set_bytes fits live km0 s s2"
| vm_other: "vm_run km kf bytes set_bytes fits live km0 s s1 \<Longrightarrow> vm_ok s1 us ks \<Longrightarrow> live (vm_alloc s1) A1 \<Longrightarrow>
    (\<And>x. x \<in> vm_nodes km0 us ks \<Longrightarrow> A1 x = Some (unat sizeof_vmzone)) \<Longrightarrow>
    client km kf bytes set_bytes fits (vm_nodes km0 us ks) (vm_alloc s1) A1 h2 A2 \<Longrightarrow>
    vm_run km kf bytes set_bytes fits live km0 s (s1\<lparr>vm_alloc := h2\<rparr>)"

definition off_heap :: "('h \<Rightarrow> (u32 \<rightharpoonup> nat) \<Rightarrow> bool) \<Rightarrow> u32 \<Rightarrow> bool" where
  "off_heap live p \<longleftrightarrow> (\<forall>h A. live h A \<longrightarrow> A p = None)"

definition vm_on :: "('h \<Rightarrow> (u32 \<rightharpoonup> nat) \<Rightarrow> bool) \<Rightarrow> u32 \<Rightarrow> 'h vmspace \<Rightarrow> bool" where
  "vm_on live km0 s \<longleftrightarrow> (\<exists>us ks A. vm_ok s us ks \<and> hd ks = km0 \<and> live (vm_alloc s) A \<and>
     (\<forall>x\<in>vm_nodes km0 us ks. A x = Some (unat sizeof_vmzone)))"

lemma vm_ok_alloc: "vm_ok (s\<lparr>vm_alloc := h\<rparr>) us ks \<longleftrightarrow> vm_ok s us ks"
  by (simp add: vm_ok_def)

lemma vm_ok_unique:
  assumes "vm_ok s us ks" "vm_ok s us' ks'"
  shows "us' = us" "ks' = ks"
  using assms linked_list_unique unfolding vm_ok_def by metis+

context allocator
begin

text \<open>A region that is added takes a new block, one that is removed gives its block back.\<close>

lemma region_added_on:
  assumes "vm_ok s us ks" "hd ks = km0" "live (vm_alloc s) A" "\<forall>x\<in>vm_nodes km0 us ks. A x = Some (unat sizeof_vmzone)"
    "fits sizeof_vmzone" "off_heap live km0" "fst (alloc sizeof_vmzone (vm_alloc s)) \<noteq> NULL"
  shows "fresh_node alloc s us ks" "region_added alloc s us ks va sz prot s' \<Longrightarrow> vm_on live km0 s'"
proof -
  obtain x h' where al: "alloc sizeof_vmzone (vm_alloc s) = (x, h')" by fastforce
  then have x: "live h' (A(x \<mapsto> unat sizeof_vmzone))" "A x = None"
    using alloc_new [OF assms(3,5) al] assms(7) by (simp_all add: NULL_def)
  then have "x \<noteq> km0" using assms(6) x(1) unfolding off_heap_def by (metis fun_upd_same option.distinct(1))
  then show "fresh_node alloc s us ks" using al assms(4,7) x(2) by (auto simp: fresh_node_def vm_nodes_def)
  assume "region_added alloc s us ks va sz prot s'"
  then obtain us' ks' where r: "vm_ok s' us' ks'" "h' = vm_alloc s'" "set us' \<union> set ks' = insert x (set us \<union> set ks)" "hd ks' = hd ks"
    unfolding region_added_def al by auto
  have "\<forall>y\<in>vm_nodes km0 us' ks'. (A(x \<mapsto> unat sizeof_vmzone)) y = Some (unat sizeof_vmzone)"
    using assms(4) unfolding vm_nodes_def r(3) by auto
  then show "vm_on live km0 s'" using r(1,2,4) x(1) assms(2) unfolding vm_on_def by blast
qed

lemma region_removed_on:
  assumes "vm_ok s us ks" "hd ks = km0" "live (vm_alloc s) A" "\<forall>x\<in>vm_nodes km0 us ks. A x = Some (unat sizeof_vmzone)"
    "va \<noteq> USER_MAX_ADDR" "region_removed dealloc s us ks va sz s'"
  shows "vm_on live km0 s'"
proof -
  obtain us' ks' x where r: "vm_ok s' us' ks'" "x \<in> set us \<union> set ks" "vz_base (vz_heap s x) = va"
    "set us' \<union> set ks' = (set us \<union> set ks) - {x}" "hd ks' = hd ks" "vm_alloc s' = dealloc x (vm_alloc s)"
    using assms(6) unfolding region_removed_def by blast
  have "x \<noteq> km0" using assms(1,2,5) r(3) by (auto simp: vm_ok_def)
  then have "A x = Some (unat sizeof_vmzone)" using assms(4) r(2) by (auto simp: vm_nodes_def)
  from dealloc_live [OF assms(3) this] have "live (vm_alloc s') (A(x := None))" by (simp add: r(6))
  moreover have "\<forall>y\<in>vm_nodes km0 us' ks'. (A(x := None)) y = Some (unat sizeof_vmzone)"
    using assms(4) unfolding vm_nodes_def r(4) by auto
  ultimately show ?thesis using r(1,5) assms(2) unfolding vm_on_def by metis
qed

lemma vm_run_keeps:
  assumes "vm_run alloc dealloc bytes set_bytes fits live km0 s s'" "vm_on live km0 s" "fits sizeof_vmzone" "off_heap live km0"
  shows "vm_on live km0 s'"
  using assms(1)
proof induction
  case vm_start
  then show ?case using assms(2) .
next
  case (vm_at s1 va npages prot r s2)
  obtain us ks A where v: "vm_ok s1 us ks" "hd ks = km0" "live (vm_alloc s1) A" "\<forall>x\<in>vm_nodes km0 us ks. A x = Some (unat sizeof_vmzone)"
    using vm_at.IH unfolding vm_on_def by blast
  note on = region_added_on [OF v assms(3,4) vm_at.hyps(2)]
  have "s2 = s1 \<or> region_added alloc s1 us ks va (npages * PAGE_SIZE) prot s2"
    using page_alloc_in_addr_result [OF v(1) on(1) vm_at.hyps(3), of prot] vm_at.hyps(4) by (auto split: if_splits)
  then show ?case using on(2) vm_at.IH by blast
next
  case (vm_any s1 npages user prot r s2)
  obtain us ks A where v: "vm_ok s1 us ks" "hd ks = km0" "live (vm_alloc s1) A" "\<forall>x\<in>vm_nodes km0 us ks. A x = Some (unat sizeof_vmzone)"
    using vm_any.IH unfolding vm_on_def by blast
  note on = region_added_on [OF v assms(3,4) vm_any.hyps(2)]
  have "s2 = s1 \<or> (\<exists>va. region_added alloc s1 us ks va (npages * PAGE_SIZE) prot s2)"
    using page_alloc_result [OF v(1) on(1) vm_any.hyps(3-5), of prot] vm_any.hyps(6) by auto
  then show ?case using on(2) vm_any.IH by blast
next
  case (vm_free s1 va npages r s2)
  obtain us ks A where v: "vm_ok s1 us ks" "hd ks = km0" "live (vm_alloc s1) A" "\<forall>x\<in>vm_nodes km0 us ks. A x = Some (unat sizeof_vmzone)"
    using vm_free.IH unfolding vm_on_def by blast
  have "s2 = s1 \<or> va \<noteq> USER_MAX_ADDR \<and> region_removed dealloc s1 us ks va (npages * PAGE_SIZE) s2"
    using page_free_result [OF v(1), of npages va dealloc] vm_free.hyps(2) by (auto split: if_splits)
  then show ?case using region_removed_on [OF v] vm_free.IH by blast
next
  case (vm_other s1 us ks A1 h2 A2)
  have "hd ks = km0" using vm_other.IH vm_ok_unique [OF vm_other.hyps(2)] unfolding vm_on_def by blast
  moreover have "vm_nodes km0 us ks \<subseteq> dom A1" using vm_other.hyps(4) by auto
  from client_keeps [OF vm_other.hyps(5,3) this] have "live h2 A2" "\<forall>x\<in>vm_nodes km0 us ks. A2 x = A1 x" by blast+
  ultimately show ?case
    using vm_other.hyps(2,4) unfolding vm_on_def vm_ok_alloc by (intro exI [of _ us] exI [of _ ks] exI [of _ A2]) simp
qed

end

section \<open>The heap of the kernel\<close>

lemma off_kernel_heap:
  assumes "p \<notin> {z. t + 3200 \<le> unat z \<and> unat z + 8 < t + 3184 + e}"
  shows "off_heap (kheap_live t e) p"
  unfolding off_heap_def
proof (intro allI impI)
  fix h A
  assume l: "kheap_live t e h A"
  show "A p = None"
  proof (rule ccontr)
    assume "A p \<noteq> None"
    then obtain n where A: "A p = Some n" by blast
    obtain bs L where h: "mp h = of_nat t" "heap t bs L (kmem h)" "extent bs = e" "owned t bs A" by (rule kheap_liveE [OF l])
    obtain q k where q: "p = of_nat (q + 8)" "(q, k, False) \<in> set (placed (t + 3184) bs)" "q \<noteq> t + 3184" "8 \<le> k" by (rule ownedD [OF h(4) A])
    have "kheap_live t e h (A(p \<mapsto> k))"
      unfolding q(1) by (rule kheap_liveI [OF h(1-3) owned_resize [OF h(4) q(2-4)]]) simp
    from kheap_inside [OF this, of p k p] show False using assms q(4) by (auto simp: region_def)
  qed
qed

lemma fits_vmzone: "kheap_fits sizeof_vmzone"
  by (simp add: kheap_fits_def sizeof_vmzone_def)

lemma vm_on_start:
  assumes "live (vm_alloc s) Map.empty" "km0 \<noteq> NULL" "USER_MAX_ADDR \<le> brk" "brk \<le> KERN_MAX_ADDR"
  shows "vm_on live km0 (init_vmspace km0 brk s)"
  unfolding vm_on_def
proof (intro exI conjI)
  show "vm_ok (init_vmspace km0 brk s) [] [km0]" by (rule init_vmspace_ok [OF assms(2-4)])
  show "live (vm_alloc (init_vmspace km0 brk s)) Map.empty" using assms(1) by (simp add: init_vmspace_def)
qed (simp_all add: vm_nodes_def)


definition vm_sample :: "kheap vmspace" where
  "vm_sample = \<lparr>vz_heap = (\<lambda>_. \<lparr>vz_base = 0, vz_limit = 0, vz_protect = 0, vz_next = 0\<rparr>), kvmzone = 0, uvmzone = 0,
     vm_alloc = sample_pool\<rparr>"

lemma sample_node_served: "fst (kmalloc sizeof_vmzone sample_pool) \<noteq> 0"
proof -
  have "fit 16 = 16"
    by (simp add: fit_def request_def MIN_BLOCK_SIZE_def ROUNDUP_SIZE_def MEM_ALIGN_def MAPPING_SEARCH_def SMALL_BLOCK_def)
  then show ?thesis using empty_serves [of "0x10000" 8192 sample_pool 16] sample_live by (simp add: area_size_def sizeof_vmzone_def)
qed


end
